(* ===== verification/NS_Prelude.thy ===== *)
theory NS_Prelude
  imports Main "HOL-Library.Sublist" "HOL-Library.Word"
begin

text \<open>
  Shared vocabulary of the development.  A NUL-terminated C string is a
  \<^typ>\<open>string\<close> (a list of bytes without the terminator), a nullable
  \<^verbatim>\<open>char *\<close> is a \<^typ>\<open>string option\<close>, and a pointer into a string is the suffix it
  points at.  The definitions below are the parts of the C library and of GLib
  that the sources call (\<^verbatim>\<open>strcspn\<close>, \<^verbatim>\<open>strstr\<close>, \<^verbatim>\<open>g_ascii_strncasecmp\<close>,
  \<^verbatim>\<open>g_str_has_prefix\<close>, \<^verbatim>\<open>g_strsplit\<close>, \<^verbatim>\<open>g_strstrip\<close> and so on), with the lemmas
  the components share, and the interface locales: canonicalisers, codecs,
  deny-overrides policies, byte-stream parsers and transition systems with an
  invariant.
\<close>

named_theorems cstr \<open>equations of the C string functions on concrete shapes\<close>

type_synonym byte = "8 word"

section \<open>Characters\<close>

abbreviation ord :: "char \<Rightarrow> nat" where
  "ord c \<equiv> of_char c"

definition g_ascii_isupper :: "char \<Rightarrow> bool" where
  "g_ascii_isupper c \<longleftrightarrow> 65 \<le> ord c \<and> ord c \<le> 90"

definition g_ascii_islower :: "char \<Rightarrow> bool" where
  "g_ascii_islower c \<longleftrightarrow> 97 \<le> ord c \<and> ord c \<le> 122"

definition g_ascii_isalpha :: "char \<Rightarrow> bool" where
  "g_ascii_isalpha c \<longleftrightarrow> g_ascii_isupper c \<or> g_ascii_islower c"

definition g_ascii_isdigit :: "char \<Rightarrow> bool" where
  "g_ascii_isdigit c \<longleftrightarrow> 48 \<le> ord c \<and> ord c \<le> 57"

definition g_ascii_isalnum :: "char \<Rightarrow> bool" where
  "g_ascii_isalnum c \<longleftrightarrow> g_ascii_isalpha c \<or> g_ascii_isdigit c"

definition g_ascii_isxdigit :: "char \<Rightarrow> bool" where
  "g_ascii_isxdigit c \<longleftrightarrow> g_ascii_isdigit c \<or> (65 \<le> ord c \<and> ord c \<le> 70) \<or> (97 \<le> ord c \<and> ord c \<le> 102)"

text \<open>GLib's \<^verbatim>\<open>g_ascii_isspace\<close>: space, tab, newline, form feed and carriage
  return; the vertical tab is not a member.\<close>

definition g_ascii_isspace :: "char \<Rightarrow> bool" where
  "g_ascii_isspace c \<longleftrightarrow> ord c = 32 \<or> ord c = 9 \<or> ord c = 10 \<or> ord c = 12 \<or> ord c = 13"

definition g_ascii_tolower :: "char \<Rightarrow> char" where
  "g_ascii_tolower c = (if g_ascii_isupper c then char_of (ord c + 32) else c)"

definition g_ascii_strdown :: "string \<Rightarrow> string" where
  "g_ascii_strdown s = map g_ascii_tolower s"

lemma ord_tolower: "ord (g_ascii_tolower c) = (if 65 \<le> ord c \<and> ord c \<le> 90 then ord c + 32 else ord c)"
  by (auto simp: g_ascii_tolower_def g_ascii_isupper_def)

lemma tolower_idem [simp]: "g_ascii_tolower (g_ascii_tolower c) = g_ascii_tolower c"
  by (auto simp: g_ascii_tolower_def g_ascii_isupper_def)

lemma strdown_idem [simp]: "g_ascii_strdown (g_ascii_strdown s) = g_ascii_strdown s"
  by (simp add: g_ascii_strdown_def)

lemma strdown_Nil [simp]: "g_ascii_strdown [] = []"
  and strdown_Cons: "g_ascii_strdown (c # s) = g_ascii_tolower c # g_ascii_strdown s"
  and strdown_append [simp]: "g_ascii_strdown (s @ t) = g_ascii_strdown s @ g_ascii_strdown t"
  and length_strdown [simp]: "length (g_ascii_strdown s) = length s"
  and strdown_eq_Nil [simp]: "(g_ascii_strdown s = []) = (s = [])"
  by (simp_all add: g_ascii_strdown_def)

text \<open>A character below the letters is a fixed point of lower-casing, and it is the
  only one mapped onto itself.\<close>

lemma tolower_eq_nonalpha: "ord d < 65 \<Longrightarrow> g_ascii_tolower c = d \<longleftrightarrow> c = d"
  by (metis (no_types, lifting) add_lessD1 linorder_not_le of_char_of ord_tolower of_char_eq_iff)

section \<open>String comparison\<close>

text \<open>\<^verbatim>\<open>strcmp(a, b) == 0\<close> is equality of the lists; the bounded and the
  case-insensitive comparisons stop at the shorter string's terminator.\<close>

definition strneq :: "nat \<Rightarrow> string \<Rightarrow> string \<Rightarrow> bool" where
  "strneq n a b \<longleftrightarrow> take n a = take n b"

definition strcaseeq :: "string \<Rightarrow> string \<Rightarrow> bool" where
  "strcaseeq a b \<longleftrightarrow> g_ascii_strdown a = g_ascii_strdown b"

definition strncaseeq :: "nat \<Rightarrow> string \<Rightarrow> string \<Rightarrow> bool" where
  "strncaseeq n a b \<longleftrightarrow> g_ascii_strdown (take n a) = g_ascii_strdown (take n b)"

definition g_str_has_prefix :: "string \<Rightarrow> string \<Rightarrow> bool" where
  "g_str_has_prefix s p \<longleftrightarrow> take (length p) s = p"

lemma has_prefix_iff_prefix: "g_str_has_prefix s p \<longleftrightarrow> prefix p s"
proof
  assume "g_str_has_prefix s p"
  then have "s = p @ drop (length p) s"
    unfolding g_str_has_prefix_def by (metis append_take_drop_id)
  then show "prefix p s" by (rule prefixI)
qed (auto simp: g_str_has_prefix_def prefix_def)

lemma has_prefix_append [simp]: "g_str_has_prefix (p @ s) p"
  by (simp add: g_str_has_prefix_def)

lemma has_prefix_Nil [simp]: "g_str_has_prefix s []"
  by (simp add: g_str_has_prefix_def)

lemma has_prefix_Nil2 [simp]: "g_str_has_prefix [] p \<longleftrightarrow> p = []"
  by (auto simp: g_str_has_prefix_def)

lemma has_prefix_Cons [simp]: "g_str_has_prefix (c # s) (d # p) \<longleftrightarrow> c = d \<and> g_str_has_prefix s p"
  by (auto simp: g_str_has_prefix_def)

lemma has_prefixD: "g_str_has_prefix s p \<Longrightarrow> s = p @ drop (length p) s"
  by (metis append_take_drop_id g_str_has_prefix_def)

lemma strcaseeq_refl [simp]: "strcaseeq a a"
  and strcaseeq_sym: "strcaseeq a b \<Longrightarrow> strcaseeq b a"
  and strcaseeq_trans: "strcaseeq a b \<Longrightarrow> strcaseeq b c \<Longrightarrow> strcaseeq a c"
  by (simp_all add: strcaseeq_def)

lemma strcaseeq_length: "strcaseeq a b \<Longrightarrow> length a = length b"
  unfolding strcaseeq_def by (metis length_strdown)

lemma strncaseeq_append: "length p = n \<Longrightarrow> strncaseeq n (p @ s) (p @ t)"
  by (simp add: strncaseeq_def)

section \<open>Spans, searches and splits\<close>

text \<open>\<^verbatim>\<open>s + strcspn(s, set)\<close> and the text before it.\<close>

definition cspan :: "string \<Rightarrow> string \<Rightarrow> string" where
  "cspan reject s = takeWhile (\<lambda>c. c \<notin> set reject) s"

definition cspan_rest :: "string \<Rightarrow> string \<Rightarrow> string" where
  "cspan_rest reject s = dropWhile (\<lambda>c. c \<notin> set reject) s"

lemma cspan_append_rest [simp]: "cspan reject s @ cspan_rest reject s = s"
  by (simp add: cspan_def cspan_rest_def)

lemma cspan_stop:
  assumes "set k \<inter> set reject = {}" and "t = [] \<or> hd t \<in> set reject"
  shows "cspan reject (k @ t) = k" and "cspan_rest reject (k @ t) = t"
  using assms by (induction k) (cases t; auto simp: cspan_def cspan_rest_def)+

lemma cspan_disjoint: "set (cspan reject s) \<inter> set reject = {}"
  by (auto simp: cspan_def dest: set_takeWhileD)

lemma cspan_subset: "set (cspan reject s) \<subseteq> set s"
  by (auto simp: cspan_def dest: set_takeWhileD)

lemma cspan_rest_hd: "cspan_rest reject s \<noteq> [] \<Longrightarrow> hd (cspan_rest reject s) \<in> set reject"
  unfolding cspan_rest_def using hd_dropWhile by blast

lemma length_cspan_rest: "length (cspan_rest reject s) \<le> length s"
  by (simp add: cspan_rest_def length_dropWhile_le)

lemma cspan_rest_subset: "set (cspan_rest reject s) \<subseteq> set s"
  by (auto simp: cspan_rest_def dest: set_dropWhileD)

text \<open>\<^verbatim>\<open>strchr(s, c)\<close>: the suffix that starts at the first \<^term>\<open>c\<close>.\<close>

fun strchr :: "string \<Rightarrow> char \<Rightarrow> string option" where
  "strchr [] c = None"
| "strchr (x # xs) c = (if x = c then Some (x # xs) else strchr xs c)"

lemma strchr_None_iff: "strchr s c = None \<longleftrightarrow> c \<notin> set s"
  by (induction s) auto

lemma strchr_Some:
  "strchr s c = Some t \<Longrightarrow> \<exists>p. s = p @ t \<and> c \<notin> set p \<and> (\<exists>u. t = c # u)"
proof (induction s)
  case (Cons x xs)
  show ?case
  proof (cases "x = c")
    case True
    with Cons.prems show ?thesis by auto
  next
    case False
    with Cons.prems have "strchr xs c = Some t" by simp
    with Cons.IH obtain p u where "xs = p @ t" "c \<notin> set p" "t = c # u" by blast
    with False have "x # xs = (x # p) @ t \<and> c \<notin> set (x # p) \<and> (\<exists>u. t = c # u)" by simp
    then show ?thesis by blast
  qed
qed simp

lemma strchr_append: "c \<notin> set p \<Longrightarrow> strchr (p @ c # u) c = Some (c # u)"
  by (induction p) auto

lemma strchr_length: "strchr s c = Some t \<Longrightarrow> length t \<le> length s"
  by (drule strchr_Some) auto

text \<open>\<^verbatim>\<open>strstr(s, needle)\<close>: the suffix that starts at the first occurrence.\<close>

fun strstr :: "string \<Rightarrow> string \<Rightarrow> string option" where
  "strstr [] needle = (if needle = [] then Some [] else None)"
| "strstr (x # xs) needle =
     (if g_str_has_prefix (x # xs) needle then Some (x # xs) else strstr xs needle)"

lemma strstr_Some: "strstr s needle = Some t \<Longrightarrow> \<exists>p. s = p @ t \<and> prefix needle t"
proof (induction s)
  case Nil
  then show ?case by (auto split: if_splits)
next
  case (Cons x xs)
  show ?case
  proof (cases "g_str_has_prefix (x # xs) needle")
    case True
    with Cons.prems show ?thesis by (auto simp: has_prefix_iff_prefix)
  next
    case False
    with Cons.prems have "strstr xs needle = Some t" by simp
    with Cons.IH obtain p where "xs = p @ t" "prefix needle t" by blast
    then have "x # xs = (x # p) @ t \<and> prefix needle t" by simp
    then show ?thesis by blast
  qed
qed

lemma strstr_length: "strstr s needle = Some t \<Longrightarrow> length needle \<le> length t \<and> length t \<le> length s"
  by (drule strstr_Some) (auto dest: prefix_length_le)

text \<open>\<^verbatim>\<open>g_strsplit_set\<close> with one or more single-byte delimiters: the empty string
  splits into the empty vector, and every delimiter ends a (possibly empty) piece.
  \<^verbatim>\<open>g_strsplit(s, "x", -1)\<close> with a one-byte delimiter is the same function.\<close>

fun split_pieces :: "string \<Rightarrow> string \<Rightarrow> string list" where
  "split_pieces delims [] = [[]]"
| "split_pieces delims (c # s) =
     (if c \<in> set delims then [] # split_pieces delims s
      else (case split_pieces delims s of
              [] \<Rightarrow> [[c]]
            | p # ps \<Rightarrow> (c # p) # ps))"

definition g_strsplit_set :: "string \<Rightarrow> string \<Rightarrow> string list" where
  "g_strsplit_set s delims = (if s = [] then [] else split_pieces delims s)"

lemma split_pieces_not_Nil [simp]: "split_pieces delims s \<noteq> []"
  by (cases s) (auto split: list.splits)

lemma split_pieces_disjoint: "p \<in> set (split_pieces delims s) \<Longrightarrow> set p \<inter> set delims = {}"
proof (induction s arbitrary: p)
  case (Cons c s)
  then show ?case by (cases "split_pieces delims s") (fastforce split: if_splits)+
qed simp

lemma split_pieces_subset: "p \<in> set (split_pieces delims s) \<Longrightarrow> set p \<subseteq> set s"
proof (induction s arbitrary: p)
  case (Cons c s)
  then show ?case by (cases "split_pieces delims s") (fastforce split: if_splits)+
qed simp

lemma split_pieces_piece: "set p \<inter> set delims = {} \<Longrightarrow> split_pieces delims p = [p]"
  by (induction p) auto

lemma split_pieces_append:
  "set p \<inter> set delims = {} \<Longrightarrow> d \<in> set delims \<Longrightarrow>
   split_pieces delims (p @ d # s) = p # split_pieces delims s"
  by (induction p) auto

section \<open>White space\<close>

definition g_strchug :: "string \<Rightarrow> string" where
  "g_strchug s = dropWhile g_ascii_isspace s"

definition g_strchomp :: "string \<Rightarrow> string" where
  "g_strchomp s = rev (dropWhile g_ascii_isspace (rev s))"

definition g_strstrip :: "string \<Rightarrow> string" where
  "g_strstrip s = g_strchomp (g_strchug s)"

lemma strchomp_subset: "set (g_strchomp s) \<subseteq> set s"
  by (auto simp: g_strchomp_def dest: set_dropWhileD)

lemma strstrip_subset: "set (g_strstrip s) \<subseteq> set s"
  using strchomp_subset by (fastforce simp: g_strstrip_def g_strchug_def dest: set_dropWhileD)

lemma strchomp_last: "g_strchomp s \<noteq> [] \<Longrightarrow> \<not> g_ascii_isspace (last (g_strchomp s))"
  unfolding g_strchomp_def by (metis hd_dropWhile last_rev rev_is_Nil_conv)

lemma strchomp_id: "s = [] \<or> \<not> g_ascii_isspace (last s) \<Longrightarrow> g_strchomp s = s"
  unfolding g_strchomp_def
  by (metis dropWhile_eq_self_iff hd_rev rev_is_Nil_conv rev_rev_ident)

lemma strstrip_id:
  "s = [] \<or> (\<not> g_ascii_isspace (hd s) \<and> \<not> g_ascii_isspace (last s)) \<Longrightarrow> g_strstrip s = s"
  unfolding g_strstrip_def g_strchug_def
  by (metis dropWhile_eq_self_iff strchomp_id)

lemma strchomp_prefix: "prefix (g_strchomp s) s"
  unfolding g_strchomp_def
  by (metis dropWhile_eq_drop drop_rev rev_rev_ident take_is_prefix)

lemma strstrip_idem [simp]: "g_strstrip (g_strstrip s) = g_strstrip s"
proof (rule strstrip_id, rule disjCI)
  assume ne: "\<not> (\<not> g_ascii_isspace (hd (g_strstrip s)) \<and> \<not> g_ascii_isspace (last (g_strstrip s)))"
  show "g_strstrip s = []"
  proof (rule ccontr)
    assume n: "g_strstrip s \<noteq> []"
    then have l: "\<not> g_ascii_isspace (last (g_strstrip s))"
      unfolding g_strstrip_def by (rule strchomp_last)
    from n have "hd (g_strstrip s) = hd (g_strchug s)"
      using strchomp_prefix [of "g_strchug s"] unfolding g_strstrip_def prefix_def
      by (metis hd_append2)
    moreover from n have "g_strchug s \<noteq> []"
      unfolding g_strstrip_def g_strchomp_def by auto
    ultimately have "\<not> g_ascii_isspace (hd (g_strstrip s))"
      unfolding g_strchug_def by (metis hd_dropWhile)
    with l ne show False by blast
  qed
qed

section \<open>C strings in buffers\<close>

text \<open>The bytes of a buffer up to the first NUL: what a C string function sees of it.\<close>

definition cstring :: "string \<Rightarrow> string" where
  "cstring s = takeWhile (\<lambda>c. c \<noteq> CHR 0x00) s"

lemma cstring_id: "list_all (\<lambda>c. c \<noteq> CHR 0x00) v \<Longrightarrow> cstring v = v"
  by (simp add: cstring_def list_all_iff takeWhile_eq_all_conv)

text \<open>Lines: what \<^verbatim>\<open>g_strsplit\<close> makes of newline-terminated lines.\<close>

lemma split_lines:
  assumes "list_all (\<lambda>l. CHR 0x0A \<notin> set l) ls"
  shows "split_pieces [CHR 0x0A] (concat (map (\<lambda>l. l @ [CHR 0x0A]) ls)) = ls @ [[]]"
  using assms by (induction ls) (simp_all add: split_pieces_append)

section \<open>Numbers\<close>

text \<open>\<^verbatim>\<open>g_ascii_strtoll(s, &end, 10)\<close>: the value, saturated to 64 bits, and whether there was a number
  (\<^verbatim>\<open>end != s\<close>); addition on \<^verbatim>\<open>gint64\<close> wraps around.\<close>

definition decimal_value :: "string \<Rightarrow> int" where
  "decimal_value s = foldl (\<lambda>n c. 10 * n + (int (ord c) - 48)) 0 s"

definition g_ascii_strtoll :: "string \<Rightarrow> int \<times> bool" where
  "g_ascii_strtoll s =
     (let t = dropWhile (\<lambda>c. g_ascii_isspace c \<or> c = CHR 0x0B) s;
          neg = (t \<noteq> [] \<and> hd t = CHR ''-'');
          u = (if t \<noteq> [] \<and> (hd t = CHR ''-'' \<or> hd t = CHR ''+'') then tl t else t);
          ds = takeWhile g_ascii_isdigit u; v = decimal_value ds
      in if ds = [] then (0, False)
         else (if neg then max (- (2 ^ 63)) (- v) else min (2 ^ 63 - 1) v, True))"

definition gint64 :: "int \<Rightarrow> int" where
  "gint64 x = (x + 2 ^ 63) mod 2 ^ 64 - 2 ^ 63"

lemma gint64_id: "- (2 ^ 63) \<le> x \<Longrightarrow> x < 2 ^ 63 \<Longrightarrow> gint64 x = x"
  by (simp add: gint64_def)

section \<open>Host names\<close>

text \<open>The loop that cuts the dots off the end of a host name.\<close>

definition strip_dots :: "string \<Rightarrow> string" where
  "strip_dots s = rev (dropWhile (\<lambda>c. c = CHR ''.'') (rev s))"

lemma strip_dots_id: "s = [] \<or> last s \<noteq> CHR ''.'' \<Longrightarrow> strip_dots s = s"
  by (cases s rule: rev_cases) (auto simp: strip_dots_def)

lemma strip_dots_snoc: "strip_dots (s @ ''.'') = strip_dots s"
  by (simp add: strip_dots_def)

section \<open>Searching\<close>

lemma find_append:
  "List.find P (xs @ ys) = (case List.find P xs of Some x \<Rightarrow> Some x | None \<Rightarrow> List.find P ys)"
  by (induction xs) simp_all

end
