(* ===== verification/NS_Interfaces.thy ===== *)
theory NS_Interfaces
  imports NS_Prelude
begin

text \<open>
  The interfaces the components implement, each a locale with the operations a
  client calls, the laws the provider promises and the facts that follow from the
  laws alone.  Every locale is interpreted on the model's own definitions in the
  theory of the component that provides them.
\<close>

section \<open>Canonical forms\<close>

text \<open>A partial normaliser whose results are its own normal forms: the URL
  canonicalisers.\<close>

locale canonicaliser =
  fixes canon :: "'a \<Rightarrow> 'a option"
  assumes canon_fixpoint: "canon x = Some y \<Longrightarrow> canon y = Some y"
begin

lemma canon_bind: "Option.bind (canon x) canon = canon x"
proof (cases "canon x")
  case (Some y)
  then have "canon y = Some y" by (rule canon_fixpoint)
  with Some show ?thesis by (simp only: Option.bind.simps)
next
  case None
  then show ?thesis by (simp only: Option.bind.simps)
qed

lemma canon_same_form:
  assumes "canon x = Some y" and "canon z = Some y'" and "canon y = canon y'"
  shows "canon x = canon z"
proof -
  from assms(1) have "canon y = Some y" by (rule canon_fixpoint)
  moreover from assms(2) have "canon y' = Some y'" by (rule canon_fixpoint)
  ultimately have "y = y'" using assms(3) by (metis option.inject)
  with assms(1,2) show ?thesis by metis
qed

end

section \<open>Encodings\<close>

text \<open>An encoder with a decoder that recovers every admissible value.\<close>

locale codec =
  fixes enc :: "'a \<Rightarrow> 'b" and dec :: "'b \<Rightarrow> 'a option" and admissible :: "'a \<Rightarrow> bool"
  assumes dec_enc: "admissible x \<Longrightarrow> dec (enc x) = Some x"
begin

lemma enc_injective: "admissible x \<Longrightarrow> admissible y \<Longrightarrow> enc x = enc y \<Longrightarrow> x = y"
  by (metis dec_enc option.inject)

lemma dec_enc_list:
  "list_all admissible xs \<Longrightarrow> map dec (map enc xs) = map Some xs"
  by (induction xs) (auto simp: dec_enc)

end

section \<open>Policies that may only restrict\<close>

text \<open>A list of policies of which every one must allow a request: enforcing more
  policies never allows more.\<close>

locale deny_overrides =
  fixes allows1 :: "'p \<Rightarrow> 'r \<Rightarrow> bool" and allows :: "'p list \<Rightarrow> 'r \<Rightarrow> bool"
  assumes allows_Nil: "allows [] r"
    and allows_Cons: "allows (p # ps) r \<longleftrightarrow> allows1 p r \<and> allows ps r"
begin

lemma allows_all: "allows ps r \<longleftrightarrow> (\<forall>p \<in> set ps. allows1 p r)"
  by (induction ps) (auto simp: allows_Nil allows_Cons)

lemma allows_append: "allows (ps @ qs) r \<longleftrightarrow> allows ps r \<and> allows qs r"
  by (auto simp: allows_all)

lemma allows_antimono: "set ps \<subseteq> set qs \<Longrightarrow> allows qs r \<Longrightarrow> allows ps r"
  by (auto simp: allows_all)

end

section \<open>Byte-stream parsers\<close>

text \<open>A parser fed with chunks whose boundaries carry no meaning: the network may
  cut the stream anywhere.  \<^verbatim>\<open>ok\<close> marks the states the parser can be in between two chunks.\<close>

locale stream_parser =
  fixes feed :: "'s \<Rightarrow> 'c list \<Rightarrow> 's" and ok :: "'s \<Rightarrow> bool"
  assumes feed_Nil: "ok s \<Longrightarrow> feed s [] = s"
    and feed_ok: "ok s \<Longrightarrow> ok (feed s xs)"
    and feed_append: "ok s \<Longrightarrow> feed s (xs @ ys) = feed (feed s xs) ys"
begin

lemma feed_chunks: "ok s \<Longrightarrow> foldl feed s chunks = feed s (concat chunks)"
  by (induction chunks arbitrary: s) (simp_all add: feed_Nil feed_append feed_ok)

lemma feed_rechunk: "ok s \<Longrightarrow> concat cs = concat ds \<Longrightarrow> foldl feed s cs = foldl feed s ds"
  by (simp add: feed_chunks)

end

section \<open>Transition systems with an invariant\<close>

text \<open>A component driven by events from its environment, with an invariant that
  its handlers keep.\<close>

locale invariant_system =
  fixes handle :: "'s \<Rightarrow> 'e \<Rightarrow> 's" and inv :: "'s \<Rightarrow> bool"
  assumes inv_handle: "inv s \<Longrightarrow> inv (handle s e)"
begin

lemma inv_run: "inv s \<Longrightarrow> inv (foldl handle s es)"
  by (induction es arbitrary: s) (simp_all add: inv_handle)

lemma inv_every_prefix: "inv s \<Longrightarrow> inv (foldl handle s (take n es))"
  by (rule inv_run)

end

section \<open>Data refinement\<close>

text \<open>A concrete data structure, the abstract value it represents, and operations on both sides that
  keep the representation.\<close>

locale data_refinement =
  fixes cstep :: "'s \<Rightarrow> 'e \<Rightarrow> 's" and astep :: "'a \<Rightarrow> 'e \<Rightarrow> 'a" and represents :: "'s \<Rightarrow> 'a \<Rightarrow> bool"
  assumes step_refines: "represents s a \<Longrightarrow> represents (cstep s e) (astep a e)"
begin

lemma run_refines: "represents s a \<Longrightarrow> represents (foldl cstep s es) (foldl astep a es)"
  by (induction es arbitrary: s a) (simp_all add: step_refines)

lemma run_represented: "represents s a \<Longrightarrow> \<exists>b. represents (foldl cstep s es) b"
  by (blast intro: run_refines)

end

end
