(* ===== verification/NS_Freenet.thy ===== *)
theory NS_Freenet
  imports NS_Interfaces
begin

text \<open>
  The \<^verbatim>\<open>freenet:\<close> URL scheme of \<^verbatim>\<open>src/freenet.c\<close>: contract keys, canonical URLs, the
  mapping of a contract URL onto the local node's gateway and back, the gate that
  keeps ordinary pages away from the node, the key search in a node's diagnostics
  reply, the contract cache and the rewriting of the node's CSP.  The configured
  gateway (\<^verbatim>\<open>ns_config.freenet_gateway\<close>) is an argument, \<^verbatim>\<open>None\<close> for an unset
  one.  The libcurl transfers are not modelled: the reply of the node is an input.
\<close>

section \<open>Keys\<close>

definition ns_freenet_base58 :: string where
  "ns_freenet_base58 = ''123456789ABCDEFGHJKLMNPQRSTUVWXYZabcdefghijkmnopqrstuvwxyz''"

definition NS_FREENET_DEFAULT_GATEWAY :: string where
  "NS_FREENET_DEFAULT_GATEWAY = ''127.0.0.1:7509''"

definition NS_FREENET_WEB_PATH :: string where
  "NS_FREENET_WEB_PATH = ''v1/contract/web/''"

definition NS_FREENET_WEB_TAIL :: string where
  "NS_FREENET_WEB_TAIL = ''contract/web/''"

definition ns_freenet_api_versions :: "string list" where
  "ns_freenet_api_versions = [''v1/'', ''v2/'']"

definition ns_freenet_node_paths :: "string list" where
  "ns_freenet_node_paths = [''v1/'', ''v2/'', ''permission/'', ''freenet-notify-sw.js'']"

fun ns_freenet_after_web_prefix_loop :: "string list \<Rightarrow> string \<Rightarrow> string option" where
  "ns_freenet_after_web_prefix_loop [] path = None"
| "ns_freenet_after_web_prefix_loop (v # vs) path =
     (if \<not> g_str_has_prefix path v then ns_freenet_after_web_prefix_loop vs path
      else let rest = drop (length v) path in
        if g_str_has_prefix rest NS_FREENET_WEB_TAIL
        then Some (drop (length NS_FREENET_WEB_TAIL) rest)
        else ns_freenet_after_web_prefix_loop vs path)"

definition ns_freenet_after_web_prefix :: "string \<Rightarrow> string option" where
  "ns_freenet_after_web_prefix path = ns_freenet_after_web_prefix_loop ns_freenet_api_versions path"

definition ns_freenet_path_belongs_to_node :: "string \<Rightarrow> bool" where
  "ns_freenet_path_belongs_to_node path = list_ex (g_str_has_prefix path) ns_freenet_node_paths"

definition ns_freenet_is_base58 :: "char \<Rightarrow> bool" where
  "ns_freenet_is_base58 c \<longleftrightarrow> ord c \<noteq> 0 \<and> strchr ns_freenet_base58 c \<noteq> None"

definition ns_freenet_is_url :: "string \<Rightarrow> bool" where
  "ns_freenet_is_url url = strncaseeq 8 url ''freenet:''"

definition ns_freenet_key_is_valid :: "string \<Rightarrow> bool" where
  "ns_freenet_key_is_valid key \<longleftrightarrow>
     \<not> (length key < 1 \<or> length key > 64) \<and> list_all ns_freenet_is_base58 key"

definition ns_freenet_key_is_full :: "string \<Rightarrow> bool" where
  "ns_freenet_key_is_full key \<longleftrightarrow> ns_freenet_key_is_valid key \<and> length key \<ge> 32"

section \<open>The gateway\<close>

definition ns_freenet_gateway :: "string option \<Rightarrow> string" where
  "ns_freenet_gateway cfg =
     (case cfg of Some g \<Rightarrow> if g \<noteq> [] then g else NS_FREENET_DEFAULT_GATEWAY
      | None \<Rightarrow> NS_FREENET_DEFAULT_GATEWAY)"

definition strip_trailing_slashes :: "string \<Rightarrow> string" where
  "strip_trailing_slashes s = rev (dropWhile (\<lambda>c. c = CHR ''/'') (rev s))"

definition ns_freenet_gateway_base :: "string option \<Rightarrow> bool \<Rightarrow> string option" where
  "ns_freenet_gateway_base cfg websocket =
     (let gateway = ns_freenet_gateway cfg;
          tls = strncaseeq 8 gateway ''https://'';
          authority = (if tls then drop 8 gateway
                       else if strncaseeq 7 gateway ''http://'' then drop 7 gateway
                       else gateway);
          host = strip_trailing_slashes authority
      in if host = [] then None
         else let transport = (if websocket then (if tls then ''wss://'' else ''ws://'')
                               else (if tls then ''https://'' else ''http://''))
              in Some (transport @ host))"

section \<open>Splitting a URL into its key and the rest\<close>

definition after_key :: "string \<Rightarrow> string" where
  "after_key end_p = (if end_p \<noteq> [] \<and> hd end_p = CHR ''/'' then tl end_p else end_p)"

definition ns_freenet_take_key :: "string \<Rightarrow> (string \<times> string) option" where
  "ns_freenet_take_key p =
     (let key = cspan ''/?#'' p; end_p = cspan_rest ''/?#'' p in
      if key = [] then None
      else if \<not> ns_freenet_key_is_valid key then None
      else Some (key, after_key end_p))"

lemma after_web_prefix_loop_length:
  "ns_freenet_after_web_prefix_loop vs path = Some inner \<Longrightarrow> length inner < length path"
proof (induction vs path rule: ns_freenet_after_web_prefix_loop.induct)
  case (2 v vs path)
  then show ?case
    by (auto simp: Let_def NS_FREENET_WEB_TAIL_def g_str_has_prefix_def
        dest!: arg_cong [of "take _ _" _ length] split: if_splits)
qed simp

lemma after_web_prefix_length:
  "ns_freenet_after_web_prefix path = Some inner \<Longrightarrow> length inner < length path"
  unfolding ns_freenet_after_web_prefix_def by (rule after_web_prefix_loop_length)

lemma length_after_key: "length (after_key s) \<le> length s"
  by (auto simp: after_key_def)

lemma take_key_length: "ns_freenet_take_key p = Some (k, r) \<Longrightarrow> length r < length p"
proof -
  assume a: "ns_freenet_take_key p = Some (k, r)"
  then have r: "r = after_key (cspan_rest ''/?#'' p)" and k: "cspan ''/?#'' p \<noteq> []"
    by (auto simp: ns_freenet_take_key_def Let_def split: if_splits)
  have "length p = length (cspan ''/?#'' p) + length (cspan_rest ''/?#'' p)"
    by (metis cspan_append_rest length_append)
  with k r length_after_key [of "cspan_rest ''/?#'' p"] show ?thesis
    by (metis add_less_same_cancel2 length_greater_0_conv less_add_same_cancel2 order_le_less_trans)
qed

function ns_freenet_split_loop :: "string \<Rightarrow> string \<Rightarrow> string \<times> string" where
  "ns_freenet_split_loop key rest =
     (case ns_freenet_after_web_prefix rest of
        None \<Rightarrow> (key, rest)
      | Some inner \<Rightarrow>
          (case ns_freenet_take_key inner of
             None \<Rightarrow> (key, rest)
           | Some (inner_key, inner_rest) \<Rightarrow> ns_freenet_split_loop inner_key inner_rest))"
  by pat_completeness auto
termination
  by (relation "measure (\<lambda>(key, rest). length rest)")
    (auto dest!: after_web_prefix_length take_key_length)

declare ns_freenet_split_loop.simps [simp del]

definition skip_authority_slashes :: "string \<Rightarrow> string" where
  "skip_authority_slashes p0 =
     (let p = (if take 2 p0 = ''//'' then drop 2 p0 else p0)
      in dropWhile (\<lambda>c. c = CHR ''/'') p)"

definition ns_freenet_split :: "string \<Rightarrow> (string \<times> string) option" where
  "ns_freenet_split url =
     (if \<not> ns_freenet_is_url url then None
      else case ns_freenet_take_key (skip_authority_slashes (drop 8 url)) of
             None \<Rightarrow> None
           | Some (key, rest) \<Rightarrow> Some (ns_freenet_split_loop key rest))"

definition ns_freenet_key_of :: "string \<Rightarrow> string option" where
  "ns_freenet_key_of url = map_option fst (ns_freenet_split url)"

definition ns_freenet_canonical_url :: "string \<Rightarrow> string option" where
  "ns_freenet_canonical_url input =
     (case ns_freenet_split input of
        None \<Rightarrow> None
      | Some (key, rest) \<Rightarrow> Some (''freenet://'' @ key @ ''/'' @ rest))"

definition ns_freenet_with_key :: "string \<Rightarrow> string \<Rightarrow> string option" where
  "ns_freenet_with_key url key =
     (case ns_freenet_split url of
        None \<Rightarrow> None
      | Some (old_key, rest) \<Rightarrow> Some (''freenet://'' @ key @ ''/'' @ rest))"

definition ns_freenet_map :: "string option \<Rightarrow> string \<Rightarrow> bool \<Rightarrow> string option" where
  "ns_freenet_map cfg url websocket =
     (case ns_freenet_split url of
        None \<Rightarrow> None
      | Some (key, rest) \<Rightarrow>
          (case ns_freenet_gateway_base cfg websocket of
             None \<Rightarrow> None
           | Some base \<Rightarrow>
               if ns_freenet_path_belongs_to_node rest
               then Some (base @ ''/'' @ rest)
               else let path = cspan ''?#'' rest;
                        index = (if path = [] \<or> last path = CHR ''/'' then ''index.html'' else [])
                    in Some (base @ ''/'' @ NS_FREENET_WEB_PATH @ key @ ''/'' @
                             path @ index @ cspan_rest ''?#'' rest)))"

definition ns_freenet_to_gateway :: "string option \<Rightarrow> string \<Rightarrow> string option" where
  "ns_freenet_to_gateway cfg url = ns_freenet_map cfg url False"

definition ns_freenet_to_gateway_ws :: "string option \<Rightarrow> string \<Rightarrow> string option" where
  "ns_freenet_to_gateway_ws cfg url = ns_freenet_map cfg url True"

section \<open>Recognising the node's own address\<close>

definition ns_freenet_host_is_loopback :: "string \<Rightarrow> bool" where
  "ns_freenet_host_is_loopback host0 =
     (if host0 = [] then False
      else let host = (if last host0 = CHR ''.'' then butlast host0 else host0) in
        (length host = 9 \<and> strncaseeq 9 host ''localhost'') \<or>
        (length host = 3 \<and> strneq 3 host ''::1'') \<or>
        (length host = 5 \<and> strneq 5 host ''[::1]'') \<or>
        (length host > 4 \<and> strneq 4 host ''127.'' \<and>
         list_all (\<lambda>c. g_ascii_isdigit c \<or> c = CHR ''.'') (drop 4 host)))"

text \<open>The port is \<^const>\<open>None\<close> for the C code's null pointer.\<close>

definition authority_colon :: "string \<Rightarrow> nat" where
  "authority_colon authority =
     (if authority \<noteq> [] \<and> hd authority = CHR ''['' then
        (let close = length (takeWhile (\<lambda>c. c \<noteq> CHR '']'') authority) in
         if close < length authority \<and> close + 1 < length authority \<and>
            authority ! (close + 1) = CHR '':''
         then close + 1 else length authority)
      else length (takeWhile (\<lambda>c. c \<noteq> CHR '':'') authority))"

definition ns_freenet_split_authority :: "string \<Rightarrow> string \<times> string option" where
  "ns_freenet_split_authority authority =
     (let colon = authority_colon authority in
      (take colon authority,
       if colon < length authority then Some (drop (colon + 1) authority) else None))"

definition port_text :: "string option \<Rightarrow> string" where
  "port_text p = (case p of None \<Rightarrow> [] | Some s \<Rightarrow> s)"

definition ns_freenet_authority_is_gateway :: "string option \<Rightarrow> string \<Rightarrow> bool" where
  "ns_freenet_authority_is_gateway cfg authority =
     (case ns_freenet_gateway_base cfg False of
        None \<Rightarrow> False
      | Some base \<Rightarrow>
          let gateway = (case strstr base ''://'' of Some g \<Rightarrow> drop 3 g | None \<Rightarrow> base);
              (host, port) = ns_freenet_split_authority authority;
              (ghost, gport) = ns_freenet_split_authority gateway
          in if port_text port \<noteq> port_text gport then False
             else if length host = length ghost \<and> strncaseeq (length host) host ghost then True
             else ns_freenet_host_is_loopback host \<and> ns_freenet_host_is_loopback ghost)"

fun find_scheme :: "(string \<times> 'a) list \<Rightarrow> string \<Rightarrow> (string \<times> 'a) option" where
  "find_scheme [] url = None"
| "find_scheme ((s, a) # ss) url =
     (if strncaseeq (length s) url s then Some (drop (length s) url, a) else find_scheme ss url)"

definition node_schemes :: "(string \<times> bool) list" where
  "node_schemes = [(''ws://'', True), (''wss://'', True), (''http://'', False), (''https://'', False)]"

definition ns_freenet_is_node_endpoint :: "string option \<Rightarrow> string \<Rightarrow> bool" where
  "ns_freenet_is_node_endpoint cfg url =
     (case find_scheme node_schemes url of
        None \<Rightarrow> False
      | Some (authority, ws) \<Rightarrow> ns_freenet_authority_is_gateway cfg (cspan ''/?#'' authority))"

definition ns_freenet_from_gateway :: "string option \<Rightarrow> string \<Rightarrow> string option" where
  "ns_freenet_from_gateway cfg url =
     (case strstr url ''://'' of
        None \<Rightarrow> None
      | Some sep \<Rightarrow>
          let authority = cspan ''/?#'' (drop 3 sep); tail = cspan_rest ''/?#'' (drop 3 sep) in
          if \<not> ns_freenet_authority_is_gateway cfg authority then None
          else if tail = [] \<or> hd tail \<noteq> CHR ''/'' then None
          else case ns_freenet_after_web_prefix (tl tail) of
                 None \<Rightarrow> None
               | Some p \<Rightarrow>
                   let key = cspan ''/?#'' p in
                   if key = [] then None
                   else if \<not> ns_freenet_key_is_valid key then None
                   else Some (''freenet://'' @ key @ ''/'' @ after_key (cspan_rest ''/?#'' p)))"

section \<open>Searching the node's reply for contract keys\<close>

fun ns_freenet_match_prefix_loop :: "string list \<Rightarrow> string \<Rightarrow> string option \<Rightarrow> string option" where
  "ns_freenet_match_prefix_loop [] pfx found = found"
| "ns_freenet_match_prefix_loop (i # is) pfx found =
     (if \<not> strneq (length pfx) i pfx then ns_freenet_match_prefix_loop is pfx found
      else if \<not> ns_freenet_key_is_full i then ns_freenet_match_prefix_loop is pfx found
      else case found of
             None \<Rightarrow> ns_freenet_match_prefix_loop is pfx (Some i)
           | Some f \<Rightarrow> if f \<noteq> i then None else ns_freenet_match_prefix_loop is pfx found)"

definition ns_freenet_match_prefix :: "string list \<Rightarrow> string \<Rightarrow> string option" where
  "ns_freenet_match_prefix ids pfx = ns_freenet_match_prefix_loop ids pfx None"

text \<open>The scan of the reply's raw bytes: each maximal run of base-58 characters of
  32 to 64 bytes is a key.\<close>

function collect_runs :: "string \<Rightarrow> string list" where
  "collect_runs [] = []"
| "collect_runs (c # data) =
     (if \<not> ns_freenet_is_base58 c then collect_runs data
      else let run = takeWhile ns_freenet_is_base58 (c # data);
               rest = dropWhile ns_freenet_is_base58 (c # data)
           in if length run < 32 \<or> length run > 64 then collect_runs rest
              else run # collect_runs rest)"
  by pat_completeness auto
termination
  by (relation "measure length") (auto simp: le_imp_less_Suc length_dropWhile_le)

text \<open>\<^verbatim>\<open>rs\<close> is the optional decoder of the Rust client library
  (\<^verbatim>\<open>ns_freenet_rs_contract_ids\<close>, present only in a build that has it): the
  newline-separated identifiers, or \<^const>\<open>None\<close>.\<close>

definition ns_freenet_collect_keys :: "(string \<Rightarrow> string option) \<Rightarrow> string \<Rightarrow> string list \<Rightarrow> string list" where
  "ns_freenet_collect_keys rs data out =
     (if data = [] then out
      else case rs data of
             Some decoded \<Rightarrow> out @ filter ns_freenet_key_is_full (g_strsplit_set decoded [CHR 0x0A])
           | None \<Rightarrow> out @ collect_runs data)"

definition ns_freenet_find_key_with_prefix ::
    "(string \<Rightarrow> string option) \<Rightarrow> string \<Rightarrow> string \<Rightarrow> string option" where
  "ns_freenet_find_key_with_prefix rs data pfx =
     (if data = [] \<or> pfx = [] then None
      else ns_freenet_match_prefix (ns_freenet_collect_keys rs data []) pfx)"

section \<open>The cache of known contracts\<close>

record known_contracts =
  g_known_contracts :: "string list option"
  g_known_contracts_at :: int

definition NS_FREENET_CONTRACT_CACHE_US :: int where
  "NS_FREENET_CONTRACT_CACHE_US = 30 * 1000000"

text \<open>\<^verbatim>\<open>diagnostics\<close> is the node's answer to \<^verbatim>\<open>ns_freenet_node_diagnostics\<close>, asked only
  when the cache is stale; \<^verbatim>\<open>now\<close> and \<^verbatim>\<open>later\<close> are the two readings of the clock.
  The third component of the result tells whether the node was asked.\<close>

definition ns_freenet_known_contract_for_host ::
    "(string \<Rightarrow> string option) \<Rightarrow> string option \<Rightarrow> int \<Rightarrow> int \<Rightarrow> known_contracts \<Rightarrow> string \<Rightarrow>
     string option \<times> known_contracts \<times> bool" where
  "ns_freenet_known_contract_for_host rs diagnostics now later st host =
     (if length host < 32 \<or> length host > 64 then (None, st, False)
      else
        let stale = (g_known_contracts st = None \<or>
                     now - g_known_contracts_at st > NS_FREENET_CONTRACT_CACHE_US);
            fresh = (case diagnostics of None \<Rightarrow> [] | Some d \<Rightarrow> ns_freenet_collect_keys rs d []);
            st' = (if stale then st\<lparr>g_known_contracts := Some fresh, g_known_contracts_at := later\<rparr>
                   else st);
            known = (case g_known_contracts st' of None \<Rightarrow> [] | Some ks \<Rightarrow> ks)
        in (List.find (\<lambda>candidate. strcaseeq candidate host) known, st', stale))"

definition ns_freenet_localize_origin ::
    "(string \<Rightarrow> string option) \<Rightarrow> string option \<Rightarrow> int \<Rightarrow> int \<Rightarrow> string option \<Rightarrow>
     known_contracts \<Rightarrow> string \<Rightarrow> string \<Rightarrow> string option \<times> known_contracts" where
  "ns_freenet_localize_origin rs diagnostics now later cfg st target doc_url =
     (if \<not> ns_freenet_is_url doc_url then (None, st)
      else case find_scheme node_schemes target of
             None \<Rightarrow> (None, st)
           | Some (authority, websocket) \<Rightarrow>
               let host = cspan '':/?#'' authority;
                   mapped = (let rest = dropWhile (\<lambda>c. c = CHR ''/'')
                                          (cspan_rest ''/?#'' (cspan_rest '':/?#'' authority))
                             in map_option (\<lambda>base. base @ ''/'' @ rest)
                                  (ns_freenet_gateway_base cfg websocket));
                   own = (case ns_freenet_key_of doc_url of
                            None \<Rightarrow> False | Some key \<Rightarrow> strcaseeq host key)
               in if own then (mapped, st)
                  else case ns_freenet_known_contract_for_host rs diagnostics now later st host of
                         (None, st', asked) \<Rightarrow> (None, st')
                       | (Some known, st', asked) \<Rightarrow> (mapped, st'))"

section \<open>Errors and policies the node sends\<close>

text \<open>\<^verbatim>\<open>utf8_ok\<close> is GLib's \<^verbatim>\<open>g_utf8_validate\<close>; a NUL byte ends the text the way
  \<^verbatim>\<open>g_strndup\<close> does.\<close>

definition until_nul :: "string \<Rightarrow> string" where
  "until_nul s = takeWhile (\<lambda>c. ord c \<noteq> 0) s"

definition ns_freenet_node_error :: "(string \<Rightarrow> bool) \<Rightarrow> int \<Rightarrow> string \<Rightarrow> string option" where
  "ns_freenet_node_error utf8_ok status body =
     (if status < 400 \<or> body = [] then None
      else if CHR ''<'' \<in> set (take 512 body) then None
      else let text = g_strstrip (until_nul (take 400 body)) in
           if text = [] \<or> \<not> utf8_ok text then None else Some text)"

text \<open>\<^verbatim>\<open>g_strsplit(s, delim, -1)\<close> with a delimiter of several bytes, and \<^verbatim>\<open>g_strjoinv\<close>.\<close>

function split_on :: "string \<Rightarrow> string \<Rightarrow> string list" where
  "split_on delim s =
     (if delim = [] then [s]
      else case strstr s delim of
             None \<Rightarrow> [s]
           | Some t \<Rightarrow> take (length s - length t) s # split_on delim (drop (length delim) t))"
  by pat_completeness auto
termination
proof (relation "measure (\<lambda>(delim, s). length s)")
  fix delim s t :: string
  assume "delim \<noteq> []" and "strstr s delim = Some t"
  with strstr_length [of s delim t] show "((delim, drop (length delim) t), delim, s) \<in> measure (\<lambda>(delim, s). length s)"
    by (cases delim) auto
qed simp

declare split_on.simps [simp del]

definition g_strsplit :: "string \<Rightarrow> string \<Rightarrow> string list" where
  "g_strsplit s delim = (if s = [] then [] else split_on delim s)"

fun g_strjoinv :: "string \<Rightarrow> string list \<Rightarrow> string" where
  "g_strjoinv sep [] = []"
| "g_strjoinv sep [p] = p"
| "g_strjoinv sep (p # q # ps) = p @ sep @ g_strjoinv sep (q # ps)"

definition ns_freenet_localize_csp :: "string option \<Rightarrow> string \<Rightarrow> string \<Rightarrow> string option" where
  "ns_freenet_localize_csp cfg csp url =
     (if csp = [] then None
      else case ns_freenet_gateway_base cfg False of
             None \<Rightarrow> None
           | Some base \<Rightarrow>
               if strstr csp base = None then None
               else case ns_freenet_key_of url of
                      None \<Rightarrow> None
                    | Some key \<Rightarrow>
                        Some (g_strjoinv (base @ '' freenet://'' @ key) (g_strsplit csp base)))"

section \<open>The diagnostics request\<close>

datatype ns_freenet_query = NS_FREENET_QUERY_CONTRACTS | NS_FREENET_QUERY_STATUS

unbundle bit_operations_syntax

definition ns_freenet_put_u32 :: "byte list \<Rightarrow> 32 word \<Rightarrow> byte list" where
  "ns_freenet_put_u32 out v =
     out @ [ucast (v AND 0xff), ucast (drop_bit 8 v AND 0xff),
            ucast (drop_bit 16 v AND 0xff), ucast (drop_bit 24 v AND 0xff)]"

definition ns_freenet_diagnostics_request :: "byte list option \<Rightarrow> ns_freenet_query \<Rightarrow> byte list" where
  "ns_freenet_diagnostics_request encoded which =
     (case encoded of
        Some from_stdlib \<Rightarrow> from_stdlib
      | None \<Rightarrow>
          let want_node = (if which = NS_FREENET_QUERY_STATUS then 1 else 0);
              req = ns_freenet_put_u32 (ns_freenet_put_u32 [] 4) 2
          in req @ [want_node, want_node, 1] @ replicate 8 0 @ [0, 0, 0])"

section \<open>Lemmas: keys and canonical URLs\<close>

lemma base58_alphabet:
  "list_all (\<lambda>c. ord c \<noteq> 0 \<and> c \<noteq> CHR '':'' \<and> c \<noteq> CHR ''/'' \<and> c \<noteq> CHR ''?'' \<and> c \<noteq> CHR ''#'')
     ns_freenet_base58"
  by code_simp

lemma base58_iff: "ns_freenet_is_base58 c \<longleftrightarrow> c \<in> set ns_freenet_base58"
  using base58_alphabet
  by (auto simp only: ns_freenet_is_base58_def strchr_None_iff list_all_iff)

lemma base58_no_delim: "ns_freenet_is_base58 c \<Longrightarrow> c \<notin> set '':/?#''"
  using base58_alphabet by (auto simp only: base58_iff list_all_iff list.set insert_iff empty_iff)

lemma key_valid_base58: "ns_freenet_key_is_valid k \<Longrightarrow> c \<in> set k \<Longrightarrow> ns_freenet_is_base58 c"
  by (auto simp: ns_freenet_key_is_valid_def list_all_iff)

lemma key_valid_disjoint: "ns_freenet_key_is_valid k \<Longrightarrow> set k \<inter> set ''/?#'' = {}"
  using base58_no_delim key_valid_base58 by fastforce

lemma key_valid_nonempty: "ns_freenet_key_is_valid k \<Longrightarrow> k \<noteq> []"
  by (auto simp: ns_freenet_key_is_valid_def)

lemma key_valid_hd: "ns_freenet_key_is_valid k \<Longrightarrow> hd k \<noteq> CHR ''/''"
  using key_valid_disjoint key_valid_nonempty hd_in_set by fastforce

lemma take_key_key_slash:
  assumes "ns_freenet_key_is_valid k"
  shows "ns_freenet_take_key (k @ ''/'' @ r) = Some (k, r)"
proof -
  have "cspan ''/?#'' (k @ ''/'' @ r) = k" "cspan_rest ''/?#'' (k @ ''/'' @ r) = ''/'' @ r"
    using cspan_stop [OF key_valid_disjoint [OF assms], of "''/'' @ r"] by simp_all
  with assms key_valid_nonempty [OF assms] show ?thesis
    by (simp add: ns_freenet_take_key_def after_key_def)
qed

lemma take_key_valid: "ns_freenet_take_key p = Some (k, r) \<Longrightarrow> ns_freenet_key_is_valid k"
  by (auto simp: ns_freenet_take_key_def Let_def split: if_splits)

lemma skip_slashes_key:
  assumes "ns_freenet_key_is_valid k"
  shows "skip_authority_slashes (''//'' @ k @ r) = k @ r"
  using key_valid_hd [OF assms] key_valid_nonempty [OF assms]
  by (cases k) (simp_all add: skip_authority_slashes_def)

text \<open>A rest is collapsed when it names no further contract page.\<close>

definition collapsed :: "string \<Rightarrow> bool" where
  "collapsed rest = (case ns_freenet_after_web_prefix rest of
     None \<Rightarrow> True | Some inner \<Rightarrow> ns_freenet_take_key inner = None)"

lemma split_loop_collapsed: "collapsed r \<Longrightarrow> ns_freenet_split_loop k r = (k, r)"
  by (subst ns_freenet_split_loop.simps) (auto simp: collapsed_def split: option.splits)

lemma split_loop_result:
  "ns_freenet_key_is_valid k \<Longrightarrow> ns_freenet_split_loop k r = (k', r') \<Longrightarrow>
   ns_freenet_key_is_valid k' \<and> collapsed r'"
proof (induction k r rule: ns_freenet_split_loop.induct)
  case (1 k r)
  show ?case
  proof (cases "collapsed r")
    case True
    with 1 split_loop_collapsed [OF True, of k] show ?thesis by simp
  next
    case False
    then obtain inner ik ir where i: "ns_freenet_after_web_prefix r = Some inner"
        "ns_freenet_take_key inner = Some (ik, ir)"
      by (auto simp: collapsed_def split: option.splits)
    then have "ns_freenet_split_loop k r = ns_freenet_split_loop ik ir"
      by (subst ns_freenet_split_loop.simps) simp
    with "1.IH" [OF i(1) i(2) refl] "1.prems" take_key_valid [OF i(2)] show ?thesis by simp
  qed
qed

lemma split_result:
  assumes "ns_freenet_split url = Some (k, r)"
  shows "ns_freenet_key_is_valid k" and "collapsed r"
proof -
  from assms obtain k0 r0 where t: "ns_freenet_take_key (skip_authority_slashes (drop 8 url)) = Some (k0, r0)"
      and l: "ns_freenet_split_loop k0 r0 = (k, r)"
    by (auto simp: ns_freenet_split_def split: if_splits option.splits)
  from split_loop_result [OF take_key_valid [OF t] l]
  show "ns_freenet_key_is_valid k" and "collapsed r" by simp_all
qed

lemma split_canonical:
  assumes "ns_freenet_key_is_valid k" and "collapsed r"
  shows "ns_freenet_split (''freenet://'' @ k @ ''/'' @ r) = Some (k, r)"
proof -
  have "ns_freenet_is_url (''freenet://'' @ k @ ''/'' @ r)"
    by (simp add: ns_freenet_is_url_def strncaseeq_def)
  moreover have "skip_authority_slashes (''//'' @ k @ ''/'' @ r) = k @ ''/'' @ r"
    using skip_slashes_key [OF assms(1)] .
  ultimately show ?thesis
    using take_key_key_slash [OF assms(1), of r] split_loop_collapsed [OF assms(2)]
    by (simp add: ns_freenet_split_def)
qed

interpretation freenet_url: canonicaliser ns_freenet_canonical_url
proof
  fix x y assume "ns_freenet_canonical_url x = Some y"
  then obtain k r where s: "ns_freenet_split x = Some (k, r)" and y: "y = ''freenet://'' @ k @ ''/'' @ r"
    by (auto simp: ns_freenet_canonical_url_def split: option.splits)
  from split_canonical [OF split_result [OF s]]
  show "ns_freenet_canonical_url y = Some y"
    by (simp add: ns_freenet_canonical_url_def y)
qed

section \<open>Lemmas: the gateway\<close>

lemma strstr_scheme_sep:
  "t = ''http'' \<or> t = ''https'' \<Longrightarrow> strstr (t @ ''://'' @ h) ''://'' = Some (''://'' @ h)"
  by auto

lemma authority_is_gateway_self:
  assumes "ns_freenet_gateway_base cfg False = Some (t @ ''://'' @ h)" and "t = ''http'' \<or> t = ''https''"
  shows "ns_freenet_authority_is_gateway cfg h"
  using strstr_scheme_sep [OF assms(2), of h] assms(1)
  by (simp add: ns_freenet_authority_is_gateway_def strncaseeq_def split: prod.split)

lemma after_web_prefix_web_path:
  "ns_freenet_after_web_prefix (NS_FREENET_WEB_PATH @ s) = Some s"
  by (simp add: ns_freenet_after_web_prefix_def ns_freenet_api_versions_def
      NS_FREENET_WEB_PATH_def NS_FREENET_WEB_TAIL_def)

lemma after_web_prefix_node: "ns_freenet_after_web_prefix s \<noteq> None \<Longrightarrow> ns_freenet_path_belongs_to_node s"
  by (auto simp: ns_freenet_after_web_prefix_def ns_freenet_api_versions_def
      ns_freenet_path_belongs_to_node_def ns_freenet_node_paths_def Let_def split: if_splits)

text \<open>The document the gateway is asked for: a directory is completed to its index.\<close>

definition index_document :: "string \<Rightarrow> string" where
  "index_document rest = (let path = cspan ''?#'' rest in
     path @ (if path = [] \<or> last path = CHR ''/'' then ''index.html'' else []) @ cspan_rest ''?#'' rest)"

lemma index_document_shape:
  "\<exists>s. index_document rest = cspan ''?#'' rest @ s \<and> (s = [] \<or> hd s \<noteq> CHR ''/'')"
proof -
  let ?i = "(if cspan ''?#'' rest = [] \<or> last (cspan ''?#'' rest) = CHR ''/'' then ''index.html'' else [])"
  have "?i @ cspan_rest ''?#'' rest = [] \<or> hd (?i @ cspan_rest ''?#'' rest) \<noteq> CHR ''/''"
    using cspan_rest_hd [of "''?#''" rest] by (auto simp: hd_append)
  then show ?thesis unfolding index_document_def Let_def by blast
qed

text \<open>Completing a directory never turns a page path into one of the node's versioned
  paths.\<close>

lemma version_prefix_index:
  assumes "g_str_has_prefix (index_document rest) [a, b, CHR ''/'']"
    and "a \<notin> set ''?#'' \<and> b \<notin> set ''?#''" and "a \<noteq> CHR ''i''"
  shows "g_str_has_prefix rest [a, b, CHR ''/'']"
proof -
  obtain s where s: "index_document rest = cspan ''?#'' rest @ s" "s = [] \<or> hd s \<noteq> CHR ''/''"
    using index_document_shape by blast
  let ?i = "(if cspan ''?#'' rest = [] \<or> last (cspan ''?#'' rest) = CHR ''/'' then ''index.html'' else [])"
  have s': "s = ?i @ cspan_rest ''?#'' rest"
    using s(1) by (simp add: index_document_def Let_def)
  have q: "cspan_rest ''?#'' rest = [] \<or> hd (cspan_rest ''?#'' rest) \<in> set ''?#''"
    using cspan_rest_hd by blast
  have p: "prefix [a, b, CHR ''/''] (cspan ''?#'' rest)"
  proof (cases "cspan ''?#'' rest" rule: list.exhaust)
    case Nil
    with assms s s' show ?thesis by (auto simp: has_prefix_iff_prefix)
  next
    case (Cons x xs)
    show ?thesis
    proof (cases xs)
      case Nil
      with Cons assms s s' q show ?thesis
        by (cases "cspan_rest ''?#'' rest") (auto simp: has_prefix_iff_prefix split: if_splits)
    next
      case (Cons y ys)
      with \<open>cspan ''?#'' rest = x # xs\<close> assms s show ?thesis
        by (cases ys; cases s) (auto simp: has_prefix_iff_prefix)
    qed
  qed
  then show ?thesis
    unfolding has_prefix_iff_prefix by (metis cspan_append_rest prefix_prefix)
qed

lemma index_document_no_web:
  assumes "\<not> ns_freenet_path_belongs_to_node rest"
  shows "ns_freenet_after_web_prefix (index_document rest) = None"
proof -
  have "\<not> g_str_has_prefix (index_document rest) ''v1/''" "\<not> g_str_has_prefix (index_document rest) ''v2/''"
    using version_prefix_index [of rest] assms
    by (auto simp: ns_freenet_path_belongs_to_node_def ns_freenet_node_paths_def)
  then show ?thesis
    by (simp add: ns_freenet_after_web_prefix_def ns_freenet_api_versions_def)
qed

lemma map_page:
  assumes "ns_freenet_split url = Some (key, rest)" and "\<not> ns_freenet_path_belongs_to_node rest"
    and "ns_freenet_gateway_base cfg ws = Some base"
  shows "ns_freenet_map cfg url ws =
     Some (base @ ''/'' @ NS_FREENET_WEB_PATH @ key @ ''/'' @ index_document rest)"
  using assms by (simp add: ns_freenet_map_def index_document_def Let_def)

lemma from_gateway_page:
  assumes b: "ns_freenet_gateway_base cfg False = Some (t @ ''://'' @ h)" "t = ''http'' \<or> t = ''https''"
    and h: "set h \<inter> set ''/?#'' = {}" and k: "ns_freenet_key_is_valid key"
  shows "ns_freenet_from_gateway cfg (t @ ''://'' @ h @ ''/'' @ NS_FREENET_WEB_PATH @ key @ ''/'' @ r) =
     Some (''freenet://'' @ key @ ''/'' @ r)"
proof -
  let ?tail = "''/'' @ NS_FREENET_WEB_PATH @ key @ ''/'' @ r"
  have "cspan ''/?#'' (h @ ?tail) = h" "cspan_rest ''/?#'' (h @ ?tail) = ?tail"
    by (rule cspan_stop [OF h]; simp)+
  moreover have "cspan ''/?#'' (key @ ''/'' @ r) = key" "cspan_rest ''/?#'' (key @ ''/'' @ r) = ''/'' @ r"
    by (rule cspan_stop [OF key_valid_disjoint [OF k]]; simp)+
  moreover note strstr_scheme_sep [OF b(2), of "h @ ?tail"] authority_is_gateway_self [OF b]
    after_web_prefix_web_path [of "key @ ''/'' @ r"]
  ultimately show ?thesis
    using k key_valid_nonempty [OF k]
    by (simp add: ns_freenet_from_gateway_def after_key_def)
qed

section \<open>Properties: URLs\<close>

text \<open>C1: canonicalising a \<^verbatim>\<open>freenet:\<close> URL is idempotent, and the canonical URL is a
  \<^verbatim>\<open>freenet:\<close> URL of the same contract, whose key is valid: the origin a page is given
  does not depend on the spelling of its address.\<close>

theorem freenet_canonical_idempotent:
  assumes "ns_freenet_canonical_url x = Some y"
  shows "ns_freenet_canonical_url y = Some y \<and> ns_freenet_is_url y \<and>
    ns_freenet_key_of y = ns_freenet_key_of x \<and>
    (\<exists>k. ns_freenet_key_of x = Some k \<and> ns_freenet_key_is_valid k)"
proof -
  from assms obtain k r where s: "ns_freenet_split x = Some (k, r)" and y: "y = ''freenet://'' @ k @ ''/'' @ r"
    by (auto simp: ns_freenet_canonical_url_def split: option.splits)
  from split_canonical [OF split_result [OF s]] have "ns_freenet_split y = Some (k, r)"
    unfolding y .
  with s y split_result [OF s] freenet_url.canon_fixpoint [OF assms] show ?thesis
    by (simp add: ns_freenet_key_of_def ns_freenet_is_url_def strncaseeq_def)
qed

theorem freenet_canonical_idempotent_witness:
  "ns_freenet_canonical_url ''freenet:///3Vgt/v1/contract/web/9abC/x?y'' = Some ''freenet://9abC/x?y'' \<and>
   ns_freenet_canonical_url ''freenet://9abC/x?y'' = Some ''freenet://9abC/x?y''"
proof -
  have h: "ns_freenet_canonical_url ''freenet:///3Vgt/v1/contract/web/9abC/x?y'' = Some ''freenet://9abC/x?y''"
    by code_simp
  from freenet_canonical_idempotent [OF h] h show ?thesis by blast
qed



section \<open>Properties: the search for a key\<close>

definition candidates :: "string list \<Rightarrow> string \<Rightarrow> string set" where
  "candidates ids pfx = {i \<in> set ids. prefix pfx i \<and> ns_freenet_key_is_full i}"

lemma strneq_prefix: "strneq (length p) i p \<longleftrightarrow> prefix p i"
  by (metis g_str_has_prefix_def has_prefix_iff_prefix strneq_def take_all_iff order_refl)

lemma candidates_Cons: "candidates (i # is) p =
    (if prefix p i \<and> ns_freenet_key_is_full i then insert i (candidates is p) else candidates is p)"
  by (auto simp: candidates_def)

lemma match_prefix_loop_Some:
  "ns_freenet_match_prefix_loop ids p (Some f) = (if candidates ids p \<subseteq> {f} then Some f else None)"
proof (induction ids)
  case (Cons i ids)
  then show ?case by (cases "i = f") (simp_all add: candidates_Cons strneq_prefix)
qed (simp add: candidates_def)

lemma match_prefix_loop_None:
  "ns_freenet_match_prefix_loop ids p None = Some k \<longleftrightarrow> candidates ids p = {k}"
proof (induction ids)
  case (Cons i ids)
  show ?case
  proof (cases "prefix p i \<and> ns_freenet_key_is_full i")
    case True
    then show ?thesis by (auto simp add: candidates_Cons strneq_prefix match_prefix_loop_Some)
  next
    case False
    then have "ns_freenet_match_prefix_loop (i # ids) p None = ns_freenet_match_prefix_loop ids p None"
      by (auto simp: strneq_prefix)
    moreover from False have "candidates (i # ids) p = candidates ids p"
      by (auto simp: candidates_Cons)
    ultimately show ?thesis using Cons.IH by simp
  qed
qed (simp add: candidates_def)

text \<open>C3: a prefix is expanded to a key exactly when one and only one full key of the
  node's reply has that prefix (duplicates of the same key are no ambiguity).\<close>

theorem freenet_match_prefix_exact:
  "ns_freenet_match_prefix ids p = Some k \<longleftrightarrow>
   {i \<in> set ids. prefix p i \<and> ns_freenet_key_is_full i} = {k}"
  using match_prefix_loop_None [of ids p k]
  by (simp add: ns_freenet_match_prefix_def candidates_def)

definition maximal_run :: "(char \<Rightarrow> bool) \<Rightarrow> string \<Rightarrow> string \<Rightarrow> bool" where
  "maximal_run P d k \<longleftrightarrow> (\<exists>l r. d = l @ k @ r \<and> k \<noteq> [] \<and> list_all P k \<and>
     (l = [] \<or> \<not> P (last l)) \<and> (r = [] \<or> \<not> P (hd r)))"

lemma maximal_run_Nil [simp]: "\<not> maximal_run P [] k"
  by (auto simp: maximal_run_def)

lemma maximal_run_skip:
  assumes "\<not> P c"
  shows "maximal_run P (c # d) k \<longleftrightarrow> maximal_run P d k"
proof
  assume "maximal_run P (c # d) k"
  then obtain l r where m: "c # d = l @ k @ r" "k \<noteq> []" "list_all P k" "l = [] \<or> \<not> P (last l)" "r = [] \<or> \<not> P (hd r)"
    by (auto simp: maximal_run_def)
  with assms obtain l' where l: "l = c # l'" by (cases l; cases k) auto
  with m have "d = l' @ k @ r" "l' = [] \<or> \<not> P (last l')" by auto
  with m show "maximal_run P d k" unfolding maximal_run_def by blast
next
  assume "maximal_run P d k"
  then obtain l r where m: "d = l @ k @ r" "k \<noteq> []" "list_all P k" "l = [] \<or> \<not> P (last l)" "r = [] \<or> \<not> P (hd r)"
    by (auto simp: maximal_run_def)
  with assms have "c # d = (c # l) @ k @ r" "\<not> P (last (c # l))" by auto
  with m show "maximal_run P (c # d) k" unfolding maximal_run_def by blast
qed

lemma maximal_run_first:
  assumes "run \<noteq> []" and "list_all P run" and "rest = [] \<or> \<not> P (hd rest)"
  shows "maximal_run P (run @ rest) k \<longleftrightarrow> k = run \<or> maximal_run P rest k"
proof
  assume "maximal_run P (run @ rest) k"
  then obtain l r where m: "run @ rest = l @ k @ r" "k \<noteq> []" "list_all P k" "l = [] \<or> \<not> P (last l)" "r = [] \<or> \<not> P (hd r)"
    by (auto simp: maximal_run_def)
  show "k = run \<or> maximal_run P rest k"
  proof (cases "l = []")
    case True
    have span: "takeWhile P (xs @ ys) = xs" if "list_all P xs" "ys = [] \<or> \<not> P (hd ys)" for xs ys
      using that by (induction xs) (cases ys; auto)+
    from True m span [of run rest] span [of k r] assms show ?thesis by simp
  next
    case False
    with m obtain l2 where l2: "l = run @ l2 \<and> rest = l2 @ k @ r \<or> run = l @ l2 \<and> l2 @ rest = k @ r"
      by (auto simp: append_eq_append_conv2)
    moreover have "\<not> (run = l @ l2)"
      using False m(4) assms(2) by (auto simp: list_all_iff)
    ultimately have "l = run @ l2" "rest = l2 @ k @ r" by auto
    moreover from this False m(4) assms have "l2 = [] \<or> \<not> P (last l2)" by auto
    ultimately show ?thesis using m unfolding maximal_run_def by blast
  qed
next
  assume "k = run \<or> maximal_run P rest k"
  then show "maximal_run P (run @ rest) k"
  proof
    assume "k = run"
    with assms show ?thesis unfolding maximal_run_def by (metis append_Nil)
  next
    assume "maximal_run P rest k"
    then obtain l r where m: "rest = l @ k @ r" "k \<noteq> []" "list_all P k" "l = [] \<or> \<not> P (last l)" "r = [] \<or> \<not> P (hd r)"
      by (auto simp: maximal_run_def)
    with assms(3) have "l \<noteq> []" by (cases k) auto
    with m have "run @ rest = (run @ l) @ k @ r" "\<not> P (last (run @ l))" by auto
    with m show ?thesis unfolding maximal_run_def by blast
  qed
qed

lemma collect_runs_iff:
  "k \<in> set (collect_runs d) \<longleftrightarrow>
   maximal_run ns_freenet_is_base58 d k \<and> 32 \<le> length k \<and> length k \<le> 64"
proof (induction d rule: collect_runs.induct)
  case (2 c d)
  show ?case
  proof (cases "ns_freenet_is_base58 c")
    case False
    with 2 show ?thesis by (simp add: maximal_run_skip)
  next
    case True
    define run where "run = takeWhile ns_freenet_is_base58 (c # d)"
    define rest where "rest = dropWhile ns_freenet_is_base58 (c # d)"
    have cd: "c # d = run @ rest" by (simp only: run_def rest_def takeWhile_dropWhile_id)
    have "run \<noteq> []" using True by (simp add: run_def)
    moreover have "list_all ns_freenet_is_base58 run" unfolding run_def by (metis list_all_iff set_takeWhileD)
    moreover have "rest = [] \<or> \<not> ns_freenet_is_base58 (hd rest)" unfolding rest_def using hd_dropWhile by blast
    ultimately have run: "maximal_run ns_freenet_is_base58 (c # d) k \<longleftrightarrow> k = run \<or> maximal_run ns_freenet_is_base58 rest k"
      unfolding cd by (rule maximal_run_first)
    have step: "collect_runs (c # d) =
      (if length run < 32 \<or> length run > 64 then collect_runs rest else run # collect_runs rest)"
      using True unfolding run_def rest_def by (simp add: Let_def)
    have IH: "k \<in> set (collect_runs rest) \<longleftrightarrow>
        maximal_run ns_freenet_is_base58 rest k \<and> 32 \<le> length k \<and> length k \<le> 64"
      using "2.IH"(2,3) True unfolding run_def rest_def by blast
    show ?thesis
    proof (cases "length run < 32 \<or> length run > 64")
      case True
      with run step IH show ?thesis by auto
    next
      case False
      with run step IH show ?thesis by auto
    qed
  qed
qed simp

text \<open>the in-tree scan of a reply collects exactly the maximal base-58 runs that
  have the length of a full key, so nothing it returns is an invalid key and no key
  delimited by other bytes is missed.\<close>

theorem freenet_collect_keys_exact:
  assumes "rs data = None"
  shows "k \<in> set (ns_freenet_collect_keys rs data []) \<longleftrightarrow>
    ns_freenet_key_is_full k \<and> maximal_run ns_freenet_is_base58 data k"
  using assms
  by (auto simp: ns_freenet_collect_keys_def collect_runs_iff ns_freenet_key_is_full_def
      ns_freenet_key_is_valid_def maximal_run_def)

theorem freenet_collect_keys_exact_witness:
  "''3VgtmdXDHDEW3atupXiEThTneSheFtNfV2UiZxSJr7dh'' \<in>
     set (ns_freenet_collect_keys (\<lambda>_. None) ''+0 3VgtmdXDHDEW3atupXiEThTneSheFtNfV2UiZxSJr7dh 0'' []) \<and>
   ns_freenet_key_is_full ''3VgtmdXDHDEW3atupXiEThTneSheFtNfV2UiZxSJr7dh''"
proof -
  have "''3VgtmdXDHDEW3atupXiEThTneSheFtNfV2UiZxSJr7dh'' \<in>
     set (ns_freenet_collect_keys (\<lambda>_. None) ''+0 3VgtmdXDHDEW3atupXiEThTneSheFtNfV2UiZxSJr7dh 0'' [])"
    by code_simp
  then show ?thesis
    using freenet_collect_keys_exact [of "\<lambda>_. None" "''+0 3VgtmdXDHDEW3atupXiEThTneSheFtNfV2UiZxSJr7dh 0''"] by blast
qed

section \<open>Properties: the gate in front of the node\<close>

lemma split_authority_plain:
  assumes "CHR '':'' \<notin> set h" and "h = [] \<or> hd h \<noteq> CHR ''[''"
  shows "ns_freenet_split_authority (h @ CHR '':'' # p) = (h, Some p)"
    and "ns_freenet_split_authority h = (h, None)"
proof -
  have tw: "takeWhile (\<lambda>c. c \<noteq> CHR '':'') (h @ CHR '':'' # p) = h"
    using assms(1) by (induction h) auto
  have "hd (h @ CHR '':'' # p) \<noteq> CHR ''[''" using assms(2) by (cases h) auto
  then have "authority_colon (h @ CHR '':'' # p) = length h"
    by (simp add: authority_colon_def tw)
  then show "ns_freenet_split_authority (h @ CHR '':'' # p) = (h, Some p)"
    by (simp add: ns_freenet_split_authority_def)
  have tw2: "takeWhile (\<lambda>c. c \<noteq> CHR '':'') h = h"
    using assms(1) by (auto simp: takeWhile_eq_all_conv)
  have "\<not> (h \<noteq> [] \<and> hd h = CHR ''['')" using assms(2) by blast
  then have "authority_colon h = length h"
    unfolding authority_colon_def by (simp only: if_False tw2)
  then show "ns_freenet_split_authority h = (h, None)"
    by (simp add: ns_freenet_split_authority_def)
qed

lemma default_gateway: "ns_freenet_gateway_base None False = Some ''http://127.0.0.1:7509''"
  by code_simp

lemma default_gateway_authority:
  "ns_freenet_authority_is_gateway None a =
     (let (host, port) = ns_freenet_split_authority a in
      port_text port = ''7509'' \<and> (strcaseeq host ''127.0.0.1'' \<or> ns_freenet_host_is_loopback host))"
proof -
  have g: "strstr ''http://127.0.0.1:7509'' ''://'' = Some ''://127.0.0.1:7509''" by simp
  have sp: "ns_freenet_split_authority ''127.0.0.1:7509'' = (''127.0.0.1'', Some ''7509'')" by code_simp
  have lo: "ns_freenet_host_is_loopback ''127.0.0.1''" by code_simp
  have eq: "length host = length ''127.0.0.1'' \<and> strncaseeq (length host) host ''127.0.0.1''
      \<longleftrightarrow> strcaseeq host ''127.0.0.1''" for host
    using strcaseeq_length [of host "''127.0.0.1''"] by (auto simp: strncaseeq_def strcaseeq_def)
  have dr: "drop 3 ''://127.0.0.1:7509'' = ''127.0.0.1:7509''" by simp
  have pt: "port_text (Some ''7509'') = ''7509''" by (simp add: port_text_def)
  obtain host port where hp: "ns_freenet_split_authority a = (host, port)"
    by (cases "ns_freenet_split_authority a") auto
  show ?thesis
    unfolding ns_freenet_authority_is_gateway_def default_gateway option.case g Let_def dr sp hp prod.case pt eq
    using lo by metis
qed

lemma find_scheme_node:
  assumes "s \<in> {''ws://'', ''wss://'', ''http://'', ''https://''}"
  shows "\<exists>w. find_scheme node_schemes (s @ u) = Some (u, w)"
  using assms
  by (auto simp: node_schemes_def strncaseeq_def g_ascii_strdown_def g_ascii_tolower_def
      g_ascii_isupper_def)

lemma default_gateway_endpoint:
  assumes "s \<in> {''ws://'', ''wss://'', ''http://'', ''https://''}"
    and "set h \<inter> set '':/?#'' = {}" and "h = [] \<or> hd h \<noteq> CHR ''[''"
    and "t = [] \<or> hd t \<in> set ''/?#''"
  shows "ns_freenet_is_node_endpoint None (s @ h @ '':7509'' @ t) \<longleftrightarrow>
     strcaseeq h ''127.0.0.1'' \<or> ns_freenet_host_is_loopback h"
proof -
  obtain w where w: "find_scheme node_schemes (s @ h @ '':7509'' @ t) = Some (h @ '':7509'' @ t, w)"
    using find_scheme_node [OF assms(1)] by blast
  have "cspan ''/?#'' ((h @ '':7509'') @ t) = h @ '':7509''"
    by (rule cspan_stop(1)) (use assms in auto)
  moreover have "ns_freenet_split_authority (h @ '':7509'') = (h, Some ''7509'')"
    using split_authority_plain(1) [of h "''7509''"] assms(2,3) by auto
  ultimately show ?thesis
    using w by (simp add: ns_freenet_is_node_endpoint_def default_gateway_authority port_text_def)
qed





section \<open>Properties: the contract cache and the localised policy\<close>

text \<open>the cache of known contracts asks the node at most once in thirty seconds.
  A lookup that follows a refresh within that time asks nothing and leaves the cache as it
  is, and whatever either lookup returns is a contract the cache holds whose key equals
  the host up to letter case.\<close>

theorem freenet_contract_cache_fresh:
  assumes "ns_freenet_known_contract_for_host rs d now later st host = (r, st1, True)"
    and "now2 - later \<le> NS_FREENET_CONTRACT_CACHE_US"
  shows "\<exists>r2. ns_freenet_known_contract_for_host rs d2 now2 later2 st1 host2 = (r2, st1, False) \<and>
     (\<forall>k. r2 = Some k \<longrightarrow> strcaseeq k host2 \<and> (\<exists>ks. g_known_contracts st1 = Some ks \<and> k \<in> set ks))"
proof -
  from assms(1) obtain ks where st1: "g_known_contracts st1 = Some ks" "g_known_contracts_at st1 = later"
    by (auto simp: ns_freenet_known_contract_for_host_def Let_def split: if_splits)
  with assms(2) show ?thesis
    by (auto simp: ns_freenet_known_contract_for_host_def Let_def find_Some_iff)
qed

theorem freenet_contract_cache_fresh_witness:
  "let k = ''3VgtmdXDHDEW3atupXiEThTneSheFtNfV2UiZxSJr7dh'';
       st1 = \<lparr>g_known_contracts = Some [k], g_known_contracts_at = 7\<rparr> in
   ns_freenet_known_contract_for_host (\<lambda>_. None) (Some k) 5 7
     \<lparr>g_known_contracts = None, g_known_contracts_at = 0\<rparr> k = (Some k, st1, True) \<and>
   (\<exists>r2. ns_freenet_known_contract_for_host (\<lambda>_. None) None 30000007 30000008 st1 k = (r2, st1, False))"
proof -
  let ?k = "''3VgtmdXDHDEW3atupXiEThTneSheFtNfV2UiZxSJr7dh''"
  let ?st1 = "\<lparr>g_known_contracts = Some [?k], g_known_contracts_at = 7\<rparr>"
  have a: "ns_freenet_known_contract_for_host (\<lambda>_. None) (Some ?k) 5 7
     \<lparr>g_known_contracts = None, g_known_contracts_at = 0\<rparr> ?k = (Some ?k, ?st1, True)"
    by code_simp
  have b: "30000007 - 7 \<le> NS_FREENET_CONTRACT_CACHE_US" by (simp add: NS_FREENET_CONTRACT_CACHE_US_def)
  from freenet_contract_cache_fresh [OF a b, of None 30000008 ?k] a show ?thesis
    unfolding Let_def by blast
qed

lemma strstr_None_no_occurrence: "strstr s d = None \<Longrightarrow> \<not> sublist d s"
  by (induction s) (auto simp: sublist_Cons_right has_prefix_iff_prefix split: if_splits)

lemma strstr_before_no_occurrence:
  "strstr (p @ t) d = Some t \<Longrightarrow> d \<noteq> [] \<Longrightarrow> \<not> sublist d p"
proof (induction p)
  case (Cons x p)
  have "length t < length (x # p @ t)" by simp
  with Cons.prems(1) have no: "\<not> g_str_has_prefix (x # p @ t) d"
    by (metis append_Cons less_irrefl option.inject strstr.simps(2))
  with Cons have "\<not> sublist d p" by simp
  moreover from no have "\<not> prefix d (x # p)"
    by (metis append_Cons has_prefix_iff_prefix prefix_prefix)
  ultimately show ?case by (simp add: sublist_Cons_right)
qed simp

lemma split_on_pieces:
  assumes "delim \<noteq> []"
  shows "g_strjoinv delim (split_on delim s) = s \<and> split_on delim s \<noteq> [] \<and>
     (\<forall>p \<in> set (split_on delim s). \<not> sublist delim p)"
  using assms
proof (induction delim s rule: split_on.induct)
  case (1 delim s)
  show ?case
  proof (cases "strstr s delim")
    case None
    with "1.prems" strstr_None_no_occurrence [OF None] show ?thesis
      by (simp add: split_on.simps [of delim s])
  next
    case (Some t)
    then obtain p where s: "s = p @ t" and d: "prefix delim t" by (auto dest: strstr_Some)
    let ?u = "drop (length delim) t"
    from d have t: "t = delim @ ?u" by (auto simp: prefix_def)
    have split: "split_on delim s = p # split_on delim ?u"
      using Some "1.prems" by (simp add: split_on.simps [of delim s]) (simp add: s)
    have IH: "g_strjoinv delim (split_on delim ?u) = ?u" "split_on delim ?u \<noteq> []"
        "\<forall>q \<in> set (split_on delim ?u). \<not> sublist delim q"
      using "1.IH" [OF "1.prems" Some "1.prems"] by blast+
    from IH(2) have "g_strjoinv delim (p # split_on delim ?u) = p @ delim @ g_strjoinv delim (split_on delim ?u)"
      by (cases "split_on delim ?u") auto
    with IH s t have "g_strjoinv delim (split_on delim s) = s" unfolding split by metis
    moreover have "\<not> sublist delim p"
      using strstr_before_no_occurrence Some s "1.prems" by blast
    ultimately show ?thesis using split IH(3) by simp
  qed
qed

lemma split_on_occurs: "strstr s delim \<noteq> None \<Longrightarrow> delim \<noteq> [] \<Longrightarrow> 2 \<le> length (split_on delim s)"
  using split_on_pieces [of delim]
  by (auto simp: split_on.simps [of delim s] Suc_le_eq split: option.splits)

text \<open>localising a policy rewrites every occurrence of the gateway in it, and nothing
  else: the policy is a sequence of pieces that do not mention the gateway, joined by the
  gateway, and the result is the same pieces joined by the gateway followed by the page's
  own \<^verbatim>\<open>freenet:\<close> origin.\<close>

theorem freenet_localize_csp_rewrites:
  assumes "ns_freenet_localize_csp cfg csp url = Some out"
  shows "\<exists>base key pieces. ns_freenet_gateway_base cfg False = Some base \<and>
     ns_freenet_key_of url = Some key \<and> 2 \<le> length pieces \<and>
     (\<forall>p \<in> set pieces. \<not> sublist base p) \<and>
     csp = g_strjoinv base pieces \<and> out = g_strjoinv (base @ '' freenet://'' @ key) pieces"
proof -
  from assms obtain base key where b: "ns_freenet_gateway_base cfg False = Some base"
      and k: "ns_freenet_key_of url = Some key" and c: "csp \<noteq> []" "strstr csp base \<noteq> None"
      and o: "out = g_strjoinv (base @ '' freenet://'' @ key) (g_strsplit csp base)"
    by (auto simp: ns_freenet_localize_csp_def split: if_splits option.splits)
  from b have "base \<noteq> []"
    by (auto simp: ns_freenet_gateway_base_def Let_def split: if_splits)
  with c(2) split_on_pieces [of base csp] split_on_occurs [of csp base] b k o c(1) show ?thesis
    by (auto simp: g_strsplit_def intro!: exI [of _ "split_on base csp"])
qed

theorem freenet_localize_csp_rewrites_witness:
  "ns_freenet_localize_csp (Some ''n:1'') ''img-src http://n:1 data:'' ''freenet:9abC'' =
     Some ''img-src http://n:1 freenet://9abC data:'' \<and>
   (\<exists>base pieces. ns_freenet_gateway_base (Some ''n:1'') False = Some base \<and>
     ''img-src http://n:1 data:'' = g_strjoinv base pieces \<and> (\<forall>p \<in> set pieces. \<not> sublist base p))"
proof -
  have a: "ns_freenet_localize_csp (Some ''n:1'') ''img-src http://n:1 data:'' ''freenet:9abC'' =
     Some ''img-src http://n:1 freenet://9abC data:''"
    by code_simp
  from freenet_localize_csp_rewrites [OF a] a show ?thesis by blast
qed

end
