(* ===== verification/NS_Url.thy ===== *)
theory NS_Url
  imports NS_Freenet
begin

text \<open>
  The URL layer of \<^verbatim>\<open>src/net.c\<close>: origins, sites, the split of a URL into its parts
  and the referrer.  The WHATWG URL parser is the third-party library lexbor; it is the
  parameter \<^verbatim>\<open>lxb\<close>, a function from a string to the parsed record (\<^const>\<open>None\<close> for a parse
  failure), and the public suffix list is the parameter \<^verbatim>\<open>psl\<close>.  The serialisers of lexbor
  write through a callback that always succeeds (\<^verbatim>\<open>ns_url_str_append_cb\<close>), so the record
  holds the serialised components.
\<close>

section \<open>Parsed URLs\<close>

record lxb_url =
  lxb_href :: string
  lxb_scheme :: string
  lxb_host :: "string option"  \<comment> \<open>\<^const>\<open>None\<close>: undefined or empty host type\<close>
  lxb_port :: "nat option"     \<comment> \<open>\<^const>\<open>None\<close>: no explicit port\<close>
  lxb_path :: string
  lxb_query :: string
  lxb_fragment :: string
  lxb_username :: string
  lxb_password :: string

type_synonym url_parser = "string \<Rightarrow> lxb_url option"

record ns_url_parts =
  up_href :: string
  up_protocol :: string
  up_origin :: string
  up_host :: string
  up_hostname :: string
  up_port :: string
  up_pathname :: string
  up_search :: string
  up_hash :: string
  up_username :: string
  up_password :: string

text \<open>The decimal digits \<^verbatim>\<open>printf("%u")\<close> writes.\<close>

fun show_nat :: "nat \<Rightarrow> string" where
  "show_nat n = (if n < 10 then [char_of (48 + n)] else show_nat (n div 10) @ [char_of (48 + n mod 10)])"

declare show_nat.simps [simp del]

definition ns_url_is_http_or_https :: "string \<Rightarrow> bool" where
  "ns_url_is_http_or_https url \<longleftrightarrow> g_str_has_prefix url ''http://'' \<or> g_str_has_prefix url ''https://''"

definition ns_url_parse_with_host :: "url_parser \<Rightarrow> string \<Rightarrow> (lxb_url \<times> string) option" where
  "ns_url_parse_with_host lxb url =
     (case lxb url of
        None \<Rightarrow> None
      | Some u \<Rightarrow> (case lxb_host u of None \<Rightarrow> None | Some h \<Rightarrow> Some (u, h)))"

definition port_suffix :: "nat option \<Rightarrow> string" where
  "port_suffix p = (case p of None \<Rightarrow> [] | Some n \<Rightarrow> '':'' @ show_nat n)"

definition ns_url_origin_from :: "url_parser \<Rightarrow> string \<Rightarrow> string option" where
  "ns_url_origin_from lxb url =
     (if url = [] then None
      else if \<not> ns_url_is_http_or_https url \<and> \<not> ns_freenet_is_url url then None
      else case ns_url_parse_with_host lxb url of
             None \<Rightarrow> None
           | Some (u, h) \<Rightarrow> Some (lxb_scheme u @ ''://'' @ h @ port_suffix (lxb_port u)))"

definition ns_url_same_origin :: "url_parser \<Rightarrow> string \<Rightarrow> string \<Rightarrow> bool" where
  "ns_url_same_origin lxb a b =
     (case (ns_url_origin_from lxb a, ns_url_origin_from lxb b) of
        (Some oa, Some ob) \<Rightarrow> oa \<noteq> [] \<and> ob \<noteq> [] \<and> strcaseeq oa ob
      | _ \<Rightarrow> False)"

definition ns_url_host_from :: "url_parser \<Rightarrow> string \<Rightarrow> string option" where
  "ns_url_host_from lxb url =
     (case ns_url_parse_with_host lxb url of
        None \<Rightarrow> None
      | Some (u, h) \<Rightarrow> if h \<noteq> [] then Some h else None)"

definition url_parts_of :: "string \<Rightarrow> lxb_url \<Rightarrow> ns_url_parts" where
  "url_parts_of url u =
     (let protocol = (if lxb_scheme u \<noteq> [] then lxb_scheme u @ '':'' else []);
          hostname = (case lxb_host u of None \<Rightarrow> [] | Some h \<Rightarrow> h);
          port = (case lxb_port u of None \<Rightarrow> [] | Some n \<Rightarrow> show_nat n);
          host = (if hostname \<noteq> [] \<and> port \<noteq> [] then hostname @ '':'' @ port else hostname);
          tuple_origin = (hostname \<noteq> [] \<and>
             protocol \<in> {''http:'', ''https:'', ''ws:'', ''wss:'', ''ftp:'', ''freenet:''})
      in \<lparr>up_href = (if lxb_href u = [] then url else lxb_href u),
          up_protocol = protocol,
          up_origin = (if tuple_origin then protocol @ ''//'' @ host else ''null''),
          up_host = host, up_hostname = hostname, up_port = port,
          up_pathname = lxb_path u,
          up_search = (if lxb_query u \<noteq> [] then ''?'' @ lxb_query u else []),
          up_hash = (if lxb_fragment u \<noteq> [] then ''#'' @ lxb_fragment u else []),
          up_username = lxb_username u, up_password = lxb_password u\<rparr>)"

text \<open>A \<^verbatim>\<open>blob:\<close> URL takes the origin of the HTTP URL in its path; the recursion of the C
  code is one level deep (\<^verbatim>\<open>depth == 0\<close>), so the inner call is the plain conversion.\<close>

definition ns_url_parts_new :: "url_parser \<Rightarrow> string \<Rightarrow> ns_url_parts option" where
  "ns_url_parts_new lxb url =
     (case lxb url of
        None \<Rightarrow> None
      | Some u \<Rightarrow>
          let p = url_parts_of url u in
          if up_protocol p = ''blob:'' \<and> up_pathname p \<noteq> [] then
            (case lxb (up_pathname p) of
               None \<Rightarrow> Some p
             | Some iu \<Rightarrow>
                 let inner = url_parts_of (up_pathname p) iu in
                 if up_protocol inner = ''http:'' \<or> up_protocol inner = ''https:''
                 then Some (p\<lparr>up_origin := up_origin inner\<rparr>) else Some p)
          else Some p)"

definition ns_url_is_valid_absolute :: "url_parser \<Rightarrow> string \<Rightarrow> bool" where
  "ns_url_is_valid_absolute lxb url =
     (if url = [] then False
      else if list_ex (\<lambda>c. c \<in> set ('' '' @ [CHR 0x09, CHR 0x0A, CHR 0x0D, CHR 0x0C])) url then False
      else case ns_url_parts_new lxb url of None \<Rightarrow> False | Some p \<Rightarrow> up_protocol p \<noteq> [])"

section \<open>The referrer\<close>

datatype ns_referer_policy = NS_REFERER_NO_REFERRER | NS_REFERER_SAME_ORIGIN
  | NS_REFERER_STRICT_ORIGIN_WHEN_CROSS | NS_REFERER_UNSAFE_URL

definition ns_net_referer_for ::
    "url_parser \<Rightarrow> string \<Rightarrow> string \<Rightarrow> ns_referer_policy \<Rightarrow> string option" where
  "ns_net_referer_for lxb url top_url policy =
     (if top_url = [] \<or> \<not> ns_url_is_http_or_https url \<or> \<not> ns_url_is_http_or_https top_url \<or>
         policy = NS_REFERER_NO_REFERRER then None
      else if g_str_has_prefix top_url ''https://'' \<and> g_str_has_prefix url ''http://'' then None
      else let same_origin = ns_url_same_origin lxb top_url url in
        if policy = NS_REFERER_SAME_ORIGIN \<and> \<not> same_origin then None
        else if policy = NS_REFERER_UNSAFE_URL \<or> same_origin then
          (case ns_url_parts_new lxb top_url of
             None \<Rightarrow> None
           | Some p \<Rightarrow> if up_origin p = [] then None
                       else Some (up_origin p @ up_pathname p @ up_search p))
        else map_option (\<lambda>o'. o' @ ''/'') (ns_url_origin_from lxb top_url))"

section \<open>Sites\<close>

definition ns_url_site_from :: "(string \<Rightarrow> string option) \<Rightarrow> url_parser \<Rightarrow> string \<Rightarrow> string option" where
  "ns_url_site_from psl lxb url =
     (if url = [] then None
      else case ns_url_parts_new lxb url of
             None \<Rightarrow> None
           | Some p \<Rightarrow>
               let lower = g_ascii_strdown (up_hostname p);
                   site_host = (case psl lower of
                                  Some reg \<Rightarrow> if reg \<noteq> [] then reg else up_hostname p
                                | None \<Rightarrow> up_hostname p)
               in if up_port p \<noteq> [] then Some (up_protocol p @ ''://'' @ site_host @ '':'' @ up_port p)
                  else Some (up_protocol p @ ''://'' @ site_host))"

text \<open>\<^verbatim>\<open>ha\<close> ends with a dot and \<^verbatim>\<open>hb\<close>, up to letter case.\<close>

definition host_below :: "string \<Rightarrow> string \<Rightarrow> bool" where
  "host_below ha hb \<longleftrightarrow> length ha > length hb + 1 \<and> ha ! (length ha - length hb - 1) = CHR ''.'' \<and>
     strncaseeq (length hb) (drop (length ha - length hb) ha) hb"

definition ns_url_is_same_site ::
    "(string \<Rightarrow> string option) \<Rightarrow> url_parser \<Rightarrow> string \<Rightarrow> string \<Rightarrow> bool" where
  "ns_url_is_same_site psl lxb a b =
     (case (ns_url_site_from psl lxb a, ns_url_site_from psl lxb b) of
        (Some sa, Some sb) \<Rightarrow> strcaseeq sa sb
      | _ \<Rightarrow>
          (case (ns_url_host_from lxb a, ns_url_host_from lxb b) of
             (Some ha, Some hb) \<Rightarrow> strcaseeq ha hb \<or> host_below ha hb \<or> host_below hb ha
           | _ \<Rightarrow> False))"

section \<open>Properties: origins\<close>

text \<open>same-origin is a partial equivalence relation, whatever the URL parser does:
  it is symmetric and transitive, it holds between a URL and itself exactly when the URL
  has an origin, and a URL of any other scheme (\<^verbatim>\<open>data:\<close>, \<^verbatim>\<open>about:\<close>, \<^verbatim>\<open>file:\<close>) is same-origin
  with nothing, not even itself.\<close>

theorem same_origin_equivalence:
  "(ns_url_same_origin lxb a b \<longleftrightarrow> ns_url_same_origin lxb b a) \<and>
   (ns_url_same_origin lxb a b \<and> ns_url_same_origin lxb b c \<longrightarrow> ns_url_same_origin lxb a c) \<and>
   (ns_url_same_origin lxb a a \<longleftrightarrow> ns_url_origin_from lxb a \<noteq> None) \<and>
   (ns_url_same_origin lxb a b \<longrightarrow> (ns_url_is_http_or_https a \<or> ns_freenet_is_url a) \<and>
      (ns_url_is_http_or_https b \<or> ns_freenet_is_url b))"
proof -
  have ne: "o' \<noteq> []" if "ns_url_origin_from lxb u = Some o'" for u o'
    using that by (auto simp: ns_url_origin_from_def split: if_splits option.splits)
  have sch: "ns_url_is_http_or_https u \<or> ns_freenet_is_url u" if "ns_url_origin_from lxb u \<noteq> None" for u
    using that by (auto simp: ns_url_origin_from_def split: if_splits)
  show ?thesis
    using sch [of a] sch [of b]
    by (auto simp: ns_url_same_origin_def strcaseeq_def dest: ne split: option.splits)
qed

theorem same_origin_equivalence_witness:
  "\<exists>lxb. ns_url_same_origin lxb ''http://a/'' ''http://A/x'' \<and> ns_url_same_origin lxb ''http://A/x'' ''http://a/''"
proof -
  let ?u = "\<lparr>lxb_href = [], lxb_scheme = ''http'', lxb_host = Some ''a'', lxb_port = None, lxb_path = ''/'',
     lxb_query = [], lxb_fragment = [], lxb_username = [], lxb_password = []\<rparr>"
  let ?lxb = "\<lambda>s. if s = ''http://a/'' then Some ?u
     else if s = ''http://A/x'' then Some (?u\<lparr>lxb_host := Some ''A''\<rparr>) else None"
  have "ns_url_same_origin ?lxb ''http://a/'' ''http://A/x''" by code_simp
  then show ?thesis using same_origin_equivalence [of ?lxb "''http://a/''" "''http://A/x''"] by blast
qed

text \<open>The documented behaviour of the WHATWG parser on canonical contract URLs: the scheme
  is not special, so the host is opaque and is kept as written, and there is no port.\<close>

definition freenet_hosts_opaque :: "url_parser \<Rightarrow> bool" where
  "freenet_hosts_opaque lxb \<longleftrightarrow>
     (\<forall>k r. ns_freenet_key_is_valid k \<longrightarrow>
        (\<exists>u. lxb (''freenet://'' @ k @ ''/'' @ r) = Some u \<and> lxb_scheme u = ''freenet'' \<and>
             lxb_host u = Some k \<and> lxb_port u = None))"

lemma freenet_origin:
  assumes "freenet_hosts_opaque lxb" and "ns_freenet_key_is_valid k"
  shows "ns_url_origin_from lxb (''freenet://'' @ k @ ''/'' @ r) = Some (''freenet://'' @ k)"
proof -
  from assms obtain u where u: "lxb (''freenet://'' @ k @ ''/'' @ r) = Some u" "lxb_scheme u = ''freenet''"
      "lxb_host u = Some k" "lxb_port u = None"
    unfolding freenet_hosts_opaque_def by blast
  have "ns_freenet_is_url (''freenet://'' @ k @ ''/'' @ r)"
    by (simp add: ns_freenet_is_url_def strncaseeq_def)
  with u show ?thesis
    by (simp add: ns_url_origin_from_def ns_url_parse_with_host_def port_suffix_def)
qed

text \<open>C11: two canonical contract URLs are same-origin exactly when their keys agree up to
  letter case, whatever their paths.  Different contracts are therefore different origins
  only when their keys differ in more than case, although base-58 keys are case-sensitive.\<close>

theorem freenet_same_origin_up_to_case:
  assumes "freenet_hosts_opaque lxb"
    and "ns_freenet_canonical_url a = Some a'" and "ns_freenet_canonical_url b = Some b'"
  shows "ns_url_same_origin lxb a' b' \<longleftrightarrow>
     strcaseeq (the (ns_freenet_key_of a)) (the (ns_freenet_key_of b))"
proof -
  obtain k r where a: "ns_freenet_split a = Some (k, r)" "a' = ''freenet://'' @ k @ ''/'' @ r"
    using assms(2) by (auto simp: ns_freenet_canonical_url_def split: option.splits)
  obtain l s where b: "ns_freenet_split b = Some (l, s)" "b' = ''freenet://'' @ l @ ''/'' @ s"
    using assms(3) by (auto simp: ns_freenet_canonical_url_def split: option.splits)
  show ?thesis
    using freenet_origin [OF assms(1) split_result(1) [OF a(1)], of r]
      freenet_origin [OF assms(1) split_result(1) [OF b(1)], of s] a b
    by (simp add: ns_url_same_origin_def ns_freenet_key_of_def strcaseeq_def strdown_Cons)
qed

definition opaque_parser :: url_parser where
  "opaque_parser s = (if take 10 s = ''freenet://'' then
     Some \<lparr>lxb_href = s, lxb_scheme = ''freenet'', lxb_host = Some (cspan ''/?#'' (drop 10 s)), lxb_port = None,
       lxb_path = [], lxb_query = [], lxb_fragment = [], lxb_username = [], lxb_password = []\<rparr> else None)"

lemma opaque_parser_opaque: "freenet_hosts_opaque opaque_parser"
  unfolding freenet_hosts_opaque_def
proof (intro allI impI)
  fix k r assume "ns_freenet_key_is_valid k"
  then have "cspan ''/?#'' (k @ ''/'' @ r) = k"
    by (intro cspan_stop(1)) (auto dest: key_valid_disjoint)
  then show "\<exists>u. opaque_parser (''freenet://'' @ k @ ''/'' @ r) = Some u \<and> lxb_scheme u = ''freenet'' \<and>
      lxb_host u = Some k \<and> lxb_port u = None"
    by (simp add: opaque_parser_def)
qed

theorem freenet_same_origin_up_to_case_witness:
  "freenet_hosts_opaque opaque_parser \<and>
   ns_url_same_origin opaque_parser ''freenet://9abC/'' ''freenet://9abc/x'' \<and>
   \<not> ns_url_same_origin opaque_parser ''freenet://9abC/'' ''freenet://9abd/''"
proof -
  have c: "ns_freenet_canonical_url ''freenet:9abC'' = Some ''freenet://9abC/''"
    "ns_freenet_canonical_url ''freenet:9abc/x'' = Some ''freenet://9abc/x''"
    "ns_freenet_canonical_url ''freenet:9abd'' = Some ''freenet://9abd/''"
    by code_simp+
  have k: "strcaseeq (the (ns_freenet_key_of ''freenet:9abC'')) (the (ns_freenet_key_of ''freenet:9abc/x''))"
    "\<not> strcaseeq (the (ns_freenet_key_of ''freenet:9abC'')) (the (ns_freenet_key_of ''freenet:9abd''))"
    by code_simp+
  from freenet_same_origin_up_to_case [OF opaque_parser_opaque c(1) c(2)]
    freenet_same_origin_up_to_case [OF opaque_parser_opaque c(1) c(3)] k opaque_parser_opaque
  show ?thesis by blast
qed

text \<open>what a request discloses about the page it comes from.  A referrer is only sent
  between web pages, never from HTTPS to HTTP and never under the no-referrer policy; under
  the default policy a request to another origin is told the origin and nothing else, and
  under the same-origin policy it is told nothing.\<close>

theorem referer_disclosure:
  assumes "ns_net_referer_for lxb url tp policy = Some r"
  shows "policy \<noteq> NS_REFERER_NO_REFERRER \<and> ns_url_is_http_or_https url \<and> ns_url_is_http_or_https tp \<and>
    \<not> (g_str_has_prefix tp ''https://'' \<and> g_str_has_prefix url ''http://'') \<and>
    (\<not> ns_url_same_origin lxb tp url \<longrightarrow> policy \<noteq> NS_REFERER_SAME_ORIGIN \<and>
       (policy = NS_REFERER_STRICT_ORIGIN_WHEN_CROSS \<longrightarrow>
          (\<exists>o'. ns_url_origin_from lxb tp = Some o' \<and> r = o' @ ''/'')))"
  using assms
  by (cases policy) (auto simp: ns_net_referer_for_def Let_def split: if_splits)

theorem referer_disclosure_witness:
  "let u = \<lparr>lxb_href = [], lxb_scheme = ''https'', lxb_host = Some ''a'', lxb_port = None, lxb_path = ''/p'',
       lxb_query = ''q'', lxb_fragment = [], lxb_username = [], lxb_password = []\<rparr>;
     lxb = \<lambda>s. if s = ''https://a/p?q'' then Some u
       else if s = ''https://b/'' then Some (u\<lparr>lxb_host := Some ''b''\<rparr>) else None in
   ns_net_referer_for lxb ''https://b/'' ''https://a/p?q'' NS_REFERER_STRICT_ORIGIN_WHEN_CROSS = Some ''https://a/'' \<and>
   ns_url_is_http_or_https ''https://b/''"
proof -
  let ?u = "\<lparr>lxb_href = [], lxb_scheme = ''https'', lxb_host = Some ''a'', lxb_port = None, lxb_path = ''/p'',
       lxb_query = ''q'', lxb_fragment = [], lxb_username = [], lxb_password = []\<rparr>"
  let ?lxb = "\<lambda>s. if s = ''https://a/p?q'' then Some ?u
       else if s = ''https://b/'' then Some (?u\<lparr>lxb_host := Some ''b''\<rparr>) else None"
  have "ns_net_referer_for ?lxb ''https://b/'' ''https://a/p?q'' NS_REFERER_STRICT_ORIGIN_WHEN_CROSS = Some ''https://a/''"
    by code_simp
  from referer_disclosure [OF this] this show ?thesis unfolding Let_def by blast
qed

end
