(* ===== verification/NS_Csp.thy ===== *)
theory NS_Csp
  imports NS_Url
begin

text \<open>
  The Content-Security-Policy parser and checks of \<^verbatim>\<open>src/csp.c\<close>.  A policy is the pair of
  arrays of the C struct, indexed by the directive kind; a header is a list of policies, all of
  which must allow a request.  The URL parser is the parameter \<^verbatim>\<open>lxb\<close> of \<^verbatim>\<open>NS_Url\<close>, and the
  base-64 digest of a script body (GLib's \<^verbatim>\<open>GChecksum\<close> and \<^verbatim>\<open>g_base64_encode\<close>) is the parameter
  \<^verbatim>\<open>digest\<close>.
\<close>

section \<open>Policies\<close>

datatype ns_csp_kind = NS_CSP_DEFAULT | NS_CSP_SCRIPT | NS_CSP_STYLE | NS_CSP_IMG | NS_CSP_MEDIA
  | NS_CSP_CONNECT | NS_CSP_FONT | NS_CSP_FRAME | NS_CSP_CHILD | NS_CSP_WORKER
  | NS_CSP_FRAME_ANCESTORS | NS_CSP_OBJECT | NS_CSP_BASE_URI | NS_CSP_FORM_ACTION | NS_CSP_KIND_COUNT

record ns_csp_policy =
  pol_sources :: "ns_csp_kind \<Rightarrow> string list option"
  pol_set :: "ns_csp_kind \<Rightarrow> bool"

type_synonym ns_csp = "ns_csp_policy list"

definition directive_map :: "(string \<times> ns_csp_kind) list" where
  "directive_map =
    [(''default-src'', NS_CSP_DEFAULT), (''script-src'', NS_CSP_SCRIPT), (''style-src'', NS_CSP_STYLE),
     (''img-src'', NS_CSP_IMG), (''media-src'', NS_CSP_MEDIA), (''connect-src'', NS_CSP_CONNECT),
     (''font-src'', NS_CSP_FONT), (''frame-src'', NS_CSP_FRAME), (''child-src'', NS_CSP_CHILD),
     (''worker-src'', NS_CSP_WORKER), (''frame-ancestors'', NS_CSP_FRAME_ANCESTORS),
     (''object-src'', NS_CSP_OBJECT), (''base-uri'', NS_CSP_BASE_URI),
     (''form-action'', NS_CSP_FORM_ACTION)]"

definition directive_kind :: "string \<Rightarrow> ns_csp_kind" where
  "directive_kind name =
     (case List.find (\<lambda>(n, k). strcaseeq name n) directive_map of
        Some (n, k) \<Rightarrow> k | None \<Rightarrow> NS_CSP_KIND_COUNT)"

definition empty_policy :: ns_csp_policy where
  "empty_policy = \<lparr>pol_sources = (\<lambda>_. None), pol_set = (\<lambda>_. False)\<rparr>"

definition clause_tokens :: "string \<Rightarrow> string list" where
  "clause_tokens clause = g_strsplit_set clause ('' '' @ [CHR 0x09])"

definition source_tokens :: "string list \<Rightarrow> string list" where
  "source_tokens toks = filter (\<lambda>t. t \<noteq> []) (map g_strstrip (tl toks))"

definition policy_add_clause :: "ns_csp_policy \<Rightarrow> string \<Rightarrow> ns_csp_policy" where
  "policy_add_clause p raw =
     (let clause = g_strstrip raw in
      if clause = [] then p
      else let toks = clause_tokens clause in
        if toks = [] then p
        else let k = directive_kind (hd toks) in
          if k = NS_CSP_KIND_COUNT \<or> pol_set p k then p
          else p\<lparr>pol_set := (pol_set p)(k := True),
                 pol_sources := (pol_sources p)(k := Some
                   ((case pol_sources p k of None \<Rightarrow> [] | Some ss \<Rightarrow> ss) @ source_tokens toks))\<rparr>)"

definition policy_parse :: "string \<Rightarrow> ns_csp_policy" where
  "policy_parse policy_text = foldl policy_add_clause empty_policy (g_strsplit_set policy_text '';'')"

definition ns_csp_parse :: "string \<Rightarrow> ns_csp option" where
  "ns_csp_parse header_value =
     (if header_value = [] then None
      else let policies = map policy_parse
                 (filter (\<lambda>t. t \<noteq> []) (map g_strstrip (g_strsplit_set header_value '','')))
           in if policies = [] then None else Some policies)"

text \<open>Merging moves the policies of the second header to the first and empties the second.\<close>

definition ns_csp_merge :: "ns_csp option \<Rightarrow> ns_csp option \<Rightarrow> ns_csp option \<times> ns_csp option" where
  "ns_csp_merge dst src =
     (case (dst, src) of
        (Some d, Some s) \<Rightarrow> (Some (d @ s), Some [])
      | _ \<Rightarrow> (dst, src))"

section \<open>Matching a source expression\<close>

definition char_at :: "string \<Rightarrow> nat \<Rightarrow> char option" where
  "char_at s i = (if i < length s then Some (s ! i) else None)"

definition url_scheme_matches :: "string \<Rightarrow> string \<Rightarrow> bool" where
  "url_scheme_matches url scheme_with_colon =
     (let n = length scheme_with_colon in
      if n = 0 then False
      else let cmp_len = (if last scheme_with_colon = CHR '':'' then n - 1 else n) in
        strncaseeq cmp_len url scheme_with_colon \<and> char_at url cmp_len = Some (CHR '':''))"

definition scheme_part_matches :: "string \<Rightarrow> nat \<Rightarrow> string \<Rightarrow> bool" where
  "scheme_part_matches scheme n url =
     (if strncaseeq n url scheme \<and> char_at url n = Some (CHR '':'') then True
      else if n = 4 \<and> strncaseeq 4 scheme ''http'' then strncaseeq 6 url ''https:''
      else if n = 2 \<and> strncaseeq 2 scheme ''ws'' then strncaseeq 4 url ''wss:''
      else False)"

definition is_network_scheme_url :: "string \<Rightarrow> bool" where
  "is_network_scheme_url url =
     list_ex (url_scheme_matches url) [''http:'', ''https:'', ''ws:'', ''wss:'', ''ftp:'']"

definition default_port_for_scheme :: "string \<Rightarrow> string" where
  "default_port_for_scheme scheme =
     (let n = (if scheme \<noteq> [] \<and> last scheme = CHR '':'' then length scheme - 1 else length scheme) in
      if (n = 5 \<and> strncaseeq 5 scheme ''https'') \<or> (n = 3 \<and> strncaseeq 3 scheme ''wss'') then ''443''
      else if (n = 4 \<and> strncaseeq 4 scheme ''http'') \<or> (n = 2 \<and> strncaseeq 2 scheme ''ws'') then ''80''
      else if n = 3 \<and> strncaseeq 3 scheme ''ftp'' then ''21''
      else [])"

definition csp_port_matches :: "string option \<Rightarrow> string \<Rightarrow> string \<Rightarrow> bool" where
  "csp_port_matches src_port res_port res_scheme =
     (if src_port = Some ''*'' then True
      else if src_port = None \<or> src_port = Some [] then
        (if res_port = [] then True
         else let d = default_port_for_scheme res_scheme in d \<noteq> [] \<and> res_port = d)
      else let rp = (if res_port \<noteq> [] then res_port else default_port_for_scheme res_scheme)
           in rp \<noteq> [] \<and> src_port = Some rp)"

definition csp_path_matches :: "string option \<Rightarrow> string \<Rightarrow> bool" where
  "csp_path_matches src_path res_path =
     (case src_path of
        None \<Rightarrow> True
      | Some sp \<Rightarrow>
          if sp = [] \<or> sp = ''/'' then True
          else let rp = (if res_path \<noteq> [] then res_path else ''/'') in
            if last sp = CHR ''/'' then strneq (length sp) rp sp else rp = sp)"

text \<open>The position \<^verbatim>\<open>strchr\<close> reports, as an index.\<close>

definition index_of :: "string \<Rightarrow> char \<Rightarrow> nat option" where
  "index_of s c = (let n = length (takeWhile (\<lambda>x. x \<noteq> c) s) in if n < length s then Some n else None)"

text \<open>Host, port and path of a host source (the text after any \<^verbatim>\<open>scheme://\<close>).\<close>

definition host_source_split :: "string \<Rightarrow> string \<times> string option \<times> string option" where
  "host_source_split s =
     (let port_p = index_of s CHR '':''; path_p = index_of s CHR ''/'';
          port_first = (case (port_p, path_p) of
                          (Some i, Some j) \<Rightarrow> i < j | (Some i, None) \<Rightarrow> True | (None, _) \<Rightarrow> False);
          host_end = (if port_first then the port_p
                      else case path_p of Some j \<Rightarrow> j | None \<Rightarrow> length s);
          pe = (case path_p of Some j \<Rightarrow> j | None \<Rightarrow> length s)
      in (take host_end s,
          if port_first then Some (drop (the port_p + 1) (take pe s)) else None,
          map_option (\<lambda>j. drop j s) path_p))"

definition csp_host_matches :: "string \<Rightarrow> string \<Rightarrow> bool" where
  "csp_host_matches src_host hostname =
     (if length src_host \<ge> 2 \<and> strneq 2 src_host ''*.'' then
        (let suffix = drop 1 src_host; sfx_len = length src_host - 1; rh_len = length hostname in
         rh_len > sfx_len \<and> strncaseeq sfx_len (drop (rh_len - sfx_len) hostname) suffix)
      else length hostname = length src_host \<and> strncaseeq (length src_host) hostname src_host)"

definition schemeless_ok :: "url_parser \<Rightarrow> string \<Rightarrow> string \<Rightarrow> string option \<Rightarrow> bool" where
  "schemeless_ok lxb resource_url res_scheme doc_url =
     (let doc_scheme = (case doc_url of
            None \<Rightarrow> [] | Some d \<Rightarrow> (case ns_url_parts_new lxb d of None \<Rightarrow> [] | Some p \<Rightarrow> up_protocol p)) in
      if doc_scheme \<noteq> [] then
        strcaseeq res_scheme doc_scheme \<or>
        (strcaseeq doc_scheme ''http:'' \<and> strcaseeq res_scheme ''https:'') \<or>
        (strcaseeq doc_scheme ''ws:'' \<and> strcaseeq res_scheme ''wss:'')
      else is_network_scheme_url resource_url)"

definition same_origin_doc :: "url_parser \<Rightarrow> string \<Rightarrow> string option \<Rightarrow> bool" where
  "same_origin_doc lxb resource_url doc_url =
     (case doc_url of None \<Rightarrow> False | Some d \<Rightarrow> ns_url_same_origin lxb resource_url d)"

definition source_matches :: "url_parser \<Rightarrow> string \<Rightarrow> string \<Rightarrow> string option \<Rightarrow> bool" where
  "source_matches lxb src resource_url doc_url =
     (if src = [] then False
      else if src = [CHR 39] @ ''none'' @ [CHR 39] then False
      else if src = ''*'' then is_network_scheme_url resource_url
      else if src = [CHR 39] @ ''self'' @ [CHR 39] then same_origin_doc lxb resource_url doc_url
      else if src = [CHR 39] @ ''unsafe-inline'' @ [CHR 39] \<or>
              src = [CHR 39] @ ''unsafe-eval'' @ [CHR 39] \<or>
              src = [CHR 39] @ ''strict-dynamic'' @ [CHR 39] then False
      else if list_ex (strcaseeq src) [''https:'', ''http:'', ''wss:'', ''ws:'', ''data:'', ''blob:'']
        then url_scheme_matches resource_url src
      else
        let scheme_sep = strstr src ''://'';
            scheme_len = (case scheme_sep of None \<Rightarrow> 0 | Some t \<Rightarrow> length src - length t);
            src_host_start = (case scheme_sep of None \<Rightarrow> src | Some t \<Rightarrow> drop 3 t)
        in if scheme_sep \<noteq> None \<and> \<not> scheme_part_matches src scheme_len resource_url then False
           else case ns_url_parts_new lxb resource_url of
                  None \<Rightarrow> False
                | Some res \<Rightarrow>
                    if scheme_sep = None \<and> \<not> schemeless_ok lxb resource_url (up_protocol res) doc_url
                    then False
                    else let (src_host, src_port, src_path) = host_source_split src_host_start in
                      csp_host_matches src_host (up_hostname res) \<and>
                      csp_port_matches src_port (up_port res) (up_protocol res) \<and>
                      csp_path_matches src_path (up_pathname res))"

section \<open>Enforcement\<close>

definition list_has_token :: "string list \<Rightarrow> string \<Rightarrow> bool" where
  "list_has_token list tok = list_ex (\<lambda>s. s = tok) list"

definition policy_frame_ancestors_allows ::
    "url_parser \<Rightarrow> ns_csp_policy \<Rightarrow> string option \<Rightarrow> string option \<Rightarrow> bool" where
  "policy_frame_ancestors_allows lxb p parent_url document_url =
     (if \<not> pol_set p NS_CSP_FRAME_ANCESTORS then True
      else case pol_sources p NS_CSP_FRAME_ANCESTORS of
             None \<Rightarrow> False
           | Some list \<Rightarrow>
               if list = [] then False
               else case parent_url of
                      None \<Rightarrow> True
                    | Some u \<Rightarrow> list_ex (\<lambda>s. source_matches lxb s u document_url) list)"

text \<open>The directive whose list decides, or \<^const>\<open>None\<close> when no directive applies.\<close>

definition effective_kind :: "ns_csp_policy \<Rightarrow> ns_csp_kind \<Rightarrow> ns_csp_kind option" where
  "effective_kind p kind =
     (if pol_set p kind then Some kind
      else if kind = NS_CSP_BASE_URI \<or> kind = NS_CSP_FORM_ACTION then None
      else if kind = NS_CSP_WORKER \<and> pol_set p NS_CSP_CHILD then Some NS_CSP_CHILD
      else if kind = NS_CSP_WORKER \<and> pol_set p NS_CSP_SCRIPT then Some NS_CSP_SCRIPT
      else if kind = NS_CSP_FRAME \<and> pol_set p NS_CSP_CHILD then Some NS_CSP_CHILD
      else if pol_set p NS_CSP_DEFAULT then Some NS_CSP_DEFAULT
      else None)"

definition nonce_prefix :: string where "nonce_prefix = [CHR 39] @ ''nonce-''"
definition strict_dynamic_token :: string where "strict_dynamic_token = [CHR 39] @ ''strict-dynamic'' @ [CHR 39]"
definition unsafe_inline_token :: string where "unsafe_inline_token = [CHR 39] @ ''unsafe-inline'' @ [CHR 39]"

definition nonce_source_matches :: "string \<Rightarrow> string \<Rightarrow> bool" where
  "nonce_source_matches s nonce \<longleftrightarrow>
     length s > 8 \<and> last s = CHR 39 \<and> length nonce = length s - 8 \<and>
     strneq (length s - 8) (drop 7 s) nonce"

fun allow_loop :: "url_parser \<Rightarrow> string \<Rightarrow> string option \<Rightarrow> string option \<Rightarrow> bool \<Rightarrow> string list \<Rightarrow> bool" where
  "allow_loop lxb url doc nonce strict [] = False"
| "allow_loop lxb url doc nonce strict (s # ss) =
     (if s = strict_dynamic_token then allow_loop lxb url doc nonce strict ss
      else if nonce \<noteq> None \<and> g_str_has_prefix s nonce_prefix then
        (if nonce_source_matches s (the nonce) then True else allow_loop lxb url doc nonce strict ss)
      else if strict then allow_loop lxb url doc nonce strict ss
      else if source_matches lxb s url doc then True
      else allow_loop lxb url doc nonce strict ss)"

definition policy_allows_with_nonce ::
    "url_parser \<Rightarrow> ns_csp_policy \<Rightarrow> ns_csp_kind \<Rightarrow> string \<Rightarrow> string option \<Rightarrow> string option \<Rightarrow> bool \<Rightarrow> bool" where
  "policy_allows_with_nonce lxb p kind resource_url document_url nonce parser_inserted =
     (if kind = NS_CSP_FRAME_ANCESTORS
      then policy_frame_ancestors_allows lxb p (Some resource_url) document_url
      else case effective_kind p kind of
             None \<Rightarrow> True
           | Some eff \<Rightarrow>
               (case pol_sources p eff of
                  None \<Rightarrow> False
                | Some list \<Rightarrow>
                    if list = [] then False
                    else let script_like = (kind = NS_CSP_SCRIPT \<or> (kind = NS_CSP_DEFAULT \<and> eff = NS_CSP_DEFAULT));
                             strict_dynamic = (script_like \<and> list_has_token list strict_dynamic_token)
                         in allow_loop lxb resource_url document_url nonce strict_dynamic list \<or>
                            (strict_dynamic \<and> \<not> parser_inserted)))"

fun ns_csp_allows_policies ::
    "url_parser \<Rightarrow> ns_csp \<Rightarrow> ns_csp_kind \<Rightarrow> string \<Rightarrow> string option \<Rightarrow> string option \<Rightarrow> bool \<Rightarrow> bool" where
  "ns_csp_allows_policies lxb [] kind url doc nonce pins = True"
| "ns_csp_allows_policies lxb (p # ps) kind url doc nonce pins =
     (if \<not> policy_allows_with_nonce lxb p kind url doc nonce pins then False
      else ns_csp_allows_policies lxb ps kind url doc nonce pins)"

definition ns_csp_allows_with_nonce ::
    "url_parser \<Rightarrow> ns_csp option \<Rightarrow> ns_csp_kind \<Rightarrow> string option \<Rightarrow> string option \<Rightarrow> string option \<Rightarrow> bool \<Rightarrow> bool" where
  "ns_csp_allows_with_nonce lxb csp kind resource_url document_url nonce parser_inserted =
     (case (csp, resource_url) of
        (Some ps, Some url) \<Rightarrow>
          if kind = NS_CSP_KIND_COUNT then True
          else ns_csp_allows_policies lxb ps kind url document_url nonce parser_inserted
      | _ \<Rightarrow> True)"

definition ns_csp_allows ::
    "url_parser \<Rightarrow> ns_csp option \<Rightarrow> ns_csp_kind \<Rightarrow> string option \<Rightarrow> string option \<Rightarrow> bool" where
  "ns_csp_allows lxb csp kind resource_url document_url =
     ns_csp_allows_with_nonce lxb csp kind resource_url document_url None True"

section \<open>Inline scripts\<close>

definition inline_script_kind :: "ns_csp_policy \<Rightarrow> ns_csp_kind" where
  "inline_script_kind p =
     (if pol_set p NS_CSP_SCRIPT then NS_CSP_SCRIPT
      else if pol_set p NS_CSP_DEFAULT then NS_CSP_DEFAULT
      else NS_CSP_KIND_COUNT)"

definition is_nonce_or_hash :: "string \<Rightarrow> bool" where
  "is_nonce_or_hash s \<longleftrightarrow> g_str_has_prefix s nonce_prefix \<or>
     g_str_has_prefix s ([CHR 39] @ ''sha256-'') \<or> g_str_has_prefix s ([CHR 39] @ ''sha384-'') \<or>
     g_str_has_prefix s ([CHR 39] @ ''sha512-'')"

definition list_has_nonce_or_hash :: "string list \<Rightarrow> bool" where
  "list_has_nonce_or_hash list = list_ex is_nonce_or_hash list"

datatype checksum = G_CHECKSUM_SHA256 | G_CHECKSUM_SHA384 | G_CHECKSUM_SHA512

definition checksum_of :: "string \<Rightarrow> checksum option" where
  "checksum_of src =
     (if g_str_has_prefix src ([CHR 39] @ ''sha256-'') then Some G_CHECKSUM_SHA256
      else if g_str_has_prefix src ([CHR 39] @ ''sha384-'') then Some G_CHECKSUM_SHA384
      else if g_str_has_prefix src ([CHR 39] @ ''sha512-'') then Some G_CHECKSUM_SHA512
      else None)"

definition url_safe :: "char \<Rightarrow> char" where
  "url_safe c = (if c = CHR ''+'' then CHR ''-'' else if c = CHR ''/'' then CHR ''_'' else c)"

definition hash_token_matches :: "(checksum \<Rightarrow> string \<Rightarrow> string) \<Rightarrow> string \<Rightarrow> string \<Rightarrow> bool" where
  "hash_token_matches digest src body =
     (case checksum_of src of
        None \<Rightarrow> False
      | Some type \<Rightarrow>
          let b64 = drop 8 src in
          if length b64 < 2 \<or> last b64 \<noteq> CHR 39 then False
          else let want = butlast b64; got = digest type body in
               want = got \<or> want = map url_safe got)"

definition policy_inline_script_allowed ::
    "(checksum \<Rightarrow> string \<Rightarrow> string) \<Rightarrow> ns_csp_policy \<Rightarrow> string \<Rightarrow> string option \<Rightarrow> bool" where
  "policy_inline_script_allowed digest p body nonce =
     (let k = inline_script_kind p in
      if k = NS_CSP_KIND_COUNT then True
      else case pol_sources p k of
             None \<Rightarrow> False
           | Some list \<Rightarrow>
               if (case nonce of None \<Rightarrow> False
                   | Some n \<Rightarrow> n \<noteq> [] \<and> list_has_token list (nonce_prefix @ n @ [CHR 39])) then True
               else if body \<noteq> [] \<and> list_ex (\<lambda>s. hash_token_matches digest s body) list then True
               else if list_has_token list strict_dynamic_token then False
               else if list_has_nonce_or_hash list then False
               else list_has_token list unsafe_inline_token)"

fun inline_script_allowed_policies ::
    "(checksum \<Rightarrow> string \<Rightarrow> string) \<Rightarrow> ns_csp \<Rightarrow> string \<Rightarrow> string option \<Rightarrow> bool" where
  "inline_script_allowed_policies digest [] body nonce = True"
| "inline_script_allowed_policies digest (p # ps) body nonce =
     (if \<not> policy_inline_script_allowed digest p body nonce then False
      else inline_script_allowed_policies digest ps body nonce)"

definition ns_csp_inline_script_allowed ::
    "(checksum \<Rightarrow> string \<Rightarrow> string) \<Rightarrow> ns_csp option \<Rightarrow> string \<Rightarrow> string option \<Rightarrow> bool" where
  "ns_csp_inline_script_allowed digest csp body nonce =
     (case csp of None \<Rightarrow> True | Some ps \<Rightarrow> inline_script_allowed_policies digest ps body nonce)"

definition policy_inline_event_handler_allowed :: "ns_csp_policy \<Rightarrow> bool" where
  "policy_inline_event_handler_allowed p =
     (let k = inline_script_kind p in
      if k = NS_CSP_KIND_COUNT then True
      else case pol_sources p k of
             None \<Rightarrow> False
           | Some list \<Rightarrow>
               if list_has_token list strict_dynamic_token then False
               else if list_has_nonce_or_hash list then False
               else list_has_token list unsafe_inline_token)"

fun event_handler_allowed_policies :: "ns_csp \<Rightarrow> bool" where
  "event_handler_allowed_policies [] = True"
| "event_handler_allowed_policies (p # ps) =
     (if \<not> policy_inline_event_handler_allowed p then False else event_handler_allowed_policies ps)"

definition ns_csp_inline_event_handler_allowed :: "ns_csp option \<Rightarrow> bool" where
  "ns_csp_inline_event_handler_allowed csp =
     (case csp of None \<Rightarrow> True | Some ps \<Rightarrow> event_handler_allowed_policies ps)"

section \<open>Policies only restrict\<close>

interpretation csp_fetch: deny_overrides
  "\<lambda>p (kind, url, doc, nonce, pins). policy_allows_with_nonce lxb p kind url doc nonce pins"
  "\<lambda>ps (kind, url, doc, nonce, pins). ns_csp_allows_policies lxb ps kind url doc nonce pins"
  for lxb
  by unfold_locales (auto split: prod.splits)

interpretation csp_inline: deny_overrides
  "\<lambda>p (body, nonce). policy_inline_script_allowed digest p body nonce"
  "\<lambda>ps (body, nonce). inline_script_allowed_policies digest ps body nonce"
  for digest
  by unfold_locales (auto split: prod.splits)

interpretation csp_event: deny_overrides
  "\<lambda>p (u::unit). policy_inline_event_handler_allowed p" "\<lambda>ps u. event_handler_allowed_policies ps"
  by unfold_locales auto

lemma allows_policies_append:
  "ns_csp_allows_policies lxb (ps @ qs) kind url doc nonce pins \<longleftrightarrow>
   ns_csp_allows_policies lxb ps kind url doc nonce pins \<and> ns_csp_allows_policies lxb qs kind url doc nonce pins"
  using csp_fetch.allows_append [of lxb ps qs "(kind, url, doc, nonce, pins)"] by simp

lemma inline_policies_append:
  "inline_script_allowed_policies digest (ps @ qs) body nonce \<longleftrightarrow>
   inline_script_allowed_policies digest ps body nonce \<and> inline_script_allowed_policies digest qs body nonce"
  using csp_inline.allows_append [of digest ps qs "(body, nonce)"] by simp

lemma event_policies_append:
  "event_handler_allowed_policies (ps @ qs) \<longleftrightarrow> event_handler_allowed_policies ps \<and> event_handler_allowed_policies qs"
  using csp_event.allows_append by simp

text \<open>C12: merging a second header into a document's policy leaves the second one empty
  and allows exactly what both allowed: a later header can only take rights away, for fetches,
  for inline scripts and for inline event handlers.\<close>

theorem csp_merge_only_restricts:
  assumes "ns_csp_merge (Some d) (Some s) = (Some m, rest)"
  shows "rest = Some [] \<and>
    (ns_csp_allows_with_nonce lxb (Some m) kind url doc nonce pins \<longleftrightarrow>
       ns_csp_allows_with_nonce lxb (Some d) kind url doc nonce pins \<and>
       ns_csp_allows_with_nonce lxb (Some s) kind url doc nonce pins) \<and>
    (ns_csp_inline_script_allowed digest (Some m) body nonce \<longleftrightarrow>
       ns_csp_inline_script_allowed digest (Some d) body nonce \<and>
       ns_csp_inline_script_allowed digest (Some s) body nonce) \<and>
    (ns_csp_inline_event_handler_allowed (Some m) \<longleftrightarrow>
       ns_csp_inline_event_handler_allowed (Some d) \<and> ns_csp_inline_event_handler_allowed (Some s))"
proof -
  from assms have "m = d @ s" "rest = Some []" by (auto simp: ns_csp_merge_def)
  then show ?thesis
    by (auto simp: ns_csp_allows_with_nonce_def ns_csp_inline_script_allowed_def
        ns_csp_inline_event_handler_allowed_def allows_policies_append inline_policies_append
        event_policies_append split: option.splits)
qed

theorem csp_merge_only_restricts_witness:
  "let d = [policy_parse ''img-src *'']; s = [policy_parse ''script-src *''] in
   ns_csp_merge (Some d) (Some s) = (Some (d @ s), Some []) \<and>
   (ns_csp_inline_event_handler_allowed (Some (d @ s)) \<longleftrightarrow>
     ns_csp_inline_event_handler_allowed (Some d) \<and> ns_csp_inline_event_handler_allowed (Some s))"
proof -
  let ?d = "[policy_parse ''img-src *'']" and ?s = "[policy_parse ''script-src *'']"
  have "ns_csp_merge (Some ?d) (Some ?s) = (Some (?d @ ?s), Some [])" by (simp add: ns_csp_merge_def)
  from csp_merge_only_restricts [OF this] this show ?thesis unfolding Let_def by blast
qed

section \<open>Parsing\<close>

text \<open>The well-formedness the C code relies on: a directive is set exactly when it has a
  list, and the sentinel kind is never set.\<close>

definition policy_ok :: "ns_csp_policy \<Rightarrow> bool" where
  "policy_ok p \<longleftrightarrow> (\<forall>k. pol_set p k \<longleftrightarrow> pol_sources p k \<noteq> None) \<and> \<not> pol_set p NS_CSP_KIND_COUNT"

lemma policy_ok_empty: "policy_ok empty_policy"
  by (simp add: policy_ok_def empty_policy_def)

interpretation csp_parse: invariant_system policy_add_clause policy_ok
  by unfold_locales (auto simp: policy_ok_def policy_add_clause_def Let_def)

text \<open>The directive kind of a clause, and the sources a clause gives it.\<close>

definition clause_kind :: "string \<Rightarrow> ns_csp_kind" where
  "clause_kind raw = (if g_strstrip raw = [] \<or> clause_tokens (g_strstrip raw) = [] then NS_CSP_KIND_COUNT
     else directive_kind (hd (clause_tokens (g_strstrip raw))))"

definition clause_sources :: "string \<Rightarrow> string list" where
  "clause_sources raw = source_tokens (clause_tokens (g_strstrip raw))"

lemma add_clause_kind:
  assumes "policy_ok p"
  shows "policy_add_clause p raw =
    (if clause_kind raw = NS_CSP_KIND_COUNT \<or> pol_set p (clause_kind raw) then p
     else p\<lparr>pol_set := (pol_set p)(clause_kind raw := True),
            pol_sources := (pol_sources p)(clause_kind raw := Some (clause_sources raw))\<rparr>)"
  using assms by (auto simp: policy_add_clause_def clause_kind_def clause_sources_def Let_def policy_ok_def
      split: option.splits)

lemma foldl_add_clause:
  assumes "policy_ok p" and "k \<noteq> NS_CSP_KIND_COUNT"
  shows "pol_sources (foldl policy_add_clause p cs) k =
    (if pol_set p k then pol_sources p k
     else map_option clause_sources (List.find (\<lambda>c. clause_kind c = k) cs))"
  using assms(1)
proof (induction cs arbitrary: p)
  case Nil
  then show ?case using assms by (auto simp: policy_ok_def)
next
  case (Cons c cs)
  have "policy_ok (policy_add_clause p c)" using Cons.prems by (rule csp_parse.inv_handle)
  from Cons.IH [OF this] show ?case
    using Cons.prems assms(2) by (auto simp: add_clause_kind)
qed

lemma policy_parse_ok: "policy_ok (policy_parse t)"
  unfolding policy_parse_def by (rule csp_parse.inv_run [OF policy_ok_empty])

lemma csp_policy_sources:
  assumes "k \<noteq> NS_CSP_KIND_COUNT"
  shows "pol_sources (policy_parse t) k =
    map_option clause_sources (List.find (\<lambda>c. clause_kind c = k) (g_strsplit_set t '';''))"
  using foldl_add_clause [OF policy_ok_empty assms, of "g_strsplit_set t '';''"]
  by (simp add: policy_parse_def empty_policy_def)

text \<open>a parsed policy is well-formed, and the sources of a directive are those of the
  first clause that names it (in any letter case): later clauses for the same directive and
  unknown directives change nothing.\<close>

theorem csp_first_directive_wins:
  assumes "k \<noteq> NS_CSP_KIND_COUNT"
  shows "policy_ok (policy_parse t) \<and> pol_sources (policy_parse t) k =
    map_option clause_sources (List.find (\<lambda>c. clause_kind c = k) (g_strsplit_set t '';''))"
  using policy_parse_ok csp_policy_sources [OF assms] by blast

theorem csp_first_directive_wins_witness:
  "pol_sources (policy_parse ''IMG-src a  b; x y; img-src *'') NS_CSP_IMG = Some [''a'', ''b'']"
proof -
  have "map_option clause_sources (List.find (\<lambda>c. clause_kind c = NS_CSP_IMG)
      (g_strsplit_set ''IMG-src a  b; x y; img-src *'' '';'')) = Some [''a'', ''b'']"
    by code_simp
  then show ?thesis using csp_first_directive_wins [of NS_CSP_IMG "''IMG-src a  b; x y; img-src *''"] by simp
qed

section \<open>Enforcement\<close>

definition none_token :: string where "none_token = [CHR 39] @ ''none'' @ [CHR 39]"

definition default_none :: string where "default_none = ''default-src '' @ none_token"

lemma default_none_clause:
  "g_strsplit_set default_none '';'' = [default_none]"
  "clause_kind default_none = NS_CSP_DEFAULT"
  "clause_sources default_none = [none_token]"
  by code_simp+

lemma default_none_policy:
  fixes k
  defines "p \<equiv> policy_parse default_none"
  shows "pol_sources p NS_CSP_DEFAULT = Some [none_token]" and "pol_set p k \<longleftrightarrow> k = NS_CSP_DEFAULT"
proof -
  have src: "pol_sources p j = (if j = NS_CSP_DEFAULT then Some [none_token] else None)"
    if "j \<noteq> NS_CSP_KIND_COUNT" for j
    using csp_policy_sources [OF that, of default_none]
    unfolding p_def default_none_clause by (auto simp: default_none_clause)
  show "pol_sources p NS_CSP_DEFAULT = Some [none_token]" using src [of NS_CSP_DEFAULT] by simp
  have ok: "policy_ok p" unfolding p_def by (rule policy_parse_ok)
  show "pol_set p k \<longleftrightarrow> k = NS_CSP_DEFAULT"
  proof (cases "k = NS_CSP_KIND_COUNT")
    case True
    from ok have "\<not> pol_set p NS_CSP_KIND_COUNT" unfolding policy_ok_def by blast
    with True show ?thesis by blast
  next
    case False
    from ok have "pol_set p k \<longleftrightarrow> pol_sources p k \<noteq> None" unfolding policy_ok_def by blast
    with src [OF False] show ?thesis by simp
  qed
qed

lemma none_token_inert:
  "none_token \<noteq> strict_dynamic_token" "\<not> g_str_has_prefix none_token nonce_prefix"
  "none_token \<noteq> unsafe_inline_token" "checksum_of none_token = None" "\<not> source_matches lxb none_token u d"
  "none_token \<noteq> nonce_prefix @ n @ [CHR 39]"
  by (simp_all add: none_token_def strict_dynamic_token_def nonce_prefix_def unsafe_inline_token_def
      checksum_of_def source_matches_def)

text \<open>a policy \<^verbatim>\<open>default-src 'none'\<close> denies every fetch of every kind that falls back to
  \<^verbatim>\<open>default-src\<close>, every inline script and every event handler, whatever the URL parser, the
  document, the nonce and the script are.\<close>

theorem csp_default_none_denies:
  assumes "kind \<notin> {NS_CSP_BASE_URI, NS_CSP_FORM_ACTION, NS_CSP_FRAME_ANCESTORS, NS_CSP_KIND_COUNT}"
  shows "\<exists>csp. ns_csp_parse default_none = Some csp \<and>
    \<not> ns_csp_allows_with_nonce lxb (Some csp) kind (Some url) doc nonce pins \<and>
    \<not> ns_csp_inline_script_allowed digest (Some csp) body nonce \<and>
    \<not> ns_csp_inline_event_handler_allowed (Some csp)"
proof -
  let ?p = "policy_parse default_none"
  have parse: "ns_csp_parse default_none = Some [?p]"
    by (simp add: ns_csp_parse_def default_none_def none_token_def g_strsplit_set_def g_strstrip_def g_strchug_def
        g_strchomp_def g_ascii_isspace_def)
  note facts = default_none_policy none_token_inert
  have "effective_kind ?p kind = Some NS_CSP_DEFAULT"
    using assms by (auto simp: effective_kind_def facts)
  then have "\<not> policy_allows_with_nonce lxb ?p kind url doc nonce pins"
    using assms by (simp add: policy_allows_with_nonce_def list_has_token_def facts)
  moreover have "\<not> policy_inline_script_allowed digest ?p body nonce" "\<not> policy_inline_event_handler_allowed ?p"
    by (simp_all add: policy_inline_script_allowed_def policy_inline_event_handler_allowed_def
        inline_script_kind_def list_has_token_def hash_token_matches_def facts split: option.split)
  ultimately show ?thesis
    using parse assms by (auto simp: ns_csp_allows_with_nonce_def ns_csp_inline_script_allowed_def
        ns_csp_inline_event_handler_allowed_def)
qed

theorem csp_default_none_denies_witness:
  "\<exists>csp. ns_csp_parse default_none = Some csp \<and>
    \<not> ns_csp_allows_with_nonce (\<lambda>_. None) (Some csp) NS_CSP_SCRIPT (Some ''http://a/'') None None True"
  using csp_default_none_denies [of NS_CSP_SCRIPT "\<lambda>_. None" "''http://a/''" None None True "\<lambda>_ _. []" "[]"]
  by auto

text \<open>once a policy names a nonce or a hash (or \<^verbatim>\<open>'strict-dynamic'\<close>), \<^verbatim>\<open>'unsafe-inline'\<close> in
  it is void: an inline script of the document runs only if its nonce or its hash is in the list,
  and no inline event handler runs.\<close>

theorem csp_nonce_voids_unsafe_inline:
  assumes "p \<in> set ps" and "inline_script_kind p \<noteq> NS_CSP_KIND_COUNT"
    and "pol_sources p (inline_script_kind p) = Some list"
    and "list_has_nonce_or_hash list \<or> list_has_token list strict_dynamic_token"
  shows "\<not> ns_csp_inline_event_handler_allowed (Some ps) \<and>
    (ns_csp_inline_script_allowed digest (Some ps) body nonce \<longrightarrow>
       (\<exists>n. nonce = Some n \<and> n \<noteq> [] \<and> nonce_prefix @ n @ [CHR 39] \<in> set list) \<or>
       (body \<noteq> [] \<and> (\<exists>s \<in> set list. hash_token_matches digest s body)))"
proof -
  have "\<not> policy_inline_event_handler_allowed p"
    using assms by (auto simp: policy_inline_event_handler_allowed_def Let_def)
  then have "\<not> event_handler_allowed_policies ps"
    using assms(1) csp_event.allows_all by auto
  moreover have "inline_script_allowed_policies digest ps body nonce \<longrightarrow> policy_inline_script_allowed digest p body nonce"
    using assms(1) csp_inline.allows_all [of digest ps "(body, nonce)"] by auto
  moreover have "policy_inline_script_allowed digest p body nonce \<longrightarrow>
       (\<exists>n. nonce = Some n \<and> n \<noteq> [] \<and> nonce_prefix @ n @ [CHR 39] \<in> set list) \<or>
       (body \<noteq> [] \<and> (\<exists>s \<in> set list. hash_token_matches digest s body))"
    using assms by (auto simp: policy_inline_script_allowed_def Let_def list_has_token_def list_ex_iff
        split: if_splits option.splits)
  ultimately show ?thesis
    by (auto simp: ns_csp_inline_event_handler_allowed_def ns_csp_inline_script_allowed_def)
qed

theorem csp_nonce_voids_unsafe_inline_witness:
  "let p = policy_parse (''script-src '' @ [CHR 39] @ ''nonce-x'' @ [CHR 39]) in
   \<not> ns_csp_inline_event_handler_allowed (Some [p])"
proof -
  let ?p = "policy_parse (''script-src '' @ [CHR 39] @ ''nonce-x'' @ [CHR 39])"
  have k: "inline_script_kind ?p = NS_CSP_SCRIPT" by code_simp
  have s: "pol_sources ?p NS_CSP_SCRIPT = Some [[CHR 39] @ ''nonce-x'' @ [CHR 39]]" by code_simp
  have n: "list_has_nonce_or_hash [[CHR 39] @ ''nonce-x'' @ [CHR 39]]" by code_simp
  have "\<not> ns_csp_inline_event_handler_allowed (Some [?p])"
    using csp_nonce_voids_unsafe_inline [of ?p "[?p]" "[[CHR 39] @ ''nonce-x'' @ [CHR 39]]" "\<lambda>_ _. []" "[]" None] k s n
    by simp
  then show ?thesis by simp
qed

lemma csp_host_wildcard:
  "csp_host_matches (''*.'' @ d) h \<longleftrightarrow> (\<exists>sub. sub \<noteq> [] \<and> g_ascii_strdown h = sub @ ''.'' @ g_ascii_strdown d)"
  (is "?m \<longleftrightarrow> ?e")
proof -
  let ?n = "length h - Suc (length d)"
  have dot: "g_ascii_tolower (CHR ''.'') = CHR ''.''" by (simp add: g_ascii_tolower_def g_ascii_isupper_def)
  have down: "g_ascii_strdown (drop i x) = drop i (g_ascii_strdown x)" for i x
    by (simp add: g_ascii_strdown_def drop_map)
  have m: "?m \<longleftrightarrow> length h > Suc (length d) \<and> drop ?n (g_ascii_strdown h) = ''.'' @ g_ascii_strdown d"
    by (auto simp: csp_host_matches_def strneq_def strncaseeq_def down strdown_Cons dot Let_def)
  show ?thesis
  proof
    assume ?m
    with m have "g_ascii_strdown h = take ?n (g_ascii_strdown h) @ ''.'' @ g_ascii_strdown d"
      "take ?n (g_ascii_strdown h) \<noteq> []"
      by (metis append_take_drop_id, auto)
    then show ?e by blast
  next
    assume ?e
    then obtain sub where sub: "sub \<noteq> []" "g_ascii_strdown h = sub @ ''.'' @ g_ascii_strdown d" by blast
    then have "length h = length sub + Suc (length d)"
      by (metis length_append length_strdown length_Cons append_Cons append_Nil)
    with sub m show ?m by simp
  qed
qed

lemma index_of_None: "c \<notin> set s \<Longrightarrow> index_of s c = None"
  by (induction s) (auto simp: index_of_def Let_def split: if_splits)

lemma host_source_split_plain:
  assumes "set s \<inter> set '':/'' = {}"
  shows "host_source_split s = (s, None, None)"
  using assms index_of_None [of "CHR '':''" s] index_of_None [of "CHR ''/''" s]
  by (simp add: host_source_split_def)

lemma strstr_no_colon: "CHR '':'' \<notin> set s \<Longrightarrow> strstr s ''://'' = None"
  by (induction s) auto

lemma no_colon_scheme:
  assumes "CHR '':'' \<notin> set s" and "CHR '':'' \<in> set x"
  shows "\<not> strcaseeq s x"
proof
  assume "strcaseeq s x"
  then have "map g_ascii_tolower s = map g_ascii_tolower x"
    by (simp add: strcaseeq_def g_ascii_strdown_def)
  moreover have "g_ascii_tolower (CHR '':'') \<in> set (map g_ascii_tolower x)" using assms(2) by auto
  ultimately have "g_ascii_tolower (CHR '':'') \<in> g_ascii_tolower ` set s" by (metis image_set)
  then obtain c where "c \<in> set s" "g_ascii_tolower c = CHR '':''"
    by (auto simp: g_ascii_tolower_def g_ascii_isupper_def split: if_splits)
  with assms(1) show False using tolower_eq_nonalpha [of "CHR '':''" c] by simp
qed

lemma source_matches_plain_host:
  assumes "s \<noteq> []" and "s \<noteq> ''*''" and "hd s \<noteq> CHR 39" and "set s \<inter> set '':/'' = {}"
  shows "source_matches lxb s url doc \<longleftrightarrow>
    (\<exists>res. ns_url_parts_new lxb url = Some res \<and> schemeless_ok lxb url (up_protocol res) doc \<and>
       csp_host_matches s (up_hostname res) \<and> csp_port_matches None (up_port res) (up_protocol res))"
proof -
  from assms(4) have nc: "CHR '':'' \<notin> set s" by auto
  have kw: "\<not> list_ex (strcaseeq s) [''https:'', ''http:'', ''wss:'', ''ws:'', ''data:'', ''blob:'']"
    using no_colon_scheme [OF nc] by simp
  have q: "s \<noteq> [CHR 39] @ t" for t using assms(3) by auto
  show ?thesis
    unfolding source_matches_def Let_def strstr_no_colon [OF nc]
    using assms(1,2) q kw host_source_split_plain [OF assms(4)]
    by (simp add: csp_path_matches_def del: append.simps split: option.split) blast
qed

text \<open>a wildcard host source \<^verbatim>\<open>*.domain\<close> matches exactly the URLs whose host is a proper
  subdomain of the domain (up to letter case) on the default port and with an acceptable
  scheme; neither the domain itself nor a host that merely ends in the same letters matches.\<close>

theorem csp_wildcard_subdomains_only:
  assumes "set d \<inter> set '':/'' = {}"
  shows "source_matches lxb (''*.'' @ d) url doc \<longleftrightarrow>
    (\<exists>res. ns_url_parts_new lxb url = Some res \<and> schemeless_ok lxb url (up_protocol res) doc \<and>
       (\<exists>sub. sub \<noteq> [] \<and> g_ascii_strdown (up_hostname res) = sub @ ''.'' @ g_ascii_strdown d) \<and>
       (up_port res = [] \<or> up_port res = default_port_for_scheme (up_protocol res)))"
proof -
  have "source_matches lxb (''*.'' @ d) url doc \<longleftrightarrow>
    (\<exists>res. ns_url_parts_new lxb url = Some res \<and> schemeless_ok lxb url (up_protocol res) doc \<and>
       csp_host_matches (''*.'' @ d) (up_hostname res) \<and>
       csp_port_matches None (up_port res) (up_protocol res))"
    by (rule source_matches_plain_host) (use assms in auto)
  moreover have "csp_port_matches None pt sc \<longleftrightarrow> pt = [] \<or> pt = default_port_for_scheme sc" for pt sc
    by (auto simp: csp_port_matches_def Let_def)
  ultimately show ?thesis unfolding csp_host_wildcard by blast
qed

theorem csp_wildcard_subdomains_only_witness:
  "\<not> source_matches (\<lambda>_. None) (''*.'' @ ''example.com'') ''http://evilexample.com/'' None"
  using csp_wildcard_subdomains_only [of "''example.com''" "\<lambda>_. None" "''http://evilexample.com/''" None]
  by (simp add: ns_url_parts_new_def)

end
