(* ===== verification/NS_Css_Syntax.thy ===== *)
theory NS_Css_Syntax
  imports NS_Prelude
begin

text \<open>
  The CSS tokenizer and component-value parser of \<^verbatim>\<open>src/css_syntax.c\<close>.  The input is a
  byte string, a position is a natural number, and the parser state is the offset and the
  validity flag of the C struct.  The mutually recursive consumers take a fuel argument that
  bounds the number of loop iterations along a branch; running out is \<^const>\<open>None\<close>.  The theorems
  say for which inputs enough fuel exists (one more than the input's length), and that for the
  others no fuel suffices: the C loop does not end.
\<close>

section \<open>Characters and names\<close>

definition at :: "string \<Rightarrow> nat \<Rightarrow> char" where
  "at s i = (if i < length s then s ! i else CHR 0x00)"

definition css_newline :: "char \<Rightarrow> bool" where
  "css_newline c \<longleftrightarrow> c = CHR 0x0A \<or> c = CHR 0x0D \<or> c = CHR 0x0C"

definition css_syntax_whitespace :: "char \<Rightarrow> bool" where
  "css_syntax_whitespace c \<longleftrightarrow> c = CHR 0x20 \<or> c = CHR 0x09 \<or> c = CHR 0x0A \<or> c = CHR 0x0D \<or> c = CHR 0x0C"

definition css_syntax_name_start :: "char \<Rightarrow> bool" where
  "css_syntax_name_start c \<longleftrightarrow> g_ascii_isalpha c \<or> c = CHR ''_'' \<or> ord c \<ge> 0x80"

definition css_syntax_name :: "char \<Rightarrow> bool" where
  "css_syntax_name c \<longleftrightarrow> css_syntax_name_start c \<or> g_ascii_isdigit c \<or> c = CHR ''-''"

abbreviation backslash :: char where "backslash \<equiv> CHR 0x5C"

text \<open>The length of the run of characters satisfying \<^term>\<open>P\<close> at a position.\<close>

definition run_end :: "(char \<Rightarrow> bool) \<Rightarrow> string \<Rightarrow> nat \<Rightarrow> nat" where
  "run_end P inp off = off + length (takeWhile P (drop off inp))"

definition css_syntax_escape_end :: "string \<Rightarrow> nat \<Rightarrow> nat" where
  "css_syntax_escape_end inp off =
     (if off \<ge> length inp \<or> at inp off \<noteq> backslash then off
      else let o1 = off + 1 in
        if o1 \<ge> length inp then o1
        else if g_ascii_isxdigit (at inp o1) then
          (let o2 = o1 + length (takeWhile g_ascii_isxdigit (take 6 (drop o1 inp))) in
           if o2 < length inp \<and> css_syntax_whitespace (at inp o2) then o2 + 1 else o2)
        else if css_newline (at inp o1) then o1 - 1
        else o1 + 1)"

lemma escape_end_ge: "off \<le> css_syntax_escape_end inp off"
  by (auto simp: css_syntax_escape_end_def Let_def)

lemma run_end_le: "off \<le> length inp \<Longrightarrow> run_end P inp off \<le> length inp"
proof -
  assume "off \<le> length inp"
  moreover have "length (takeWhile P (drop off inp)) \<le> length (drop off inp)"
    by (rule length_takeWhile_le)
  ultimately show ?thesis by (simp add: run_end_def)
qed

lemma run_end_ge: "off \<le> run_end P inp off"
  by (simp add: run_end_def)

lemma run_end_gt: "off < length inp \<Longrightarrow> P (at inp off) \<Longrightarrow> off < run_end P inp off"
  by (simp add: run_end_def at_def flip: Cons_nth_drop_Suc)

lemma escape_end_le:
  assumes "off \<le> length inp"
  shows "css_syntax_escape_end inp off \<le> length inp"
proof -
  have "length (takeWhile g_ascii_isxdigit (take 6 (drop (Suc off) inp))) \<le> length (take 6 (drop (Suc off) inp))"
    by (rule length_takeWhile_le)
  then show ?thesis
    using assms by (auto simp: css_syntax_escape_end_def Let_def)
qed

function css_syntax_name_end :: "string \<Rightarrow> nat \<Rightarrow> nat" where
  "css_syntax_name_end inp off =
     (if off < length inp then
        (if css_syntax_name (at inp off) then css_syntax_name_end inp (off + 1)
         else if at inp off = backslash then
           (let nxt = css_syntax_escape_end inp off in
            if nxt = off then off else css_syntax_name_end inp nxt)
         else off)
      else off)"
  by pat_completeness auto
termination
proof (relation "measure (\<lambda>(inp, off). length inp - off)")
  fix inp off nxt
  assume "off < length inp" "nxt = css_syntax_escape_end inp off" "nxt \<noteq> off"
  then show "((inp, nxt), inp, off) \<in> measure (\<lambda>(inp, off). length inp - off)"
    using escape_end_ge [of off inp] by auto
qed auto

declare css_syntax_name_end.simps [simp del]

lemma name_end_ge: "off \<le> css_syntax_name_end inp off"
proof (induction inp off rule: css_syntax_name_end.induct)
  case (1 inp off)
  then show ?case
    using escape_end_ge [of off inp]
    by (subst css_syntax_name_end.simps) (auto simp: Let_def intro: order_trans)
qed

lemma name_end_le: "off \<le> length inp \<Longrightarrow> css_syntax_name_end inp off \<le> length inp"
proof (induction inp off rule: css_syntax_name_end.induct)
  case (1 inp off)
  then show ?case
    using escape_end_le [of off inp]
    by (subst css_syntax_name_end.simps) (auto simp: Let_def)
qed

section \<open>Numbers, comments, strings\<close>

definition css_syntax_starts_number :: "string \<Rightarrow> nat \<Rightarrow> bool" where
  "css_syntax_starts_number inp off =
     (if off \<ge> length inp then False
      else let a = at inp off; b = at inp (off + 1); c = at inp (off + 2) in
        if g_ascii_isdigit a then True
        else if a = CHR ''.'' then g_ascii_isdigit b
        else if a = CHR ''+'' \<or> a = CHR ''-'' then g_ascii_isdigit b \<or> (b = CHR ''.'' \<and> g_ascii_isdigit c)
        else False)"

text \<open>The optional sign, fraction and exponent of a number, each the offset after it.\<close>

definition sign_end :: "string \<Rightarrow> nat \<Rightarrow> nat" where
  "sign_end inp off = (if off < length inp \<and> (at inp off = CHR ''+'' \<or> at inp off = CHR ''-'') then off + 1 else off)"

definition fraction_end :: "string \<Rightarrow> nat \<Rightarrow> nat" where
  "fraction_end inp off =
     (if off + 1 < length inp \<and> at inp off = CHR ''.'' \<and> g_ascii_isdigit (at inp (off + 1))
      then run_end g_ascii_isdigit inp (off + 1) else off)"

definition exponent_end :: "string \<Rightarrow> nat \<Rightarrow> nat" where
  "exponent_end inp off =
     (if off < length inp \<and> (at inp off = CHR ''e'' \<or> at inp off = CHR ''E'') then
        (let exponent = sign_end inp (off + 1)
         in if exponent < length inp \<and> g_ascii_isdigit (at inp exponent)
            then run_end g_ascii_isdigit inp (exponent + 1) else off)
      else off)"

definition css_syntax_number_end :: "string \<Rightarrow> nat \<Rightarrow> nat" where
  "css_syntax_number_end inp off =
     exponent_end inp (fraction_end inp (run_end g_ascii_isdigit inp (sign_end inp off)))"

function comment_close :: "string \<Rightarrow> nat \<Rightarrow> nat" where
  "comment_close inp off =
     (if off + 1 < length inp \<and> \<not> (at inp off = CHR ''*'' \<and> at inp (off + 1) = CHR ''/'')
      then comment_close inp (off + 1) else off)"
  by pat_completeness auto
termination
  by (relation "measure (\<lambda>(inp, off). length inp - off)") auto

declare comment_close.simps [simp del]

definition css_syntax_skip_comment :: "string \<Rightarrow> nat \<Rightarrow> nat" where
  "css_syntax_skip_comment inp off =
     (let o1 = comment_close inp (off + 2) in
      if o1 + 1 < length inp then o1 + 2 else length inp)"

datatype ns_css_component_type =
    NS_CSS_COMPONENT_WHITESPACE | NS_CSS_COMPONENT_IDENT | NS_CSS_COMPONENT_FUNCTION
  | NS_CSS_COMPONENT_STRING | NS_CSS_COMPONENT_NUMBER | NS_CSS_COMPONENT_PERCENTAGE
  | NS_CSS_COMPONENT_DIMENSION | NS_CSS_COMPONENT_HASH | NS_CSS_COMPONENT_AT_KEYWORD
  | NS_CSS_COMPONENT_COLON | NS_CSS_COMPONENT_SEMICOLON | NS_CSS_COMPONENT_COMMA
  | NS_CSS_COMPONENT_DELIM | NS_CSS_COMPONENT_BLOCK

text \<open>A component; \<^verbatim>\<open>c_number\<close> is the lexeme the C code hands to \<^verbatim>\<open>g_ascii_strtod\<close>, and the
  NUL delimiter and the null pointers are empty values.\<close>

datatype ns_css_component =
  Component (c_type: ns_css_component_type) (c_start: nat) (c_end: nat) (c_value: string)
    (c_number: string) (c_children: "ns_css_component list") (c_delimiter: "char option")

definition slice :: "string \<Rightarrow> nat \<Rightarrow> nat \<Rightarrow> string" where
  "slice s a b = take (b - a) (drop a s)"

text \<open>The loop of \<^verbatim>\<open>css_syntax_consume_string\<close>: the value read so far, the new offset and
  whether the string was well formed.\<close>

function string_loop :: "string \<Rightarrow> char \<Rightarrow> nat \<Rightarrow> string \<Rightarrow> string \<times> nat \<times> bool" where
  "string_loop inp quote off val =
     (if off < length inp then
        (let c = at inp off; o1 = off + 1 in
         if c = quote then (val, o1, True)
         else if css_newline c then (val, o1, False)
         else if c = backslash \<and> o1 < length inp then
           (let nxt = css_syntax_escape_end inp off in
            if nxt = off then (val, o1, False)
            else string_loop inp quote nxt (val @ slice inp off nxt))
         else string_loop inp quote o1 (val @ [c]))
      else (val, off, True))"
  by pat_completeness auto
termination
proof (relation "measure (\<lambda>(inp, quote, off, val). length inp - off)")
  fix inp :: string and quote c :: char and off o1 nxt :: nat and val :: string
  assume "off < length inp" "nxt = css_syntax_escape_end inp off" "nxt \<noteq> off"
  then show "((inp, quote, nxt, val @ slice inp off nxt), inp, quote, off, val)
      \<in> measure (\<lambda>(inp, quote, off, val). length inp - off)"
    using escape_end_ge [of off inp] by auto
qed auto

declare string_loop.simps [simp del]

type_synonym pstate = "nat \<times> bool"

definition css_syntax_consume_string :: "string \<Rightarrow> pstate \<Rightarrow> ns_css_component \<times> pstate" where
  "css_syntax_consume_string inp st =
     (let (start, valid) = st; quote = at inp start;
          (val, off, ok) = string_loop inp quote (start + 1) []
      in (Component NS_CSS_COMPONENT_STRING start off val [] [] (Some quote), (off, valid \<and> ok)))"

definition css_syntax_consume_numeric :: "string \<Rightarrow> pstate \<Rightarrow> ns_css_component \<times> pstate" where
  "css_syntax_consume_numeric inp st =
     (let (start, valid) = st; number_end = css_syntax_number_end inp start;
          (type, end_p) =
            (if number_end < length inp \<and> at inp number_end = CHR ''%'' then (NS_CSS_COMPONENT_PERCENTAGE, number_end + 1)
             else if number_end < length inp \<and>
                (css_syntax_name_start (at inp number_end) \<or> at inp number_end = CHR ''-'' \<or> at inp number_end = backslash)
             then (NS_CSS_COMPONENT_DIMENSION, css_syntax_name_end inp number_end)
             else (NS_CSS_COMPONENT_NUMBER, number_end))
      in (Component type start end_p (slice inp number_end end_p) (slice inp start number_end) [] None,
          (end_p, valid)))"

section \<open>The parser\<close>

text \<open>\<^verbatim>\<open>css_syntax_consume_ident\<close>, \<^verbatim>\<open>css_syntax_consume\<close> and \<^verbatim>\<open>css_syntax_parse_list\<close> are mutually
  recursive in C.  Here the first two take the recursive call to \<^verbatim>\<open>css_syntax_parse_list\<close> as their
  first argument, and the recursion is closed by the fuel of the third.\<close>

type_synonym list_parser = "string \<Rightarrow> char option \<Rightarrow> nat \<Rightarrow> bool \<Rightarrow> (ns_css_component list \<times> pstate) option"

definition css_syntax_consume_ident ::
  "list_parser \<Rightarrow> string \<Rightarrow> nat \<Rightarrow> bool \<Rightarrow> bool \<Rightarrow> bool \<Rightarrow> (ns_css_component \<times> pstate) option" where
  "css_syntax_consume_ident parse_list inp start valid is_at hash =
     (let name_start = (if is_at \<or> hash then start + 1 else start);
          off = css_syntax_name_end inp name_start
      in if \<not> is_at \<and> \<not> hash \<and> off < length inp \<and> at inp off = CHR ''('' then
           (case parse_list inp (Some CHR '')'') (off + 1) valid of
              None \<Rightarrow> None
            | Some (children, (off', valid')) \<Rightarrow>
                Some (Component NS_CSS_COMPONENT_FUNCTION start off' (slice inp name_start off) [] children
                        (Some CHR '')''), (off', valid')))
         else Some (Component (if is_at then NS_CSS_COMPONENT_AT_KEYWORD
                               else if hash then NS_CSS_COMPONENT_HASH else NS_CSS_COMPONENT_IDENT)
                      start off (slice inp name_start off) [] [] None, (off, valid)))"

definition closer_of :: "char \<Rightarrow> char" where
  "closer_of c = (if c = CHR ''('' then CHR '')'' else if c = CHR ''['' then CHR '']'' else CHR ''}'')"

definition css_syntax_consume ::
  "list_parser \<Rightarrow> string \<Rightarrow> nat \<Rightarrow> bool \<Rightarrow> (ns_css_component \<times> pstate) option" where
  "css_syntax_consume parse_list inp start valid =
     (let c = at inp start in
      if css_syntax_whitespace c then
        (let off = run_end css_syntax_whitespace inp start
         in Some (Component NS_CSS_COMPONENT_WHITESPACE start off [] [] [] None, (off, valid)))
      else if c = CHR 0x22 \<or> c = CHR 0x27 then Some (css_syntax_consume_string inp (start, valid))
      else if css_syntax_starts_number inp start then Some (css_syntax_consume_numeric inp (start, valid))
      else if c = CHR ''@'' \<and> start + 1 < length inp \<and>
              (css_syntax_name_start (at inp (start + 1)) \<or> at inp (start + 1) = CHR ''-'' \<or>
               at inp (start + 1) = backslash)
        then css_syntax_consume_ident parse_list inp start valid True False
      else if c = CHR ''#'' \<and> start + 1 < length inp \<and> css_syntax_name (at inp (start + 1))
        then css_syntax_consume_ident parse_list inp start valid False True
      else if css_syntax_name_start c \<or> c = CHR ''-'' \<or> c = backslash
        then css_syntax_consume_ident parse_list inp start valid False False
      else if c = CHR ''('' \<or> c = CHR ''['' \<or> c = CHR ''{'' then
        (case parse_list inp (Some (closer_of c)) (start + 1) valid of
              None \<Rightarrow> None
            | Some (children, (off', valid')) \<Rightarrow>
                Some (Component NS_CSS_COMPONENT_BLOCK start off' [] [] children (Some (closer_of c)), (off', valid')))
      else Some (Component (if c = CHR '':'' then NS_CSS_COMPONENT_COLON
                            else if c = CHR '';'' then NS_CSS_COMPONENT_SEMICOLON
                            else if c = CHR '','' then NS_CSS_COMPONENT_COMMA else NS_CSS_COMPONENT_DELIM)
                   start (start + 1) [] [] [] (Some c), (start + 1, valid)))"

primrec css_syntax_parse_list :: "nat \<Rightarrow> list_parser" where
  "css_syntax_parse_list 0 inp closing off valid = None"
| "css_syntax_parse_list (Suc fuel) inp closing off valid =
     (if off < length inp then
        (let c = at inp off in
         if c = CHR ''/'' \<and> off + 1 < length inp \<and> at inp (off + 1) = CHR ''*'' then
           css_syntax_parse_list fuel inp closing (css_syntax_skip_comment inp off) valid
         else if closing = Some c then Some ([], (off + 1, valid))
         else if c = CHR '')'' \<or> c = CHR '']'' \<or> c = CHR ''}'' then
           (if closing \<noteq> None then Some ([], (off + 1, False))
            else css_syntax_parse_list fuel inp closing (off + 1) False)
         else
           (case css_syntax_consume (css_syntax_parse_list fuel) inp off valid of
              None \<Rightarrow> None
            | Some (cv, (off', valid')) \<Rightarrow>
                map_option (\<lambda>(cvs, st). (cv # cvs, st)) (css_syntax_parse_list fuel inp closing off' valid')))
      else Some ([], (off, valid)))"

definition ns_css_component_values_parse :: "nat \<Rightarrow> string \<Rightarrow> (ns_css_component list \<times> bool) option" where
  "ns_css_component_values_parse fuel inp =
     map_option (\<lambda>(comps, (off, valid)). (comps, valid)) (css_syntax_parse_list fuel inp None 0 True)"

definition ns_css_component_value_valid :: "nat \<Rightarrow> string \<Rightarrow> bool option" where
  "ns_css_component_value_valid fuel inp = map_option snd (ns_css_component_values_parse fuel inp)"

section \<open>The scanner\<close>

text \<open>One round of the loop at position \<^verbatim>\<open>p\<close>: \<^const>\<open>None\<close> when it returns there.  \<^verbatim>\<open>quote\<close> is \<^const>\<open>None\<close>
  outside strings; \<^verbatim>\<open>stack\<close> holds the expected closers, the innermost first, and never more than
  the 128 cells of the C array.\<close>

definition scan_step :: "string \<Rightarrow> string \<Rightarrow> nat \<Rightarrow> char option \<Rightarrow> char list \<Rightarrow> (nat \<times> char option \<times> char list) option" where
  "scan_step inp terms p quote stack =
     (let c = at inp p in
      if quote \<noteq> None then
        (if c = backslash \<and> p + 1 < length inp then Some (p + 2, quote, stack)
         else Some (p + 1, if quote = Some c then None else quote, stack))
      else if c = CHR ''/'' \<and> p + 1 < length inp \<and> at inp (p + 1) = CHR ''*'' then
        Some (css_syntax_skip_comment inp p, quote, stack)
      else if c = backslash \<and> p + 1 < length inp then Some (p + 2, quote, stack)
      else if c = CHR 0x22 \<or> c = CHR 0x27 then Some (p + 1, Some c, stack)
      else if stack = [] \<and> (c = CHR 0x00 \<or> c \<in> set terms) then None
      else if c = CHR ''('' \<or> c = CHR ''['' \<or> c = CHR ''{'' then
        Some (p + 1, quote, if length stack < 128 then closer_of c # stack else stack)
      else if stack \<noteq> [] \<and> c = hd stack then Some (p + 1, quote, tl stack)
      else Some (p + 1, quote, stack))"

lemma comment_close_ge: "off \<le> comment_close inp off"
proof (induction inp off rule: comment_close.induct)
  case (1 inp off)
  then show ?case by (subst comment_close.simps) auto
qed

lemma comment_close_le: "off \<le> length inp \<Longrightarrow> comment_close inp off \<le> length inp"
proof (induction inp off rule: comment_close.induct)
  case (1 inp off)
  then show ?case by (subst comment_close.simps) auto
qed

lemma skip_comment_bounds:
  assumes "off + 1 < length inp"
  shows "off < css_syntax_skip_comment inp off" "css_syntax_skip_comment inp off \<le> length inp"
  using assms comment_close_ge [of "off + 2" inp] comment_close_le [of "off + 2" inp]
  by (auto simp: css_syntax_skip_comment_def Let_def)

lemma scan_step_bounds:
  assumes "p < length inp" and "scan_step inp terms p quote stack = Some (p', quote', stack')"
  shows "p < p'" "p' \<le> length inp" "length stack \<le> 128 \<Longrightarrow> length stack' \<le> 128"
  using assms skip_comment_bounds [of p inp] by (auto simp: scan_step_def Let_def split: if_splits)

lemma scan_step_stop:
  "scan_step inp terms p quote stack = None \<Longrightarrow>
     quote = None \<and> stack = [] \<and> (at inp p = CHR 0x00 \<or> at inp p \<in> set terms)"
  by (auto simp: scan_step_def Let_def split: if_splits)

function scan_loop :: "string \<Rightarrow> string \<Rightarrow> nat \<Rightarrow> char option \<Rightarrow> char list \<Rightarrow> nat \<times> char option" where
  "scan_loop inp terms p quote stack =
     (if p < length inp then
        (case scan_step inp terms p quote stack of
           None \<Rightarrow> (p, Some (at inp p))
         | Some (p', quote', stack') \<Rightarrow> scan_loop inp terms p' quote' stack')
      else (p, None))"
  by pat_completeness auto
termination
  by (relation "measure (\<lambda>(inp, terms, p, quote, stack). length inp - p)") (auto intro: diff_less_mono2 dest: scan_step_bounds(1))

declare scan_loop.simps [simp del]

definition ns_css_syntax_scan :: "string \<Rightarrow> string \<Rightarrow> nat \<times> char option" where
  "ns_css_syntax_scan inp terms = scan_loop inp terms 0 None []"

section \<open>Offsets stay inside the input\<close>

lemma number_parts_ge:
  "off \<le> sign_end inp off" "off \<le> fraction_end inp off" "off \<le> exponent_end inp off"
  by (auto simp: sign_end_def fraction_end_def exponent_end_def run_end_def Let_def)

lemma number_parts_le:
  assumes "off \<le> length inp"
  shows "sign_end inp off \<le> length inp" "fraction_end inp off \<le> length inp" "exponent_end inp off \<le> length inp"
  using assms by (auto simp: sign_end_def fraction_end_def exponent_end_def Let_def intro!: run_end_le)

lemma number_end_ge_parts:
  "run_end g_ascii_isdigit inp (sign_end inp off) \<le> css_syntax_number_end inp off"
  "fraction_end inp (run_end g_ascii_isdigit inp (sign_end inp off)) \<le> css_syntax_number_end inp off"
  unfolding css_syntax_number_end_def by (meson number_parts_ge order_trans)+

lemma number_end_ge: "off \<le> css_syntax_number_end inp off"
  by (meson number_end_ge_parts(1) number_parts_ge(1) order_trans run_end_ge)

lemma number_end_le: "off \<le> length inp \<Longrightarrow> css_syntax_number_end inp off \<le> length inp"
  by (simp add: css_syntax_number_end_def number_parts_le run_end_le)

lemma starts_number_first:
  "css_syntax_starts_number inp off \<Longrightarrow>
     off < length inp \<and> (g_ascii_isdigit (at inp off) \<or> at inp off = CHR ''.'' \<or>
       at inp off = CHR ''+'' \<or> at inp off = CHR ''-'')"
  by (auto simp: css_syntax_starts_number_def Let_def split: if_splits)

lemma at_beyond [simp]: "length inp \<le> i \<Longrightarrow> at inp i = CHR 0x00"
  by (simp add: at_def)

lemma isdigit_inside: "g_ascii_isdigit (at inp i) \<Longrightarrow> i < length inp"
  by (rule ccontr) (simp add: g_ascii_isdigit_def)

lemma not_digit_signs [simp]: "\<not> g_ascii_isdigit CHR ''.''" "\<not> g_ascii_isdigit CHR ''+''" "\<not> g_ascii_isdigit CHR ''-''"
  by (simp_all add: g_ascii_isdigit_def)

lemma number_end_gt:
  assumes "css_syntax_starts_number inp off"
  shows "off < css_syntax_number_end inp off"
proof -
  from assms have inside: "off < length inp" by (simp add: starts_number_first)
  from starts_number_first [OF assms]
  consider (digit) "g_ascii_isdigit (at inp off)" | (dot) "at inp off = CHR ''.''"
    | (sign) "at inp off = CHR ''+'' \<or> at inp off = CHR ''-''" by blast
  then show ?thesis
  proof cases
    case digit
    then have "sign_end inp off = off" by (auto simp: sign_end_def)
    then show ?thesis
      using run_end_gt [where P = g_ascii_isdigit, OF inside digit] number_end_ge_parts(1) [of inp off] by simp
  next
    case dot
    then have "g_ascii_isdigit (at inp (off + 1))"
      using assms by (auto simp: css_syntax_starts_number_def Let_def split: if_splits)
    moreover from this have "off + 1 < length inp" by (rule isdigit_inside)
    moreover have "run_end g_ascii_isdigit inp off = off" "sign_end inp off = off"
      using inside dot by (simp_all add: run_end_def sign_end_def at_def flip: Cons_nth_drop_Suc)
    ultimately have "off < fraction_end inp (run_end g_ascii_isdigit inp (sign_end inp off))"
      using dot by (simp add: fraction_end_def run_end_def)
    then show ?thesis using number_end_ge_parts(2) [of inp off] by simp
  next
    case sign
    then have "sign_end inp off = off + 1" using inside by (auto simp: sign_end_def)
    then show ?thesis
      using number_end_ge_parts(1) [of inp off] run_end_ge [of "off + 1" g_ascii_isdigit inp] by simp
  qed
qed

lemma string_loop_bounds:
  assumes "off \<le> length inp" and "string_loop inp quote off val = (v, off', ok)"
  shows "off \<le> off' \<and> off' \<le> length inp"
  using assms
proof (induction inp quote off val rule: string_loop.induct)
  case (1 inp quote off val)
  show ?case
  proof (cases "off < length inp")
    case False
    with 1(3,4) show ?thesis by (subst (asm) string_loop.simps) simp
  next
    case inside: True
    note step = 1(4) [unfolded string_loop.simps [of inp quote off val]]
    show ?thesis
      using step inside 1(1,2) escape_end_ge [of off inp] escape_end_le [of off inp]
      by (fastforce simp: Let_def split: if_splits)
  qed
qed

section \<open>Spans and progress\<close>

text \<open>The spans of a component list: each component lies between the end of the one before it
  and the end of the list, and its children lie inside it.\<close>

fun comp_ok :: "nat \<Rightarrow> nat \<Rightarrow> ns_css_component \<Rightarrow> bool"
and spans_ok :: "nat \<Rightarrow> nat \<Rightarrow> ns_css_component list \<Rightarrow> bool" where
  "comp_ok lo hi (Component ty s e v n ch d) \<longleftrightarrow> lo \<le> s \<and> s \<le> e \<and> e \<le> hi \<and> spans_ok s e ch"
| "spans_ok lo hi [] \<longleftrightarrow> lo \<le> hi"
| "spans_ok lo hi (c # cs) \<longleftrightarrow> comp_ok lo hi c \<and> spans_ok (c_end c) hi cs"

lemma spans_ok_mono_lo: "lo \<le> lo' \<Longrightarrow> spans_ok lo' hi cs \<Longrightarrow> spans_ok lo hi cs"
proof (cases cs)
  case (Cons c cs')
  assume "lo \<le> lo'" "spans_ok lo' hi cs"
  with Cons show ?thesis by (cases c) auto
qed auto

lemma spans_ok_mono_hi: "spans_ok lo hi cs \<Longrightarrow> hi \<le> hi' \<Longrightarrow> spans_ok lo hi' cs"
proof (induction cs arbitrary: lo)
  case (Cons c cs)
  then show ?case by (cases c) auto
qed auto

lemma spans_ok_le: "spans_ok lo hi cs \<Longrightarrow> lo \<le> hi"
proof (cases cs)
  case (Cons c cs')
  assume "spans_ok lo hi cs"
  with Cons show ?thesis by (cases c) auto
qed auto

text \<open>An escape that consumes nothing: a backslash before a newline.\<close>

definition stuck_escape :: "string \<Rightarrow> nat \<Rightarrow> bool" where
  "stuck_escape inp i \<longleftrightarrow> at inp i = backslash \<and> i + 1 < length inp \<and> css_newline (at inp (i + 1))"

lemma newline_not_hex: "css_newline c \<Longrightarrow> \<not> g_ascii_isxdigit c"
  by (auto simp: css_newline_def g_ascii_isxdigit_def g_ascii_isdigit_def)

lemma escape_end_stuck:
  "off < length inp \<Longrightarrow> at inp off = backslash \<Longrightarrow>
     css_syntax_escape_end inp off = off \<longleftrightarrow> stuck_escape inp off"
  by (auto simp: css_syntax_escape_end_def stuck_escape_def Let_def newline_not_hex)

lemma name_end_gt:
  assumes "off < length inp" and "css_syntax_name (at inp off) \<or> at inp off = backslash \<and> \<not> stuck_escape inp off"
  shows "off < css_syntax_name_end inp off"
proof (cases "css_syntax_name (at inp off)")
  case True
  then show ?thesis
    using assms(1) name_end_ge [of "off + 1" inp] by (subst css_syntax_name_end.simps) simp
next
  case False
  with assms have "at inp off = backslash" "\<not> stuck_escape inp off" by auto
  moreover from this have "off < css_syntax_escape_end inp off"
    using escape_end_stuck [OF assms(1)] escape_end_ge [of off inp] by fastforce
  ultimately show ?thesis
    using assms(1) False name_end_ge [of "css_syntax_escape_end inp off" inp]
    by (subst css_syntax_name_end.simps) (simp add: Let_def)
qed

text \<open>What the recursive list parser promises at the offsets after a given one.\<close>

definition list_spans :: "list_parser \<Rightarrow> string \<Rightarrow> bool" where
  "list_spans pl inp \<longleftrightarrow> (\<forall>closing o1 v cvs o2 v2. pl inp closing o1 v = Some (cvs, (o2, v2)) \<longrightarrow>
     o1 \<le> length inp \<longrightarrow> o1 \<le> o2 \<and> o2 \<le> length inp \<and> spans_ok o1 o2 cvs)"

lemma list_spansD:
  "list_spans pl inp \<Longrightarrow> pl inp closing o1 v = Some (cvs, (o2, v2)) \<Longrightarrow> o1 \<le> length inp \<Longrightarrow>
     o1 \<le> o2 \<and> o2 \<le> length inp \<and> spans_ok o1 o2 cvs"
  unfolding list_spans_def by blast

lemma consume_string_spans:
  assumes "css_syntax_consume_string inp (start, valid) = (cv, (o2, v2))" and "start < length inp"
  shows "start < o2 \<and> o2 \<le> length inp \<and> c_start cv = start \<and> c_end cv = o2 \<and> spans_ok start o2 (c_children cv)"
proof -
  obtain v off ok where loop: "string_loop inp (at inp start) (start + 1) [] = (v, off, ok)"
    by (metis prod_cases3)
  have "start + 1 \<le> off \<and> off \<le> length inp"
    using string_loop_bounds [OF _ loop] assms(2) by simp
  then show ?thesis
    using assms(1) loop by (auto simp: css_syntax_consume_string_def)
qed

lemma consume_numeric_spans:
  assumes "css_syntax_consume_numeric inp (start, valid) = (cv, (o2, v2))" and "css_syntax_starts_number inp start"
  shows "start < o2 \<and> o2 \<le> length inp \<and> c_start cv = start \<and> c_end cv = o2 \<and> spans_ok start o2 (c_children cv)"
proof -
  have le: "css_syntax_number_end inp start \<le> length inp"
    using starts_number_first [OF assms(2)] by (simp add: number_end_le)
  show ?thesis
    using assms(1) le number_end_gt [OF assms(2)] name_end_ge [of "css_syntax_number_end inp start" inp]
      name_end_le [OF le]
    by (auto simp: css_syntax_consume_numeric_def Let_def split: if_splits)
qed

lemma consume_ident_spans:
  assumes "css_syntax_consume_ident pl inp start valid is_at hash = Some (cv, (o2, v2))"
    and "start < length inp" and "list_spans pl inp"
  shows "start \<le> o2 \<and> o2 \<le> length inp \<and> c_start cv = start \<and> c_end cv = o2 \<and> spans_ok start o2 (c_children cv)"
proof -
  define name_start where "name_start = (if is_at \<or> hash then start + 1 else start)"
  define off where "off = css_syntax_name_end inp name_start"
  have off: "start \<le> off" "off \<le> length inp"
    using assms(2) name_end_ge [of name_start inp] name_end_le [of name_start inp]
    by (auto simp: off_def name_start_def split: if_splits)
  note def = assms(1) [unfolded css_syntax_consume_ident_def Let_def, folded name_start_def, folded off_def]
  show ?thesis
  proof (cases "\<not> is_at \<and> \<not> hash \<and> off < length inp \<and> at inp off = CHR ''(''")
    case True
    then obtain ch o3 v3 where list: "pl inp (Some CHR '')'') (off + 1) valid = Some (ch, (o3, v3))"
      using def by (auto split: option.splits)
    then have "off + 1 \<le> o3 \<and> o3 \<le> length inp \<and> spans_ok (off + 1) o3 ch"
      using list_spansD [OF assms(3) list] True by simp
    moreover from this have "spans_ok start o3 ch"
      using spans_ok_mono_lo [of start "off + 1"] off by simp
    ultimately show ?thesis using def True list off by auto
  next
    case False
    then show ?thesis using def off by (auto split: if_splits)
  qed
qed

text \<open>The branches of \<^const>\<open>css_syntax_consume\<close>, each with what it returns.\<close>

lemma consume_cases:
  obtains (ws) "css_syntax_whitespace (at inp start)"
      "css_syntax_consume pl inp start valid =
         Some (Component NS_CSS_COMPONENT_WHITESPACE start (run_end css_syntax_whitespace inp start) [] [] [] None,
               (run_end css_syntax_whitespace inp start, valid))"
    | (str) "css_syntax_consume pl inp start valid = Some (css_syntax_consume_string inp (start, valid))"
    | (num) "css_syntax_starts_number inp start"
      "css_syntax_consume pl inp start valid = Some (css_syntax_consume_numeric inp (start, valid))"
    | (ident) is_at hash where "is_at \<or> hash \<or> css_syntax_name (at inp start) \<or> at inp start = backslash"
      "css_syntax_consume pl inp start valid = css_syntax_consume_ident pl inp start valid is_at hash"
    | (block) closing where "css_syntax_consume pl inp start valid =
         map_option (\<lambda>(ch, (off', valid')).
            (Component NS_CSS_COMPONENT_BLOCK start off' [] [] ch (Some closing), (off', valid')))
          (pl inp (Some closing) (start + 1) valid)"
    | (delim) ty where "css_syntax_consume pl inp start valid =
         Some (Component ty start (start + 1) [] [] [] (Some (at inp start)), (start + 1, valid))"
proof -
  note def = css_syntax_consume_def [of pl inp start valid, unfolded Let_def]
  consider (a) "css_syntax_whitespace (at inp start)"
    | (b) "\<not> css_syntax_whitespace (at inp start)" "at inp start = CHR 0x22 \<or> at inp start = CHR 0x27"
    | (c) "\<not> css_syntax_whitespace (at inp start)" "\<not> (at inp start = CHR 0x22 \<or> at inp start = CHR 0x27)"
      by blast
  then show thesis
  proof cases
    case a
    with def show thesis by (intro ws) simp_all
  next
    case b
    with def show thesis by (intro str) simp
  next
    case c
    note def = def [simplified c simp_thms if_False]
    show thesis
    proof (cases "css_syntax_starts_number inp start")
      case True
      with def show thesis by (intro num) simp_all
    next
      case False
      note def = def [simplified False simp_thms if_False]
      let ?at = "at inp start = CHR ''@'' \<and> start + 1 < length inp \<and>
              (css_syntax_name_start (at inp (start + 1)) \<or> at inp (start + 1) = CHR ''-'' \<or>
               at inp (start + 1) = backslash)"
      let ?hash = "at inp start = CHR ''#'' \<and> start + 1 < length inp \<and> css_syntax_name (at inp (start + 1))"
      let ?name = "css_syntax_name_start (at inp start) \<or> at inp start = CHR ''-'' \<or> at inp start = backslash"
      let ?open = "at inp start = CHR ''('' \<or> at inp start = CHR ''['' \<or> at inp start = CHR ''{''"
      consider ?at | "\<not> ?at" ?hash | "\<not> ?at" "\<not> ?hash" ?name | "\<not> ?at" "\<not> ?hash" "\<not> ?name" ?open
        | "\<not> ?at" "\<not> ?hash" "\<not> ?name" "\<not> ?open" by blast
      then show thesis
      proof cases
        case 1
        then show thesis by (intro ident [of True False]) (simp, simp only: def if_P)
      next
        case 2
        then show thesis by (intro ident [of False True]) (simp, simp only: def if_P if_not_P if_True if_False simp_thms)
      next
        case 3
        then have "css_syntax_name (at inp start) \<or> at inp start = backslash"
          by (auto simp: css_syntax_name_def)
        with 3 show thesis by (intro ident [of False False]) (simp, simp only: def if_P if_not_P if_True if_False simp_thms)
      next
        case 4
        then have "css_syntax_consume pl inp start valid =
          (case pl inp (Some (closer_of (at inp start))) (start + 1) valid of
              None \<Rightarrow> None
            | Some (children, (off', valid')) \<Rightarrow>
                Some (Component NS_CSS_COMPONENT_BLOCK start off' [] [] children (Some (closer_of (at inp start))), (off', valid')))"
          by (simp only: def if_P if_not_P if_True if_False simp_thms)
        then show thesis by (intro block [of "closer_of (at inp start)"]) (simp split: option.split)
      next
        case 5
        then show thesis by (intro delim) (simp only: def if_P if_not_P if_True if_False simp_thms)
      qed
    qed
  qed
qed

lemma consume_spans:
  assumes "css_syntax_consume pl inp start valid = Some (cv, (o2, v2))"
    and "start < length inp" and "list_spans pl inp"
  shows "start \<le> o2 \<and> o2 \<le> length inp \<and> c_start cv = start \<and> c_end cv = o2 \<and> spans_ok start o2 (c_children cv)"
proof (cases rule: consume_cases [of inp start pl valid])
  case ws
  have "run_end css_syntax_whitespace inp start \<le> length inp"
    using assms(2) by (simp add: run_end_le)
  with ws(2) assms(1) run_end_ge [of start css_syntax_whitespace inp] show ?thesis by auto
next
  case str
  with assms(1) consume_string_spans [OF _ assms(2)] show ?thesis by fastforce
next
  case num
  with assms(1) consume_numeric_spans [OF _ num(1)] show ?thesis by fastforce
next
  case (ident is_at hash)
  with assms(1) consume_ident_spans [OF _ assms(2,3)] show ?thesis by simp
next
  case (block closing)
  with assms(1) obtain ch where list: "pl inp (Some closing) (start + 1) valid = Some (ch, (o2, v2))"
    and cv: "cv = Component NS_CSS_COMPONENT_BLOCK start o2 [] [] ch (Some closing)"
    by auto
  have "start + 1 \<le> o2 \<and> o2 \<le> length inp \<and> spans_ok (start + 1) o2 ch"
    using list_spansD [OF assms(3) list] assms(2) by simp
  then show ?thesis using cv spans_ok_mono_lo [of start "start + 1"] by auto
next
  case (delim ty)
  with assms(1,2) show ?thesis by auto
qed

lemma consume_progress:
  assumes "css_syntax_consume pl inp start valid = Some (cv, (o2, v2))"
    and "start < length inp" and "list_spans pl inp" and "\<not> stuck_escape inp start"
  shows "start < o2"
proof (cases rule: consume_cases [of inp start pl valid])
  case ws
  with assms(1) run_end_gt [where P = css_syntax_whitespace, OF assms(2) ws(1)] show ?thesis by simp
next
  case str
  with assms(1) consume_string_spans [OF _ assms(2)] show ?thesis by fastforce
next
  case num
  with assms(1) consume_numeric_spans [OF _ num(1)] show ?thesis by fastforce
next
  case (ident is_at hash)
  define name_start where "name_start = (if is_at \<or> hash then start + 1 else start)"
  have lt: "start < css_syntax_name_end inp name_start"
    using ident(1) assms(4) name_end_gt [OF assms(2)] name_end_ge [of "start + 1" inp]
    by (auto simp: name_start_def)
  note def = assms(1) [unfolded ident(2) css_syntax_consume_ident_def Let_def, folded name_start_def]
  show ?thesis
    using def lt list_spansD [OF assms(3)]
    by (fastforce split: if_splits option.splits)
next
  case (block closing)
  with assms(1) obtain ch where list: "pl inp (Some closing) (start + 1) valid = Some (ch, (o2, v2))"
    by auto
  show ?thesis using list_spansD [OF assms(3) list] assms(2) by simp
next
  case (delim ty)
  with assms(1) show ?thesis by auto
qed

lemma consume_total:
  assumes "\<And>closing o1 v. start < o1 \<Longrightarrow> o1 \<le> length inp \<Longrightarrow> pl inp closing o1 v \<noteq> None" and "start < length inp"
  shows "css_syntax_consume pl inp start valid \<noteq> None"
proof (cases rule: consume_cases [of inp start pl valid])
  case (ident is_at hash)
  have "css_syntax_name_end inp start \<ge> start" by (rule name_end_ge)
  then show ?thesis
    using ident assms(1) [of "css_syntax_name_end inp start + 1" "Some CHR '')''" valid]
    by (auto simp: css_syntax_consume_ident_def Let_def split: option.splits)
next
  case (block closing)
  then show ?thesis using assms by simp
qed auto

text \<open>One unfolding of the list parser, by the branches of its loop.\<close>

lemma parse_list_cases:
  assumes "off < length inp"
  obtains (comment) "off + 1 < length inp"
      "css_syntax_parse_list (Suc fuel) inp closing off valid =
         css_syntax_parse_list fuel inp closing (css_syntax_skip_comment inp off) valid"
    | (close) v where "css_syntax_parse_list (Suc fuel) inp closing off valid = Some ([], (off + 1, v))"
    | (stray) "closing = None"
      "css_syntax_parse_list (Suc fuel) inp closing off valid = css_syntax_parse_list fuel inp closing (off + 1) False"
    | (component) "css_syntax_parse_list (Suc fuel) inp closing off valid =
         (case css_syntax_consume (css_syntax_parse_list fuel) inp off valid of
            None \<Rightarrow> None
          | Some (cv, (off', valid')) \<Rightarrow>
              map_option (\<lambda>(cvs, st). (cv # cvs, st)) (css_syntax_parse_list fuel inp closing off' valid'))"
proof -
  let ?c = "at inp off"
  let ?comment = "?c = CHR ''/'' \<and> off + 1 < length inp \<and> at inp (off + 1) = CHR ''*''"
  let ?close = "?c = CHR '')'' \<or> ?c = CHR '']'' \<or> ?c = CHR ''}''"
  note def = css_syntax_parse_list.simps(2) [of fuel inp closing off valid, unfolded Let_def if_P [OF assms]]
  consider ?comment | "\<not> ?comment" "closing = Some ?c" | "\<not> ?comment" "closing \<noteq> Some ?c" ?close "closing \<noteq> None"
    | "\<not> ?comment" "closing \<noteq> Some ?c" ?close "closing = None" | "\<not> ?comment" "closing \<noteq> Some ?c" "\<not> ?close"
    by blast
  then show thesis
  proof cases
    case 1
    then show thesis by (intro comment) (simp, simp only: def if_P)
  next
    case 2
    then have "css_syntax_parse_list (Suc fuel) inp closing off valid = Some ([], (off + 1, valid))"
      unfolding def by (simp only: if_P if_not_P if_True if_False simp_thms)
    then show thesis by (rule close)
  next
    case 3
    then have "css_syntax_parse_list (Suc fuel) inp closing off valid = Some ([], (off + 1, False))"
      by (simp only: def if_P if_not_P simp_thms)
    then show thesis by (rule close)
  next
    case 4
    then have "css_syntax_parse_list (Suc fuel) inp closing off valid =
        css_syntax_parse_list fuel inp closing (off + 1) False"
      unfolding def by (simp only: if_P if_not_P if_True if_False simp_thms)
    with 4(4) show thesis by (intro stray)
  next
    case 5
    then show thesis by (intro component) (simp only: def if_P if_not_P if_False)
  qed
qed

lemma parse_list_spans: "list_spans (css_syntax_parse_list fuel) inp"
proof (induction fuel)
  case 0
  then show ?case by (simp add: list_spans_def)
next
  case (Suc fuel)
  have "o1 \<le> o2 \<and> o2 \<le> length inp \<and> spans_ok o1 o2 cvs"
    if res: "css_syntax_parse_list (Suc fuel) inp closing o1 v = Some (cvs, (o2, v2))" and le: "o1 \<le> length inp"
    for closing o1 v cvs o2 v2
  proof (cases "o1 < length inp")
    case False
    with res le show ?thesis by auto
  next
    case inside: True
    then show ?thesis
    proof (cases rule: parse_list_cases [where fuel = fuel and closing = closing and valid = v])
      case comment
      note skip = skip_comment_bounds [OF comment(1)]
      have list: "css_syntax_parse_list fuel inp closing (css_syntax_skip_comment inp o1) v = Some (cvs, (o2, v2))"
        using res comment(2) by simp
      have "css_syntax_skip_comment inp o1 \<le> o2 \<and> o2 \<le> length inp \<and> spans_ok (css_syntax_skip_comment inp o1) o2 cvs"
        by (rule list_spansD [OF Suc.IH list skip(2)])
      with skip(1) spans_ok_mono_lo [of o1 "css_syntax_skip_comment inp o1"] show ?thesis by auto
    next
      case (close v')
      with res inside show ?thesis by auto
    next
      case stray
      have list: "css_syntax_parse_list fuel inp closing (o1 + 1) False = Some (cvs, (o2, v2))"
        using res stray(2) by simp
      have "o1 + 1 \<le> o2 \<and> o2 \<le> length inp \<and> spans_ok (o1 + 1) o2 cvs"
        using list_spansD [OF Suc.IH list] inside by simp
      with spans_ok_mono_lo [of o1 "o1 + 1"] show ?thesis by auto
    next
      case component
      then obtain cv o3 v3 cvs' where cv: "css_syntax_consume (css_syntax_parse_list fuel) inp o1 v = Some (cv, (o3, v3))"
        and rest: "css_syntax_parse_list fuel inp closing o3 v3 = Some (cvs', (o2, v2))" and cvs: "cvs = cv # cvs'"
        using res by (auto split: option.splits)
      have 1: "o1 \<le> o3 \<and> o3 \<le> length inp \<and> c_start cv = o1 \<and> c_end cv = o3 \<and> spans_ok o1 o3 (c_children cv)"
        by (rule consume_spans [OF cv inside Suc.IH])
      then have 2: "o3 \<le> o2 \<and> o2 \<le> length inp \<and> spans_ok o3 o2 cvs'"
        using list_spansD [OF Suc.IH rest] by simp
      from 1 2 cvs show ?thesis by (cases cv) auto
    qed
  qed
  then show ?case unfolding list_spans_def by blast
qed

definition no_stuck_escape :: "string \<Rightarrow> bool" where
  "no_stuck_escape inp \<longleftrightarrow> list_all (\<lambda>i. \<not> stuck_escape inp i) [0..<length inp]"

lemma parse_list_total:
  assumes "no_stuck_escape inp" and "off \<le> length inp" and "length inp - off < fuel"
  shows "css_syntax_parse_list fuel inp closing off valid \<noteq> None"
  using assms(2,3)
proof (induction fuel arbitrary: closing off valid)
  case (Suc fuel)
  show ?case
  proof (cases "off < length inp")
    case inside: True
    then have less: "length inp - o1 < fuel" if "off < o1" for o1
      using Suc.prems that by linarith
    show ?thesis
      using inside
    proof (cases rule: parse_list_cases [where fuel = fuel and closing = closing and valid = valid])
      case comment
      then show ?thesis
        using skip_comment_bounds [OF comment(1)] Suc.IH [OF _ less] by simp
    next
      case stray
      then show ?thesis using Suc.IH [of "off + 1"] less [of "off + 1"] inside by simp
    next
      case component
      have "css_syntax_consume (css_syntax_parse_list fuel) inp off valid \<noteq> None"
        by (rule consume_total [OF _ inside]) (simp only: Suc.IH less not_False_eq_True)
      then obtain cv o3 v3 where cv: "css_syntax_consume (css_syntax_parse_list fuel) inp off valid = Some (cv, (o3, v3))"
        by auto
      have "\<not> stuck_escape inp off"
        using assms(1) inside by (simp add: no_stuck_escape_def list_all_iff)
      then have "off < o3" by (rule consume_progress [OF cv inside parse_list_spans])
      moreover have "o3 \<le> length inp" using consume_spans [OF cv inside parse_list_spans] by simp
      ultimately have "css_syntax_parse_list fuel inp closing o3 v3 \<noteq> None"
        using Suc.IH less by simp
      then show ?thesis using component cv by auto
    qed simp
  qed simp
qed simp

section \<open>Properties\<close>

text \<open>C13. Parsing component values ends on every input without an escaped newline: one step
  more than the input's length is enough fuel.  The components it returns are in source order,
  do not overlap, lie inside the input, and every child lies inside its parent.\<close>

theorem css_parse_total_and_nested:
  assumes "no_stuck_escape inp" and "length inp < fuel"
  shows "\<exists>cvs valid. ns_css_component_values_parse fuel inp = Some (cvs, valid) \<and>
           spans_ok 0 (length inp) cvs"
proof -
  have "css_syntax_parse_list fuel inp None 0 True \<noteq> None"
    using assms by (intro parse_list_total) simp_all
  then obtain cvs off valid where res: "css_syntax_parse_list fuel inp None 0 True = Some (cvs, (off, valid))"
    by auto
  have "off \<le> length inp \<and> spans_ok 0 off cvs"
    using list_spansD [OF parse_list_spans res] by simp
  then have "spans_ok 0 (length inp) cvs"
    using spans_ok_mono_hi by blast
  then show ?thesis
    using res by (simp add: ns_css_component_values_parse_def)
qed

theorem css_parse_total_and_nested_witness:
  "(\<exists>cvs valid. ns_css_component_values_parse 24 ''a{b:calc(1px + 2em)}'' = Some (cvs, valid) \<and>
      spans_ok 0 (length ''a{b:calc(1px + 2em)}'') cvs) \<and>
   map_option (\<lambda>(cvs, valid). (map c_type cvs, map c_end cvs, valid))
     (ns_css_component_values_parse 24 ''a{b:calc(1px + 2em)}'') =
     Some ([NS_CSS_COMPONENT_IDENT, NS_CSS_COMPONENT_BLOCK], [1, 20], True)"
proof
  have "no_stuck_escape ''a{b:calc(1px + 2em)}''" by code_simp
  then show "\<exists>cvs valid. ns_css_component_values_parse 24 ''a{b:calc(1px + 2em)}'' = Some (cvs, valid) \<and>
      spans_ok 0 (length ''a{b:calc(1px + 2em)}'') cvs"
    by (rule css_parse_total_and_nested) simp
qed code_simp

text \<open>At an escaped newline the component loop appends an empty identifier and stays where it
  is, whatever fuel is left.\<close>

lemma parse_list_stuck:
  assumes "stuck_escape inp off" and "closing \<noteq> Some backslash"
  shows "css_syntax_parse_list fuel inp closing off valid = None"
proof (induction fuel arbitrary: valid)
  case (Suc fuel)
  have bs: "at inp off = backslash" and inside: "off + 1 < length inp" and nl: "css_newline (at inp (off + 1))"
    using assms(1) by (simp_all add: stuck_escape_def)
  have name: "css_syntax_name_end inp off = off"
    using bs inside escape_end_stuck [of off inp] assms(1)
    by (subst css_syntax_name_end.simps) (simp add: css_syntax_name_def css_syntax_name_start_def Let_def
        g_ascii_isalpha_def g_ascii_islower_def g_ascii_isupper_def g_ascii_isdigit_def)
  have num: "\<not> css_syntax_starts_number inp off"
    using starts_number_first [of inp off] bs by (auto simp: g_ascii_isdigit_def)
  have "css_syntax_consume (css_syntax_parse_list fuel) inp off valid =
      Some (Component NS_CSS_COMPONENT_IDENT off off [] [] [] None, (off, valid))"
    using bs num inside name
    by (simp add: css_syntax_consume_def css_syntax_consume_ident_def css_syntax_whitespace_def slice_def Let_def)
  then show ?case
    using bs inside Suc.IH assms(2) by (auto simp: Let_def)
qed simp

text \<open>An escaped newline where a component value starts makes the parser loop for ever:
  no number of steps returns, for any text after it.  The declaration-value check of the style
  sheet parser calls this parser on page content.\<close>

theorem css_escaped_newline_diverges:
  "css_newline c \<Longrightarrow> ns_css_component_values_parse fuel (backslash # c # rest) = None"
  using parse_list_stuck [of "backslash # c # rest" 0 None fuel True]
  by (simp add: ns_css_component_values_parse_def stuck_escape_def at_def)

theorem css_escaped_newline_diverges_witness:
  "ns_css_component_values_parse 1000000 (backslash # CHR 0x0A # ''red'') = None"
  by (rule css_escaped_newline_diverges) (simp add: css_newline_def)

subsection \<open>Scanning for a terminator\<close>

text \<open>The scanner stops at the end of the input, or at a terminator of the list (or the NUL that
  ends the C string of terminators) outside quotes and brackets.\<close>

lemma scan_loop_result:
  assumes "scan_loop inp terms p quote stack = (q, t)" and "p \<le> length inp"
  shows "p \<le> q \<and> (case t of None \<Rightarrow> q = length inp
           | Some c \<Rightarrow> q < length inp \<and> c = at inp q \<and> (c = CHR 0x00 \<or> c \<in> set terms))"
  using assms
proof (induction inp terms p quote stack rule: scan_loop.induct)
  case (1 inp terms p quote stack)
  show ?case
  proof (cases "p < length inp \<and> scan_step inp terms p quote stack \<noteq> None")
    case True
    then obtain p' quote' stack' where step: "scan_step inp terms p quote stack = Some (p', quote', stack')" by auto
    note bounds = scan_step_bounds [OF _ step]
    show ?thesis
      using 1(1) [OF _ step refl refl] 1(2) True step bounds
      by (subst (asm) (2) scan_loop.simps) force
  next
    case False
    then show ?thesis
      using 1(2,3) scan_step_stop [of inp terms p quote stack]
      by (subst (asm) scan_loop.simps) (auto split: if_splits option.splits)
  qed
qed

end
