(* ===== verification/NS_Eventsource.thy ===== *)
theory NS_Eventsource
  imports NS_Interfaces
begin

text \<open>
  The server-sent-events client of \<^verbatim>\<open>src/eventsource.c\<close>: the byte-stream parser, the header and
  body callbacks of the transfer, the bounded hand-over of callbacks from the worker thread to
  the main loop, and the reconnecting worker.  A transfer is the sequence of callbacks the
  transfer library makes, with what the main thread does in between; the clock and the sockets
  are not modelled.
\<close>

section \<open>State\<close>

definition NS_ES_MAX_LINE :: nat where "NS_ES_MAX_LINE = 1048576"
definition NS_ES_MAX_EVENT :: nat where "NS_ES_MAX_EVENT = 8388608"
definition NS_ES_MAX_PENDING :: int where "NS_ES_MAX_PENDING = 256"

text \<open>What is posted to the main loop: \<^verbatim>\<open>ns_es_invoke_open\<close>, \<^verbatim>\<open>ns_es_invoke_message\<close> with its
  \<^verbatim>\<open>ns_es_msg\<close>, or \<^verbatim>\<open>ns_es_invoke_error\<close>.\<close>

datatype es_dispatch = Es_open | Es_message (m_event: string) (m_data: string) (m_last_id: string) | Es_error bool

text \<open>\<^verbatim>\<open>es_idle\<close> holds the dispatches added by \<^verbatim>\<open>g_idle_add\<close> in order, \<^verbatim>\<open>es_timers\<close> those put back by
  \<^verbatim>\<open>g_timeout_add\<close> while the page was busy, and \<^verbatim>\<open>es_delivered\<close> the callbacks made, in order.\<close>

record ns_es =
  es_url :: string
  es_origin :: "string option"
  last_event_id :: string
  reconnect_ms :: int
  exit_requested :: bool
  detached :: bool
  pending :: int
  refcount :: int
  es_idle :: "es_dispatch list"
  es_timers :: "es_dispatch list"
  es_delivered :: "es_dispatch list"

record ns_es_parse =
  p_es :: ns_es
  p_line :: string
  last_was_cr :: bool
  p_data :: string
  event_type :: "string option"
  p_status :: int
  p_opened :: bool
  p_fatal :: bool
  is_event_stream :: bool

section \<open>Posting to the main loop\<close>

definition ns_es_post :: "es_dispatch \<Rightarrow> ns_es \<Rightarrow> ns_es" where
  "ns_es_post d es =
     (if detached es then es
      else if pending es \<ge> NS_ES_MAX_PENDING then es
      else es\<lparr>pending := pending es + 1, refcount := refcount es + 1, es_idle := es_idle es @ [d]\<rparr>)"

text \<open>\<^verbatim>\<open>ns_es_dispatch_run\<close> on a dispatch taken from its source.\<close>

definition ns_es_dispatch_run :: "bool \<Rightarrow> es_dispatch \<Rightarrow> ns_es \<Rightarrow> ns_es" where
  "ns_es_dispatch_run busy d es =
     (if \<not> detached es \<and> busy then es\<lparr>es_timers := es_timers es @ [d]\<rparr>
      else (let es1 = (if \<not> detached es then es\<lparr>es_delivered := es_delivered es @ [d]\<rparr> else es)
            in es1\<lparr>pending := pending es1 - 1, refcount := refcount es1 - 1\<rparr>))"

definition ns_es_emit_error :: "bool \<Rightarrow> ns_es \<Rightarrow> ns_es" where
  "ns_es_emit_error fatal es = ns_es_post (Es_error fatal) es"

section \<open>The stream parser\<close>

definition ns_es_dispatch_event :: "ns_es_parse \<Rightarrow> ns_es_parse" where
  "ns_es_dispatch_event p =
     (if p_data p = [] \<and> event_type p = None then p
      else if p_data p = [] then p\<lparr>event_type := None\<rparr>
      else (let d = (if last (p_data p) = CHR 0x0A then butlast (p_data p) else p_data p);
                m = Es_message (case event_type p of Some t \<Rightarrow> t | None \<Rightarrow> ''message'') (cstring d)
                      (last_event_id (p_es p))
            in p\<lparr>p_data := [], event_type := None, p_es := ns_es_post m (p_es p)\<rparr>))"

text \<open>\<^verbatim>\<open>g_ascii_strtoll\<close> on a string of digits, saturating at the largest 64-bit integer.\<close>

definition digits_value :: "string \<Rightarrow> int" where
  "digits_value s = foldl (\<lambda>n c. 10 * n + (int (ord c) - 48)) 0 s"

definition strtoll_digits :: "string \<Rightarrow> int" where
  "strtoll_digits s = min (digits_value s) (2 ^ 63 - 1)"

definition field_value :: "string \<Rightarrow> string \<times> string" where
  "field_value line =
     (case strchr line CHR '':'' of
        Some rest \<Rightarrow>
          (take (length line - length rest) line,
           (case tl rest of c # v \<Rightarrow> if c = CHR '' '' then v else c # v | [] \<Rightarrow> []))
      | None \<Rightarrow> (line, []))"

definition ns_es_process_line :: "ns_es_parse \<Rightarrow> string \<Rightarrow> ns_es_parse" where
  "ns_es_process_line p line =
     (if line = [] then ns_es_dispatch_event p
      else if hd line = CHR '':'' then p
      else let (field, val) = field_value line in
        if field = ''data'' then
          (if length (p_data p) + length val + 1 > NS_ES_MAX_EVENT then p\<lparr>p_fatal := True\<rparr>
           else p\<lparr>p_data := p_data p @ val @ [CHR 0x0A]\<rparr>)
        else if field = ''event'' then p\<lparr>event_type := (if val = [] then None else Some val)\<rparr>
        else if field = ''id'' then p\<lparr>p_es := (p_es p)\<lparr>last_event_id := val\<rparr>\<rparr>
        else if field = ''retry'' then
          (if val \<noteq> [] \<and> list_all g_ascii_isdigit val then
             (let ms = strtoll_digits val in
              if ms > 0 then p\<lparr>p_es := (p_es p)\<lparr>reconnect_ms := min ms 86400000\<rparr>\<rparr> else p)
           else p)
        else p)"

fun ns_es_feed :: "ns_es_parse \<Rightarrow> string \<Rightarrow> ns_es_parse" where
  "ns_es_feed p [] = p"
| "ns_es_feed p (c # buf) =
     (if c = CHR 0x0A \<and> last_was_cr p then ns_es_feed (p\<lparr>last_was_cr := False\<rparr>) buf
      else (let p1 = p\<lparr>last_was_cr := False\<rparr> in
        if c = CHR 0x0D \<or> c = CHR 0x0A then
          (let p2 = (if c = CHR 0x0D then p1\<lparr>last_was_cr := True\<rparr> else p1);
               p3 = ns_es_process_line p2 (cstring (p_line p2))
           in ns_es_feed (p3\<lparr>p_line := []\<rparr>) buf)
        else if length (p_line p1) \<ge> NS_ES_MAX_LINE then p1\<lparr>p_fatal := True\<rparr>
        else ns_es_feed (p1\<lparr>p_line := p_line p1 @ [c]\<rparr>) buf))"

section \<open>Transfer callbacks\<close>

definition status_code :: "string \<Rightarrow> int" where
  "status_code buffer =
     (case strchr buffer CHR '' '' of
        None \<Rightarrow> 0
      | Some sp \<Rightarrow> digits_value (takeWhile g_ascii_isdigit (take 7 (tl sp))))"

text \<open>A callback returns whether the transfer goes on (the C code returns the byte count or 0).\<close>

definition ns_es_header_cb :: "string \<Rightarrow> ns_es_parse \<Rightarrow> ns_es_parse \<times> bool" where
  "ns_es_header_cb buffer p =
     (let p1 =
        (if length buffer \<ge> 5 \<and> strncaseeq 5 buffer ''HTTP/'' then
           p\<lparr>p_status := status_code buffer, is_event_stream := False\<rparr>
         else if length buffer \<ge> 13 \<and> strncaseeq 13 buffer ''Content-Type:'' then
           (if strstr (cstring buffer) ''text/event-stream'' \<noteq> None then p\<lparr>is_event_stream := True\<rparr> else p)
         else if length buffer \<le> 2 then
           (if \<not> p_opened p then
              (if p_status p = 200 \<and> is_event_stream p then
                 p\<lparr>p_opened := True, p_es := ns_es_post Es_open (p_es p)\<rparr>
               else if p_status p \<ge> 200 \<and> (p_status p < 300 \<or> p_status p \<ge> 400) then p\<lparr>p_fatal := True\<rparr>
               else p)
            else p)
         else p)
      in (p1, \<not> exit_requested (p_es p1)))"

definition ns_es_write_cb :: "string \<Rightarrow> ns_es_parse \<Rightarrow> ns_es_parse \<times> bool" where
  "ns_es_write_cb buf p =
     (if exit_requested (p_es p) \<or> p_fatal p then (p, False) else (ns_es_feed p buf, True))"

definition ns_es_progress :: "ns_es \<Rightarrow> bool" where
  "ns_es_progress es \<longleftrightarrow> exit_requested es"

definition ns_es_close :: "ns_es \<Rightarrow> ns_es" where
  "ns_es_close es = es\<lparr>exit_requested := True\<rparr>"

text \<open>\<^verbatim>\<open>ns_es_free\<close> up to the join of the worker, which has then returned; the last reference of
  the handle is dropped after it.\<close>

definition ns_es_free :: "ns_es \<Rightarrow> ns_es" where
  "ns_es_free es = es\<lparr>detached := True, exit_requested := True\<rparr>"

definition ns_es_unref :: "ns_es \<Rightarrow> ns_es" where
  "ns_es_unref es = es\<lparr>refcount := refcount es - 1\<rparr>"

text \<open>What the main thread may do between two callbacks: run the first idle source or a timer,
  with the page busy or not, close the source or free it.\<close>

datatype main_step = Run_idle bool | Run_timer nat bool | Main_close | Main_free

fun main_thread :: "ns_es \<Rightarrow> main_step \<Rightarrow> ns_es" where
  "main_thread es (Run_idle busy) =
     (case es_idle es of [] \<Rightarrow> es | d # ds \<Rightarrow> ns_es_dispatch_run busy d (es\<lparr>es_idle := ds\<rparr>))"
| "main_thread es (Run_timer i busy) =
     (if i < length (es_timers es)
      then ns_es_dispatch_run busy (es_timers es ! i)
             (es\<lparr>es_timers := take i (es_timers es) @ drop (Suc i) (es_timers es)\<rparr>)
      else es)"
| "main_thread es Main_close = ns_es_close es"
| "main_thread es Main_free = ns_es_free es"

datatype curl_event = Curl_header string | Curl_body string | Curl_progress | Main main_step

text \<open>\<^verbatim>\<open>curl_easy_perform\<close>: callbacks until one of them refuses.\<close>

fun curl_easy_perform :: "ns_es_parse \<Rightarrow> curl_event list \<Rightarrow> ns_es_parse" where
  "curl_easy_perform p [] = p"
| "curl_easy_perform p (Curl_header b # evs) =
     (let (p1, go) = ns_es_header_cb b p in if go then curl_easy_perform p1 evs else p1)"
| "curl_easy_perform p (Curl_body b # evs) =
     (let (p1, go) = ns_es_write_cb b p in if go then curl_easy_perform p1 evs else p1)"
| "curl_easy_perform p (Curl_progress # evs) =
     (if ns_es_progress (p_es p) then p else curl_easy_perform p evs)"
| "curl_easy_perform p (Main a # evs) = curl_easy_perform (p\<lparr>p_es := main_thread (p_es p) a\<rparr>) evs"

definition request_headers :: "ns_es \<Rightarrow> string list" where
  "request_headers es =
     [''Accept: text/event-stream'', ''Cache-Control: no-cache''] @
     (case es_origin es of Some h \<Rightarrow> if h \<noteq> [] then [''Origin: '' @ h] else [] | None \<Rightarrow> []) @
     (if last_event_id es \<noteq> [] then [''Last-Event-ID: '' @ last_event_id es] else [])"

definition fresh_parse :: "ns_es \<Rightarrow> ns_es_parse" where
  "fresh_parse es = \<lparr>p_es = es, p_line = [], last_was_cr = False, p_data = [], event_type = None,
     p_status = 0, p_opened = False, p_fatal = False, is_event_stream = False\<rparr>"

text \<open>One connection: the transfer it makes is a function of the request headers.  Returns
  whether it may be retried.\<close>

definition ns_es_connect_once :: "(string list \<Rightarrow> curl_event list) \<Rightarrow> ns_es \<Rightarrow> ns_es \<times> bool" where
  "ns_es_connect_once server es =
     (let p = curl_easy_perform (fresh_parse es) (server (request_headers es))
      in (p_es p, \<not> p_fatal p))"

definition reconnect_wait :: "ns_es \<Rightarrow> int" where
  "reconnect_wait es = (if reconnect_ms es \<le> 0 then 3000 else reconnect_ms es)"

text \<open>The worker: \<^verbatim>\<open>servers\<close> gives the connections the network offers and the main thread's steps
  during the wait after each; the second result says whether the worker has returned.\<close>

fun ns_es_worker :: "((string list \<Rightarrow> curl_event list) \<times> main_step list) list \<Rightarrow> ns_es \<Rightarrow> ns_es \<times> bool" where
  "ns_es_worker [] es = (if exit_requested es then (ns_es_unref es, True) else (es, False))"
| "ns_es_worker ((server, waiting) # rest) es =
     (if exit_requested es then (ns_es_unref es, True)
      else let (es1, retriable) = ns_es_connect_once server es in
        if exit_requested es1 then (ns_es_unref es1, True)
        else if \<not> retriable then (ns_es_unref (ns_es_emit_error True es1), True)
        else ns_es_worker rest (foldl main_thread (ns_es_emit_error False es1) waiting))"

definition ns_es_new :: "string \<Rightarrow> string option \<Rightarrow> string option \<Rightarrow> ns_es" where
  "ns_es_new url origin last_id =
     \<lparr>es_url = url, es_origin = origin, last_event_id = (case last_id of Some i \<Rightarrow> i | None \<Rightarrow> []),
      reconnect_ms = 3000, exit_requested = False, detached = False, pending = 0, refcount = 2,
      es_idle = [], es_timers = [], es_delivered = []\<rparr>"

section \<open>Chunk boundaries carry no meaning\<close>

lemma post_keeps [simp]:
  "exit_requested (ns_es_post d es) = exit_requested es"
  "detached (ns_es_post d es) = detached es"
  "reconnect_ms (ns_es_post d es) = reconnect_ms es"
  "last_event_id (ns_es_post d es) = last_event_id es"
  "es_delivered (ns_es_post d es) = es_delivered es"
  "es_timers (ns_es_post d es) = es_timers es"
  by (simp_all add: ns_es_post_def)

lemma process_line_keeps [simp]:
  "p_fatal p \<Longrightarrow> p_fatal (ns_es_process_line p line)"
  "exit_requested (p_es (ns_es_process_line p line)) = exit_requested (p_es p)"
  "last_was_cr (ns_es_process_line p line) = last_was_cr p"
  by (auto simp: ns_es_process_line_def ns_es_dispatch_event_def Let_def split: prod.splits)

lemma feed_fatal [simp]: "p_fatal p \<Longrightarrow> p_fatal (ns_es_feed p buf)"
  by (induction p buf rule: ns_es_feed.induct) (auto simp: Let_def)

lemma feed_exit [simp]: "exit_requested (p_es (ns_es_feed p buf)) = exit_requested (p_es p)"
  by (induction p buf rule: ns_es_feed.induct) (auto simp: Let_def)

lemma feed_append:
  "\<not> p_fatal (ns_es_feed p xs) \<Longrightarrow> ns_es_feed p (xs @ ys) = ns_es_feed (ns_es_feed p xs) ys"
  by (induction p xs rule: ns_es_feed.induct) (auto simp: Let_def)

lemma feed_append_fatal: "p_fatal (ns_es_feed p xs) \<Longrightarrow> p_fatal (ns_es_feed p (xs @ ys))"
  by (induction p xs rule: ns_es_feed.induct) (auto simp: Let_def)

text \<open>The body of a transfer: \<^const>\<open>None\<close> once the parser has failed, since no later chunk is then
  accepted.\<close>

definition es_stream :: "ns_es_parse option \<Rightarrow> string \<Rightarrow> ns_es_parse option" where
  "es_stream s buf =
     Option.bind s (\<lambda>p. let q = ns_es_feed p buf in if p_fatal q then None else Some q)"

definition es_stream_ok :: "ns_es_parse option \<Rightarrow> bool" where
  "es_stream_ok s \<longleftrightarrow> (case s of None \<Rightarrow> True | Some p \<Rightarrow> \<not> p_fatal p)"

interpretation es_stream: stream_parser es_stream es_stream_ok
proof
  fix s :: "ns_es_parse option" and xs ys :: string
  show "es_stream_ok s \<Longrightarrow> es_stream s [] = s"
    by (cases s) (simp_all add: es_stream_def es_stream_ok_def)
  show "es_stream_ok (es_stream s xs)"
    by (cases s) (simp_all add: es_stream_def es_stream_ok_def Let_def)
  show "es_stream s (xs @ ys) = es_stream (es_stream s xs) ys"
    using feed_append_fatal by (cases s) (auto simp: es_stream_def Let_def feed_append)
qed

lemma perform_exit: "exit_requested (p_es p) \<Longrightarrow> curl_easy_perform p (map Curl_body cs) = p"
  by (cases cs) (simp_all add: ns_es_write_cb_def)

lemma perform_fatal: "p_fatal p \<Longrightarrow> curl_easy_perform p (map Curl_body cs) = p"
  by (cases cs) (simp_all add: ns_es_write_cb_def)

lemma es_stream_None: "foldl es_stream None cs = None"
  by (induction cs) (simp_all add: es_stream_def)

lemma es_stream_Some:
  "es_stream (Some p) buf = (if p_fatal (ns_es_feed p buf) then None else Some (ns_es_feed p buf))"
  by (simp add: es_stream_def)

lemma perform_stream:
  assumes "\<not> exit_requested (p_es p)" and "\<not> p_fatal p"
  shows "foldl es_stream (Some p) cs =
    (let q = curl_easy_perform p (map Curl_body cs) in if p_fatal q then None else Some q)"
  using assms
proof (induction cs arbitrary: p)
  case (Cons c cs)
  then show ?case
    by (cases "p_fatal (ns_es_feed p c)")
      (simp_all add: es_stream_Some ns_es_write_cb_def perform_fatal es_stream_None)
qed simp


section \<open>Bounds of the hand-over\<close>

definition es_ok :: "int \<Rightarrow> ns_es \<Rightarrow> bool" where
  "es_ok owners es \<longleftrightarrow> pending es = int (length (es_idle es) + length (es_timers es)) \<and>
     pending es \<le> NS_ES_MAX_PENDING \<and> refcount es = owners + pending es \<and>
     1 \<le> reconnect_ms es \<and> reconnect_ms es \<le> 86400000"

definition parse_ok :: "ns_es_parse \<Rightarrow> bool" where
  "parse_ok p \<longleftrightarrow> es_ok 2 (p_es p) \<and> length (p_line p) \<le> NS_ES_MAX_LINE \<and> length (p_data p) \<le> NS_ES_MAX_EVENT"

lemma post_ok: "es_ok n es \<Longrightarrow> es_ok n (ns_es_post d es)"
  by (auto simp: es_ok_def ns_es_post_def)

lemma main_thread_ok: "es_ok n es \<Longrightarrow> es_ok n (main_thread es a)"
  by (cases a)
    (auto simp: es_ok_def ns_es_dispatch_run_def ns_es_close_def ns_es_free_def Let_def split: list.splits)

lemma parse_ok_update [simp]:
  "parse_ok (p\<lparr>event_type := t\<rparr>) = parse_ok p" "parse_ok (p\<lparr>last_was_cr := b\<rparr>) = parse_ok p"
  "parse_ok (p\<lparr>p_fatal := b\<rparr>) = parse_ok p" "parse_ok (p\<lparr>p_status := c\<rparr>) = parse_ok p"
  "parse_ok (p\<lparr>p_opened := b\<rparr>) = parse_ok p" "parse_ok (p\<lparr>is_event_stream := b\<rparr>) = parse_ok p"
  by (simp_all add: parse_ok_def)

lemma parse_ok_set:
  "parse_ok p \<Longrightarrow> es_ok 2 e \<Longrightarrow> parse_ok (p\<lparr>p_es := e\<rparr>)"
  "parse_ok p \<Longrightarrow> length l \<le> NS_ES_MAX_LINE \<Longrightarrow> parse_ok (p\<lparr>p_line := l\<rparr>)"
  "parse_ok p \<Longrightarrow> length d \<le> NS_ES_MAX_EVENT \<Longrightarrow> parse_ok (p\<lparr>p_data := d\<rparr>)"
  "parse_ok p \<Longrightarrow> es_ok 2 (p_es p)"
  by (simp_all add: parse_ok_def)

lemma es_ok_set:
  "es_ok n es \<Longrightarrow> es_ok n (es\<lparr>last_event_id := i\<rparr>)"
  "es_ok n es \<Longrightarrow> 0 < ms \<Longrightarrow> es_ok n (es\<lparr>reconnect_ms := min ms 86400000\<rparr>)"
  by (simp_all add: es_ok_def)

lemma dispatch_event_ok: "parse_ok p \<Longrightarrow> parse_ok (ns_es_dispatch_event p)"
  by (auto simp: ns_es_dispatch_event_def Let_def intro!: parse_ok_set post_ok)

lemma process_line_ok:
  assumes "parse_ok p"
  shows "parse_ok (ns_es_process_line p line)"
  using assms
  by (simp add: ns_es_process_line_def Let_def dispatch_event_ok parse_ok_set es_ok_set split: prod.split)

lemma feed_keeps_ok: "parse_ok p \<Longrightarrow> parse_ok (ns_es_feed p buf)"
  by (induction p buf rule: ns_es_feed.induct) (simp_all add: Let_def parse_ok_set process_line_ok)

definition es_event :: "ns_es_parse \<Rightarrow> curl_event \<Rightarrow> ns_es_parse" where
  "es_event p ev =
     (case ev of
        Curl_header b \<Rightarrow> fst (ns_es_header_cb b p)
      | Curl_body b \<Rightarrow> fst (ns_es_write_cb b p)
      | Curl_progress \<Rightarrow> p
      | Main a \<Rightarrow> p\<lparr>p_es := main_thread (p_es p) a\<rparr>)"

interpretation es_events: invariant_system es_event parse_ok
proof
  fix p ev
  assume "parse_ok p"
  then show "parse_ok (es_event p ev)"
    by (simp add: es_event_def ns_es_header_cb_def ns_es_write_cb_def Let_def feed_keeps_ok parse_ok_set
        post_ok main_thread_ok split: curl_event.split)
qed

lemma perform_Cons:
  "curl_easy_perform p (ev # evs) = curl_easy_perform (es_event p ev) evs \<or>
   curl_easy_perform p (ev # evs) = es_event p ev"
  by (cases ev) (auto simp: es_event_def split: prod.splits)

lemma perform_prefix: "\<exists>n. curl_easy_perform p evs = foldl es_event p (take n evs)"
proof (induction evs arbitrary: p)
  case (Cons ev evs)
  obtain n where n: "curl_easy_perform (es_event p ev) evs = foldl es_event (es_event p ev) (take n evs)"
    using Cons.IH by blast
  from perform_Cons [of p ev evs] show ?case
  proof
    assume "curl_easy_perform p (ev # evs) = curl_easy_perform (es_event p ev) evs"
    with n show ?thesis by (intro exI [of _ "Suc n"]) simp
  next
    assume "curl_easy_perform p (ev # evs) = es_event p ev"
    then show ?thesis by (intro exI [of _ 1]) simp
  qed
qed simp

lemma connect_once_ok: "es_ok 2 es \<Longrightarrow> es_ok 2 (fst (ns_es_connect_once server es))"
proof -
  assume "es_ok 2 es"
  then have fresh: "parse_ok (fresh_parse es)" by (simp add: parse_ok_def fresh_parse_def)
  obtain n where "curl_easy_perform (fresh_parse es) (server (request_headers es)) =
      foldl es_event (fresh_parse es) (take n (server (request_headers es)))"
    using perform_prefix by blast
  then show ?thesis
    using es_events.inv_every_prefix [OF fresh, of n "server (request_headers es)"]
    by (simp add: ns_es_connect_once_def parse_ok_def Let_def)
qed

lemma worker_ok:
  "es_ok 2 es \<Longrightarrow> ns_es_worker servers es = (es', fin) \<Longrightarrow> es_ok (if fin then 1 else 2) es'"
proof (induction servers es rule: ns_es_worker.induct)
  case (1 es)
  then show ?case by (auto simp: es_ok_def ns_es_unref_def split: if_splits)
next
  case (2 server waiting rest es)
  obtain es1 retriable where c: "ns_es_connect_once server es = (es1, retriable)" by fastforce
  have ok: "es_ok 2 es1" using connect_once_ok [OF 2(2), of server] c by simp
  have unref: "es_ok 2 e \<Longrightarrow> es_ok 1 (ns_es_unref e)" for e
    by (simp add: es_ok_def ns_es_unref_def)
  have main: "es_ok 2 e \<Longrightarrow> es_ok 2 (foldl main_thread e as)" for e as
    by (induction as arbitrary: e) (simp_all add: main_thread_ok)
  show ?case
    using 2 c ok unref main post_ok by (auto simp: ns_es_emit_error_def split: if_splits)
qed

text \<open>C15. Whatever the servers send and the page does, however the threads interleave: at most 256
  callbacks wait for the main loop, the counter is exactly their number, every waiting callback
  and the worker hold a reference of their own, so the source is not destroyed under them, and
  the delay before a reconnection is between one millisecond and a day.\<close>

theorem es_handover_bounded:
  "case ns_es_worker servers (ns_es_new url origin last_id) of (es, fin) \<Rightarrow>
     pending es = int (length (es_idle es) + length (es_timers es)) \<and> pending es \<le> 256 \<and>
     refcount es = (if fin then 1 else 2) + pending es \<and>
     1 \<le> reconnect_wait es \<and> reconnect_wait es \<le> 86400000"
proof -
  have "es_ok 2 (ns_es_new url origin last_id)"
    by (simp add: es_ok_def ns_es_new_def NS_ES_MAX_PENDING_def)
  then show ?thesis
    using worker_ok [of "ns_es_new url origin last_id" servers]
    by (auto simp: es_ok_def NS_ES_MAX_PENDING_def reconnect_wait_def split: prod.split)
qed

section \<open>Assembling a message\<close>

definition es_newline :: "char \<Rightarrow> bool" where
  "es_newline c \<longleftrightarrow> c = CHR 0x0A \<or> c = CHR 0x0D"

text \<open>The three line ends of the format.\<close>

definition line_ends :: "string set" where
  "line_ends = {[CHR 0x0A], [CHR 0x0D], [CHR 0x0D, CHR 0x0A]}"

lemma feed_chars:
  assumes "list_all (\<lambda>c. \<not> es_newline c) l" and "length (p_line p) + length l \<le> NS_ES_MAX_LINE"
  shows "ns_es_feed p (l @ rest) =
    ns_es_feed (if l = [] then p else p\<lparr>last_was_cr := False, p_line := p_line p @ l\<rparr>) rest"
  using assms
proof (induction l arbitrary: p)
  case (Cons c l)
  then have c: "c \<noteq> CHR 0x0A" "c \<noteq> CHR 0x0D" by (auto simp: es_newline_def)
  with Cons show ?case by (simp add: Let_def)
qed simp

lemma parse_upd_comm:
  "q\<lparr>p_line := l, last_was_cr := b\<rparr> = q\<lparr>last_was_cr := b, p_line := l\<rparr>"
  "last_was_cr q = b \<Longrightarrow> (ns_es_process_line q k)\<lparr>last_was_cr := b, p_line := l\<rparr> = (ns_es_process_line q k)\<lparr>p_line := l\<rparr>"
proof -
  show "q\<lparr>p_line := l, last_was_cr := b\<rparr> = q\<lparr>last_was_cr := b, p_line := l\<rparr>" by (cases q) simp
  assume "last_was_cr q = b"
  then have "last_was_cr (ns_es_process_line q k) = b" by simp
  then show "(ns_es_process_line q k)\<lparr>last_was_cr := b, p_line := l\<rparr> = (ns_es_process_line q k)\<lparr>p_line := l\<rparr>"
    by (cases "ns_es_process_line q k") simp
qed

text \<open>A complete line, at the start of a line.\<close>

lemma feed_line:
  assumes "list_all (\<lambda>c. \<not> es_newline c) l" and "length l \<le> NS_ES_MAX_LINE" and "t \<in> line_ends"
    and "p_line p = []" and "last_was_cr p \<longrightarrow> l \<noteq> [] \<or> hd t \<noteq> CHR 0x0A"
  shows "ns_es_feed p (l @ t @ rest) =
    ns_es_feed ((ns_es_process_line (p\<lparr>last_was_cr := t \<noteq> [CHR 0x0A], p_line := l\<rparr>) (cstring l))
      \<lparr>last_was_cr := t = [CHR 0x0D], p_line := []\<rparr>) rest"
proof -
  have line: "p\<lparr>last_was_cr := b, p_line := []\<rparr> = p\<lparr>last_was_cr := b\<rparr>" for b
    using assms(4) by (cases p) simp
  show ?thesis
    using assms(3-5)
    by (cases "l = []") (auto simp: feed_chars [OF assms(1)] assms(2) line_ends_def Let_def parse_upd_comm line)
qed

definition data_lines :: "string \<Rightarrow> string list \<Rightarrow> string" where
  "data_lines t vals = concat (map (\<lambda>v. ''data: '' @ v @ t) vals)"

definition plain_value :: "string \<Rightarrow> bool" where
  "plain_value v \<longleftrightarrow> list_all (\<lambda>c. \<not> es_newline c \<and> c \<noteq> CHR 0x00) v \<and> length v + 6 \<le> NS_ES_MAX_LINE"

lemma process_data_line:
  "length (p_data p) + length v + 1 \<le> NS_ES_MAX_EVENT \<Longrightarrow>
     ns_es_process_line p (''data: '' @ v) = p\<lparr>p_data := p_data p @ v @ [CHR 0x0A]\<rparr>"
  by (simp add: ns_es_process_line_def field_value_def)

lemma feed_data_lines:
  assumes "list_all plain_value vals" and "t \<in> line_ends" and "p_line p = []"
    and "length (p_data p) + length (concat (map (\<lambda>v. v @ [CHR 0x0A]) vals)) \<le> NS_ES_MAX_EVENT"
    and "vals \<noteq> []"
  shows "ns_es_feed p (data_lines t vals @ rest) =
    ns_es_feed (p\<lparr>last_was_cr := t = [CHR 0x0D], p_data := p_data p @ concat (map (\<lambda>v. v @ [CHR 0x0A]) vals)\<rparr>) rest"
  using assms
proof (induction vals arbitrary: p)
  case (Cons v vals)
  have v: "list_all (\<lambda>c. \<not> es_newline c) (''data: '' @ v)" "length (''data: '' @ v) \<le> NS_ES_MAX_LINE"
    "cstring (''data: '' @ v) = ''data: '' @ v"
  proof -
    have "plain_value v" using Cons.prems(1) by simp
    then have pv: "list_all (\<lambda>c. \<not> es_newline c) v" "list_all (\<lambda>c. c \<noteq> CHR 0x00) v" "length v + 6 \<le> NS_ES_MAX_LINE"
      unfolding plain_value_def list_all_iff by blast+
    show "list_all (\<lambda>c. \<not> es_newline c) (''data: '' @ v)" using pv(1) by (simp add: es_newline_def)
    show "length (''data: '' @ v) \<le> NS_ES_MAX_LINE" using pv(3) by simp
    show "cstring (''data: '' @ v) = ''data: '' @ v" using pv(2) by (intro cstring_id) simp
  qed
  let ?p = "p\<lparr>last_was_cr := t = [CHR 0x0D], p_data := p_data p @ v @ [CHR 0x0A]\<rparr>"
  have "ns_es_feed p (data_lines t (v # vals) @ rest) = ns_es_feed p ((''data: '' @ v) @ t @ data_lines t vals @ rest)"
    by (simp add: data_lines_def)
  also have "\<dots> = ns_es_feed ((ns_es_process_line (p\<lparr>last_was_cr := t \<noteq> [CHR 0x0A], p_line := ''data: '' @ v\<rparr>) (''data: '' @ v))
      \<lparr>last_was_cr := t = [CHR 0x0D], p_line := []\<rparr>) (data_lines t vals @ rest)"
    using feed_line [OF v(1,2) Cons.prems(2,3), of "data_lines t vals @ rest", unfolded v(3)] by simp
  also have "(ns_es_process_line (p\<lparr>last_was_cr := t \<noteq> [CHR 0x0A], p_line := ''data: '' @ v\<rparr>) (''data: '' @ v))
      \<lparr>last_was_cr := t = [CHR 0x0D], p_line := []\<rparr> = ?p"
  proof -
    have "length (p_data (p\<lparr>last_was_cr := t \<noteq> [CHR 0x0A], p_line := ''data: '' @ v\<rparr>)) + length v + 1 \<le> NS_ES_MAX_EVENT"
      using Cons.prems(4) by simp
    from process_data_line [OF this] show ?thesis
      using Cons.prems(3) by (cases p) simp
  qed
  finally have step: "ns_es_feed p (data_lines t (v # vals) @ rest) = ns_es_feed ?p (data_lines t vals @ rest)" .
  show ?case
  proof (cases "vals = []")
    case True
    then show ?thesis using step by (simp add: data_lines_def)
  next
    case False
    then show ?thesis using step Cons by simp
  qed
qed simp

text \<open>The lines of an event's data, whichever of the three line ends the server uses and however
  it is cut into chunks, arrive as one message: the values joined by newlines, with the event's
  type or \<^verbatim>\<open>message\<close>, and the last event id seen so far.\<close>

theorem es_data_joined:
  assumes "list_all plain_value (vals @ [v])" and "t \<in> line_ends" and "p_line p = []" and "p_data p = []"
    and "length (concat (map (\<lambda>v. v @ [CHR 0x0A]) (vals @ [v]))) \<le> NS_ES_MAX_EVENT"
  shows "p_es (ns_es_feed p (data_lines t (vals @ [v]) @ t)) =
    ns_es_post (Es_message (case event_type p of Some ty \<Rightarrow> ty | None \<Rightarrow> ''message'')
        (concat (map (\<lambda>v. v @ [CHR 0x0A]) vals) @ v) (last_event_id (p_es p))) (p_es p)"
proof -
  let ?d = "concat (map (\<lambda>v. v @ [CHR 0x0A]) vals) @ v"
  let ?p = "p\<lparr>last_was_cr := t = [CHR 0x0D], p_data := ?d @ [CHR 0x0A]\<rparr>"
  have "ns_es_feed p (data_lines t (vals @ [v]) @ t) = ns_es_feed ?p t"
    using feed_data_lines [OF assms(1,2,3), of t] assms(4,5) by simp
  also have "\<dots> = ns_es_feed ?p ([] @ t @ [])" by simp
  also have "\<dots> = ns_es_feed ((ns_es_process_line (?p\<lparr>last_was_cr := t \<noteq> [CHR 0x0A], p_line := []\<rparr>) (cstring []))
      \<lparr>last_was_cr := t = [CHR 0x0D], p_line := []\<rparr>) []"
    using assms(2,3) by (intro feed_line) (auto simp: line_ends_def)
  finally have "ns_es_feed p (data_lines t (vals @ [v]) @ t) =
      (ns_es_dispatch_event (?p\<lparr>last_was_cr := t \<noteq> [CHR 0x0A], p_line := []\<rparr>))
        \<lparr>last_was_cr := t = [CHR 0x0D], p_line := []\<rparr>"
    by (simp add: ns_es_process_line_def cstring_def)
  moreover have "cstring ?d = ?d"
    using assms(1) by (intro cstring_id) (auto simp: plain_value_def list_all_iff)
  moreover have "butlast (concat (map (\<lambda>v. v @ [CHR 0x0A]) vals) @ v @ [CHR 0x0A]) = ?d"
    by (metis append_assoc butlast_snoc)
  ultimately show ?thesis
    by (simp add: ns_es_dispatch_event_def Let_def)
qed

theorem es_data_joined_witness:
  "p_es (ns_es_feed (fresh_parse (ns_es_new ''https://a/'' None None))
      (data_lines [CHR 0x0D, CHR 0x0A] ([''one''] @ [''two'']) @ [CHR 0x0D, CHR 0x0A])) =
    ns_es_post (Es_message ''message'' (''one'' @ [CHR 0x0A] @ ''two'') []) (ns_es_new ''https://a/'' None None)"
  using es_data_joined [of "[''one'']" "''two''" "[CHR 0x0D, CHR 0x0A]" "fresh_parse (ns_es_new ''https://a/'' None None)"]
  by (simp add: plain_value_def es_newline_def NS_ES_MAX_LINE_def NS_ES_MAX_EVENT_def line_ends_def fresh_parse_def
      ns_es_new_def)

definition es_example :: ns_es_parse where
  "es_example = fresh_parse (ns_es_new ''https://a/'' None None)"


section \<open>Order of delivery\<close>

text \<open>Messages leave the idle queue in the order they were posted as long as the page is never busy
  when its turn comes.\<close>

lemma idle_in_order:
  assumes "\<not> detached es"
  shows "es_delivered (foldl main_thread es (replicate n (Run_idle False))) = es_delivered es @ take n (es_idle es)"
  using assms
proof (induction n arbitrary: es)
  case (Suc n)
  then show ?case
    by (cases "es_idle es") (simp_all add: ns_es_dispatch_run_def Let_def)
qed simp

text \<open>A message whose turn comes while the page is busy is put back on a timer, behind the messages
  posted after it: the next message can be delivered first, so the page does not see the events in
  stream order.\<close>

theorem es_busy_reorders:
  assumes "\<not> detached es" and "pending es + 1 < NS_ES_MAX_PENDING" and "es_idle es = []" and "es_timers es = []"
  shows "es_delivered (foldl main_thread (ns_es_post b (ns_es_post a es)) [Run_idle True, Run_idle False, Run_timer 0 False])
    = es_delivered es @ [b, a]"
  using assms by (simp add: ns_es_post_def ns_es_dispatch_run_def Let_def)

theorem es_busy_reorders_witness:
  "es_delivered (foldl main_thread (ns_es_post (Es_message ''message'' ''2'' []) (ns_es_post (Es_message ''message'' ''1'' [])
      (ns_es_new ''https://a/'' None None))) [Run_idle True, Run_idle False, Run_timer 0 False])
    = [Es_message ''message'' ''2'' [], Es_message ''message'' ''1'' []]"
  using es_busy_reorders [of "ns_es_new ''https://a/'' None None" "Es_message ''message'' ''2'' []" "Es_message ''message'' ''1'' []"]
  by (simp add: ns_es_new_def NS_ES_MAX_PENDING_def)

end
