(* ===== verification/NS_Watchdog.thy ===== *)
theory NS_Watchdog
  imports NS_Interfaces
begin

text \<open>
  The supervisor of \<^verbatim>\<open>src/watchdog.c\<close>: the command line it gives the browser process, the state
  machine that restarts a crashed browser and stops on signals, the hang monitor inside the
  browser process, and the quoting of arguments for a Windows command line.  The process calls
  and the clock are the events and times the state machine is driven with; the Windows branch
  of the process creation itself is not modelled.
\<close>

section \<open>Arguments\<close>

definition NS_WATCHDOG_FLAG :: string where "NS_WATCHDOG_FLAG = ''--watchdog''"
definition NS_WATCHDOG_NO_FLAG :: string where "NS_WATCHDOG_NO_FLAG = ''--no-watchdog''"
definition NS_WATCHDOG_CHILD_FLAG :: string where "NS_WATCHDOG_CHILD_FLAG = ''--watchdog-child''"
definition NS_WATCHDOG_SESSION_PREFIX :: string where "NS_WATCHDOG_SESSION_PREFIX = ''--watchdog-session=''"

lemmas flag_defs = NS_WATCHDOG_FLAG_def NS_WATCHDOG_NO_FLAG_def NS_WATCHDOG_CHILD_FLAG_def NS_WATCHDOG_SESSION_PREFIX_def

type_synonym argvec = "string option list"

fun first_with_prefix :: "string \<Rightarrow> argvec \<Rightarrow> string option" where
  "first_with_prefix pre [] = None"
| "first_with_prefix pre (None # as) = first_with_prefix pre as"
| "first_with_prefix pre (Some a # as) =
     (if g_str_has_prefix a pre then Some (drop (length pre) a) else first_with_prefix pre as)"

definition ns_watchdog_arg_value :: "argvec \<Rightarrow> string \<Rightarrow> string option" where
  "ns_watchdog_arg_value argv pre = first_with_prefix pre (tl argv)"

definition ns_watchdog_child_session_arg :: "argvec \<Rightarrow> string option" where
  "ns_watchdog_child_session_arg argv = ns_watchdog_arg_value argv NS_WATCHDOG_SESSION_PREFIX"

definition ns_watchdog_is_child :: "argvec \<Rightarrow> bool" where
  "ns_watchdog_is_child argv \<longleftrightarrow> list_ex (\<lambda>a. a = Some NS_WATCHDOG_CHILD_FLAG) (tl argv)"

definition ns_watchdog_child_is_recovery :: "string option \<Rightarrow> bool" where
  "ns_watchdog_child_is_recovery env \<longleftrightarrow> env = Some ''1''"

definition ns_watchdog_is_oneshot :: "string \<Rightarrow> bool" where
  "ns_watchdog_is_oneshot arg \<longleftrightarrow>
     arg = ''--headless'' \<or> arg = ''--print-config'' \<or> g_str_has_prefix arg ''--dump='' \<or>
     g_str_has_prefix arg ''--eval='' \<or> g_str_has_prefix arg ''--inspect='' \<or> g_str_has_prefix arg ''--inspect-at=''"

fun supervise_loop :: "bool \<Rightarrow> argvec \<Rightarrow> bool \<Rightarrow> bool" where
  "supervise_loop forced [] enabled_by_default \<longleftrightarrow> forced \<or> enabled_by_default"
| "supervise_loop forced (None # as) enabled_by_default = supervise_loop forced as enabled_by_default"
| "supervise_loop forced (Some a # as) enabled_by_default =
     (if a = NS_WATCHDOG_CHILD_FLAG then False
      else if a = NS_WATCHDOG_NO_FLAG then False
      else if ns_watchdog_is_oneshot a then False
      else supervise_loop (if a = NS_WATCHDOG_FLAG then True else forced) as enabled_by_default)"

definition ns_watchdog_should_supervise :: "argvec \<Rightarrow> bool \<Rightarrow> bool" where
  "ns_watchdog_should_supervise argv enabled_by_default = supervise_loop False (tl argv) enabled_by_default"

definition own_flag :: "string \<Rightarrow> bool" where
  "own_flag a \<longleftrightarrow> a = NS_WATCHDOG_FLAG \<or> a = NS_WATCHDOG_NO_FLAG \<or> a = NS_WATCHDOG_CHILD_FLAG \<or>
     g_str_has_prefix a NS_WATCHDOG_SESSION_PREFIX"

fun passed_args :: "argvec \<Rightarrow> string list" where
  "passed_args [] = []"
| "passed_args (None # as) = passed_args as"
| "passed_args (Some a # as) = (if own_flag a then passed_args as else a # passed_args as)"

definition ns_watchdog_build_child_argv :: "string \<Rightarrow> argvec \<Rightarrow> string \<Rightarrow> string list" where
  "ns_watchdog_build_child_argv self_exe argv session_path =
     [self_exe] @ passed_args (tl argv) @ [NS_WATCHDOG_CHILD_FLAG, NS_WATCHDOG_SESSION_PREFIX @ session_path]"

lemma passed_args_no_session:
  "first_with_prefix NS_WATCHDOG_SESSION_PREFIX (map Some (passed_args as) @ bs) =
   first_with_prefix NS_WATCHDOG_SESSION_PREFIX bs"
  by (induction as rule: passed_args.induct) (auto simp: own_flag_def)

lemma passed_args_twice: "passed_args (map Some (passed_args as) @ bs) = passed_args as @ passed_args bs"
  by (induction as rule: passed_args.induct) auto

lemma supervise_child: "Some NS_WATCHDOG_CHILD_FLAG \<in> set as \<Longrightarrow> \<not> supervise_loop forced as d"
  by (induction forced as d rule: supervise_loop.induct) auto

text \<open>The process the supervisor starts never becomes a supervisor itself, whatever arguments
  the user gave and even if supervision is the default; it finds the session file of this
  supervisor, not one named on the user's command line; and restarting from the child's own
  arguments gives the same command line again.\<close>

theorem watchdog_child_argv:
  "let child = map Some (ns_watchdog_build_child_argv self_exe argv session_path) in
   ns_watchdog_is_child child \<and> \<not> ns_watchdog_should_supervise child enabled \<and>
   ns_watchdog_child_session_arg child = Some session_path \<and>
   ns_watchdog_build_child_argv self_exe child session_path = ns_watchdog_build_child_argv self_exe argv session_path"
proof -
  have "\<not> g_str_has_prefix NS_WATCHDOG_CHILD_FLAG NS_WATCHDOG_SESSION_PREFIX"
    by (simp add: flag_defs g_str_has_prefix_def)
  moreover have "Some NS_WATCHDOG_CHILD_FLAG \<in>
      set (map Some (passed_args (tl argv)) @ [Some NS_WATCHDOG_CHILD_FLAG, Some (NS_WATCHDOG_SESSION_PREFIX @ session_path)])"
    by simp
  moreover have "own_flag NS_WATCHDOG_CHILD_FLAG" "own_flag (NS_WATCHDOG_SESSION_PREFIX @ session_path)"
    by (simp_all add: own_flag_def)
  ultimately show ?thesis
    using supervise_child [of _ False enabled]
    by (simp add: ns_watchdog_build_child_argv_def ns_watchdog_is_child_def ns_watchdog_should_supervise_def
        ns_watchdog_child_session_arg_def ns_watchdog_arg_value_def passed_args_no_session passed_args_twice)
qed

section \<open>The hang monitor\<close>

definition NS_WATCHDOG_HANG_MIN_SECS :: int where "NS_WATCHDOG_HANG_MIN_SECS = 60"
definition NS_WATCHDOG_HANG_EXIT :: int where "NS_WATCHDOG_HANG_EXIT = 70"
definition G_USEC_PER_SEC :: int where "G_USEC_PER_SEC = 1000000"

text \<open>\<^verbatim>\<open>ns_watchdog_child_arm_hang_monitor\<close>: the limit in seconds.  C division truncates towards
  zero.\<close>

definition hang_secs :: "int \<Rightarrow> int" where
  "hang_secs js_budget_ms =
     (let s = (if js_budget_ms < 0 then - ((- js_budget_ms) div 1000) else js_budget_ms div 1000)
              + NS_WATCHDOG_HANG_MIN_SECS
      in if s < NS_WATCHDOG_HANG_MIN_SECS then NS_WATCHDOG_HANG_MIN_SECS else s)"

definition ns_watchdog_beat :: "32 word \<Rightarrow> 32 word" where
  "ns_watchdog_beat b = b + 1"

text \<open>The monitor thread over the samples (beat counter, time) of its successive checks; the result
  is the exit status, \<^const>\<open>None\<close> while it still runs.\<close>

fun ns_watchdog_hang_thread :: "int \<Rightarrow> 32 word \<Rightarrow> int \<Rightarrow> (32 word \<times> int) list \<Rightarrow> int option" where
  "ns_watchdog_hang_thread secs lst last_change [] = None"
| "ns_watchdog_hang_thread secs lst last_change ((cur, now) # samples) =
     (if cur \<noteq> lst then ns_watchdog_hang_thread secs cur now samples
      else if now - last_change > secs * G_USEC_PER_SEC then Some NS_WATCHDOG_HANG_EXIT
      else ns_watchdog_hang_thread secs lst last_change samples)"

text \<open>A stretch of samples over which the beat did not change for longer than the limit.\<close>

definition silent_stretch :: "int \<Rightarrow> (32 word \<times> int) list \<Rightarrow> bool" where
  "silent_stretch secs ss \<longleftrightarrow> (\<exists>pre b t0 run post. ss = pre @ (b, t0) # run @ post \<and> run \<noteq> [] \<and>
     (\<forall>s \<in> set run. fst s = b) \<and> snd (last run) - t0 > secs * G_USEC_PER_SEC)"

lemma silent_stretch_prepend: "silent_stretch secs ss \<Longrightarrow> silent_stretch secs (s # ss)"
  unfolding silent_stretch_def by (metis append_Cons)

lemma hang_exit_silent:
  "ns_watchdog_hang_thread secs b t0 ss = Some e \<Longrightarrow> e = NS_WATCHDOG_HANG_EXIT \<and> silent_stretch secs ((b, t0) # ss)"
proof (induction ss arbitrary: b t0)
  case (Cons s ss)
  obtain cur now where s: "s = (cur, now)" by fastforce
  show ?case
  proof (cases "cur \<noteq> b")
    case True
    with Cons s show ?thesis by (auto intro: silent_stretch_prepend)
  next
    case same: False
    show ?thesis
    proof (cases "now - t0 > secs * G_USEC_PER_SEC")
      case True
      then have "silent_stretch secs ((b, t0) # s # ss)"
        unfolding silent_stretch_def using s same
        by (intro exI [of _ "[]"] exI [of _ b] exI [of _ t0] exI [of _ "[s]"] exI [of _ ss]) simp
      with Cons.prems s same True show ?thesis by simp
    next
      case False
      with Cons s same have e: "e = NS_WATCHDOG_HANG_EXIT" and "silent_stretch secs ((b, t0) # ss)" by auto
      then obtain pre b' t' run post where p: "(b, t0) # ss = pre @ (b', t') # run @ post" "run \<noteq> []"
        "\<forall>s \<in> set run. fst s = b'" "snd (last run) - t' > secs * G_USEC_PER_SEC"
        unfolding silent_stretch_def by blast
      have "silent_stretch secs ((b, t0) # s # ss)"
      proof (cases pre)
        case Nil
        with p s same show ?thesis
          unfolding silent_stretch_def
          by (intro exI [of _ "[]"] exI [of _ b] exI [of _ t0] exI [of _ "s # run"] exI [of _ post]) auto
      next
        case (Cons x pre')
        with p(1) have "(b, t0) # s # ss = (x # s # pre') @ (b', t') # run @ post" by simp
        with p(2-) show ?thesis unfolding silent_stretch_def by blast
      qed
      with e show ?thesis by simp
    qed
  qed
qed simp

lemma hang_run:
  assumes "\<forall>s \<in> set run. fst s = b" and "run \<noteq> []" and "snd (last run) - t0 > secs * G_USEC_PER_SEC" and "lc \<le> t0"
  shows "ns_watchdog_hang_thread secs b lc (run @ post) = Some NS_WATCHDOG_HANG_EXIT"
  using assms
proof (induction run)
  case (Cons s run)
  then show ?case by (cases s; cases "run = []") auto
qed simp

lemma silent_hang_exit:
  assumes "silent_stretch secs ((b, t0) # ss)" and "sorted (map snd ((b, t0) # ss))" and "lc \<le> t0"
  shows "ns_watchdog_hang_thread secs b lc ss = Some NS_WATCHDOG_HANG_EXIT"
  using assms
proof (induction ss arbitrary: b t0 lc)
  case Nil
  then show ?case by (auto simp: silent_stretch_def Cons_eq_append_conv)
next
  case (Cons s ss)
  obtain cur now where s: "s = (cur, now)" by fastforce
  from Cons.prems(1) obtain pre b' t' run post where p: "(b, t0) # s # ss = pre @ (b', t') # run @ post" "run \<noteq> []"
    "\<forall>s \<in> set run. fst s = b'" "snd (last run) - t' > secs * G_USEC_PER_SEC"
    unfolding silent_stretch_def by blast
  show ?case
  proof (cases pre)
    case Nil
    with p(1) have "b' = b" "t' = t0" "s # ss = run @ post" by auto
    with hang_run [OF p(3,2,4)] Cons.prems(3) show ?thesis by simp
  next
    case (Cons x pre')
    with p(1) s have "(cur, now) # ss = pre' @ (b', t') # run @ post" by simp
    with p(2-) have "silent_stretch secs ((cur, now) # ss)"
      unfolding silent_stretch_def by blast
    moreover have "sorted (map snd ((cur, now) # ss))" "lc \<le> now"
      using Cons.prems(2,3) s by auto
    ultimately show ?thesis
      using Cons.IH [of cur now now] Cons.IH [of cur now lc] s by auto
  qed
qed

text \<open>The hang monitor ends the process, with its own exit status, exactly if the main loop's beat
  stayed unchanged for longer than the limit, and the limit is never below a minute, whatever
  script budget is configured.\<close>

theorem watchdog_hang_exact:
  assumes "sorted (map snd ((beat, start) # samples))"
  shows "(ns_watchdog_hang_thread secs beat start samples = Some NS_WATCHDOG_HANG_EXIT \<longleftrightarrow>
      silent_stretch secs ((beat, start) # samples)) \<and>
    ns_watchdog_hang_thread secs beat start samples \<in> {None, Some NS_WATCHDOG_HANG_EXIT} \<and> 60 \<le> hang_secs budget"
proof -
  have "60 \<le> hang_secs budget" by (simp add: hang_secs_def NS_WATCHDOG_HANG_MIN_SECS_def Let_def)
  moreover have "ns_watchdog_hang_thread secs beat start samples \<in> {None, Some NS_WATCHDOG_HANG_EXIT}"
    using hang_exit_silent [of secs beat start samples] by (cases "ns_watchdog_hang_thread secs beat start samples") auto
  ultimately show ?thesis
    using hang_exit_silent [of secs beat start samples] silent_hang_exit [OF _ assms, of secs start] by auto
qed

theorem watchdog_hang_exact_witness:
  "(ns_watchdog_hang_thread 60 1 0 [(2, 1000000), (2, 61000000), (2, 61000001)] = Some NS_WATCHDOG_HANG_EXIT \<longleftrightarrow>
      silent_stretch 60 [(1, 0), (2, 1000000), (2, 61000000), (2, 61000001)]) \<and>
   ns_watchdog_hang_thread 60 1 0 [(2, 1000000), (2, 61000000), (2, 61000001)] = Some NS_WATCHDOG_HANG_EXIT \<and>
   ns_watchdog_hang_thread 60 1 0 [(2, 1000000), (2, 61000000), (3, 61000001)] = None"
  using watchdog_hang_exact [of 1 0 "[(2, 1000000), (2, 61000000), (2, 61000001)]" 60 0]
  by (simp add: G_USEC_PER_SEC_def)

section \<open>The supervisor's state machine\<close>

definition NS_WATCHDOG_BURST_MAX :: int where "NS_WATCHDOG_BURST_MAX = 5"
definition NS_WATCHDOG_BURST_SECS :: int where "NS_WATCHDOG_BURST_SECS = 60"

text \<open>The wait status of a child, and the signals that count as a request to stop.\<close>

datatype wait_status = Exited int | Signaled int

definition stop_signal :: "int \<Rightarrow> bool" where
  "stop_signal sig \<longleftrightarrow> sig = 15 \<or> sig = 2 \<or> sig = 1 \<or> sig = 3 \<or> sig = 9"

text \<open>The fields of \<^verbatim>\<open>ns_watchdog\<close>; \<^verbatim>\<open>watch_id\<close> is whether the child watch is installed.  Beside
  them: whether the main loop was told to quit, how many restart and kill timers are pending,
  the signals sent (with the force flag) and the spawns made (with the recovery flag and the
  control descriptor handed down).\<close>

record ns_watchdog =
  wd_pid :: int
  have_pid :: bool
  stopping :: bool
  watch_id :: bool
  burst_count :: int
  burst_start_us :: int
  exit_status :: int
  node_control_fd :: int
  loop_quit :: bool
  respawn_timers :: nat
  kill_timers :: nat
  wd_kills :: "(int \<times> bool) list"
  wd_spawns :: "(bool \<times> int option) list"

definition ns_watchdog_kill :: "int \<Rightarrow> bool \<Rightarrow> ns_watchdog \<Rightarrow> ns_watchdog" where
  "ns_watchdog_kill pid force wd = wd\<lparr>wd_kills := wd_kills wd @ [(pid, force)]\<rparr>"

text \<open>\<^verbatim>\<open>spawned\<close> is the outcome of \<^verbatim>\<open>g_spawn_async\<close>: the child's process id, or \<^const>\<open>None\<close>.\<close>

definition ns_watchdog_spawn :: "int option \<Rightarrow> bool \<Rightarrow> ns_watchdog \<Rightarrow> ns_watchdog \<times> bool" where
  "ns_watchdog_spawn spawned recover wd =
     (case spawned of
        None \<Rightarrow> (wd\<lparr>exit_status := 1, loop_quit := True\<rparr>, False)
      | Some pid \<Rightarrow>
          (wd\<lparr>wd_pid := pid, have_pid := True, watch_id := True,
              wd_spawns := wd_spawns wd @ [(recover, if node_control_fd wd \<ge> 0 then Some (node_control_fd wd) else None)]\<rparr>,
           True))"

definition ns_watchdog_respawn_cb :: "int option \<Rightarrow> ns_watchdog \<Rightarrow> ns_watchdog" where
  "ns_watchdog_respawn_cb spawned wd =
     (if \<not> stopping wd then fst (ns_watchdog_spawn spawned True wd) else wd)"

definition ns_watchdog_schedule_restart :: "int \<Rightarrow> ns_watchdog \<Rightarrow> ns_watchdog" where
  "ns_watchdog_schedule_restart now wd =
     (let wd1 = (if now - burst_start_us wd > NS_WATCHDOG_BURST_SECS * G_USEC_PER_SEC
                 then wd\<lparr>burst_start_us := now, burst_count := 0\<rparr> else wd);
          wd2 = wd1\<lparr>burst_count := burst_count wd1 + 1\<rparr>
      in if burst_count wd2 > NS_WATCHDOG_BURST_MAX then wd2\<lparr>exit_status := 1, loop_quit := True\<rparr>
         else wd2\<lparr>respawn_timers := respawn_timers wd2 + 1\<rparr>)"

definition clean_exit :: "wait_status \<Rightarrow> bool" where
  "clean_exit status \<longleftrightarrow> status = Exited 0"

definition ns_watchdog_child_exited :: "int \<Rightarrow> wait_status \<Rightarrow> ns_watchdog \<Rightarrow> ns_watchdog" where
  "ns_watchdog_child_exited now status wd0 =
     (let wd = wd0\<lparr>have_pid := False, watch_id := False\<rparr> in
      if stopping wd then wd\<lparr>loop_quit := True\<rparr>
      else if clean_exit status then wd\<lparr>exit_status := 0, loop_quit := True\<rparr>
      else if (case status of Signaled sig \<Rightarrow> stop_signal sig | Exited _ \<Rightarrow> False)
        then wd\<lparr>exit_status := 0, loop_quit := True\<rparr>
      else ns_watchdog_schedule_restart now wd)"

definition ns_watchdog_force_kill_cb :: "ns_watchdog \<Rightarrow> ns_watchdog" where
  "ns_watchdog_force_kill_cb wd = (if have_pid wd then ns_watchdog_kill (wd_pid wd) True wd else wd)"

definition ns_watchdog_signal_cb :: "ns_watchdog \<Rightarrow> ns_watchdog" where
  "ns_watchdog_signal_cb wd =
     (if \<not> stopping wd then
        (let wd1 = wd\<lparr>stopping := True, exit_status := 0\<rparr> in
         if have_pid wd1 then (ns_watchdog_kill (wd_pid wd1) False wd1)\<lparr>kill_timers := kill_timers wd1 + 1\<rparr>
         else wd1\<lparr>loop_quit := True\<rparr>)
      else wd)"

text \<open>The sources of the main loop.  A child's exit is reported only while its watch is installed, a
  timer fires only while one is pending.\<close>

datatype wd_event = Child_exit int wait_status | Respawn_timer "int option" | Kill_timer | Stop_request

definition wd_event_step :: "ns_watchdog \<Rightarrow> wd_event \<Rightarrow> ns_watchdog" where
  "wd_event_step wd ev =
     (case ev of
        Child_exit now status \<Rightarrow> if watch_id wd then ns_watchdog_child_exited now status wd else wd
      | Respawn_timer spawned \<Rightarrow>
          if 0 < respawn_timers wd then ns_watchdog_respawn_cb spawned (wd\<lparr>respawn_timers := respawn_timers wd - 1\<rparr>)
          else wd
      | Kill_timer \<Rightarrow>
          if 0 < kill_timers wd then ns_watchdog_force_kill_cb (wd\<lparr>kill_timers := kill_timers wd - 1\<rparr>) else wd
      | Stop_request \<Rightarrow> ns_watchdog_signal_cb wd)"

text \<open>\<^verbatim>\<open>g_main_loop_run\<close>: events until the loop is told to quit.\<close>

fun main_loop_run :: "ns_watchdog \<Rightarrow> wd_event list \<Rightarrow> ns_watchdog" where
  "main_loop_run wd [] = wd"
| "main_loop_run wd (ev # evs) = (if loop_quit wd then wd else main_loop_run (wd_event_step wd ev) evs)"

definition initial_watchdog :: "int \<Rightarrow> int \<Rightarrow> ns_watchdog" where
  "initial_watchdog now fd = \<lparr>wd_pid = 0, have_pid = False, stopping = False, watch_id = False, burst_count = 0,
     burst_start_us = now, exit_status = 0, node_control_fd = fd, loop_quit = False, respawn_timers = 0,
     kill_timers = 0, wd_kills = [], wd_spawns = []\<rparr>"

definition supervisor_loop :: "int \<Rightarrow> int \<Rightarrow> int option \<Rightarrow> wd_event list \<Rightarrow> ns_watchdog" where
  "supervisor_loop now fd spawned evs =
     (let (wd, ok) = ns_watchdog_spawn spawned False (initial_watchdog now fd)
      in if ok then main_loop_run wd evs else wd)"

definition ns_watchdog_run_supervisor :: "int \<Rightarrow> int \<Rightarrow> int option \<Rightarrow> wd_event list \<Rightarrow> ns_watchdog" where
  "ns_watchdog_run_supervisor now fd spawned evs =
     (let wd = (supervisor_loop now fd spawned evs)\<lparr>watch_id := False\<rparr>
      in if have_pid wd then ns_watchdog_kill (wd_pid wd) True wd else wd)"

section \<open>Invariant of the supervisor\<close>

definition wd_ok :: "ns_watchdog \<Rightarrow> bool" where
  "wd_ok wd \<longleftrightarrow> watch_id wd = have_pid wd \<and> respawn_timers wd \<le> 1 \<and> (have_pid wd \<longrightarrow> respawn_timers wd = 0) \<and>
     0 \<le> burst_count wd \<and> (loop_quit wd \<or> burst_count wd \<le> NS_WATCHDOG_BURST_MAX) \<and>
     (stopping wd \<longrightarrow> exit_status wd = 0)"

lemmas wd_defs = ns_watchdog_kill_def ns_watchdog_spawn_def ns_watchdog_respawn_cb_def
  ns_watchdog_schedule_restart_def ns_watchdog_child_exited_def ns_watchdog_force_kill_cb_def
  ns_watchdog_signal_cb_def wd_event_step_def

interpretation watchdog: invariant_system wd_event_step wd_ok
proof
  fix wd ev
  assume ok: "wd_ok wd"
  show "wd_ok (wd_event_step wd ev)"
  proof (cases ev)
    case (Child_exit now status)
    have "wd_ok (ns_watchdog_schedule_restart now (wd\<lparr>have_pid := False, watch_id := False\<rparr>))" if "have_pid wd" "\<not> stopping wd"
      using ok that by (simp add: wd_ok_def ns_watchdog_schedule_restart_def NS_WATCHDOG_BURST_MAX_def Let_def)
    then show ?thesis
      using ok Child_exit by (simp add: wd_event_step_def ns_watchdog_child_exited_def Let_def) (simp add: wd_ok_def)
  next
    case (Respawn_timer spawned)
    then show ?thesis
      using ok by (cases spawned) (auto simp: wd_defs wd_ok_def)
  next
    case Kill_timer
    then show ?thesis using ok by (auto simp: wd_defs wd_ok_def)
  next
    case Stop_request
    then show ?thesis using ok by (auto simp: wd_defs wd_ok_def)
  qed
qed

lemma main_loop_foldl: "\<exists>n. main_loop_run wd evs = foldl wd_event_step wd (take n evs)"
proof (induction evs arbitrary: wd)
  case (Cons ev evs)
  obtain n where "main_loop_run (wd_event_step wd ev) evs = foldl wd_event_step (wd_event_step wd ev) (take n evs)"
    using Cons.IH by blast
  then have "main_loop_run wd (ev # evs) = foldl wd_event_step wd (take (if loop_quit wd then 0 else Suc n) (ev # evs))"
    by simp
  then show ?case by blast
qed simp

lemma supervisor_loop_ok: "wd_ok (supervisor_loop now fd spawned evs)"
proof -
  obtain wd ok where sp: "ns_watchdog_spawn spawned False (initial_watchdog now fd) = (wd, ok)" by fastforce
  have "wd_ok wd"
    using sp by (auto simp: ns_watchdog_spawn_def initial_watchdog_def wd_ok_def NS_WATCHDOG_BURST_MAX_def split: option.splits)
  moreover obtain n where "main_loop_run wd evs = foldl wd_event_step wd (take n evs)"
    using main_loop_foldl by blast
  ultimately show ?thesis
    using watchdog.inv_every_prefix [of wd n evs] sp by (simp add: supervisor_loop_def)
qed



text \<open>A stopping supervisor spawns nothing and keeps its exit status.\<close>

lemma stopping_step:
  "stopping wd \<Longrightarrow> stopping (wd_event_step wd ev) \<and> wd_spawns (wd_event_step wd ev) = wd_spawns wd \<and>
     exit_status (wd_event_step wd ev) = exit_status wd"
  by (cases ev) (auto simp: wd_defs Let_def)

lemma stopping_run:
  "stopping wd \<Longrightarrow> wd_spawns (foldl wd_event_step wd evs) = wd_spawns wd \<and>
     exit_status (foldl wd_event_step wd evs) = exit_status wd"
  by (induction evs arbitrary: wd) (simp_all add: stopping_step)

lemma signal_stops:
  "stopping (ns_watchdog_signal_cb wd)" "wd_spawns (ns_watchdog_signal_cb wd) = wd_spawns wd"
  "\<not> stopping wd \<Longrightarrow> exit_status (ns_watchdog_signal_cb wd) = 0"
  by (auto simp: wd_defs Let_def)

text \<open>A request to stop is final: whatever happens afterwards, no browser is started again and the
  supervisor's exit status is success; the running child is asked to end and, if it has not when the
  grace timer fires, it is killed; once it has ended the loop quits.\<close>

theorem watchdog_stop_is_final:
  assumes "\<not> stopping wd" and "have_pid wd" and "watch_id wd"
  shows "let stopped = wd_event_step wd Stop_request in
     wd_spawns (foldl wd_event_step stopped evs) = wd_spawns wd \<and> exit_status (foldl wd_event_step stopped evs) = 0 \<and>
     wd_kills stopped = wd_kills wd @ [(wd_pid wd, False)] \<and>
     wd_kills (wd_event_step stopped Kill_timer) = wd_kills stopped @ [(wd_pid wd, True)] \<and>
     loop_quit (wd_event_step stopped (Child_exit now status))"
proof -
  have "wd_event_step wd Stop_request = ns_watchdog_signal_cb wd" by (simp add: wd_event_step_def)
  moreover have "wd_kills (ns_watchdog_signal_cb wd) = wd_kills wd @ [(wd_pid wd, False)] \<and>
      wd_kills (wd_event_step (ns_watchdog_signal_cb wd) Kill_timer) = wd_kills wd @ [(wd_pid wd, False), (wd_pid wd, True)] \<and>
      loop_quit (wd_event_step (ns_watchdog_signal_cb wd) (Child_exit now status))"
    using assms by (simp add: wd_defs Let_def)
  ultimately show ?thesis
    using stopping_run [OF signal_stops(1), of wd evs] signal_stops(2,3) [of wd] assms(1) by (simp add: Let_def)
qed

definition started :: ns_watchdog where
  "started = fst (ns_watchdog_spawn (Some 100) False (initial_watchdog 0 (-1)))"

theorem watchdog_stop_is_final_witness:
  "let stopped = wd_event_step started Stop_request in
     wd_spawns (foldl wd_event_step stopped [Child_exit 5 (Signaled 11), Respawn_timer (Some 101)]) = wd_spawns started \<and>
     exit_status (foldl wd_event_step stopped [Child_exit 5 (Signaled 11), Respawn_timer (Some 101)]) = 0 \<and>
     wd_kills stopped = wd_kills started @ [(wd_pid started, False)] \<and>
     wd_kills (wd_event_step stopped Kill_timer) = wd_kills stopped @ [(wd_pid started, True)] \<and>
     loop_quit (wd_event_step stopped (Child_exit 5 (Signaled 11)))"
  by (rule watchdog_stop_is_final) (simp_all add: started_def ns_watchdog_spawn_def initial_watchdog_def)

section \<open>Giving up\<close>

text \<open>A browser that fails at each of the given times and is started again after each.\<close>

definition failing :: "(int \<times> wait_status \<times> int) list \<Rightarrow> wd_event list" where
  "failing fs = concat (map (\<lambda>(t, st, pid). [Child_exit t st, Respawn_timer (Some pid)]) fs)"

definition failure :: "wait_status \<Rightarrow> bool" where
  "failure st \<longleftrightarrow> (case st of Exited code \<Rightarrow> code \<noteq> 0 | Signaled sig \<Rightarrow> \<not> stop_signal sig)"

definition running :: "ns_watchdog \<Rightarrow> bool" where
  "running wd \<longleftrightarrow> have_pid wd \<and> watch_id wd \<and> \<not> stopping wd \<and> \<not> loop_quit wd \<and> respawn_timers wd = 0"

lemma failure_restart:
  assumes "running wd" and "failure st" and "t - burst_start_us wd \<le> NS_WATCHDOG_BURST_SECS * G_USEC_PER_SEC"
    and "burst_count wd < NS_WATCHDOG_BURST_MAX"
  shows "running (foldl wd_event_step wd [Child_exit t st, Respawn_timer (Some pid)])"
    "burst_count (foldl wd_event_step wd [Child_exit t st, Respawn_timer (Some pid)]) = burst_count wd + 1"
    "burst_start_us (foldl wd_event_step wd [Child_exit t st, Respawn_timer (Some pid)]) = burst_start_us wd"
    "length (wd_spawns (foldl wd_event_step wd [Child_exit t st, Respawn_timer (Some pid)])) = length (wd_spawns wd) + 1"
    "\<not> loop_quit (wd_event_step wd (Child_exit t st))"
proof -
  have "\<not> clean_exit st" "\<not> (case st of Signaled sig \<Rightarrow> stop_signal sig | Exited _ \<Rightarrow> False)"
    using assms(2) by (auto simp: failure_def clean_exit_def split: wait_status.splits)
  then have step: "wd_event_step wd (Child_exit t st) =
      wd\<lparr>have_pid := False, watch_id := False, burst_count := burst_count wd + 1, respawn_timers := 1\<rparr>"
    using assms(1,3,4)
    by (simp add: wd_event_step_def ns_watchdog_child_exited_def ns_watchdog_schedule_restart_def running_def Let_def)
  show "running (foldl wd_event_step wd [Child_exit t st, Respawn_timer (Some pid)])"
    "burst_count (foldl wd_event_step wd [Child_exit t st, Respawn_timer (Some pid)]) = burst_count wd + 1"
    "burst_start_us (foldl wd_event_step wd [Child_exit t st, Respawn_timer (Some pid)]) = burst_start_us wd"
    "length (wd_spawns (foldl wd_event_step wd [Child_exit t st, Respawn_timer (Some pid)])) = length (wd_spawns wd) + 1"
    "\<not> loop_quit (wd_event_step wd (Child_exit t st))"
    using assms(1) step
    by (simp_all add: wd_event_step_def ns_watchdog_respawn_cb_def ns_watchdog_spawn_def running_def)
qed

lemma failure_gives_up:
  assumes "running wd" and "failure st" and "t - burst_start_us wd \<le> NS_WATCHDOG_BURST_SECS * G_USEC_PER_SEC"
    and "burst_count wd = NS_WATCHDOG_BURST_MAX"
  shows "wd_event_step wd (Child_exit t st) =
      wd\<lparr>have_pid := False, watch_id := False, burst_count := burst_count wd + 1, exit_status := 1, loop_quit := True\<rparr>"
proof -
  have "\<not> clean_exit st" "\<not> (case st of Signaled sig \<Rightarrow> stop_signal sig | Exited _ \<Rightarrow> False)"
    using assms(2) by (auto simp: failure_def clean_exit_def split: wait_status.splits)
  then show ?thesis
    using assms(1,3,4)
    by (simp add: wd_event_step_def ns_watchdog_child_exited_def ns_watchdog_schedule_restart_def running_def Let_def)
qed

lemma main_loop_quit: "loop_quit wd \<Longrightarrow> main_loop_run wd evs = wd"
  by (cases evs) simp_all

lemma failing_run:
  assumes "running wd" and "list_all (\<lambda>(t, st, pid). failure st \<and> t - burst_start_us wd \<le> NS_WATCHDOG_BURST_SECS * G_USEC_PER_SEC) fs"
    and "0 \<le> burst_count wd" and "burst_count wd \<le> NS_WATCHDOG_BURST_MAX"
  shows "length (wd_spawns (main_loop_run wd (failing fs))) =
      length (wd_spawns wd) + min (length fs) (nat (NS_WATCHDOG_BURST_MAX - burst_count wd)) \<and>
    (loop_quit (main_loop_run wd (failing fs)) \<longleftrightarrow> nat (NS_WATCHDOG_BURST_MAX - burst_count wd) < length fs) \<and>
    (loop_quit (main_loop_run wd (failing fs)) \<longrightarrow> exit_status (main_loop_run wd (failing fs)) = 1)"
  using assms
proof (induction fs arbitrary: wd)
  case Nil
  then show ?case by (simp add: failing_def running_def)
next
  case (Cons f fs)
  obtain t st pid where f: "f = (t, st, pid)" by (metis prod_cases3)
  have fl: "failure st" "t - burst_start_us wd \<le> NS_WATCHDOG_BURST_SECS * G_USEC_PER_SEC"
    using Cons.prems(2) f by auto
  have nq: "\<not> loop_quit wd" using Cons.prems(1) by (simp add: running_def)
  have unf: "failing (f # fs) = Child_exit t st # Respawn_timer (Some pid) # failing fs"
    by (simp add: failing_def f)
  show ?case
  proof (cases "burst_count wd = NS_WATCHDOG_BURST_MAX")
    case True
    note up = failure_gives_up [OF Cons.prems(1) fl True]
    have "main_loop_run wd (failing (f # fs)) = wd_event_step wd (Child_exit t st)"
      using unf nq up by (simp add: main_loop_quit)
    with up True show ?thesis by simp
  next
    case False
    with Cons.prems(4) have lt: "burst_count wd < NS_WATCHDOG_BURST_MAX" by simp
    let ?wd = "foldl wd_event_step wd [Child_exit t st, Respawn_timer (Some pid)]"
    note restart = failure_restart(1-4) [OF Cons.prems(1) fl lt, of pid] failure_restart(5) [OF Cons.prems(1) fl lt]
    have run: "main_loop_run wd (failing (f # fs)) = main_loop_run ?wd (failing fs)"
      using unf nq restart(5) by simp
    have "length (wd_spawns (main_loop_run ?wd (failing fs))) =
        length (wd_spawns ?wd) + min (length fs) (nat (NS_WATCHDOG_BURST_MAX - burst_count ?wd)) \<and>
      (loop_quit (main_loop_run ?wd (failing fs)) \<longleftrightarrow> nat (NS_WATCHDOG_BURST_MAX - burst_count ?wd) < length fs) \<and>
      (loop_quit (main_loop_run ?wd (failing fs)) \<longrightarrow> exit_status (main_loop_run ?wd (failing fs)) = 1)"
      using Cons.prems(2,3) lt restart by (intro Cons.IH) simp_all
    moreover have "nat (NS_WATCHDOG_BURST_MAX - burst_count wd) = Suc (nat (NS_WATCHDOG_BURST_MAX - burst_count ?wd))"
      using lt restart(2) by simp
    ultimately show ?thesis
      unfolding run restart(4) by simp
  qed
qed



section \<open>Quoting for a Windows command line\<close>

text \<open>\<^verbatim>\<open>wchar_t\<close> is 16 bits wide; the growable buffer keeps its capacity in code units, and a size is
  bounded by \<^verbatim>\<open>(size_t)-1\<close>.\<close>

type_synonym wchar = "16 word"

definition SIZE_MAX :: nat where "SIZE_MAX = 2 ^ 64 - 1"

record wbuf =
  w_data :: "wchar list"
  w_cap :: nat

function grow :: "nat \<Rightarrow> nat \<Rightarrow> nat option" where
  "grow cap need =
     (if cap = 0 then None else if cap < need then (if cap > SIZE_MAX div 2 then None else grow (cap * 2) need) else Some cap)"
  by pat_completeness auto
termination
  by (relation "measure (\<lambda>(cap, need). need - cap)") auto

declare grow.simps [simp del]

definition ns_watchdog_wbuf_reserve :: "wbuf \<Rightarrow> nat \<Rightarrow> wbuf option" where
  "ns_watchdog_wbuf_reserve b extra =
     (if extra > SIZE_MAX - length (w_data b) - 1 then None
      else let need = length (w_data b) + extra + 1 in
        if need \<le> w_cap b then Some b
        else map_option (\<lambda>cap. b\<lparr>w_cap := cap\<rparr>) (grow (if w_cap b \<noteq> 0 then w_cap b else 256) need))"

definition ns_watchdog_wbuf_append_many :: "wbuf \<Rightarrow> wchar \<Rightarrow> nat \<Rightarrow> wbuf option" where
  "ns_watchdog_wbuf_append_many b ch count =
     map_option (\<lambda>b. b\<lparr>w_data := w_data b @ replicate count ch\<rparr>) (ns_watchdog_wbuf_reserve b count)"

definition ns_watchdog_wbuf_append_char :: "wbuf \<Rightarrow> wchar \<Rightarrow> wbuf option" where
  "ns_watchdog_wbuf_append_char b ch =
     map_option (\<lambda>b. b\<lparr>w_data := w_data b @ [ch]\<rparr>) (ns_watchdog_wbuf_reserve b 1)"

abbreviation wquote :: wchar where "wquote \<equiv> 0x22"
abbreviation wslash :: wchar where "wslash \<equiv> 0x5C"
abbreviation wblank :: wchar where "wblank \<equiv> 0x20"

fun quote_loop :: "wbuf \<Rightarrow> nat \<Rightarrow> wchar list \<Rightarrow> wbuf option" where
  "quote_loop b slashes [] =
     Option.bind (if 0 < slashes then ns_watchdog_wbuf_append_many b wslash (slashes * 2) else Some b)
       (\<lambda>b. ns_watchdog_wbuf_append_char b wquote)"
| "quote_loop b slashes (c # p) =
     (if c = wslash then quote_loop b (slashes + 1) p
      else if c = wquote then
        Option.bind (ns_watchdog_wbuf_append_many b wslash (slashes * 2 + 1)) (\<lambda>b.
        Option.bind (ns_watchdog_wbuf_append_char b c) (\<lambda>b. quote_loop b 0 p))
      else
        Option.bind (if 0 < slashes then ns_watchdog_wbuf_append_many b wslash slashes else Some b) (\<lambda>b.
        Option.bind (ns_watchdog_wbuf_append_char b c) (\<lambda>b. quote_loop b 0 p)))"

definition ns_watchdog_wbuf_append_quoted :: "wbuf \<Rightarrow> wchar list \<Rightarrow> wbuf option" where
  "ns_watchdog_wbuf_append_quoted b arg =
     Option.bind (ns_watchdog_wbuf_append_char b wquote) (\<lambda>b. quote_loop b 0 arg)"

text \<open>\<^verbatim>\<open>g_utf8_to_utf16\<close> has been applied to every argument; it is total on the valid UTF-8 the
  supervisor gets.\<close>

fun command_line_loop :: "bool \<Rightarrow> wbuf \<Rightarrow> wchar list list \<Rightarrow> wbuf option" where
  "command_line_loop first b [] = Some b"
| "command_line_loop first b (arg # args) =
     Option.bind (if first then Some b else ns_watchdog_wbuf_append_char b wblank) (\<lambda>b.
     Option.bind (ns_watchdog_wbuf_append_quoted b arg) (\<lambda>b. command_line_loop False b args))"

definition ns_watchdog_build_command_line :: "wchar list list \<Rightarrow> wchar list option" where
  "ns_watchdog_build_command_line argv = map_option w_data (command_line_loop True \<lparr>w_data = [], w_cap = 0\<rparr> argv)"

text \<open>The quoted text without the buffer, and the buffer's invariant: what is stored and the
  terminator fit in the capacity.\<close>

definition wbuf_ok :: "wbuf \<Rightarrow> bool" where
  "wbuf_ok b \<longleftrightarrow> w_cap b \<le> SIZE_MAX \<and> (w_data b = [] \<or> length (w_data b) + 1 \<le> w_cap b)"

fun quoted_tail :: "nat \<Rightarrow> wchar list \<Rightarrow> wchar list" where
  "quoted_tail n [] = replicate (n * 2) wslash @ [wquote]"
| "quoted_tail n (c # p) =
     (if c = wslash then quoted_tail (n + 1) p
      else if c = wquote then replicate (n * 2 + 1) wslash @ c # quoted_tail 0 p
      else replicate n wslash @ c # quoted_tail 0 p)"

definition quoted :: "wchar list \<Rightarrow> wchar list" where
  "quoted arg = wquote # quoted_tail 0 arg"

lemma grow_result: "grow cap need = Some c \<Longrightarrow> need \<le> c \<and> (cap \<le> SIZE_MAX \<longrightarrow> c \<le> SIZE_MAX)"
proof (induction cap need rule: grow.induct)
  case (1 cap need)
  have half: "cap \<le> SIZE_MAX div 2 \<Longrightarrow> cap * 2 \<le> SIZE_MAX" by simp
  show ?case
  proof (cases "cap = 0 \<or> \<not> cap < need \<or> cap > SIZE_MAX div 2")
    case True
    with 1(2) show ?thesis by (subst (asm) grow.simps) (auto split: if_splits)
  next
    case False
    moreover from this 1(2) have "grow (cap * 2) need = Some c"
      by (subst (asm) grow.simps) simp
    ultimately show ?thesis using 1(1) half by simp
  qed
qed

lemma reserve_result:
  assumes "ns_watchdog_wbuf_reserve b extra = Some b'" and "wbuf_ok b"
  shows "w_data b' = w_data b \<and> length (w_data b) + extra + 1 \<le> w_cap b' \<and> w_cap b' \<le> SIZE_MAX"
proof -
  have "(if w_cap b \<noteq> 0 then w_cap b else 256) \<le> SIZE_MAX"
    using assms(2) by (simp add: wbuf_ok_def SIZE_MAX_def)
  then show ?thesis
    using assms grow_result [of "if w_cap b \<noteq> 0 then w_cap b else 256"]
    by (auto simp: ns_watchdog_wbuf_reserve_def wbuf_ok_def Let_def split: if_split_asm)
qed

lemma append_many_result:
  assumes "ns_watchdog_wbuf_append_many b ch n = Some b'" and "wbuf_ok b"
  shows "w_data b' = w_data b @ replicate n ch \<and> wbuf_ok b'"
proof -
  obtain b1 where "ns_watchdog_wbuf_reserve b n = Some b1" "b' = b1\<lparr>w_data := w_data b1 @ replicate n ch\<rparr>"
    using assms(1) by (auto simp: ns_watchdog_wbuf_append_many_def)
  with reserve_result [OF this(1) assms(2)] show ?thesis by (simp add: wbuf_ok_def)
qed

lemma append_char_result:
  assumes "ns_watchdog_wbuf_append_char b ch = Some b'" and "wbuf_ok b"
  shows "w_data b' = w_data b @ [ch] \<and> wbuf_ok b'"
proof -
  obtain b1 where "ns_watchdog_wbuf_reserve b 1 = Some b1" "b' = b1\<lparr>w_data := w_data b1 @ [ch]\<rparr>"
    using assms(1) by (auto simp: ns_watchdog_wbuf_append_char_def)
  with reserve_result [OF this(1) assms(2)] show ?thesis by (simp add: wbuf_ok_def)
qed

lemmas append_result = append_many_result append_char_result

lemma bind_SomeD: "Option.bind x f = Some y \<Longrightarrow> \<exists>z. x = Some z \<and> f z = Some y"
  by (cases x) simp_all

lemma quote_loop_result:
  "quote_loop b n arg = Some b' \<Longrightarrow> wbuf_ok b \<Longrightarrow> w_data b' = w_data b @ quoted_tail n arg \<and> wbuf_ok b'"
proof (induction b n arg rule: quote_loop.induct)
  case (1 b n)
  then show ?case
    by (auto dest!: bind_SomeD append_result split: if_split_asm)
next
  case (2 b n c p)
  show ?case
  proof (cases "c = wslash")
    case True
    with 2 show ?thesis by simp
  next
    case ns: False
    show ?thesis
    proof (cases "c = wquote")
      case True
      with 2(4) obtain b1 b2 where b: "ns_watchdog_wbuf_append_many b wslash (n * 2 + 1) = Some b1"
        "ns_watchdog_wbuf_append_char b1 c = Some b2" "quote_loop b2 0 p = Some b'"
        by (auto dest!: bind_SomeD)
      show ?thesis
        using 2(2) [OF ns True b] append_result(1) [OF b(1) 2(5)] append_result(2) [OF b(2)] True by simp
    next
      case False
      with ns 2(4) obtain b1 b2 where b: "(if 0 < n then ns_watchdog_wbuf_append_many b wslash n else Some b) = Some b1"
        "ns_watchdog_wbuf_append_char b1 c = Some b2" "quote_loop b2 0 p = Some b'"
        by (auto dest!: bind_SomeD)
      have "w_data b1 = w_data b @ replicate n wslash \<and> wbuf_ok b1"
        using b(1) 2(5) append_result(1) by (cases "0 < n") auto
      then show ?thesis
        using 2(3) [OF ns False b] append_result(2) [OF b(2)] False ns by simp
    qed
  qed
qed

lemma append_quoted_result:
  "ns_watchdog_wbuf_append_quoted b arg = Some b' \<Longrightarrow> wbuf_ok b \<Longrightarrow> w_data b' = w_data b @ quoted arg \<and> wbuf_ok b'"
  by (auto simp: ns_watchdog_wbuf_append_quoted_def quoted_def dest!: bind_SomeD append_result quote_loop_result)

text \<open>Reading an argument back by the documented rules of the Windows C runtime: inside quotes,
  backslashes are literal unless a quotation mark follows them; then every two of them stand for
  one, and a left-over one makes the quotation mark literal.\<close>

fun win_arg :: "nat \<Rightarrow> wchar list \<Rightarrow> (wchar list \<times> wchar list) option" where
  "win_arg n [] = None"
| "win_arg n (c # p) =
     (if c = wslash then win_arg (n + 1) p
      else if c = wquote then
        (if even n then Some (replicate (n div 2) wslash, p)
         else map_option (\<lambda>(a, r). (replicate (n div 2) wslash @ wquote # a, r)) (win_arg 0 p))
      else map_option (\<lambda>(a, r). (replicate n wslash @ c # a, r)) (win_arg 0 p))"

lemma win_arg_shorter: "win_arg n s = Some (a, r) \<Longrightarrow> length r < length s"
proof (induction n s arbitrary: a rule: win_arg.induct)
  case (2 n c p)
  then show ?case by (fastforce split: if_splits)
qed simp

lemma win_arg_slashes: "win_arg m (replicate k wslash @ s) = win_arg (m + k) s"
  by (induction k arbitrary: m) simp_all

lemma win_arg_quoted_tail: "win_arg 0 (quoted_tail n arg @ rest) = Some (replicate n wslash @ arg, rest)"
proof (induction n arg rule: quoted_tail.induct)
  case (1 n)
  then show ?case by (simp add: win_arg_slashes)
next
  case (2 n c p)
  have "replicate n wslash @ wslash # p = replicate (n + 1) wslash @ p"
    by (simp add: replicate_app_Cons_same)
  with 2 show ?case by (simp add: win_arg_slashes del: replicate_Suc)
qed

text \<open>A whole command line of quoted arguments separated by single blanks.\<close>

function win_args :: "wchar list \<Rightarrow> wchar list list option" where
  "win_args [] = Some []"
| "win_args (c # s) =
     (if c \<noteq> wquote then None
      else case win_arg 0 s of
        None \<Rightarrow> None
      | Some (a, []) \<Rightarrow> Some [a]
      | Some (a, d # r) \<Rightarrow> if d = wblank \<and> r \<noteq> [] then map_option (Cons a) (win_args r) else None)"
  by pat_completeness auto
termination
  by (relation "measure length") (auto dest: win_arg_shorter)

definition unquote :: "wchar list \<Rightarrow> wchar list option" where
  "unquote s = (case s of c # p \<Rightarrow> if c = wquote then
      (case win_arg 0 p of Some (a, []) \<Rightarrow> Some a | _ \<Rightarrow> None) else None | [] \<Rightarrow> None)"

interpretation windows_arg: codec quoted unquote "\<lambda>_. True"
proof
  fix arg
  show "unquote (quoted arg) = Some arg"
    using win_arg_quoted_tail [of 0 arg "[]"] by (simp add: unquote_def quoted_def)
qed

fun joined :: "wchar list list \<Rightarrow> wchar list" where
  "joined [] = []"
| "joined [a] = quoted a"
| "joined (a # as) = quoted a @ wblank # joined as"

lemma win_args_quoted:
  "win_args (quoted a @ wblank # s) = (if s \<noteq> [] then map_option (Cons a) (win_args s) else None)"
  "win_args (quoted a) = Some [a]"
  using win_arg_quoted_tail [of 0 a "wblank # s"] win_arg_quoted_tail [of 0 a "[]"]
  by (simp_all add: quoted_def)

lemma joined_not_Nil: "as \<noteq> [] \<Longrightarrow> joined as \<noteq> []"
  by (cases as rule: joined.cases) (simp_all add: quoted_def)

lemma win_args_joined: "as \<noteq> [] \<Longrightarrow> win_args (joined as) = Some as"
proof (induction as rule: joined.induct)
  case (3 a b as)
  then show ?case using joined_not_Nil [of "b # as"] by (simp add: win_args_quoted del: win_args.simps)
qed (simp_all add: win_args_quoted del: win_args.simps)

lemma command_line_result:
  "command_line_loop first b args = Some b' \<Longrightarrow> wbuf_ok b \<Longrightarrow>
     w_data b' = w_data b @ (if first \<or> args = [] then [] else [wblank]) @ joined args \<and> wbuf_ok b'"
proof (induction first b args rule: command_line_loop.induct)
  case (2 first b arg args)
  then obtain b1 b2 where b: "(if first then Some b else ns_watchdog_wbuf_append_char b wblank) = Some b1"
    "ns_watchdog_wbuf_append_quoted b1 arg = Some b2" "command_line_loop False b2 args = Some b'"
    by (auto dest!: bind_SomeD)
  have b1: "w_data b1 = w_data b @ (if first then [] else [wblank]) \<and> wbuf_ok b1"
    using b(1) 2(3) append_char_result by (cases first) auto
  then have b2: "w_data b2 = w_data b1 @ quoted arg \<and> wbuf_ok b2"
    using append_quoted_result [OF b(2)] by simp
  then have "w_data b' = w_data b2 @ (if args = [] then [] else [wblank]) @ joined args \<and> wbuf_ok b'"
    using 2(1) [OF b] by simp
  then show ?case using b1 b2 by (cases args) simp_all
qed simp

subsection \<open>The buffer never fails on a command line of realistic size\<close>

lemma grow_total: "0 < cap \<Longrightarrow> need \<le> 2 ^ 63 \<Longrightarrow> grow cap need \<noteq> None"
proof (induction cap need rule: grow.induct)
  case (1 cap need)
  have "\<not> (cap < need \<and> cap > SIZE_MAX div 2)"
    using 1(3) by (simp add: SIZE_MAX_def)
  then show ?case
    using 1 by (subst grow.simps) auto
qed

lemma reserve_total: "length (w_data b) + extra + 1 \<le> 2 ^ 63 \<Longrightarrow> ns_watchdog_wbuf_reserve b extra \<noteq> None"
  using grow_total [of "if w_cap b \<noteq> 0 then w_cap b else 256" "length (w_data b) + extra + 1"]
  by (simp add: ns_watchdog_wbuf_reserve_def Let_def SIZE_MAX_def)

lemma append_total:
  "length (w_data b) + n + 1 \<le> 2 ^ 63 \<Longrightarrow> ns_watchdog_wbuf_append_many b ch n \<noteq> None"
  "length (w_data b) + 2 \<le> 2 ^ 63 \<Longrightarrow> ns_watchdog_wbuf_append_char b ch \<noteq> None"
  using reserve_total [of b n] reserve_total [of b 1]
  by (simp_all add: ns_watchdog_wbuf_append_many_def ns_watchdog_wbuf_append_char_def)

lemma bind_total: "x \<noteq> None \<Longrightarrow> (\<And>z. x = Some z \<Longrightarrow> f z \<noteq> None) \<Longrightarrow> Option.bind x f \<noteq> None"
  by (cases x) simp_all

lemma quote_loop_total:
  assumes "wbuf_ok b" and "length (w_data b) + 2 * n + 2 * length arg + 2 \<le> 2 ^ 63"
  shows "quote_loop b n arg \<noteq> None"
  using assms
proof (induction b n arg rule: quote_loop.induct)
  case (1 b n)
  show ?case
    unfolding quote_loop.simps
  proof (rule bind_total)
    show "(if 0 < n then ns_watchdog_wbuf_append_many b wslash (n * 2) else Some b) \<noteq> None"
      using append_total(1) [of b "n * 2"] 1(2) by simp
    fix b1
    assume "(if 0 < n then ns_watchdog_wbuf_append_many b wslash (n * 2) else Some b) = Some b1"
    then have "length (w_data b1) = length (w_data b) + n * 2"
      using append_many_result [OF _ 1(1)] by (cases "0 < n") auto
    then show "ns_watchdog_wbuf_append_char b1 wquote \<noteq> None"
      using append_total(2) [of b1] 1(2) by simp
  qed
next
  case (2 b n c p)
  consider "c = wslash" | "c \<noteq> wslash" "c = wquote" | "c \<noteq> wslash" "c \<noteq> wquote" by blast
  then show ?case
  proof cases
    case 1
    with 2 show ?thesis by simp
  next
    case q: 2
    have "Option.bind (ns_watchdog_wbuf_append_many b wslash (n * 2 + 1)) (\<lambda>b.
        Option.bind (ns_watchdog_wbuf_append_char b c) (\<lambda>b. quote_loop b 0 p)) \<noteq> None"
    proof (intro bind_total)
      show "ns_watchdog_wbuf_append_many b wslash (n * 2 + 1) \<noteq> None"
        using append_total(1) [of b "n * 2 + 1"] 2(5) by simp
      fix b1
      assume b1: "ns_watchdog_wbuf_append_many b wslash (n * 2 + 1) = Some b1"
      note r1 = append_many_result [OF b1 2(4)]
      show "ns_watchdog_wbuf_append_char b1 c \<noteq> None"
        using append_total(2) [of b1] r1 2(5) by simp
      fix b2
      assume b2: "ns_watchdog_wbuf_append_char b1 c = Some b2"
      show "quote_loop b2 0 p \<noteq> None"
        using 2(2) [OF q b1 b2] append_char_result [OF b2] r1 2(5) by simp
    qed
    with q show ?thesis by simp
  next
    case o: 3
    have "Option.bind (if 0 < n then ns_watchdog_wbuf_append_many b wslash n else Some b) (\<lambda>b.
        Option.bind (ns_watchdog_wbuf_append_char b c) (\<lambda>b. quote_loop b 0 p)) \<noteq> None"
    proof (intro bind_total)
      show "(if 0 < n then ns_watchdog_wbuf_append_many b wslash n else Some b) \<noteq> None"
        using append_total(1) [of b n] 2(5) by simp
      fix b1
      assume b1: "(if 0 < n then ns_watchdog_wbuf_append_many b wslash n else Some b) = Some b1"
      then have r1: "length (w_data b1) = length (w_data b) + n \<and> wbuf_ok b1"
        using append_many_result [OF _ 2(4)] 2(4) by (cases "0 < n") auto
      show "ns_watchdog_wbuf_append_char b1 c \<noteq> None"
        using append_total(2) [of b1] r1 2(5) by simp
      fix b2
      assume b2: "ns_watchdog_wbuf_append_char b1 c = Some b2"
      show "quote_loop b2 0 p \<noteq> None"
        using 2(3) [OF o b1 b2] append_char_result [OF b2] r1 2(5) by simp
    qed
    with o show ?thesis by simp
  qed
qed

lemma length_quoted_tail: "length (quoted_tail n arg) \<le> 2 * n + 2 * length arg + 1"
  by (induction n arg rule: quoted_tail.induct) auto

lemma append_quoted_total:
  assumes "wbuf_ok b" and "length (w_data b) + 2 * length arg + 3 \<le> 2 ^ 63"
  shows "ns_watchdog_wbuf_append_quoted b arg \<noteq> None"
  unfolding ns_watchdog_wbuf_append_quoted_def
proof (rule bind_total)
  show "ns_watchdog_wbuf_append_char b wquote \<noteq> None"
    using append_total(2) [of b] assms(2) by simp
  fix b1
  assume "ns_watchdog_wbuf_append_char b wquote = Some b1"
  from append_char_result [OF this assms(1)] show "quote_loop b1 0 arg \<noteq> None"
    using assms(2) by (intro quote_loop_total) simp_all
qed

lemma command_line_total:
  assumes "wbuf_ok b" and "length (w_data b) + sum_list (map (\<lambda>a. 2 * length a + 4) args) \<le> 2 ^ 63"
  shows "command_line_loop first b args \<noteq> None"
  using assms
proof (induction first b args rule: command_line_loop.induct)
  case (2 first b arg args)
  show ?case
    unfolding command_line_loop.simps
  proof (intro bind_total)
    show "(if first then Some b else ns_watchdog_wbuf_append_char b wblank) \<noteq> None"
      using append_total(2) [of b] 2(3) by simp
    fix b1
    assume b1: "(if first then Some b else ns_watchdog_wbuf_append_char b wblank) = Some b1"
    then have r1: "length (w_data b1) \<le> length (w_data b) + 1 \<and> wbuf_ok b1"
      using append_char_result [OF _ 2(2)] 2(2) by (cases first) auto
    show "ns_watchdog_wbuf_append_quoted b1 arg \<noteq> None"
      using r1 2(3) by (intro append_quoted_total) simp_all
    fix b2
    assume b2: "ns_watchdog_wbuf_append_quoted b1 arg = Some b2"
    have "length (w_data b2) \<le> length (w_data b) + 2 * length arg + 3 \<and> wbuf_ok b2"
      using append_quoted_result [OF b2] r1 length_quoted_tail [of 0 arg] by (simp add: quoted_def)
    then show "command_line_loop False b2 args \<noteq> None"
      using 2(3) by (intro 2(1) [OF b1 b2]) simp_all
  qed
qed simp

text \<open>The Windows command line of the child is built without overflowing its buffer, and read by the
  documented rules it gives back exactly the argument vector, whatever quotation marks, blanks and
  runs of backslashes the arguments contain.\<close>

theorem watchdog_command_line_roundtrip:
  assumes "argv \<noteq> []" and "sum_list (map (\<lambda>a. 2 * length a + 4) argv) \<le> 2 ^ 63"
  shows "\<exists>line. ns_watchdog_build_command_line argv = Some line \<and> win_args line = Some argv"
proof -
  have ok: "wbuf_ok \<lparr>w_data = [], w_cap = 0\<rparr>" by (simp add: wbuf_ok_def)
  then obtain b where b: "command_line_loop True \<lparr>w_data = [], w_cap = 0\<rparr> argv = Some b"
    using command_line_total [of "\<lparr>w_data = [], w_cap = 0\<rparr>" argv True] assms(2) by auto
  with command_line_result [OF b ok] win_args_joined [OF assms(1)] show ?thesis
    by (simp add: ns_watchdog_build_command_line_def)
qed

theorem watchdog_command_line_roundtrip_witness:
  "\<exists>line. ns_watchdog_build_command_line [[0x61, 0x20], [0x5C, 0x22, 0x5C]] = Some line \<and>
     win_args line = Some [[0x61, 0x20], [0x5C, 0x22, 0x5C]]"
  by (rule watchdog_command_line_roundtrip) simp_all

end
