(* ===== verification/NS_Datetime.thy ===== *)
theory NS_Datetime
  imports NS_Interfaces
begin

text \<open>
  The civil-date arithmetic and the date and time parsers of \<^verbatim>\<open>src/datetime.c\<close>.  A C \<^verbatim>\<open>int\<close> or
  \<^verbatim>\<open>long\<close> is an \<^typ>\<open>int\<close>: for years of at most \<^verbatim>\<open>NS_DT_MAX_YEAR\<close> no intermediate result leaves its
  type.  C division truncates towards zero, and a conversion to \<^verbatim>\<open>unsigned\<close> is reduction modulo
  2 to the 32.
\<close>

section \<open>C arithmetic\<close>

definition cdiv :: "int \<Rightarrow> int \<Rightarrow> int" where
  "cdiv a b = (if (a < 0) = (b < 0) then \<bar>a\<bar> div \<bar>b\<bar> else - (\<bar>a\<bar> div \<bar>b\<bar>))"

definition cmod :: "int \<Rightarrow> int \<Rightarrow> int" where
  "cmod a b = a - b * cdiv a b"

definition to_unsigned :: "int \<Rightarrow> int" where
  "to_unsigned x = x mod 2 ^ 32"

lemma cdiv_nonneg: "0 \<le> a \<Longrightarrow> 0 < b \<Longrightarrow> cdiv a b = a div b"
  by (simp add: cdiv_def)

lemma cmod_nonneg: "0 \<le> a \<Longrightarrow> 0 < b \<Longrightarrow> cmod a b = a mod b"
  by (simp add: cmod_def cdiv_nonneg minus_mult_div_eq_mod)

lemma to_unsigned_id: "0 \<le> x \<Longrightarrow> x < 4294967296 \<Longrightarrow> to_unsigned x = x"
  by (simp add: to_unsigned_def)

section \<open>Definitions\<close>

definition NS_DT_MAX_YEAR :: int where "NS_DT_MAX_YEAR = 275760"

definition ns_dt_floormod :: "int \<Rightarrow> int \<Rightarrow> int" where
  "ns_dt_floormod a b = (let r = cmod a b in if r \<noteq> 0 \<and> (r < 0) \<noteq> (b < 0) then r + b else r)"

definition ns_dt_days_from_civil :: "int \<Rightarrow> int \<Rightarrow> int \<Rightarrow> int" where
  "ns_dt_days_from_civil y m d =
     (let yy = y - (if m \<le> 2 then 1 else 0);
          era = cdiv (if yy \<ge> 0 then yy else yy - 399) 400;
          yoe = to_unsigned (yy - era * 400);
          doy = to_unsigned (cdiv (153 * (m + (if m > 2 then -3 else 9)) + 2) 5 + d - 1);
          doe = yoe * 365 + yoe div 4 - yoe div 100 + doy
      in era * 146097 + doe - 719468)"

definition ns_dt_civil_from_days :: "int \<Rightarrow> int \<times> int \<times> int" where
  "ns_dt_civil_from_days z0 =
     (let z = z0 + 719468;
          era = cdiv (if z \<ge> 0 then z else z - 146096) 146097;
          doe = to_unsigned (z - era * 146097);
          yoe = (doe - doe div 1460 + doe div 36524 - doe div 146096) div 365;
          yy = yoe + era * 400;
          doy = doe - (365 * yoe + yoe div 4 - yoe div 100);
          mp = (5 * doy + 2) div 153;
          dd = doy - (153 * mp + 2) div 5 + 1;
          mm = mp + (if mp < 10 then 3 else -9)
      in (yy + (if mm \<le> 2 then 1 else 0), mm, dd))"

definition leap_year :: "int \<Rightarrow> bool" where
  "leap_year y \<longleftrightarrow> cmod y 4 = 0 \<and> (cmod y 100 \<noteq> 0 \<or> cmod y 400 = 0)"

definition ns_dt_days_in_month :: "int \<Rightarrow> int \<Rightarrow> int" where
  "ns_dt_days_in_month y m =
     (if m < 1 \<or> m > 12 then 0
      else if m = 2 then (if leap_year y then 29 else 28)
      else [31, 28, 31, 30, 31, 30, 31, 31, 30, 31, 30, 31] ! nat (m - 1))"

definition ns_dt_iso_weeks_in_year :: "int \<Rightarrow> int" where
  "ns_dt_iso_weeks_in_year y =
     (let p = cmod (y + cdiv y 4 - cdiv y 100 + cdiv y 400) 7;
          py = y - 1;
          p1 = cmod (py + cdiv py 4 - cdiv py 100 + cdiv py 400) 7
      in if p = 4 \<or> p1 = 3 then 53 else 52)"

definition ns_dt_iso_week1_monday :: "int \<Rightarrow> int" where
  "ns_dt_iso_week1_monday y =
     (let jan4 = ns_dt_days_from_civil y 1 4 in jan4 - ns_dt_floormod (jan4 + 3) 7)"

text \<open>The digit reader: the value read and the rest of the string.\<close>

fun rd_digits_loop :: "string \<Rightarrow> nat \<Rightarrow> int \<Rightarrow> nat \<Rightarrow> int \<times> nat \<times> string" where
  "rd_digits_loop [] mx val cnt = (val, cnt, [])"
| "rd_digits_loop (c # p) mx val cnt =
     (if g_ascii_isdigit c \<and> cnt < mx then rd_digits_loop p mx (val * 10 + (int (ord c) - 48)) (cnt + 1)
      else (val, cnt, c # p))"

definition ns_dt_rd_digits :: "string \<Rightarrow> nat \<Rightarrow> nat \<Rightarrow> (int \<times> string) option" where
  "ns_dt_rd_digits p mn mx =
     (let (val, cnt, rest) = rd_digits_loop p mx 0 0 in if cnt < mn then None else Some (val, rest))"

text \<open>The next character must be the given one.\<close>

fun expect :: "char \<Rightarrow> string \<Rightarrow> string option" where
  "expect c [] = None"
| "expect c (x # p) = (if x = c then Some p else None)"

definition ns_dt_rd_date :: "string \<Rightarrow> (int \<times> int \<times> int \<times> string) option" where
  "ns_dt_rd_date p =
     Option.bind (ns_dt_rd_digits p 4 9) (\<lambda>(y, p).
     Option.bind (expect CHR ''-'' p) (\<lambda>p.
     Option.bind (ns_dt_rd_digits p 2 2) (\<lambda>(m, p).
     Option.bind (expect CHR ''-'' p) (\<lambda>p.
     Option.bind (ns_dt_rd_digits p 2 2) (\<lambda>(d, p).
       if y < 1 \<or> y > NS_DT_MAX_YEAR \<or> m < 1 \<or> m > 12 \<or> d < 1 \<or> d > ns_dt_days_in_month y m then None
       else Some (y, m, d, p))))))"

text \<open>The fraction after a dot: at most three digits count, the rest are skipped.\<close>

definition rd_fraction :: "string \<Rightarrow> (int \<times> string) option" where
  "rd_fraction p =
     (let (v, c, rest) = rd_digits_loop p 3 0 0
      in if c = 0 then None else Some (v * 10 ^ (3 - c), dropWhile g_ascii_isdigit rest))"

definition ns_dt_rd_time :: "string \<Rightarrow> (int \<times> string) option" where
  "ns_dt_rd_time p =
     Option.bind (ns_dt_rd_digits p 2 2) (\<lambda>(h, p).
     Option.bind (expect CHR '':'' p) (\<lambda>p.
     Option.bind (ns_dt_rd_digits p 2 2) (\<lambda>(mi, p).
     Option.bind
       (case expect CHR '':'' p of
          None \<Rightarrow> Some (0, 0, p)
        | Some p \<Rightarrow>
            Option.bind (ns_dt_rd_digits p 2 2) (\<lambda>(se, p).
              case expect CHR ''.'' p of
                None \<Rightarrow> Some (se, 0, p)
              | Some p \<Rightarrow> map_option (\<lambda>(frac, p). (se, frac, p)) (rd_fraction p)))
       (\<lambda>(se, frac, p).
          if h > 23 \<or> mi > 59 \<or> se > 59 then None
          else Some (((h * 60 + mi) * 60 + se) * 1000 + frac, p)))))"

section \<open>Closed forms\<close>

text \<open>The day count without eras.\<close>

definition shifted_year :: "int \<Rightarrow> int \<Rightarrow> int" where
  "shifted_year y m = (if m \<le> 2 then y - 1 else y)"

definition day_of_year :: "int \<Rightarrow> int \<Rightarrow> int" where
  "day_of_year m d = (153 * (if m > 2 then m - 3 else m + 9) + 2) div 5 + d - 1"

definition year_days :: "int \<Rightarrow> int" where
  "year_days y = 365 * y + y div 4 - y div 100 + y div 400"

lemma floor_era:
  fixes a n k :: int
  assumes that: "0 < n" and k: "k = n - 1"
  shows "cdiv (if a \<ge> 0 then a else a - k) n = a div n"
proof (cases "a \<ge> 0")
  case True
  with that show ?thesis by (simp add: cdiv_nonneg)
next
  case False
  then have "cdiv (a - (n - 1)) n = - ((n - 1 - a) div n)"
    using that by (simp add: cdiv_def)
  also have "(n - 1 - a) div n = - (a div n)"
  proof -
    have "(n - 1 - a) div n = (n - 1 - a mod n + n * (- (a div n))) div n"
      by (simp add: algebra_simps flip: minus_mult_div_eq_mod)
    also have "\<dots> = - (a div n) + (n - 1 - a mod n) div n"
      using that by (metis add.commute div_mult_self2 less_irrefl)
    also have "(n - 1 - a mod n) div n = 0"
      using that pos_mod_bound [OF that, of a] pos_mod_sign [OF that, of a] by (intro div_pos_pos_trivial) simp_all
    finally show ?thesis by simp
  qed
  finally show ?thesis using False by (simp add: k)
qed

lemma year_days_era: "year_days (400 * e + r) = 146097 * e + year_days r"
proof -
  have "(400 * e + r) div 4 = 100 * e + r div 4" "(400 * e + r) div 100 = 4 * e + r div 100"
    "(400 * e + r) div 400 = e + r div 400"
    using div_mult_self1 [of 4 r "100 * e"] div_mult_self1 [of 100 r "4 * e"] div_mult_self1 [of 400 r e]
    by (simp_all add: algebra_simps)
  then show ?thesis by (simp add: year_days_def)
qed

lemma days_closed:
  assumes "1 \<le> m" "m \<le> 12" "1 \<le> d" "d \<le> 31"
  shows "ns_dt_days_from_civil y m d = year_days (shifted_year y m) + day_of_year m d - 719468"
proof -
  let ?yy = "shifted_year y m"
  let ?e = "?yy div 400" let ?r = "?yy mod 400"
  have yy: "y - (if m \<le> 2 then 1 else 0) = ?yy" by (simp add: shifted_year_def)
  have era: "cdiv (if ?yy \<ge> 0 then ?yy else ?yy - 399) 400 = ?e"
    by (rule floor_era) simp_all
  have r: "?yy - ?e * 400 = ?r" by (simp add: minus_div_mult_eq_mod)
  have yoe: "to_unsigned ?r = ?r"
    using pos_mod_bound [of 400 ?yy] pos_mod_sign [of 400 ?yy] by (simp add: to_unsigned_def)
  have mp: "m + (if m > 2 then -3 else 9) = (if m > 2 then m - 3 else m + 9)" by simp
  have doy: "cdiv (153 * (m + (if m > 2 then -3 else 9)) + 2) 5 + d - 1 = day_of_year m d"
    using assms by (simp add: mp day_of_year_def cdiv_nonneg)
  have "0 \<le> day_of_year m d" "day_of_year m d < 4294967296"
    using assms by (auto simp: day_of_year_def)
  then have u: "to_unsigned (day_of_year m d) = day_of_year m d" by (rule to_unsigned_id)
  have r4: "?r div 400 = 0" by simp
  have "year_days ?yy = 146097 * ?e + year_days ?r"
    using year_days_era [of ?e ?r] by (simp only: mult_div_mod_eq)
  then have "year_days ?yy = ?e * 146097 + (?r * 365 + ?r div 4 - ?r div 100)"
    using r4 by (simp only: year_days_def)
  then show ?thesis
    unfolding ns_dt_days_from_civil_def Let_def yy era r yoe doy u by simp
qed

section \<open>The day count and its inverse\<close>

definition yoe_of :: "int \<Rightarrow> int" where
  "yoe_of doe = (doe - doe div 1460 + doe div 36524 - doe div 146096) div 365"

definition era_year_start :: "int \<Rightarrow> int" where
  "era_year_start y = 365 * y + y div 4 - y div 100"

lemma div_step_le:
  fixes x y n :: int
  assumes "x \<le> y" and "0 < n"
  shows "y div n - x div n \<le> y - x"
proof -
  have "(y - x) * 1 \<le> (y - x) * n" using assms by (intro mult_left_mono) simp_all
  then have "y \<le> x + (y - x) * n" by simp
  then have "y div n \<le> (x + (y - x) * n) div n" using assms(2) by (intro zdiv_mono1) simp_all
  also have "\<dots> = (y - x) + x div n" using assms(2) by simp
  finally show ?thesis by simp
qed

lemma yoe_of_mono:
  assumes "0 \<le> x" "x \<le> y" "y < 146096"
  shows "yoe_of x \<le> yoe_of y"
proof -
  have small: "x div 146096 = 0" "y div 146096 = 0"
    using assms by (simp_all only: div_pos_pos_trivial order.strict_trans1 order.trans)
  have "y div 1460 - x div 1460 \<le> y - x" by (rule div_step_le [OF assms(2)]) simp
  moreover have "x div 36524 \<le> y div 36524" by (rule zdiv_mono1 [OF assms(2)]) simp
  ultimately have "x - x div 1460 + x div 36524 - 0 \<le> y - y div 1460 + y div 36524 - 0" by linarith
  then show ?thesis unfolding yoe_of_def small by (rule zdiv_mono1) simp
qed

lemma yoe_of_ends_all: "list_all (\<lambda>y. yoe_of (era_year_start y) = y \<and> yoe_of (era_year_start (y + 1) - 1) = y) [0..399]"
  by code_simp

lemma yoe_of_ends:
  assumes "0 \<le> y" "y < 400"
  shows "yoe_of (era_year_start y) = y" "yoe_of (era_year_start (y + 1) - 1) = y"
  using yoe_of_ends_all assms by (simp_all add: list_all_iff)

lemma era_year_start_mono: "0 \<le> x \<Longrightarrow> x \<le> y \<Longrightarrow> era_year_start x \<le> era_year_start y"
proof -
  assume x: "0 \<le> x" "x \<le> y"
  have "x div 4 \<le> y div 4" using x by (intro zdiv_mono1) simp_all
  moreover have "y div 100 - x div 100 \<le> y - x" using div_step_le [OF x(2), of 100] by simp
  ultimately show ?thesis using x by (simp add: era_year_start_def)
qed

lemma yoe_of_inside:
  assumes "0 \<le> y" "y < 400" and "era_year_start y \<le> doe" and "doe < era_year_start (y + 1) \<or> y = 399 \<and> doe = 146096"
  shows "yoe_of doe = y"
proof (cases "doe < era_year_start (y + 1)")
  case True
  have "era_year_start (y + 1) \<le> era_year_start 400" using assms by (intro era_year_start_mono) simp_all
  then have lt: "era_year_start (y + 1) - 1 < 146096" by (simp add: era_year_start_def)
  have "0 \<le> era_year_start y" using era_year_start_mono [of 0 y] assms(1) by (simp add: era_year_start_def)
  then have "yoe_of (era_year_start y) \<le> yoe_of doe" "yoe_of doe \<le> yoe_of (era_year_start (y + 1) - 1)"
    using assms(3) True lt by (auto intro!: yoe_of_mono)
  then show ?thesis using yoe_of_ends [OF assms(1,2)] by simp
next
  case False
  with assms(4) show ?thesis by (simp add: yoe_of_def)
qed

text \<open>The month and the day from the day of the year, which starts on the first of March.\<close>

definition month_day :: "int \<Rightarrow> int \<times> int" where
  "month_day doy = (let mp = (5 * doy + 2) div 153
     in (mp + (if mp < 10 then 3 else -9), doy - (153 * mp + 2) div 5 + 1))"

definition month_length :: "int \<Rightarrow> int" where
  "month_length m = [31, 29, 31, 30, 31, 30, 31, 31, 30, 31, 30, 31] ! nat (m - 1)"

lemma month_day_all:
  "list_all (\<lambda>m. list_all (\<lambda>d. d \<le> month_length m \<longrightarrow> month_day (day_of_year m d) = (m, d) \<and>
     (day_of_year m d = 365 \<longleftrightarrow> m = 2 \<and> d = 29) \<and> 0 \<le> day_of_year m d \<and> day_of_year m d \<le> 365) [1..31]) [1..12]"
  by code_simp

lemma month_day_date:
  assumes "1 \<le> m" "m \<le> 12" "1 \<le> d" "d \<le> month_length m" "d \<le> 31"
  shows "month_day (day_of_year m d) = (m, d)" "day_of_year m d = 365 \<longleftrightarrow> m = 2 \<and> d = 29"
    "0 \<le> day_of_year m d" "day_of_year m d \<le> 365"
  using month_day_all assms by (auto simp: list_all_iff)

lemma month_day_doy_all:
  "list_all (\<lambda>doy. case month_day doy of (m, d) \<Rightarrow> 1 \<le> m \<and> m \<le> 12 \<and> 1 \<le> d \<and> d \<le> month_length m \<and> d \<le> 31 \<and>
     day_of_year m d = doy) [0..365]"
  by code_simp

lemma month_day_doy:
  "0 \<le> doy \<Longrightarrow> doy \<le> 365 \<Longrightarrow> month_day doy = (m, d) \<Longrightarrow>
     1 \<le> m \<and> m \<le> 12 \<and> 1 \<le> d \<and> d \<le> month_length m \<and> d \<le> 31 \<and> day_of_year m d = doy"
proof -
  assume "0 \<le> doy" "doy \<le> 365" "month_day doy = (m, d)"
  moreover from this have "case month_day doy of (m, d) \<Rightarrow> 1 \<le> m \<and> m \<le> 12 \<and> 1 \<le> d \<and> d \<le> month_length m \<and> d \<le> 31 \<and>
     day_of_year m d = doy"
    by (intro bspec [OF month_day_doy_all [unfolded list_all_iff set_upto]]) simp
  ultimately show ?thesis by simp
qed

text \<open>Valid dates, and the inverse in closed form.\<close>

definition valid_date :: "int \<Rightarrow> int \<Rightarrow> int \<Rightarrow> bool" where
  "valid_date y m d \<longleftrightarrow> 1 \<le> m \<and> m \<le> 12 \<and> 1 \<le> d \<and> d \<le> ns_dt_days_in_month y m"

lemma cmod_zero: "0 < n \<Longrightarrow> cmod y n = 0 \<longleftrightarrow> n dvd y"
proof -
  assume n: "0 < n"
  show ?thesis
  proof (cases "y < 0")
    case True
    then have "cmod y n = - (- y - n * (- y div n))" using n by (simp add: cmod_def cdiv_def)
    also have "\<dots> = - (- y mod n)" by (simp only: minus_mult_div_eq_mod)
    finally show ?thesis by (simp add: mod_eq_0_iff_dvd)
  next
    case False
    then show ?thesis using n by (simp add: cmod_nonneg mod_eq_0_iff_dvd)
  qed
qed

lemma leap_year_iff: "leap_year y \<longleftrightarrow> 4 dvd y \<and> (\<not> 100 dvd y \<or> 400 dvd y)"
  by (simp add: leap_year_def cmod_zero)

lemma months: "1 \<le> m \<Longrightarrow> m \<le> 12 \<Longrightarrow> m \<in> {1, 2, 3, 4, 5, 6, 7, 8, 9, 10, 11, 12 :: int}"
  by (simp, presburger)

lemma days_in_month_length:
  "1 \<le> m \<Longrightarrow> m \<le> 12 \<Longrightarrow> ns_dt_days_in_month y m = (if m = 2 \<and> \<not> leap_year y then 28 else month_length m)"
  by (drule months) (auto simp: ns_dt_days_in_month_def month_length_def)

lemma month_length_le: "1 \<le> m \<Longrightarrow> m \<le> 12 \<Longrightarrow> month_length m \<le> 31"
  by (drule months) (auto simp: month_length_def)

lemma valid_date_month_length:
  "valid_date y m d \<longleftrightarrow> 1 \<le> m \<and> m \<le> 12 \<and> 1 \<le> d \<and> d \<le> month_length m \<and> (m = 2 \<and> d = 29 \<longrightarrow> leap_year y)"
  using days_in_month_length [of m y] by (auto simp: valid_date_def month_length_def split: if_splits)

lemma civil_closed:
  "ns_dt_civil_from_days z =
    (let e = (z + 719468) div 146097; doe = (z + 719468) mod 146097; yoe = yoe_of doe;
         (m, d) = month_day (doe - era_year_start yoe); yy = yoe + e * 400
     in (yy + (if m \<le> 2 then 1 else 0), m, d))"
proof -
  let ?z = "z + 719468"
  have era: "cdiv (if ?z \<ge> 0 then ?z else ?z - 146096) 146097 = ?z div 146097"
    by (rule floor_era) simp_all
  have doe: "to_unsigned (?z - ?z div 146097 * 146097) = ?z mod 146097"
    using pos_mod_bound [of 146097 ?z] pos_mod_sign [of 146097 ?z]
    by (simp add: to_unsigned_def minus_div_mult_eq_mod)
  show ?thesis
    unfolding ns_dt_civil_from_days_def Let_def era doe
    by (simp add: yoe_of_def [symmetric] month_day_def era_year_start_def Let_def)
qed

lemma div_succ:
  fixes x n :: int
  assumes "1 < n"
  shows "(x + 1) div n = x div n + (if n dvd x + 1 then 1 else 0)"
proof -
  have "(x + 1) div n = x div n + (x mod n + 1) div n"
    using assms div_add1_eq [of x 1 n] by simp
  moreover have "(x mod n + 1) div n = (if n dvd x + 1 then 1 else 0)"
  proof (cases "x mod n + 1 = n")
    case True
    then have "(x + 1) mod n = 0" by (metis mod_add_left_eq mod_self)
    with True assms show ?thesis by (simp add: dvd_eq_mod_eq_0)
  next
    case False
    have "x mod n < n" "0 \<le> x mod n" using assms by simp_all
    with False have lt: "x mod n + 1 < n" and ge: "0 < x mod n + 1" by linarith+
    then have "(x + 1) mod n = x mod n + 1" by (metis mod_add_left_eq mod_pos_pos_trivial order_less_imp_le)
    then show ?thesis using lt ge by (simp add: dvd_eq_mod_eq_0 div_pos_pos_trivial)
  qed
  ultimately show ?thesis by simp
qed

lemma dvd_mult_int: "100 dvd x \<Longrightarrow> 4 dvd (x::int)" "400 dvd x \<Longrightarrow> 100 dvd (x::int)" "400 dvd x \<Longrightarrow> 4 dvd (x::int)"
  by (auto elim: dvd_trans [rotated])

lemma div_year_succ:
  "(y + 1) div 4 = y div 4 + (if 4 dvd y + 1 then 1 else 0)"
  "(y + 1) div 100 = y div 100 + (if 100 dvd y + 1 then 1 else 0)"
  "(y + 1) div 400 = y div 400 + (if 400 dvd y + 1 then 1 else 0)" for y :: int
  by (rule div_succ, simp)+

lemma year_days_succ: "year_days (y + 1) = year_days y + (if leap_year (y + 1) then 366 else 365)"
  unfolding year_days_def div_year_succ leap_year_iff
  using dvd_mult_int [of "y + 1"]
  by (cases "4 dvd y + 1"; cases "100 dvd y + 1"; cases "400 dvd y + 1") simp_all

lemma era_year_start_succ:
  "era_year_start (y + 1) = era_year_start y + (if 4 dvd y + 1 \<and> \<not> 100 dvd y + 1 then 366 else 365)"
  unfolding era_year_start_def div_year_succ
  using dvd_mult_int(1) [of "y + 1"]
  by (cases "4 dvd y + 1"; cases "100 dvd y + 1") simp_all

lemma leap_era: "leap_year (400 * e + r + 1) \<longleftrightarrow> 4 dvd r + 1 \<and> (\<not> 100 dvd r + 1 \<or> 400 dvd r + 1)"
proof -
  have "4 dvd 400 * e + (r + 1) \<longleftrightarrow> 4 dvd r + 1" "100 dvd 400 * e + (r + 1) \<longleftrightarrow> 100 dvd r + 1"
    "400 dvd 400 * e + (r + 1) \<longleftrightarrow> 400 dvd r + 1"
    by (rule dvd_add_right_iff, simp)+
  then show ?thesis by (simp add: leap_year_iff add.assoc)
qed

lemma era_year_exists: "0 \<le> doe \<Longrightarrow> doe < era_year_start (int n) \<Longrightarrow>
    \<exists>y. 0 \<le> y \<and> y < int n \<and> era_year_start y \<le> doe \<and> doe < era_year_start (y + 1)"
proof (induction n)
  case 0
  then show ?case by (simp add: era_year_start_def)
next
  case (Suc n)
  show ?case
  proof (cases "doe < era_year_start (int n)")
    case True
    with Suc.IH [OF Suc.prems(1)] show ?thesis by force
  next
    case False
    with Suc.prems show ?thesis by (intro exI [of _ "int n"]) (simp add: add.commute)
  qed
qed

lemma year_days_inside: "0 \<le> r \<Longrightarrow> r < 400 \<Longrightarrow> year_days (400 * e + r) = 146097 * e + era_year_start r"
  by (simp add: year_days_era) (simp add: year_days_def era_year_start_def)

lemma civil_of_days:
  assumes "valid_date y m d"
  shows "ns_dt_civil_from_days (ns_dt_days_from_civil y m d) = (y, m, d)"
proof -
  note v = assms [unfolded valid_date_month_length]
  have d31: "d \<le> 31" using v month_length_le [of m] by linarith
  note md = month_day_date [of m d]
  define yy where "yy = shifted_year y m"
  define e where "e = yy div 400"
  define r where "r = yy mod 400"
  define doe where "doe = era_year_start r + day_of_year m d"
  have yy: "yy = 400 * e + r" and r: "0 \<le> r" "r < 400"
    by (simp_all add: e_def r_def)
  have doy: "0 \<le> day_of_year m d" "day_of_year m d \<le> 365" "month_day (day_of_year m d) = (m, d)"
    and doy365: "day_of_year m d = 365 \<Longrightarrow> m = 2 \<and> d = 29"
    using md v d31 by simp_all
  have "ns_dt_days_from_civil y m d + 719468 = year_days yy + day_of_year m d"
    using days_closed [of m d y] v d31 by (simp add: yy_def)
  then have days: "ns_dt_days_from_civil y m d + 719468 = doe + 146097 * e"
    using year_days_inside [OF r, of e] yy by (simp add: doe_def)
  have upper: "doe < era_year_start (r + 1) \<or> r = 399 \<and> doe = 146096"
  proof (cases "day_of_year m d = 365")
    case True
    then have "m = 2" "leap_year y" using doy365 v by auto
    then have "y = 400 * e + r + 1" using yy by (simp add: yy_def shifted_year_def)
    with \<open>leap_year y\<close> have "4 dvd r + 1" "\<not> 100 dvd r + 1 \<or> 400 dvd r + 1" by (simp_all add: leap_era)
    moreover have "400 dvd r + 1 \<Longrightarrow> r = 399" using r zdvd_imp_le [of 400 "r + 1"] by simp
    ultimately show ?thesis
      using True by (auto simp: doe_def era_year_start_succ) (simp add: era_year_start_def)
  next
    case False
    then show ?thesis using doy by (simp add: doe_def era_year_start_succ)
  qed
  have yoe: "yoe_of doe = r" using upper doy by (intro yoe_of_inside r) (simp_all add: doe_def)
  have "era_year_start (r + 1) \<le> era_year_start 400" using r by (intro era_year_start_mono) simp_all
  then have "doe < 146097" using upper by (auto simp: era_year_start_def)
  moreover have "0 \<le> doe" using doy era_year_start_mono [of 0 r] r by (simp add: doe_def era_year_start_def)
  ultimately have "(doe + 146097 * e) div 146097 = e" "(doe + 146097 * e) mod 146097 = doe"
    by simp_all
  moreover have "yy + (if m \<le> 2 then 1 else 0) = y" by (simp add: yy_def shifted_year_def)
  ultimately show ?thesis
    unfolding civil_closed days Let_def using yoe doy yy by (simp add: doe_def mult.commute add.commute)
qed

lemma days_of_civil:
  assumes "ns_dt_civil_from_days z = (y, m, d)"
  shows "valid_date y m d \<and> ns_dt_days_from_civil y m d = z"
proof -
  define e where "e = (z + 719468) div 146097"
  define doe where "doe = (z + 719468) mod 146097"
  have z: "z + 719468 = 146097 * e + doe" and doe: "0 \<le> doe" "doe < 146097"
    by (simp_all add: e_def doe_def)
  obtain r where r: "0 \<le> r" "r < 400" "era_year_start r \<le> doe" "doe < era_year_start (r + 1) \<or> r = 399 \<and> doe = 146096"
  proof (cases "doe = 146096")
    case True
    then show thesis by (intro that [of 399]) (simp_all add: era_year_start_def)
  next
    case False
    then have "doe < era_year_start (int 400)" using doe by (simp add: era_year_start_def)
    from era_year_exists [OF doe(1) this] obtain r where "0 \<le> r" "r < int 400" "era_year_start r \<le> doe"
      "doe < era_year_start (r + 1)" by blast
    then show thesis by (intro that disjI1) simp_all
  qed
  have yoe: "yoe_of doe = r" using r by (intro yoe_of_inside)
  define doy where "doy = doe - era_year_start r"
  have doy: "0 \<le> doy" "doy \<le> 365" using r by (auto simp: doy_def era_year_start_succ era_year_start_def split: if_splits)
  have leap: "leap_year (400 * e + r + 1)" if "doy = 365"
  proof (cases "r = 399")
    case True
    then show ?thesis unfolding leap_era by simp
  next
    case False
    with r(4) that show ?thesis by (auto simp: leap_era doy_def era_year_start_succ split: if_splits)
  qed
  obtain m' d' where md: "month_day doy = (m', d')" by fastforce
  have res: "m = m'" "d = d'" "y = r + e * 400 + (if m \<le> 2 then 1 else 0)"
    using assms md yoe by (auto simp: civil_closed Let_def doy_def e_def doe_def split: prod.splits)
  have dm: "1 \<le> m \<and> m \<le> 12 \<and> 1 \<le> d \<and> d \<le> month_length m \<and> d \<le> 31 \<and> day_of_year m d = doy"
    using month_day_doy [OF doy md] res by simp
  have sh: "shifted_year y m = 400 * e + r" using res(3) by (simp add: shifted_year_def)
  have "leap_year y" if "m = 2 \<and> d = 29"
    using month_day_date(2) [of m d] dm that leap res(3) by (simp add: algebra_simps)
  then have "valid_date y m d" using dm by (simp add: valid_date_month_length)
  moreover have "ns_dt_days_from_civil y m d = z"
    using days_closed [of m d y] dm sh year_days_inside [OF r(1,2), of e] z by (simp add: doy_def)
  ultimately show ?thesis by simp
qed

text \<open>Dates and day numbers are codes of each other.\<close>

definition days_of_date :: "int \<times> int \<times> int \<Rightarrow> int" where
  "days_of_date = (\<lambda>(y, m, d). ns_dt_days_from_civil y m d)"

interpretation civil: codec days_of_date "\<lambda>z. Some (ns_dt_civil_from_days z)" "\<lambda>(y, m, d). valid_date y m d"
  by unfold_locales (auto simp: days_of_date_def civil_of_days)



text \<open>The day number counts days: it is zero on the first of January 1970, and the next day of the
  calendar, across ends of months and years and with the leap rule of the Gregorian calendar, has
  the next number.\<close>

definition next_day :: "int \<times> int \<times> int \<Rightarrow> int \<times> int \<times> int" where
  "next_day = (\<lambda>(y, m, d). if d < ns_dt_days_in_month y m then (y, m, d + 1)
     else if m < 12 then (y, m + 1, 1) else (y + 1, 1, 1))"

theorem datetime_counts_days:
  assumes "valid_date y m d"
  shows "days_of_date (next_day (y, m, d)) = days_of_date (y, m, d) + 1 \<and> days_of_date (1970, 1, 1) = 0"
proof -
  have m: "m \<in> {1, 2, 3, 4, 5, 6, 7, 8, 9, 10, 11, 12}" and d: "1 \<le> d" "d \<le> ns_dt_days_in_month y m"
    using assms months by (auto simp: valid_date_def)
  have d31: "d \<le> 31" using assms month_length_le [of m] by (auto simp: valid_date_month_length)
  have leap: "year_days y = year_days (y - 1) + (if leap_year y then 366 else 365)"
    using year_days_succ [of "y - 1"] by simp
  have "days_of_date (next_day (y, m, d)) = days_of_date (y, m, d) + 1"
  proof (cases "d < ns_dt_days_in_month y m")
    case True
    then have "d + 1 \<le> 31" using m by (auto simp: ns_dt_days_in_month_def split: if_splits)
    with True show ?thesis
      using d d31 m days_closed [of m d y] days_closed [of m "d + 1" y]
      by (auto simp: next_day_def days_of_date_def day_of_year_def)
  next
    case False
    with d have end_of_month: "d = ns_dt_days_in_month y m" by simp
    show ?thesis
      using m end_of_month d31 d(1) leap days_closed [of m d y] days_closed [of "m + 1" 1 y] days_closed [of 1 1 "y + 1"]
      by (elim insertE emptyE)
        (simp_all add: next_day_def days_of_date_def ns_dt_days_in_month_def shifted_year_def day_of_year_def split: if_splits)
  qed
  moreover have "days_of_date (1970, 1, 1) = 0" by code_simp
  ultimately show ?thesis ..
qed

theorem datetime_counts_days_witness:
  "days_of_date (2000, 3, 1) = days_of_date (2000, 2, 29) + 1 \<and> days_of_date (1970, 1, 1) = 0"
proof -
  have "valid_date 2000 2 29" "next_day (2000, 2, 29) = (2000, 3, 1)" by code_simp+
  then show ?thesis using datetime_counts_days [of 2000 2 29] by simp
qed

section \<open>ISO weeks\<close>

lemma floormod_eq: "0 < b \<Longrightarrow> ns_dt_floormod a b = a mod b"
proof -
  assume b: "0 < b"
  show ?thesis
  proof (cases "0 \<le> a")
    case True
    then show ?thesis using b pos_mod_sign [OF b, of a] by (simp add: ns_dt_floormod_def cmod_nonneg Let_def not_less)
  next
    case False
    then have "cmod a b = - (- a - b * (- a div b))" using b by (simp add: cmod_def cdiv_def)
    then have c: "cmod a b = - (- a mod b)" by (simp only: minus_mult_div_eq_mod)
    have "0 \<le> - a mod b" using b by simp
    moreover have "a mod b = (if - a mod b = 0 then 0 else b - (- a mod b))"
      using zmod_zminus1_eq_if [of "- a" b] by simp
    moreover define t where "t = - a mod b"
    ultimately have "cmod a b = - t" "a mod b = (if t = 0 then 0 else b - t)" "0 \<le> t" using c by simp_all
    then show ?thesis using b by (auto simp: ns_dt_floormod_def Let_def)
  qed
qed

definition dec31_weekday :: "int \<Rightarrow> int" where
  "dec31_weekday y = y + y div 4 - y div 100 + y div 400"

lemma week1_closed:
  "ns_dt_iso_week1_monday y = 364 * (y - 1) + dec31_weekday (y - 1) - 719159 - (dec31_weekday (y - 1) + 3) mod 7"
proof -
  let ?A = "dec31_weekday (y - 1)"
  have n: "ns_dt_days_from_civil y 1 4 = 364 * (y - 1) + ?A - 719159"
    using days_closed [of 1 4 y] by (simp add: shifted_year_def day_of_year_def year_days_def dec31_weekday_def)
  have "(364 * (y - 1) + ?A - 719159 + 3) mod 7 = (?A + 3 + 7 * (52 * (y - 1) - 102737)) mod 7"
    by (simp add: algebra_simps)
  then have "(364 * (y - 1) + ?A - 719159 + 3) mod 7 = (?A + 3) mod 7" by (simp only: mod_mult_self2)
  then show ?thesis by (simp add: ns_dt_iso_week1_monday_def n floormod_eq Let_def)
qed

lemma dec31_succ: "dec31_weekday y = dec31_weekday (y - 1) + (if leap_year y then 2 else 1)"
  using year_days_succ [of "y - 1"] by (simp add: year_days_def dec31_weekday_def split: if_splits)

lemma weeks_arith:
  fixes A :: int
  assumes "l = 1 \<or> l = 2"
  shows "364 + l - (A + l + 3) mod 7 + (A + 3) mod 7 = 7 * (if (A + l) mod 7 = 4 \<or> A mod 7 = 3 then 53 else 52)"
proof -
  define q where "q = A div 7"
  define r where "r = A mod 7"
  have A: "A = r + 7 * q" by (simp add: q_def r_def)
  have m: "(r + 7 * q + c) mod 7 = (r + c) mod 7" for c :: int
    by (metis add.assoc add.commute mod_mult_self2)
  have "0 \<le> r" "r < 7" by (simp_all add: r_def)
  then have "r = 0 \<or> r = 1 \<or> r = 2 \<or> r = 3 \<or> r = 4 \<or> r = 5 \<or> r = 6" by arith
  then show ?thesis
    unfolding A add.assoc [of "r + 7 * q" l 3] m mod_mult_self2
    using assms by (elim disjE) simp_all
qed

text \<open>The number of ISO weeks of a year, which the code computes from two weekdays, is the number of
  weeks between the Monday of its first week and that of the next year; and that Monday is a Monday,
  in the week that contains the fourth of January.\<close>

theorem datetime_iso_weeks:
  assumes "1 \<le> y"
  shows "7 * ns_dt_iso_weeks_in_year y = ns_dt_iso_week1_monday (y + 1) - ns_dt_iso_week1_monday y \<and>
    (ns_dt_iso_week1_monday y + 3) mod 7 = 0 \<and>
    ns_dt_iso_week1_monday y \<le> ns_dt_days_from_civil y 1 4 \<and>
    ns_dt_days_from_civil y 1 4 < ns_dt_iso_week1_monday y + 7"
proof -
  let ?A = "dec31_weekday (y - 1)"
  define l where "l = (if leap_year y then 2 else 1 :: int)"
  have l: "l = 1 \<or> l = 2" by (simp add: l_def)
  have B: "dec31_weekday y = ?A + l" using dec31_succ [of y] by (simp add: l_def)
  have nonneg: "0 \<le> dec31_weekday x" if "0 \<le> x" for x
    using that div_step_le [of 0 x 100] by (simp add: dec31_weekday_def)
  have p: "cmod (x + cdiv x 4 - cdiv x 100 + cdiv x 400) 7 = dec31_weekday x mod 7" if "0 \<le> x" for x
    using that nonneg [OF that] by (simp add: cdiv_nonneg cmod_nonneg dec31_weekday_def)
  have "ns_dt_iso_weeks_in_year y = (if (?A + l) mod 7 = 4 \<or> ?A mod 7 = 3 then 53 else 52)"
    using assms p [of y] p [of "y - 1"] by (simp add: ns_dt_iso_weeks_in_year_def Let_def B)
  moreover have "ns_dt_iso_week1_monday (y + 1) - ns_dt_iso_week1_monday y =
      364 + l - (?A + l + 3) mod 7 + (?A + 3) mod 7"
    using week1_closed [of "y + 1"] week1_closed [of y] B by (simp add: algebra_simps)
  moreover have "ns_dt_iso_week1_monday y = ns_dt_days_from_civil y 1 4 - (ns_dt_days_from_civil y 1 4 + 3) mod 7"
    by (simp add: ns_dt_iso_week1_monday_def floormod_eq Let_def)
  moreover have "(N - (N + 3) mod 7 + 3) mod 7 = 0" "0 \<le> (N + 3) mod 7" "(N + 3) mod 7 < 7" for N :: int
    by presburger+
  ultimately show ?thesis using weeks_arith [OF l, of ?A] by simp
qed

theorem datetime_iso_weeks_witness:
  "7 * ns_dt_iso_weeks_in_year 2026 = ns_dt_iso_week1_monday 2027 - ns_dt_iso_week1_monday 2026 \<and>
   ns_dt_iso_weeks_in_year 2026 = 53"
proof
  show "7 * ns_dt_iso_weeks_in_year 2026 = ns_dt_iso_week1_monday 2027 - ns_dt_iso_week1_monday 2026"
    using datetime_iso_weeks [of 2026] by simp
qed code_simp

section \<open>The parsers\<close>

fun padded :: "nat \<Rightarrow> nat \<Rightarrow> string" where
  "padded 0 n = []"
| "padded (Suc k) n = padded k (n div 10) @ [char_of (48 + n mod 10)]"

lemma digit_char: "g_ascii_isdigit (char_of (48 + n mod 10))" "ord (char_of (48 + n mod 10)) = 48 + n mod (10::nat)"
proof -
  have "n mod 10 < 10" by simp
  then have "48 + n mod 10 < 256" by linarith
  then show o: "ord (char_of (48 + n mod 10)) = 48 + n mod (10::nat)" by simp
  with \<open>n mod 10 < 10\<close> show "g_ascii_isdigit (char_of (48 + n mod 10))"
    unfolding g_ascii_isdigit_def by linarith
qed

lemma rd_digits_padded:
  "cnt + k \<le> mx \<Longrightarrow> n < 10 ^ k \<Longrightarrow>
    rd_digits_loop (padded k n @ rest) mx val cnt = rd_digits_loop rest mx (val * 10 ^ k + int n) (cnt + k)"
proof (induction k arbitrary: n rest)
  case (Suc k)
  let ?c = "char_of (48 + n mod 10)" let ?v = "val * 10 ^ k + int (n div 10)"
  have small: "n div 10 < 10 ^ k" using Suc.prems(2) by (simp add: less_mult_imp_div_less mult.commute)
  have "rd_digits_loop (padded (Suc k) n @ rest) mx val cnt = rd_digits_loop (padded k (n div 10) @ ?c # rest) mx val cnt"
    by simp
  also have "\<dots> = rd_digits_loop (?c # rest) mx ?v (cnt + k)"
    using Suc.prems(1) small by (intro Suc.IH) simp_all
  also have "\<dots> = rd_digits_loop rest mx (?v * 10 + int (n mod 10)) (cnt + Suc k)"
    using Suc.prems(1) by (simp only: rd_digits_loop.simps digit_char) simp
  finally have loop: "rd_digits_loop (padded (Suc k) n @ rest) mx val cnt =
      rd_digits_loop rest mx (?v * 10 + int (n mod 10)) (cnt + Suc k)" .
  have "int n = int (n div 10) * 10 + int (n mod 10)"
    by (metis div_mult_mod_eq of_nat_add of_nat_mult of_nat_numeral)
  then have val: "?v * 10 + int (n mod 10) = val * 10 ^ Suc k + int n" by simp
  show ?case using loop unfolding val .
qed simp

definition no_digit :: "string \<Rightarrow> bool" where
  "no_digit s \<longleftrightarrow> s = [] \<or> \<not> g_ascii_isdigit (hd s)"

lemma rd_digits_stop: "no_digit rest \<or> mx \<le> cnt \<Longrightarrow> rd_digits_loop rest mx val cnt = (val, cnt, rest)"
  by (cases rest) (auto simp: no_digit_def)

lemma rd_digits_exact:
  "mn \<le> k \<Longrightarrow> k \<le> mx \<Longrightarrow> n < 10 ^ k \<Longrightarrow> no_digit rest \<or> k = mx \<Longrightarrow>
     ns_dt_rd_digits (padded k n @ rest) mn mx = Some (int n, rest)"
  using rd_digits_padded [of 0 k mx n rest 0] rd_digits_stop [of rest mx k "int n"]
  by (auto simp: ns_dt_rd_digits_def)

lemma rd_digits_loop_bounds:
  "rd_digits_loop p mx val cnt = (v, c, r) \<Longrightarrow> 0 \<le> val \<Longrightarrow> val < 10 ^ cnt \<Longrightarrow> cnt \<le> mx \<Longrightarrow>
     0 \<le> v \<and> v < 10 ^ c \<and> c \<le> mx"
proof (induction p mx val cnt rule: rd_digits_loop.induct)
  case (2 x p mx val cnt)
  show ?case
  proof (cases "g_ascii_isdigit x \<and> cnt < mx")
    case True
    then have "0 \<le> val * 10 + (int (ord x) - 48)" "val * 10 + (int (ord x) - 48) < 10 ^ (cnt + 1)"
      using 2(3,4) by (auto simp: g_ascii_isdigit_def)
    with 2 True show ?thesis by simp
  next
    case False
    with 2(2-) show ?thesis by simp
  qed
qed auto

lemma rd_digits_bounds:
  assumes "ns_dt_rd_digits p mn mx = Some (v, r)"
  shows "0 \<le> v \<and> v < 10 ^ mx"
proof -
  obtain c where c: "rd_digits_loop p mx 0 0 = (v, c, r)"
    using assms by (auto simp: ns_dt_rd_digits_def split: prod.splits if_splits)
  then have "0 \<le> v \<and> v < 10 ^ c \<and> c \<le> mx" by (rule rd_digits_loop_bounds) simp_all
  moreover from this have "(10::int) ^ c \<le> 10 ^ mx" by (intro power_increasing) simp_all
  ultimately show ?thesis by linarith
qed

text \<open>The parser of \<^verbatim>\<open>yyyy-mm-dd\<close> accepts a valid date and nothing else.\<close>

lemma rd_date_sound:
  "ns_dt_rd_date p = Some (y, m, d, rest) \<Longrightarrow> valid_date y m d \<and> 1 \<le> y \<and> y \<le> NS_DT_MAX_YEAR"
  by (auto simp: ns_dt_rd_date_def valid_date_def bind_eq_Some_conv split: if_splits)

lemma rd_time_range:
  assumes "ns_dt_rd_time p = Some (ms, rest)"
  shows "0 \<le> ms \<and> ms < 86400000"
proof -
  obtain h p1 p2 mi p3 se frac p4 where h: "ns_dt_rd_digits p 2 2 = Some (h, p1)" "expect CHR '':'' p1 = Some p2"
    and mi: "ns_dt_rd_digits p2 2 2 = Some (mi, p3)"
    and tail: "(case expect CHR '':'' p3 of
          None \<Rightarrow> Some (0, 0, p3)
        | Some p \<Rightarrow>
            Option.bind (ns_dt_rd_digits p 2 2) (\<lambda>(se, p).
              case expect CHR ''.'' p of
                None \<Rightarrow> Some (se, 0, p)
              | Some p \<Rightarrow> map_option (\<lambda>(frac, p). (se, frac, p)) (rd_fraction p))) = Some (se, frac, p4)"
    and fin: "\<not> (h > 23 \<or> mi > 59 \<or> se > 59)" "ms = ((h * 60 + mi) * 60 + se) * 1000 + frac"
    using assms by (auto simp: ns_dt_rd_time_def bind_eq_Some_conv split: if_splits)
  have fraction: "0 \<le> f \<and> f < 1000" if "rd_fraction q = Some (f, r)" for q f r
  proof -
    obtain v c r' where l: "rd_digits_loop q 3 0 0 = (v, c, r')" by (metis prod_cases3)
    have b: "0 \<le> v \<and> v < 10 ^ c \<and> c \<le> 3" using rd_digits_loop_bounds [OF l] by simp
    have f: "f = v * 10 ^ (3 - c)" using that l by (auto simp: rd_fraction_def split: if_splits)
    have "v * 10 ^ (3 - c) < 10 ^ c * 10 ^ (3 - c)" using b by (intro mult_strict_right_mono) simp_all
    also have "\<dots> = (1000 :: int)" using b by (simp flip: power_add)
    finally show ?thesis using f b by simp
  qed
  have "0 \<le> se \<and> 0 \<le> frac \<and> frac < 1000"
    using tail fraction rd_digits_bounds by (fastforce simp: bind_eq_Some_conv split: option.splits)
  moreover have "0 \<le> h" "0 \<le> mi" using rd_digits_bounds h(1) mi by blast+
  ultimately show ?thesis using fin by auto
qed

text \<open>Printing and reading a date: every valid date of a year of four digits, printed as
  \<^verbatim>\<open>yyyy-mm-dd\<close>, is read back, with the rest of the input left over; and whatever is read is a valid
  date of a supported year, and a time of day is below a day.\<close>

theorem datetime_parse_roundtrip:
  assumes "valid_date (int y) (int m) (int d)" and "1 \<le> y" "y < 10000"
  shows "ns_dt_rd_date (padded 4 y @ ''-'' @ padded 2 m @ ''-'' @ padded 2 d @ rest) = Some (int y, int m, int d, rest) \<and>
    (\<forall>p y' m' d' r. ns_dt_rd_date p = Some (y', m', d', r) \<longrightarrow> valid_date y' m' d' \<and> y' \<in> {1..275760}) \<and>
    (\<forall>p ms r. ns_dt_rd_time p = Some (ms, r) \<longrightarrow> ms \<in> {0..<86400000})"
proof -
  have d31: "int d \<le> 31" using assms(1) month_length_le [of "int m"] by (auto simp: valid_date_month_length)
  have small: "y < 10 ^ 4" "m < 10 ^ 2" "d < 10 ^ 2"
    using assms d31 by (auto simp: valid_date_def)
  have y: "ns_dt_rd_digits (padded 4 y @ ''-'' @ r) 4 9 = Some (int y, ''-'' @ r)" for r
    by (rule rd_digits_exact) (use small in \<open>simp_all add: no_digit_def g_ascii_isdigit_def\<close>)
  have m: "ns_dt_rd_digits (padded 2 n @ r) 2 2 = Some (int n, r)" if "n < 10 ^ 2" for n r
    by (rule rd_digits_exact) (use that in simp_all)
  have "ns_dt_rd_date (padded 4 y @ ''-'' @ padded 2 m @ ''-'' @ padded 2 d @ rest) = Some (int y, int m, int d, rest)"
    using assms y [of "padded 2 m @ ''-'' @ padded 2 d @ rest"] m [OF small(2)] m [OF small(3)]
    by (simp add: ns_dt_rd_date_def valid_date_def NS_DT_MAX_YEAR_def del: padded.simps)
  then show ?thesis
    using rd_date_sound rd_time_range by (auto simp: NS_DT_MAX_YEAR_def)
qed

theorem datetime_parse_roundtrip_witness:
  "ns_dt_rd_date ''2024-02-29T10:00'' = Some (2024, 2, 29, ''T10:00'') \<and> ns_dt_rd_date ''2023-02-29'' = None"
proof
  have "valid_date (int 2024) (int 2) (int 29)" by code_simp
  moreover have "padded 4 2024 = ''2024''" "padded 2 2 = ''02''" "padded 2 29 = ''29''" by code_simp+
  ultimately show "ns_dt_rd_date ''2024-02-29T10:00'' = Some (2024, 2, 29, ''T10:00'')"
    using datetime_parse_roundtrip [of 2024 2 29 "''T10:00''"] by simp
qed code_simp

end
