(* ===== verification/NS_Bookmarks.thy ===== *)
theory NS_Bookmarks
  imports NS_Interfaces
begin

text \<open>
  The bookmark store of \<^verbatim>\<open>src/bookmarks.c\<close>: the list in memory, its file format, and the
  operations, each of which that changes the list writes the file.  Whether a write succeeds is
  an argument of the operation.
\<close>

section \<open>State and file format\<close>

record ns_bookmark =
  b_url :: string
  b_title :: string

text \<open>\<^verbatim>\<open>bm_file\<close> is the content of the file at the store's path, if there is one.\<close>

record ns_bookmarks =
  bm_items :: "ns_bookmark list"
  bm_file :: "string option"

definition sanitize_char :: "char \<Rightarrow> char" where
  "sanitize_char c = (if c = CHR 0x09 \<or> c = CHR 0x0A \<or> c = CHR 0x0D then CHR '' '' else c)"

definition bookmark_append_sanitized :: "string \<Rightarrow> string \<Rightarrow> string" where
  "bookmark_append_sanitized out s = out @ map sanitize_char s"

fun save_loop :: "string \<Rightarrow> ns_bookmark list \<Rightarrow> string" where
  "save_loop out [] = out"
| "save_loop out (b # bs) =
     (let out = bookmark_append_sanitized out (b_url b); out = out @ [CHR 0x09];
          out = bookmark_append_sanitized out (b_title b)
      in save_loop (out @ [CHR 0x0A]) bs)"

definition ns_bookmarks_save :: "bool \<Rightarrow> ns_bookmarks \<Rightarrow> ns_bookmarks" where
  "ns_bookmarks_save written bm = (if written then bm\<lparr>bm_file := Some (save_loop [] (bm_items bm))\<rparr> else bm)"

text \<open>One line of the file.\<close>

definition load_line :: "string \<Rightarrow> ns_bookmark option" where
  "load_line raw =
     (let line = g_strstrip raw in
      if line = [] \<or> hd line = CHR ''#'' then None
      else case strchr line CHR 0x09 of
        Some tab \<Rightarrow> Some \<lparr>b_url = take (length line - length tab) line, b_title = tl tab\<rparr>
      | None \<Rightarrow> Some \<lparr>b_url = line, b_title = line\<rparr>)"

definition load_items :: "string \<Rightarrow> ns_bookmark list" where
  "load_items contents = List.map_filter load_line (g_strsplit_set (cstring contents) [CHR 0x0A])"

definition ns_bookmarks_load :: "string option \<Rightarrow> ns_bookmarks" where
  "ns_bookmarks_load file =
     \<lparr>bm_items = (case file of Some contents \<Rightarrow> load_items contents | None \<Rightarrow> []), bm_file = file\<rparr>"

section \<open>Operations\<close>

definition ns_bookmarks_count :: "ns_bookmarks option \<Rightarrow> nat" where
  "ns_bookmarks_count bm = (case bm of Some b \<Rightarrow> length (bm_items b) | None \<Rightarrow> 0)"

definition ns_bookmarks_get :: "ns_bookmarks option \<Rightarrow> nat \<Rightarrow> ns_bookmark option" where
  "ns_bookmarks_get bm i =
     (case bm of None \<Rightarrow> None | Some b \<Rightarrow> if i \<ge> length (bm_items b) then None else Some (bm_items b ! i))"

definition ns_bookmarks_contains :: "ns_bookmarks \<Rightarrow> string option \<Rightarrow> bool" where
  "ns_bookmarks_contains bm url = (case url of None \<Rightarrow> False | Some u \<Rightarrow> list_ex (\<lambda>b. b_url b = u) (bm_items bm))"

definition ns_bookmarks_add :: "bool \<Rightarrow> ns_bookmarks \<Rightarrow> string option \<Rightarrow> string option \<Rightarrow> ns_bookmarks" where
  "ns_bookmarks_add written bm url title =
     (case url of
        None \<Rightarrow> bm
      | Some u \<Rightarrow>
          if ns_bookmarks_contains bm url then bm
          else ns_bookmarks_save written
            (bm\<lparr>bm_items := bm_items bm @ [\<lparr>b_url = u, b_title = (case title of Some t \<Rightarrow> t | None \<Rightarrow> u)\<rparr>]\<rparr>))"

fun remove_first :: "string \<Rightarrow> ns_bookmark list \<Rightarrow> ns_bookmark list option" where
  "remove_first u [] = None"
| "remove_first u (b # bs) = (if b_url b = u then Some bs else map_option (Cons b) (remove_first u bs))"

definition ns_bookmarks_remove :: "bool \<Rightarrow> ns_bookmarks \<Rightarrow> string option \<Rightarrow> ns_bookmarks" where
  "ns_bookmarks_remove written bm url =
     (case url of
        None \<Rightarrow> bm
      | Some u \<Rightarrow>
          (case remove_first u (bm_items bm) of
             None \<Rightarrow> bm
           | Some items \<Rightarrow> ns_bookmarks_save written (bm\<lparr>bm_items := items\<rparr>)))"

section \<open>The file keeps what was saved\<close>

definition plain_char :: "char \<Rightarrow> bool" where
  "plain_char c \<longleftrightarrow> c \<noteq> CHR 0x09 \<and> c \<noteq> CHR 0x0A \<and> c \<noteq> CHR 0x0D \<and> c \<noteq> CHR 0x00"

text \<open>A bookmark the format can hold: a URL that is not empty, does not look like a comment and does
  not start with white space, and a title that is not empty and does not end in white space.\<close>

definition storable :: "ns_bookmark \<Rightarrow> bool" where
  "storable b \<longleftrightarrow> list_all plain_char (b_url b) \<and> list_all plain_char (b_title b) \<and>
     b_url b \<noteq> [] \<and> hd (b_url b) \<noteq> CHR ''#'' \<and> \<not> g_ascii_isspace (hd (b_url b)) \<and>
     b_title b \<noteq> [] \<and> \<not> g_ascii_isspace (last (b_title b))"

definition bookmark_line :: "ns_bookmark \<Rightarrow> string" where
  "bookmark_line b = b_url b @ [CHR 0x09] @ b_title b"

lemma sanitize_plain: "list_all plain_char s \<Longrightarrow> map sanitize_char s = s"
  by (induction s) (auto simp: plain_char_def sanitize_char_def)

lemma save_lines:
  "list_all storable bs \<Longrightarrow> save_loop out bs = out @ concat (map (\<lambda>l. l @ [CHR 0x0A]) (map bookmark_line bs))"
  by (induction bs arbitrary: out)
    (simp_all add: storable_def bookmark_append_sanitized_def sanitize_plain bookmark_line_def Let_def)

lemma plain_not_in: "list_all plain_char s \<Longrightarrow> CHR 0x09 \<notin> set s \<and> CHR 0x0A \<notin> set s \<and> CHR 0x00 \<notin> set s"
  by (auto simp: list_all_iff plain_char_def)

lemma load_saved_line:
  assumes "storable b"
  shows "load_line (bookmark_line b) = Some b"
proof -
  have u: "b_url b \<noteq> []" "hd (b_url b) \<noteq> CHR ''#''" "\<not> g_ascii_isspace (hd (b_url b))" "b_title b \<noteq> []"
    "\<not> g_ascii_isspace (last (b_title b))" and tab: "CHR 0x09 \<notin> set (b_url b)"
    using assms plain_not_in by (auto simp: storable_def)
  have "g_strstrip (bookmark_line b) = bookmark_line b"
    by (rule strstrip_id) (use u in \<open>simp add: bookmark_line_def\<close>)
  moreover have "strchr (bookmark_line b) CHR 0x09 = Some (CHR 0x09 # b_title b)"
    using strchr_append [OF tab, of "b_title b"] by (simp add: bookmark_line_def)
  ultimately show ?thesis
    using u by (simp add: load_line_def Let_def bookmark_line_def)
qed

lemma load_empty_line: "load_line [] = None"
  by (simp add: load_line_def g_strstrip_def g_strchug_def g_strchomp_def)

lemma load_saved:
  assumes "list_all storable bs"
  shows "load_items (save_loop [] bs) = bs"
proof -
  let ?c = "concat (map (\<lambda>l. l @ [CHR 0x0A]) (map bookmark_line bs))"
  have lines: "list_all (\<lambda>l. CHR 0x0A \<notin> set l) (map bookmark_line bs)" and "list_all (\<lambda>c. c \<noteq> CHR 0x00) ?c"
    using assms plain_not_in by (fastforce simp: list_all_iff storable_def bookmark_line_def)+
  then have "cstring ?c = ?c" by (intro cstring_id)
  moreover have "List.map_filter load_line (map bookmark_line bs) = bs"
    using assms by (induction bs) (simp_all add: List.map_filter_simps load_saved_line)
  moreover have "List.map_filter load_line (g_strsplit_set ?c [CHR 0x0A]) = List.map_filter load_line (map bookmark_line bs)"
    if "bs \<noteq> []"
  proof -
    have "?c \<noteq> []" using that by (cases bs) simp_all
    then show ?thesis
      using split_lines [OF lines] by (simp add: g_strsplit_set_def List.map_filter_def load_empty_line)
  qed
  ultimately have "load_items ?c = bs"
    by (cases "bs = []") (simp_all add: load_items_def g_strsplit_set_def List.map_filter_simps)
  then show ?thesis
    using save_lines [OF assms, of "[]"] by simp
qed

interpretation bookmark_file: codec "save_loop []" "\<lambda>c. Some (load_items c)" "list_all storable"
  by unfold_locales (simp add: load_saved)



section \<open>The store is a set of URLs\<close>

definition unique_urls :: "ns_bookmarks \<Rightarrow> bool" where
  "unique_urls bm \<longleftrightarrow> distinct (map b_url (bm_items bm))"

lemma items_save [simp]: "bm_items (ns_bookmarks_save written bm) = bm_items bm"
  by (simp add: ns_bookmarks_save_def)

lemma remove_first_filter:
  "distinct (map b_url bs) \<Longrightarrow>
     remove_first u bs = (if u \<in> b_url ` set bs then Some (filter (\<lambda>b. b_url b \<noteq> u) bs) else None)"
proof (induction bs)
  case (Cons b bs)
  have "b_url b \<notin> b_url ` set bs \<Longrightarrow> filter (\<lambda>x. b_url x \<noteq> b_url b) bs = bs"
    by (rule filter_True) (metis image_eqI)
  with Cons show ?case by auto
qed simp

lemma contains_iff: "ns_bookmarks_contains bm (Some u) \<longleftrightarrow> u \<in> b_url ` set (bm_items bm)"
  by (auto simp: ns_bookmarks_contains_def list_ex_iff)

datatype bookmark_event = Add_bookmark "string option" "string option" bool | Remove_bookmark "string option" bool

fun bookmark_step :: "ns_bookmarks \<Rightarrow> bookmark_event \<Rightarrow> ns_bookmarks" where
  "bookmark_step bm (Add_bookmark url title written) = ns_bookmarks_add written bm url title"
| "bookmark_step bm (Remove_bookmark url written) = ns_bookmarks_remove written bm url"

interpretation bookmark_store: invariant_system bookmark_step unique_urls
proof
  fix bm ev
  assume u: "unique_urls bm"
  show "unique_urls (bookmark_step bm ev)"
  proof (cases ev)
    case (Add_bookmark url title written)
    then show ?thesis
      using u by (cases url) (auto simp: ns_bookmarks_add_def unique_urls_def contains_iff)
  next
    case (Remove_bookmark url written)
    then show ?thesis
      using u by (cases url) (auto simp: ns_bookmarks_remove_def unique_urls_def remove_first_filter distinct_map_filter)
  qed
qed

text \<open>From a store without duplicates, whatever is added and removed and whether or not the file
  can be written, no URL is bookmarked twice; adding makes a URL present and removing makes it
  absent, without changing any other bookmark or the order.\<close>

theorem bookmarks_set_of_urls:
  assumes "unique_urls start"
  shows "let bm = foldl bookmark_step start evs in
     unique_urls bm \<and>
     ns_bookmarks_contains (ns_bookmarks_add w bm (Some u) t) (Some u) \<and>
     \<not> ns_bookmarks_contains (ns_bookmarks_remove w bm (Some u)) (Some u) \<and>
     (\<exists>new. bm_items (ns_bookmarks_add w bm (Some u) t) = bm_items bm @ new) \<and>
     bm_items (ns_bookmarks_remove w bm (Some u)) = filter (\<lambda>b. b_url b \<noteq> u) (bm_items bm)"
proof -
  let ?bm = "foldl bookmark_step start evs"
  have u: "unique_urls ?bm" by (rule bookmark_store.inv_run [OF assms])
  have add: "ns_bookmarks_contains (ns_bookmarks_add w ?bm (Some u) t) (Some u)"
    by (simp add: ns_bookmarks_add_def contains_iff)
  have app: "\<exists>new. bm_items (ns_bookmarks_add w ?bm (Some u) t) = bm_items ?bm @ new"
    by (simp add: ns_bookmarks_add_def)
  have rem: "bm_items (ns_bookmarks_remove w ?bm (Some u)) = filter (\<lambda>b. b_url b \<noteq> u) (bm_items ?bm)"
  proof (cases "u \<in> b_url ` set (bm_items ?bm)")
    case True
    with u show ?thesis by (simp add: ns_bookmarks_remove_def remove_first_filter unique_urls_def)
  next
    case False
    then have "filter (\<lambda>b. b_url b \<noteq> u) (bm_items ?bm) = bm_items ?bm" by (intro filter_True) auto
    with u False show ?thesis by (simp add: ns_bookmarks_remove_def remove_first_filter unique_urls_def)
  qed
  then have "\<not> ns_bookmarks_contains (ns_bookmarks_remove w ?bm (Some u)) (Some u)"
    by (auto simp: contains_iff)
  with u add app rem show ?thesis by (simp add: Let_def)
qed

theorem bookmarks_set_of_urls_witness:
  "let bm = foldl bookmark_step (ns_bookmarks_load None) [Add_bookmark (Some ''a:'') None True, Add_bookmark (Some ''b:'') None False] in
     unique_urls bm \<and>
     ns_bookmarks_contains (ns_bookmarks_add True bm (Some ''c:'') None) (Some ''c:'') \<and>
     \<not> ns_bookmarks_contains (ns_bookmarks_remove True bm (Some ''c:'')) (Some ''c:'') \<and>
     (\<exists>new. bm_items (ns_bookmarks_add True bm (Some ''c:'') None) = bm_items bm @ new) \<and>
     bm_items (ns_bookmarks_remove True bm (Some ''c:'')) = filter (\<lambda>b. b_url b \<noteq> ''c:'') (bm_items bm)"
  by (rule bookmarks_set_of_urls) (simp add: unique_urls_def ns_bookmarks_load_def)

end
