(* ===== verification/NS_Safebrowsing.thy ===== *)
theory NS_Safebrowsing
  imports NS_Prelude
begin

text \<open>
  The local blocklist of \<^verbatim>\<open>src/safebrowsing.c\<close> and the string catalogue of \<^verbatim>\<open>src/i18n.c\<close>: two
  tables read from text files found in a list of places.  The digest (OpenSSL's SHA-256), the
  file system and GLib's path joining are parameters; the warning page's text is not modelled.
\<close>

section \<open>The blocklist\<close>

type_synonym digest_fun = "string \<Rightarrow> string option"

definition hex_digit :: "nat \<Rightarrow> char" where
  "hex_digit n = (if n < 10 then char_of (48 + n) else char_of (87 + n))"

definition hex_of :: "string \<Rightarrow> string" where
  "hex_of bytes = concat (map (\<lambda>b. [hex_digit (ord b div 16), hex_digit (ord b mod 16)]) bytes)"

definition host_sha256_hex :: "digest_fun \<Rightarrow> string \<Rightarrow> string option" where
  "host_sha256_hex sha256 host = (if host = [] then None else map_option hex_of (sha256 (g_ascii_strdown host)))"

record safebrowsing =
  g_blocked :: "string set"
  g_allow :: "string set"
  g_loaded :: bool

definition list_entry :: "string \<Rightarrow> string option" where
  "list_entry raw =
     (let line = g_strstrip raw in
      if line = [] \<or> hd line = CHR ''#'' then None
      else (let line = takeWhile (\<lambda>c. \<not> g_ascii_isspace c) line
            in if length line \<ge> 16 then Some (g_ascii_strdown line) else None))"

type_synonym file_system = "string \<Rightarrow> string option"

definition load_file :: "file_system \<Rightarrow> string \<Rightarrow> safebrowsing \<Rightarrow> safebrowsing" where
  "load_file fs path st =
     (case fs path of
        None \<Rightarrow> st
      | Some contents \<Rightarrow>
          st\<lparr>g_blocked := g_blocked st \<union> set (List.map_filter list_entry (g_strsplit_set (cstring contents) [CHR 0x0A]))\<rparr>)"

definition rel_paths :: "string list" where
  "rel_paths =
     [''../Resources/share/northstar/safebrowsing.list'', ''../share/northstar/safebrowsing.list'',
      ''share/northstar/safebrowsing.list'', ''data/safebrowsing.list'', ''../data/safebrowsing.list'',
      ''../../data/safebrowsing.list'', ''../../../data/safebrowsing.list'']"

text \<open>\<^verbatim>\<open>mkpath\<close> is \<^verbatim>\<open>g_build_filename\<close>; a file exists if the file system has a content for it.\<close>

definition load_bundled :: "(string list \<Rightarrow> string) \<Rightarrow> file_system \<Rightarrow> string option \<Rightarrow> safebrowsing \<Rightarrow> safebrowsing \<times> bool" where
  "load_bundled mkpath fs dir st =
     (case (case dir of None \<Rightarrow> None
            | Some d \<Rightarrow> List.find (\<lambda>p. fs p \<noteq> None) (map (\<lambda>r. mkpath [d, r]) rel_paths)) of
        Some path \<Rightarrow> (load_file fs path st, True)
      | None \<Rightarrow>
          if fs ''data/safebrowsing.list'' \<noteq> None then (load_file fs ''data/safebrowsing.list'' st, True)
          else (st, False))"

record sb_env =
  sb_override :: "string option"
  sb_config_dir :: string
  sb_exe_dir :: "string option"
  sb_files :: file_system
  sb_mkpath :: "string list \<Rightarrow> string"

definition ensure_loaded :: "sb_env \<Rightarrow> safebrowsing \<Rightarrow> safebrowsing" where
  "ensure_loaded env st =
     (if g_loaded st then st
      else let st = \<lparr>g_blocked = {}, g_allow = {}, g_loaded = True\<rparr> in
        case sb_override env of
          Some (c # path) \<Rightarrow> load_file (sb_files env) (c # path) st
        | _ \<Rightarrow>
            fst (load_bundled (sb_mkpath env) (sb_files env) (sb_exe_dir env)
              (load_file (sb_files env) (sb_mkpath env [sb_config_dir env, ''northstar'', ''safebrowsing.list'']) st)))"

definition ns_safebrowsing_allow_host :: "sb_env \<Rightarrow> string \<Rightarrow> safebrowsing \<Rightarrow> safebrowsing" where
  "ns_safebrowsing_allow_host env host st =
     (if host = [] then st
      else let st = ensure_loaded env st in st\<lparr>g_allow := insert (g_ascii_strdown host) (g_allow st)\<rparr>)"

text \<open>The loop over the host and the domains above it, while they contain a dot.\<close>

function suffix_hit :: "digest_fun \<Rightarrow> string set \<Rightarrow> string \<Rightarrow> bool" where
  "suffix_hit sha256 blocked h =
     (case strchr h CHR ''.'' of
        None \<Rightarrow> False
      | Some dot \<Rightarrow>
          (case host_sha256_hex sha256 h of Some hex \<Rightarrow> hex \<in> blocked | None \<Rightarrow> False) \<or>
          suffix_hit sha256 blocked (tl dot))"
  by pat_completeness auto
termination
proof (relation "measure (\<lambda>(_, _, h). length h)")
  fix sha256 :: digest_fun and blocked h dot
  assume "strchr h CHR ''.'' = Some dot"
  then show "((sha256, blocked, tl dot), sha256, blocked, h) \<in> measure (\<lambda>(_, _, h). length h)"
    by (auto dest!: strchr_Some)
qed simp

declare suffix_hit.simps [simp del]

definition ns_safebrowsing_blocked :: "digest_fun \<Rightarrow> sb_env \<Rightarrow> string \<Rightarrow> safebrowsing \<Rightarrow> safebrowsing \<times> bool" where
  "ns_safebrowsing_blocked sha256 env host st0 =
     (if host = [] then (st0, False)
      else let st = ensure_loaded env st0 in
        if g_blocked st = {} then (st, False)
        else let low = strip_dots (g_ascii_strdown host) in
          if low \<in> g_allow st then (st, False) else (st, suffix_hit sha256 (g_blocked st) low))"

section \<open>What is blocked\<close>

text \<open>The host itself and the domains above it that have a dot.\<close>

definition domain_of :: "string \<Rightarrow> string \<Rightarrow> bool" where
  "domain_of s h \<longleftrightarrow> CHR ''.'' \<in> set s \<and> (s = h \<or> (\<exists>p. h = p @ ''.'' @ s))"

definition listed :: "digest_fun \<Rightarrow> string set \<Rightarrow> string \<Rightarrow> bool" where
  "listed sha256 blocked s \<longleftrightarrow> (\<exists>hex. host_sha256_hex sha256 s = Some hex \<and> hex \<in> blocked)"

lemma domain_of_step:
  assumes "strchr h CHR ''.'' = Some dot"
  shows "domain_of s h \<longleftrightarrow> s = h \<or> domain_of s (tl dot)"
proof -
  obtain p u where h: "h = p @ CHR ''.'' # u" "CHR ''.'' \<notin> set p" "dot = CHR ''.'' # u"
    using strchr_Some [OF assms] by blast
  have "(\<exists>q. h = q @ ''.'' @ s) \<longleftrightarrow> s = u \<or> (\<exists>q. u = q @ ''.'' @ s)" if "CHR ''.'' \<in> set s"
  proof
    assume "\<exists>q. h = q @ ''.'' @ s"
    then obtain q where "p @ CHR ''.'' # u = q @ CHR ''.'' # s" using h(1) by auto
    then obtain us where "p = q @ us \<and> us @ CHR ''.'' # u = CHR ''.'' # s \<or> p @ us = q \<and> CHR ''.'' # u = us @ CHR ''.'' # s"
      using append_eq_append_conv2 [of p "CHR ''.'' # u" q "CHR ''.'' # s"] by blast
    then show "s = u \<or> (\<exists>q. u = q @ ''.'' @ s)"
    proof
      assume "p = q @ us \<and> us @ CHR ''.'' # u = CHR ''.'' # s"
      with h(2) show ?thesis by (cases us) simp_all
    next
      assume "p @ us = q \<and> CHR ''.'' # u = us @ CHR ''.'' # s"
      then show ?thesis by (cases us) simp_all
    qed
  next
    assume "s = u \<or> (\<exists>q. u = q @ ''.'' @ s)"
    then show "\<exists>q. h = q @ ''.'' @ s"
    proof
      assume "s = u"
      then show ?thesis using h(1) by (intro exI [of _ p]) simp
    next
      assume "\<exists>q. u = q @ ''.'' @ s"
      then obtain q where "u = q @ ''.'' @ s" ..
      then show ?thesis using h(1) by (intro exI [of _ "p @ ''.'' @ q"]) simp
    qed
  qed
  moreover have "CHR ''.'' \<in> set h" using h(1) by simp
  ultimately show ?thesis unfolding domain_of_def h(3) list.sel by blast
qed

lemma suffix_hit_iff: "suffix_hit sha256 blocked h \<longleftrightarrow> (\<exists>s. domain_of s h \<and> listed sha256 blocked s)"
proof (induction sha256 blocked h rule: suffix_hit.induct)
  case (1 sha256 blocked h)
  show ?case
  proof (cases "strchr h CHR ''.''")
    case None
    then have "CHR ''.'' \<notin> set h" by (simp add: strchr_None_iff)
    then show ?thesis using None by (subst suffix_hit.simps) (auto simp: domain_of_def)
  next
    case (Some dot)
    have "suffix_hit sha256 blocked h \<longleftrightarrow> listed sha256 blocked h \<or> suffix_hit sha256 blocked (tl dot)"
      using Some by (subst suffix_hit.simps) (auto simp: listed_def split: option.splits)
    then show ?thesis
      unfolding 1 [OF Some] domain_of_step [OF Some] by blast
  qed
qed


definition sample_list :: safebrowsing where
  "sample_list = \<lparr>g_blocked = {hex_of ''evil.com''}, g_allow = {}, g_loaded = True\<rparr>"


lemma strdown_last_dot: "s \<noteq> [] \<Longrightarrow> last (g_ascii_strdown s) = CHR ''.'' \<longleftrightarrow> last s = CHR ''.''"
  by (simp add: g_ascii_strdown_def last_map tolower_eq_nonalpha)

text \<open>Allowing a host unblocks it only if its name does not end in a dot.  A host written with a
  trailing dot stays blocked after the user chose to continue, because the name is stored as given
  but looked up without trailing dots.\<close>

theorem safebrowsing_allow_trailing_dot:
  assumes "g_loaded st" and "h \<noteq> []" and "last h \<noteq> CHR ''.''"
  shows "\<not> snd (ns_safebrowsing_blocked sha256 env h (ns_safebrowsing_allow_host env h st)) \<and>
    snd (ns_safebrowsing_blocked sha256 env (h @ ''.'') (ns_safebrowsing_allow_host env (h @ ''.'') st)) =
      snd (ns_safebrowsing_blocked sha256 env (h @ ''.'') st)"
proof -
  have low: "strip_dots (g_ascii_strdown h) = g_ascii_strdown h"
    using assms(2,3) strdown_last_dot by (intro strip_dots_id) auto
  have dot: "g_ascii_strdown ''.'' = ''.''"
    by (simp add: g_ascii_strdown_def g_ascii_tolower_def g_ascii_isupper_def)
  have "g_ascii_strdown h \<noteq> g_ascii_strdown h @ ''.''" by simp
  then show ?thesis
    using assms(1,2) low
    by (simp add: ns_safebrowsing_blocked_def ns_safebrowsing_allow_host_def ensure_loaded_def dot strip_dots_snoc Let_def)
qed

theorem safebrowsing_allow_trailing_dot_witness:
  "\<not> snd (ns_safebrowsing_blocked Some undefined ''evil.com'' (ns_safebrowsing_allow_host undefined ''evil.com'' sample_list)) \<and>
   snd (ns_safebrowsing_blocked Some undefined (''evil.com'' @ ''.'') (ns_safebrowsing_allow_host undefined (''evil.com'' @ ''.'') sample_list)) =
     snd (ns_safebrowsing_blocked Some undefined (''evil.com'' @ ''.'') sample_list) \<and>
   snd (ns_safebrowsing_blocked Some undefined (''evil.com'' @ ''.'') sample_list)"
proof -
  have "snd (ns_safebrowsing_blocked Some undefined (''evil.com'' @ ''.'') sample_list)"
    by (simp add: ns_safebrowsing_blocked_def ensure_loaded_def sample_list_def Let_def strip_dots_def suffix_hit.simps
        host_sha256_hex_def g_ascii_strdown_def g_ascii_tolower_def g_ascii_isupper_def)
  moreover have "g_loaded sample_list" by (simp add: sample_list_def)
  ultimately show ?thesis
    using safebrowsing_allow_trailing_dot [of sample_list "''evil.com''" Some undefined] by simp
qed

section \<open>The string catalogue\<close>

record i18n =
  g_catalogue :: "(string \<rightharpoonup> string) option"
  g_language :: "string option"

definition catalogue_path_in :: "(string list \<Rightarrow> string) \<Rightarrow> file_system \<Rightarrow> string \<Rightarrow> string \<Rightarrow> string option" where
  "catalogue_path_in mkpath fs dir lang =
     (let path = mkpath [dir, lang @ ''.lang''] in if fs path \<noteq> None then Some path else None)"

definition i18n_rel :: "string list" where
  "i18n_rel = [''../Resources/share/northstar/i18n'', ''../share/northstar/i18n'', ''share/northstar/i18n'',
     ''data/i18n'', ''../data/i18n'', ''../../data/i18n'', ''../../../data/i18n'', ''../../../../data/i18n'']"

fun first_path :: "(string \<Rightarrow> string option) \<Rightarrow> string list \<Rightarrow> string option" where
  "first_path f [] = None"
| "first_path f (d # ds) = (case f d of Some p \<Rightarrow> Some p | None \<Rightarrow> first_path f ds)"

text \<open>\<^verbatim>\<open>dirname\<close> is \<^verbatim>\<open>g_path_get_dirname\<close>.\<close>

definition find_catalogue ::
  "(string list \<Rightarrow> string) \<Rightarrow> (string \<Rightarrow> string) \<Rightarrow> file_system \<Rightarrow> string option \<Rightarrow> string option \<Rightarrow> string \<Rightarrow> string option" where
  "find_catalogue mkpath dirname fs env self_exe lang =
     (case env of
        Some (c # dir) \<Rightarrow> catalogue_path_in mkpath fs (c # dir) lang
      | _ \<Rightarrow>
          (case (case self_exe of None \<Rightarrow> None
                 | Some exe \<Rightarrow> first_path (\<lambda>d. catalogue_path_in mkpath fs d lang) (map (\<lambda>r. mkpath [dirname exe, r]) i18n_rel)) of
             Some path \<Rightarrow> Some path
           | None \<Rightarrow> catalogue_path_in mkpath fs ''data/i18n'' lang))"

text \<open>One line of a catalogue: the entry it adds.\<close>

definition catalogue_entry :: "string \<Rightarrow> (string \<times> string) option" where
  "catalogue_entry line =
     (if line = [] \<or> hd line = CHR ''#'' then None
      else case strchr line CHR ''='' of
        None \<Rightarrow> None
      | Some eq \<Rightarrow>
          if length eq = length line then None
          else (let val = g_strchomp (tl eq)
                in if val \<noteq> [] then Some (take (length line - length eq) line, val) else None))"

fun catalogue_fill :: "(string \<rightharpoonup> string) \<Rightarrow> string list \<Rightarrow> (string \<rightharpoonup> string)" where
  "catalogue_fill table [] = table"
| "catalogue_fill table (line # lines) =
     catalogue_fill (case catalogue_entry line of Some (k, v) \<Rightarrow> table(k \<mapsto> v) | None \<Rightarrow> table) lines"

definition catalogue_load :: "file_system \<Rightarrow> string \<Rightarrow> (string \<rightharpoonup> string) option" where
  "catalogue_load fs path =
     Option.bind (fs path) (\<lambda>contents.
       let lines = g_strsplit_set (cstring contents) [CHR 0x0A]
       in if list_all (\<lambda>l. catalogue_entry l = None) lines then None
          else Some (catalogue_fill Map.empty lines))"

fun i18n_init_loop :: "(string \<Rightarrow> string option) \<Rightarrow> (string \<Rightarrow> (string \<rightharpoonup> string) option) \<Rightarrow> string list \<Rightarrow> i18n \<Rightarrow> i18n" where
  "i18n_init_loop finder loader [] st = st"
| "i18n_init_loop finder loader (n # names) st =
     (if n = ''C'' \<or> n = ''POSIX'' then i18n_init_loop finder loader names st
      else if CHR ''.'' \<in> set n \<or> CHR ''@'' \<in> set n then i18n_init_loop finder loader names st
      else case Option.bind (finder n) loader of
        Some table \<Rightarrow> st\<lparr>g_catalogue := Some table, g_language := Some n\<rparr>
      | None \<Rightarrow> i18n_init_loop finder loader names st)"

definition ns_i18n_init ::
  "(string list \<Rightarrow> string) \<Rightarrow> (string \<Rightarrow> string) \<Rightarrow> file_system \<Rightarrow> string option \<Rightarrow> string list \<Rightarrow> string option \<Rightarrow> i18n \<Rightarrow> i18n" where
  "ns_i18n_init mkpath dirname fs env names self_exe st =
     (if g_catalogue st \<noteq> None then st
      else i18n_init_loop (find_catalogue mkpath dirname fs env self_exe) (catalogue_load fs) names st)"

definition ns_i18n :: "i18n \<Rightarrow> string \<Rightarrow> string" where
  "ns_i18n st text =
     (case g_catalogue st of None \<Rightarrow> text | Some table \<Rightarrow> (case table text of Some hit \<Rightarrow> hit | None \<Rightarrow> text))"

lemma fill_lookup:
  "catalogue_fill table lines k =
    (case List.find (\<lambda>e. fst e = k) (rev (List.map_filter catalogue_entry lines)) of Some (_, v) \<Rightarrow> Some v | None \<Rightarrow> table k)"
proof (induction table lines rule: catalogue_fill.induct)
  case (2 table line lines)
  then show ?case
    by (cases "List.find (\<lambda>e. fst e = k) (rev (List.map_filter catalogue_entry lines))")
      (auto simp: List.map_filter_simps find_append split: option.splits prod.splits)
qed (simp add: List.map_filter_simps)

lemma entry_value: "catalogue_entry line = Some (k, v) \<Longrightarrow> v \<noteq> [] \<and> k \<noteq> []"
  by (auto simp: catalogue_entry_def Let_def dest!: strchr_Some split: if_splits option.splits)

lemma init_loop_table:
  "i18n_init_loop finder loader names st = st \<or>
   (\<exists>n \<in> set names. \<exists>path table. finder n = Some path \<and> loader path = Some table \<and> n \<noteq> ''C'' \<and> n \<noteq> ''POSIX'' \<and>
      i18n_init_loop finder loader names st = st\<lparr>g_catalogue := Some table, g_language := Some n\<rparr>)"
  by (induction names) (auto split: option.splits bind_splits simp: bind_eq_Some_conv)

text \<open>Translating a text gives the value of the last line of the chosen catalogue that defines it and
  the text itself if there is none; a translation is never empty.\<close>

theorem i18n_last_definition:
  assumes "ns_i18n_init mkpath dirname fs env names self_exe \<lparr>g_catalogue = None, g_language = None\<rparr> = st"
  shows "((g_catalogue st = None \<and> ns_i18n st text = text) \<or>
    (\<exists>path contents. fs path = Some contents \<and> ns_i18n st text =
       (case List.find (\<lambda>e. fst e = text) (rev (List.map_filter catalogue_entry (g_strsplit_set (cstring contents) [CHR 0x0A]))) of
          Some (_, v) \<Rightarrow> v | None \<Rightarrow> text))) \<and> (text \<noteq> [] \<longrightarrow> ns_i18n st text \<noteq> [])"
proof (cases "g_catalogue st")
  case None
  then show ?thesis by (simp add: ns_i18n_def)
next
  case (Some table)
  with assms init_loop_table [of "find_catalogue mkpath dirname fs env self_exe" "catalogue_load fs" names "\<lparr>g_catalogue = None, g_language = None\<rparr>"]
  obtain path where "catalogue_load fs path = Some table"
    by (auto simp: ns_i18n_init_def)
  then obtain contents where c: "fs path = Some contents"
    "table = catalogue_fill Map.empty (g_strsplit_set (cstring contents) [CHR 0x0A])"
    by (auto simp: catalogue_load_def bind_eq_Some_conv Let_def split: if_splits)
  let ?es = "rev (List.map_filter catalogue_entry (g_strsplit_set (cstring contents) [CHR 0x0A]))"
  have look: "ns_i18n st text = (case List.find (\<lambda>e. fst e = text) ?es of Some (_, v) \<Rightarrow> v | None \<Rightarrow> text)"
    using Some c(2) by (simp add: ns_i18n_def fill_lookup split: option.splits)
  have "v \<noteq> []" if "List.find (\<lambda>e. fst e = text) ?es = Some (k, v)" for k v
  proof -
    have "(k, v) \<in> set (List.map_filter catalogue_entry (g_strsplit_set (cstring contents) [CHR 0x0A]))"
      using that by (metis find_Some_iff nth_mem set_rev)
    then obtain line where "catalogue_entry line = Some (k, v)" by (auto simp: List.map_filter_def)
    then show ?thesis by (simp add: entry_value)
  qed
  then have "text \<noteq> [] \<longrightarrow> ns_i18n st text \<noteq> []"
    unfolding look by (auto split: option.splits)
  with c(1) look show ?thesis by blast
qed

definition sample_files :: file_system where
  "sample_files = (\<lambda>p. if p = ''data/i18n/de.lang'' then Some (''# comment'' @ [CHR 0x0A] @ ''Open=Oeffnen'' @ [CHR 0x0A] @ ''Open=Auf'') else None)"

definition sample_path :: "string list \<Rightarrow> string" where
  "sample_path ps = (case ps of [d, f] \<Rightarrow> d @ ''/'' @ f | _ \<Rightarrow> concat ps)"

definition sample_i18n :: i18n where
  "sample_i18n = ns_i18n_init sample_path id sample_files None [''C'', ''de_DE.UTF-8'', ''de''] None \<lparr>g_catalogue = None, g_language = None\<rparr>"

theorem i18n_last_definition_witness:
  "ns_i18n sample_i18n ''Open'' \<noteq> [] \<and> ns_i18n sample_i18n ''Open'' = ''Auf'' \<and> ns_i18n sample_i18n ''Close'' = ''Close''"
proof -
  have "ns_i18n sample_i18n ''Open'' \<noteq> []"
    using i18n_last_definition [OF sample_i18n_def [symmetric], of "''Open''"] by blast
  moreover have "ns_i18n sample_i18n ''Open'' = ''Auf''" "ns_i18n sample_i18n ''Close'' = ''Close''" by code_simp+
  ultimately show ?thesis by simp
qed

end
