(* ===== verification/NS_Net.thy ===== *)
theory NS_Net
  imports NS_Url NS_Interfaces
begin

text \<open>
  Request policy of \<^verbatim>\<open>src/net.c\<close>: stripping tracking parameters, the upgrades to HTTPS (the HSTS
  list and HTTPS first), the \<^verbatim>\<open>Refresh\<close> parser, the \<^verbatim>\<open>nosniff\<close> header, the memory of dead hosts
  and the connection slots of an origin.  Files and clocks are arguments; the configuration is
  the argument that the function reads from it.
\<close>

section \<open>Tracking parameters\<close>

definition tracking_names :: "string list" where
  "tracking_names =
     [''gclid'', ''dclid'', ''gbraid'', ''wbraid'',
      ''fbclid'', ''msclkid'', ''yclid'', ''twclid'', ''igshid'',
      ''mc_cid'', ''mc_eid'',
      ''_hsenc'', ''_hsmi'', ''__hssc'', ''__hstc'', ''__hsfp'', ''hsctatracking'',
      ''vero_id'', ''vero_conv'',
      ''oly_anon_id'', ''oly_enc_id'',
      ''_openstat'', ''wickedid'', ''rb_clickid'', ''s_cid'',
      ''ml_subscriber'', ''ml_subscriber_hash'',
      ''mtm_source'', ''mtm_medium'', ''mtm_campaign'', ''mtm_keyword'',
      ''mtm_cid'', ''mtm_content'', ''mtm_group'', ''mtm_placement'',
      ''pk_source'', ''pk_medium'', ''pk_campaign'', ''pk_keyword'',
      ''pk_cid'', ''pk_content'']"

definition ns_query_param_is_tracking :: "string \<Rightarrow> bool" where
  "ns_query_param_is_tracking key =
     (if key = [] then False
      else if length key \<ge> 4 \<and> strncaseeq 4 key ''utm_'' then True
      else list_ex (\<lambda>e. length e = length key \<and> strncaseeq (length key) key e) tracking_names)"

text \<open>The key of a \<^verbatim>\<open>key=value\<close> token.\<close>

definition token_key :: "string \<Rightarrow> string" where
  "token_key tok = cspan ''='' tok"

text \<open>The loop over the tokens between ampersands: what is kept, and whether anything was removed.\<close>

fun strip_loop :: "string list \<Rightarrow> string \<Rightarrow> bool \<Rightarrow> string \<times> bool" where
  "strip_loop [] kept removed = (kept, removed)"
| "strip_loop (tok # toks) kept removed =
     (if ns_query_param_is_tracking (token_key tok) then strip_loop toks kept True
      else strip_loop toks (kept @ (if kept \<noteq> [] then ''&'' else []) @ tok) removed)"

definition ns_url_strip_tracking_params :: "bool \<Rightarrow> string \<Rightarrow> string option" where
  "ns_url_strip_tracking_params enabled url =
     (if \<not> ns_url_is_http_or_https url then None
      else if \<not> enabled then None
      else let frag = cspan_rest ''#'' url; body = cspan ''#'' url in
        case strchr body CHR ''?'' of
          None \<Rightarrow> None
        | Some query \<Rightarrow>
            let (kept, removed) = strip_loop (split_pieces ''&'' (tl query)) [] False
            in if \<not> removed then None
               else Some (take (length body - length query) url @ (if kept \<noteq> [] then ''?'' @ kept else []) @ frag))"

text \<open>What is kept: the other tokens, joined again, less empty ones at the front.\<close>

fun amp_join :: "string list \<Rightarrow> string" where
  "amp_join [] = []"
| "amp_join [t] = t"
| "amp_join (t # ts) = t @ ''&'' @ amp_join ts"

definition harmless :: "string \<Rightarrow> bool" where
  "harmless tok \<longleftrightarrow> \<not> ns_query_param_is_tracking (token_key tok)"

lemma amp_join_snoc: "ts \<noteq> [] \<Longrightarrow> amp_join (ts @ [t]) = amp_join ts @ ''&'' @ t"
  by (induction ts rule: amp_join.induct) simp_all

lemma amp_join_empty: "hd ts \<noteq> [] \<Longrightarrow> ts \<noteq> [] \<Longrightarrow> amp_join ts \<noteq> []"
  by (cases ts rule: amp_join.cases) simp_all

lemma strip_loop_kept:
  "ks = [] \<or> hd ks \<noteq> [] \<Longrightarrow>
     strip_loop toks (amp_join ks) removed =
       (amp_join (let new = filter harmless toks in ks @ (if ks = [] then dropWhile (\<lambda>t. t = []) new else new)),
        removed \<or> \<not> list_all harmless toks)"
proof (induction toks arbitrary: ks removed)
  case (Cons tok toks)
  show ?case
  proof (cases "harmless tok")
    case False
    then show ?thesis using Cons by (simp add: harmless_def Let_def)
  next
    case True
    then have step: "strip_loop (tok # toks) (amp_join ks) removed =
        strip_loop toks (amp_join ks @ (if amp_join ks \<noteq> [] then ''&'' else []) @ tok) removed"
      by (simp add: harmless_def)
    show ?thesis
    proof (cases "ks = []")
      case ks: True
      show ?thesis
      proof (cases "tok = []")
        case True
        then show ?thesis using step ks \<open>harmless tok\<close> Cons.IH [of "[]" removed] by (simp add: Let_def)
      next
        case False
        then show ?thesis using step ks \<open>harmless tok\<close> Cons.IH [of "[tok]" removed] by (simp add: Let_def)
      qed
    next
      case False
      moreover from this Cons.prems have "hd (ks @ [tok]) \<noteq> []" "amp_join ks \<noteq> []"
        by (simp_all add: amp_join_empty)
      ultimately show ?thesis
        using step \<open>harmless tok\<close> Cons.IH [of "ks @ [tok]" removed] by (simp add: amp_join_snoc Let_def)
    qed
  qed
qed simp

lemma split_amp_join:
  "list_all (\<lambda>t. CHR ''&'' \<notin> set t) ts \<Longrightarrow> ts \<noteq> [] \<Longrightarrow> split_pieces ''&'' (amp_join ts) = ts"
  by (induction ts rule: amp_join.induct) (simp_all add: split_pieces_piece split_pieces_append)

lemma amp_join_chars: "c \<in> set (amp_join ts) \<Longrightarrow> c = CHR ''&'' \<or> (\<exists>t \<in> set ts. c \<in> set t)"
  by (induction ts rule: amp_join.induct) auto

text \<open>The parts of a URL with a query.\<close>

lemma strip_parts:
  assumes "CHR ''?'' \<notin> set base" "CHR ''#'' \<notin> set base" "CHR ''#'' \<notin> set q" "frag = [] \<or> hd frag = CHR ''#''"
  shows "cspan_rest ''#'' (base @ ''?'' @ q @ frag) = frag" "cspan ''#'' (base @ ''?'' @ q @ frag) = base @ ''?'' @ q"
    "strchr (base @ ''?'' @ q) CHR ''?'' = Some (''?'' @ q)"
    "take (length (base @ ''?'' @ q) - length (''?'' @ q)) (base @ ''?'' @ q @ frag) = base"
  using cspan_stop [of "base @ ''?'' @ q" "''#''" frag] strchr_append [OF assms(1), of q] assms(2-) by auto

lemma strip_form:
  assumes "CHR ''?'' \<notin> set base" "CHR ''#'' \<notin> set base" "CHR ''#'' \<notin> set q" "frag = [] \<or> hd frag = CHR ''#''"
    and "ns_url_is_http_or_https (base @ ''?'' @ q @ frag)"
  shows "ns_url_strip_tracking_params True (base @ ''?'' @ q @ frag) =
    (let toks = split_pieces ''&'' q; kept = amp_join (dropWhile (\<lambda>t. t = []) (filter harmless toks))
     in if list_all harmless toks then None
        else Some (base @ (if kept \<noteq> [] then ''?'' @ kept else []) @ frag))"
proof -
  note parts = strip_parts [OF assms(1-4)]
  have "strip_loop (split_pieces ''&'' q) [] False =
      (amp_join (dropWhile (\<lambda>t. t = []) (filter harmless (split_pieces ''&'' q))), \<not> list_all harmless (split_pieces ''&'' q))"
    using strip_loop_kept [of "[]" "split_pieces ''&'' q" False] by simp
  then show ?thesis
    using assms(5) by (simp only: ns_url_strip_tracking_params_def parts Let_def) simp
qed

lemma http_prefix_base:
  assumes "ns_url_is_http_or_https (base @ ''?'' @ q)" 
  shows "ns_url_is_http_or_https (base @ r)"
proof -
  have "prefix p base" if "prefix p (base @ ''?'' @ q)" "CHR ''?'' \<notin> set p" for p
  proof (rule ccontr)
    assume "\<not> prefix p base"
    with that(1) obtain us where us: "p = base @ us" "prefix us (''?'' @ q)"
      unfolding prefix_append by blast
    moreover have "us \<noteq> []" using us(1) \<open>\<not> prefix p base\<close> by auto
    ultimately have "CHR ''?'' \<in> set p" by (cases us) auto
    with that(2) show False by simp
  qed
  then show ?thesis
    using assms by (auto simp: ns_url_is_http_or_https_def has_prefix_iff_prefix simp del: append_Cons)
qed

lemma url_with_query:
  assumes "ns_url_strip_tracking_params True url = Some out"
  obtains base q frag where "url = base @ ''?'' @ q @ frag" "CHR ''?'' \<notin> set base" "CHR ''#'' \<notin> set base"
    "CHR ''#'' \<notin> set q" "frag = [] \<or> hd frag = CHR ''#''" "ns_url_is_http_or_https url"
proof -
  from assms obtain query where http: "ns_url_is_http_or_https url" and query: "strchr (cspan ''#'' url) CHR ''?'' = Some query"
    by (auto simp: ns_url_strip_tracking_params_def Let_def split: if_splits option.splits)
  obtain base q where b: "cspan ''#'' url = base @ query" "CHR ''?'' \<notin> set base" "query = CHR ''?'' # q"
    using strchr_Some [OF query] by blast
  have "CHR ''#'' \<notin> set (base @ query)"
    using cspan_disjoint [of "''#''" url] b(1) by auto
  moreover have "url = (base @ query) @ cspan_rest ''#'' url" using b(1) cspan_append_rest [of "''#''" url] by simp
  moreover have "cspan_rest ''#'' url = [] \<or> hd (cspan_rest ''#'' url) = CHR ''#''"
    using cspan_rest_hd [of "''#''" url] by auto
  ultimately show thesis using b http by (intro that [of base q "cspan_rest ''#'' url"]) simp_all
qed

text \<open>Stripping removes exactly the tracking parameters of the query: the address before the query and
  the fragment stay, the other parameters stay in order (less empty ones at the front), the question
  mark goes with the last parameter, and stripping the result finds nothing more to remove.\<close>

theorem strip_tracking_exact:
  assumes "ns_url_strip_tracking_params True url = Some out"
  shows "ns_url_strip_tracking_params True out = None \<and>
    (\<exists>base q frag. url = base @ ''?'' @ q @ frag \<and> (frag = [] \<or> hd frag = CHR ''#'') \<and> CHR ''?'' \<notin> set base \<and> CHR ''#'' \<notin> set (base @ q) \<and>
       (let kept = amp_join (dropWhile (\<lambda>t. t = []) (filter harmless (split_pieces ''&'' q)))
        in out = base @ (if kept \<noteq> [] then ''?'' @ kept else []) @ frag))"
proof -
  obtain base q frag where u: "url = base @ ''?'' @ q @ frag" "CHR ''?'' \<notin> set base" "CHR ''#'' \<notin> set base"
    "CHR ''#'' \<notin> set q" "frag = [] \<or> hd frag = CHR ''#''" "ns_url_is_http_or_https url"
    using url_with_query [OF assms] .
  let ?ts = "dropWhile (\<lambda>t. t = []) (filter harmless (split_pieces ''&'' q))"
  let ?kept = "amp_join ?ts"
  have out: "out = base @ (if ?kept \<noteq> [] then ''?'' @ ?kept else []) @ frag"
    using strip_form [OF u(2-5)] u(1,6) assms by (auto simp: Let_def split: if_splits)
  have harmless: "list_all harmless ?ts"
    by (auto simp: list_all_iff dest: set_dropWhileD)
  have plain: "list_all (\<lambda>t. CHR ''&'' \<notin> set t \<and> CHR ''#'' \<notin> set t) ?ts"
    using split_pieces_disjoint [of _ "''&''" q] split_pieces_subset [of _ "''&''" q] u(4)
    by (fastforce simp: list_all_iff dest: set_dropWhileD)
  have "ns_url_strip_tracking_params True out = None"
  proof (cases "?kept = []")
    case True
    have "cspan ''#'' (base @ frag) = base"
      using cspan_stop(1) [of base "''#''" frag] u(3,5) by auto
    moreover have "strchr base CHR ''?'' = None" using u(2) by (simp add: strchr_None_iff)
    ultimately show ?thesis
      using True out by (simp add: ns_url_strip_tracking_params_def Let_def)
  next
    case False
    then have ne: "?ts \<noteq> []" by (metis amp_join.simps(1))
    have toks: "split_pieces ''&'' ?kept = ?ts"
      using plain ne by (intro split_amp_join) (auto simp: list_all_iff)
    have "CHR ''#'' \<notin> set ?kept"
      using plain by (auto simp: list_all_iff dest!: amp_join_chars)
    moreover have "ns_url_is_http_or_https (base @ ''?'' @ ?kept @ frag)"
      using http_prefix_base [of base "q @ frag"] u(1,6) by simp
    ultimately have "ns_url_strip_tracking_params True (base @ ''?'' @ ?kept @ frag) = None"
      using strip_form [of base ?kept frag] u harmless by (simp only: toks Let_def) simp
    with False out show ?thesis by simp
  qed
  moreover have "CHR ''#'' \<notin> set (base @ q)" using u by simp
  ultimately show ?thesis using u(1,2,5) out unfolding Let_def by blast
qed

theorem strip_tracking_exact_witness:
  "ns_url_strip_tracking_params True ''https://a/?UTM_x=1&b=2&gclid=3#?utm_y'' = Some ''https://a/?b=2#?utm_y'' \<and>
   ns_url_strip_tracking_params True ''https://a/?b=2#?utm_y'' = None"
proof -
  have s: "ns_url_strip_tracking_params True ''https://a/?UTM_x=1&b=2&gclid=3#?utm_y'' = Some ''https://a/?b=2#?utm_y''"
    by code_simp
  from strip_tracking_exact [OF s] s show ?thesis by blast
qed

section \<open>Upgrades to HTTPS\<close>

text \<open>The HSTS table maps a host to whether its subdomains are included (the values 1 and 2 of the C
  hash table).  An entry of the file is a host, with a leading dot for subdomains, a blank and the
  expiry time, which the code does not read.\<close>

type_synonym hsts_table = "string \<rightharpoonup> bool"

definition hsts_entry :: "string \<Rightarrow> (string \<times> bool) option" where
  "hsts_entry raw =
     (let line = g_strstrip raw in
      if line = [] \<or> hd line = CHR ''#'' then None
      else case strchr line CHR '' '' of
        None \<Rightarrow> None
      | Some sp \<Rightarrow>
          let name = take (length line - length sp) line; subs = (name \<noteq> [] \<and> hd name = CHR ''.'');
              host = (if subs then tl name else name)
          in if host = [] then None else Some (g_ascii_strdown host, subs))"

fun hsts_fill :: "hsts_table \<Rightarrow> string list \<Rightarrow> hsts_table" where
  "hsts_fill table [] = table"
| "hsts_fill table (line # lines) =
     hsts_fill (case hsts_entry line of Some (h, subs) \<Rightarrow> table(h \<mapsto> subs) | None \<Rightarrow> table) lines"

definition ns_hsts_cache_reload_locked :: "string option \<Rightarrow> hsts_table" where
  "ns_hsts_cache_reload_locked file =
     (case file of
        None \<Rightarrow> Map.empty
      | Some content \<Rightarrow> hsts_fill Map.empty (g_strsplit_set (cstring content) [CHR 0x0A]))"

fun hsts_parents :: "hsts_table \<Rightarrow> string \<Rightarrow> bool" where
  "hsts_parents table [] = False"
| "hsts_parents table (c # s) =
     (if c = CHR ''.'' \<and> table s = Some True then True else hsts_parents table s)"

definition ns_hsts_lookup_locked :: "hsts_table \<Rightarrow> string \<Rightarrow> bool" where
  "ns_hsts_lookup_locked table lower_host = (if table lower_host \<noteq> None then True else hsts_parents table lower_host)"

record hsts_state =
  g_hsts_cache :: "hsts_table option"
  g_hsts_cache_mtime_us :: int

text \<open>The file at the HSTS path: its modification time and its content, if it can be read.\<close>

type_synonym hsts_file = "int \<times> string option"

definition ns_net_hsts_should_upgrade :: "hsts_file \<Rightarrow> string \<Rightarrow> hsts_state \<Rightarrow> hsts_state \<times> bool" where
  "ns_net_hsts_should_upgrade file host st =
     (if host = [] then (st, False)
      else
        let (mtime, content) = file;
            table = (case g_hsts_cache st of
                       Some t \<Rightarrow> if mtime \<noteq> g_hsts_cache_mtime_us st then ns_hsts_cache_reload_locked content else t
                     | None \<Rightarrow> ns_hsts_cache_reload_locked content)
        in (\<lparr>g_hsts_cache = Some table, g_hsts_cache_mtime_us = mtime\<rparr>,
            ns_hsts_lookup_locked table (strip_dots (g_ascii_strdown host))))"

definition ns_net_hsts_upgrade :: "url_parser \<Rightarrow> hsts_file \<Rightarrow> string \<Rightarrow> hsts_state \<Rightarrow> hsts_state \<times> string option" where
  "ns_net_hsts_upgrade lxb file url st =
     (if \<not> g_str_has_prefix url ''http://'' then (st, None)
      else case ns_url_host_from lxb url of
        None \<Rightarrow> (st, None)
      | Some host \<Rightarrow>
          let (st', upgrade) = ns_net_hsts_should_upgrade file host st
          in (st', if upgrade then Some (''https://'' @ drop 7 url) else None))"

definition g_str_has_suffix :: "string \<Rightarrow> string \<Rightarrow> bool" where
  "g_str_has_suffix s suf \<longleftrightarrow> length suf \<le> length s \<and> drop (length s - length suf) s = suf"

definition ns_host_is_loopback :: "string \<Rightarrow> bool" where
  "ns_host_is_loopback host \<longleftrightarrow>
     strcaseeq host ''localhost'' \<or> g_str_has_suffix host ''.localhost'' \<or> host = ''127.0.0.1'' \<or>
     host = ''::1'' \<or> host = ''[::1]''"

definition ns_net_https_first_upgrade :: "url_parser \<Rightarrow> bool \<Rightarrow> string \<Rightarrow> string option" where
  "ns_net_https_first_upgrade lxb https_first url =
     (if \<not> https_first then None
      else if \<not> g_str_has_prefix url ''http://'' then None
      else case ns_url_host_from lxb url of
        None \<Rightarrow> None
      | Some host \<Rightarrow> if ns_host_is_loopback host then None else Some (''https://'' @ drop 7 url))"

text \<open>What the file says about a host: the last entry for it counts.\<close>

definition hsts_says :: "string \<Rightarrow> string \<Rightarrow> bool option" where
  "hsts_says content h =
     map_option snd (List.find (\<lambda>e. fst e = h) (rev (List.map_filter hsts_entry (g_strsplit_set (cstring content) [CHR 0x0A]))))"

lemma hsts_fill_lookup:
  "hsts_fill table lines h =
    (case List.find (\<lambda>e. fst e = h) (rev (List.map_filter hsts_entry lines)) of Some (_, v) \<Rightarrow> Some v | None \<Rightarrow> table h)"
proof (induction table lines rule: hsts_fill.induct)
  case (2 table line lines)
  then show ?case
    by (cases "List.find (\<lambda>e. fst e = h) (rev (List.map_filter hsts_entry lines))")
      (auto simp: List.map_filter_simps find_append split: option.splits prod.splits)
qed (simp add: List.map_filter_simps)

lemma reload_says: "ns_hsts_cache_reload_locked (Some content) h = hsts_says content h"
  by (simp add: ns_hsts_cache_reload_locked_def hsts_fill_lookup hsts_says_def split: option.split)

lemma hsts_parents_iff: "hsts_parents table s \<longleftrightarrow> (\<exists>p d. s = p @ ''.'' @ d \<and> table d = Some True)"
proof (induction s)
  case (Cons c s)
  have eq: "(\<exists>p d. c # s = p @ ''.'' @ d \<and> table d = Some True) \<longleftrightarrow>
      (c = CHR ''.'' \<and> table s = Some True) \<or> (\<exists>p d. s = p @ ''.'' @ d \<and> table d = Some True)"
    by (auto simp: Cons_eq_append_conv)
  have "(if P then True else Q) = (P \<or> Q)" for P Q by simp
  then show ?case by (simp only: hsts_parents.simps Cons.IH eq)
qed simp

text \<open>The cache agrees with the file it was read from.\<close>

definition hsts_fresh :: "hsts_file \<Rightarrow> hsts_state \<Rightarrow> bool" where
  "hsts_fresh file st \<longleftrightarrow>
     (case g_hsts_cache st of None \<Rightarrow> True
      | Some t \<Rightarrow> g_hsts_cache_mtime_us st = fst file \<longrightarrow> t = ns_hsts_cache_reload_locked (snd file))"

text \<open>C21. A plain HTTP URL is upgraded exactly if the HSTS file, in its last entry for the name, lists the
  host, or lists a domain above it with subdomains, whatever the letter case and however many trailing
  dots the host is written with; the upgrade changes nothing but the scheme; and the cache, if it
  agreed with the file, still does.\<close>

theorem hsts_upgrade_exact:
  assumes "hsts_fresh (mtime, Some content) st" and "ns_url_host_from lxb (''http://'' @ rest) = Some host"
  shows "let (st', res) = ns_net_hsts_upgrade lxb (mtime, Some content) (''http://'' @ rest) st;
           h = strip_dots (g_ascii_strdown host) in
    hsts_fresh (mtime, Some content) st' \<and> res \<in> {None, Some (''https://'' @ rest)} \<and>
    (res \<noteq> None \<longleftrightarrow> hsts_says content h \<noteq> None \<or> (\<exists>p d. h = p @ ''.'' @ d \<and> hsts_says content d = Some True))"
proof -
  have host: "host \<noteq> []"
    using assms(2) by (auto simp: ns_url_host_from_def split: option.splits if_splits)
  have table: "(case g_hsts_cache st of
        Some t \<Rightarrow> if mtime \<noteq> g_hsts_cache_mtime_us st then ns_hsts_cache_reload_locked (Some content) else t
      | None \<Rightarrow> ns_hsts_cache_reload_locked (Some content)) = ns_hsts_cache_reload_locked (Some content)"
    using assms(1) by (auto simp: hsts_fresh_def split: option.splits)
  have up: "ns_net_hsts_should_upgrade (mtime, Some content) host st =
    (\<lparr>g_hsts_cache = Some (ns_hsts_cache_reload_locked (Some content)), g_hsts_cache_mtime_us = mtime\<rparr>,
     ns_hsts_lookup_locked (ns_hsts_cache_reload_locked (Some content)) (strip_dots (g_ascii_strdown host)))"
    using host by (simp add: ns_net_hsts_should_upgrade_def table Let_def)
  show ?thesis
    using assms(2) up
    by (auto simp: ns_net_hsts_upgrade_def Let_def hsts_fresh_def ns_hsts_lookup_locked_def reload_says hsts_parents_iff)
qed

definition sample_lxb :: url_parser where
  "sample_lxb url = (let host = cspan '':/?#'' (drop 7 url) in
     if g_str_has_prefix url ''http://'' then
       Some \<lparr>lxb_href = url, lxb_scheme = ''http'', lxb_host = Some host, lxb_port = None, lxb_path = ''/'',
         lxb_query = [], lxb_fragment = [], lxb_username = [], lxb_password = []\<rparr> else None)"

definition sample_hsts :: "hsts_state \<times> string option" where
  "sample_hsts = ns_net_hsts_upgrade sample_lxb (5, Some ''.Example.org x'') (''http://'' @ ''www.example.org./a'')
     \<lparr>g_hsts_cache = None, g_hsts_cache_mtime_us = 0\<rparr>"

theorem hsts_upgrade_exact_witness:
  "hsts_fresh (5, Some ''.Example.org x'') (fst sample_hsts) \<and> snd sample_hsts = Some ''https://www.example.org./a''"
proof -
  let ?st = "\<lparr>g_hsts_cache = None, g_hsts_cache_mtime_us = 0\<rparr>"
  have h: "ns_url_host_from sample_lxb (''http://'' @ ''www.example.org./a'') = Some ''www.example.org.''" by code_simp
  have f: "hsts_fresh (5, Some ''.Example.org x'') ?st" by (simp add: hsts_fresh_def)
  have "hsts_fresh (5, Some ''.Example.org x'') (fst sample_hsts)"
    using hsts_upgrade_exact [OF f h] unfolding sample_hsts_def Let_def case_prod_beta by (rule conjunct1)
  moreover have "snd sample_hsts = Some ''https://www.example.org./a''" by code_simp
  ultimately show ?thesis ..
qed

text \<open>HTTPS first never touches a URL that names the user's own machine, changes nothing but the scheme
  of the others, and is never applied twice.\<close>

theorem https_first_spares_loopback:
  assumes "ns_net_https_first_upgrade lxb enabled url = Some out"
  shows "enabled \<and> (\<exists>rest host. url = ''http://'' @ rest \<and> out = ''https://'' @ rest \<and>
      ns_url_host_from lxb url = Some host \<and> \<not> strcaseeq host ''localhost'' \<and> \<not> suffix ''.localhost'' host \<and>
      host \<notin> {''127.0.0.1'', ''::1'', ''[::1]''}) \<and>
    ns_net_https_first_upgrade lxb enabled out = None"
proof -
  have suf: "g_str_has_suffix s t \<longleftrightarrow> suffix t s" for s t
  proof
    assume "g_str_has_suffix s t"
    then have "s = take (length s - length t) s @ t"
      unfolding g_str_has_suffix_def by (metis append_take_drop_id)
    then show "suffix t s" by (rule suffixI)
  qed (auto simp: g_str_has_suffix_def suffix_def)
  have pre: "g_str_has_prefix url ''http://''"
    using assms by (auto simp: ns_net_https_first_upgrade_def split: if_splits)
  have "length ''http://'' = 7" by simp
  then have "url = ''http://'' @ drop 7 url" using has_prefixD [OF pre] by metis
  moreover have "\<not> g_str_has_prefix (''https://'' @ r) ''http://''" for r by simp
  ultimately show ?thesis
    using assms by (auto simp: ns_net_https_first_upgrade_def ns_host_is_loopback_def suf split: if_splits option.splits)
qed

theorem https_first_spares_loopback_witness:
  "ns_net_https_first_upgrade sample_lxb True ''http://example.org/a'' = Some ''https://example.org/a'' \<and>
   ns_net_https_first_upgrade sample_lxb True ''https://example.org/a'' = None \<and>
   ns_net_https_first_upgrade sample_lxb True ''http://dev.localhost/'' = None"
proof -
  have u: "ns_net_https_first_upgrade sample_lxb True ''http://example.org/a'' = Some ''https://example.org/a''" by code_simp
  have "ns_net_https_first_upgrade sample_lxb True ''http://dev.localhost/'' = None" by code_simp
  with u https_first_spares_loopback [OF u] show ?thesis by blast
qed

section \<open>The Refresh header\<close>

definition refresh_is_space :: "char \<Rightarrow> bool" where
  "refresh_is_space c \<longleftrightarrow> c = CHR '' '' \<or> c = CHR 0x09 \<or> c = CHR 0x0A \<or> c = CHR 0x0C \<or> c = CHR 0x0D"

text \<open>The seconds, clamped in the loop; every value a \<^verbatim>\<open>double\<close> takes here is an integer below 2 to the
  53 and so exact.\<close>

fun refresh_seconds :: "string \<Rightarrow> int \<Rightarrow> int" where
  "refresh_seconds [] seconds = seconds"
| "refresh_seconds (d # ds) seconds =
     (let s = seconds * 10 + (int (ord d) - 48) in if s > 2147483647 then 2147483647 else refresh_seconds ds s)"

definition skip_spaces :: "string \<Rightarrow> string" where
  "skip_spaces p = dropWhile refresh_is_space p"

text \<open>The optional \<^verbatim>\<open>url=\<close> in front of the address; without the equals sign nothing is skipped.\<close>

definition skip_url_key :: "string \<Rightarrow> string" where
  "skip_url_key p =
     (case p of
        u # r # l # q \<Rightarrow>
          if g_ascii_tolower u = CHR ''u'' \<and> g_ascii_tolower r = CHR ''r'' \<and> g_ascii_tolower l = CHR ''l'' then
            (case skip_spaces q of c # q' \<Rightarrow> if c = CHR ''='' then skip_spaces q' else p | [] \<Rightarrow> p)
          else p
      | _ \<Rightarrow> p)"

definition refresh_address :: "string \<Rightarrow> string option" where
  "refresh_address p =
     (let url =
        (case p of
           [] \<Rightarrow> None
         | c # rest \<Rightarrow>
             if c = CHR 0x27 \<or> c = CHR 0x22 then Some (takeWhile (\<lambda>x. x \<noteq> c) rest) else Some (g_strchomp p))
      in if url = Some [] then None else url)"

definition ns_net_parse_refresh :: "string \<Rightarrow> (int \<times> string option) option" where
  "ns_net_parse_refresh input =
     (let digits = skip_spaces input;
          ds = takeWhile g_ascii_isdigit digits; p = dropWhile g_ascii_isdigit digits
      in if ds = [] \<and> (p = [] \<or> hd p \<noteq> CHR ''.'') then None
         else let p = dropWhile (\<lambda>c. c = CHR ''.'' \<or> g_ascii_isdigit c) p in
           if p \<noteq> [] \<and> hd p \<noteq> CHR '';'' \<and> hd p \<noteq> CHR '','' \<and> \<not> refresh_is_space (hd p) then None
           else let p = skip_spaces p;
                    p = (case p of c # r \<Rightarrow> if c = CHR '';'' \<or> c = CHR '','' then r else p | [] \<Rightarrow> p);
                    p = skip_spaces p
                in Some (refresh_seconds ds 0, refresh_address (skip_url_key p)))"

lemma refresh_seconds_bounds:
  "0 \<le> s \<Longrightarrow> s \<le> 2147483647 \<Longrightarrow> list_all g_ascii_isdigit ds \<Longrightarrow>
     0 \<le> refresh_seconds ds s \<and> refresh_seconds ds s \<le> 2147483647"
proof (induction ds arbitrary: s)
  case (Cons d ds)
  then have "0 \<le> s * 10 + (int (ord d) - 48)" by (simp add: g_ascii_isdigit_def)
  with Cons show ?case by (simp add: Let_def)
qed simp

text \<open>An accepted instruction has a delay in range and no empty address.\<close>

lemma refresh_bounds:
  assumes "ns_net_parse_refresh inp = Some (secs, url)"
  shows "0 \<le> secs \<and> secs \<le> 2147483647 \<and> url \<noteq> Some []"
proof -
  have "url \<noteq> Some []"
    using assms by (auto simp: ns_net_parse_refresh_def refresh_address_def Let_def split: if_splits)
  moreover have "0 \<le> secs \<and> secs \<le> 2147483647"
    using assms refresh_seconds_bounds [of 0 "takeWhile g_ascii_isdigit (skip_spaces inp)"]
    by (auto simp: ns_net_parse_refresh_def Let_def list_all_iff dest: set_takeWhileD split: if_splits)
  ultimately show ?thesis by simp
qed

lemma refresh_examples:
  "ns_net_parse_refresh '' 5 ; URL = a.html '' = Some (5, Some ''a.html'')"
  "ns_net_parse_refresh ''99999999999'' = Some (2147483647, None)"
  "ns_net_parse_refresh ''x;url=a'' = None"
  by code_simp+

section \<open>Header values and user agents\<close>

text \<open>The tokens of a header value between commas and blanks.\<close>

definition token_sep :: "char \<Rightarrow> bool" where
  "token_sep c \<longleftrightarrow> c = CHR '' '' \<or> c = CHR 0x09 \<or> c = CHR '','' "

fun nosniff_loop :: "nat \<Rightarrow> string \<Rightarrow> bool" where
  "nosniff_loop 0 p = False"
| "nosniff_loop (Suc fuel) p =
     (if p = [] then False
      else let start = dropWhile token_sep p;
               tok = takeWhile (\<lambda>c. \<not> token_sep c) start;
               rest = dropWhile (\<lambda>c. \<not> token_sep c) start
           in if length tok = 7 \<and> strncaseeq 7 start ''nosniff'' then True else nosniff_loop fuel rest)"

definition ns_net_header_is_nosniff :: "string \<Rightarrow> bool" where
  "ns_net_header_is_nosniff val = (if val = [] then False else nosniff_loop (length val) val)"

text \<open>\<^verbatim>\<open>ladybird\<close>, \<^verbatim>\<open>firefox\<close> and \<^verbatim>\<open>own\<close> are the user-agent strings of \<^verbatim>\<open>net.h\<close>, which the build
  composes.\<close>

definition ns_user_agent_for_mode :: "string \<Rightarrow> string \<Rightarrow> string \<Rightarrow> string option \<Rightarrow> string" where
  "ns_user_agent_for_mode ladybird firefox own compat_mode =
     (case compat_mode of
        None \<Rightarrow> own
      | Some mode \<Rightarrow>
          if mode = [] then own
          else if strcaseeq mode ''ladybird'' then ladybird
          else if strcaseeq mode ''firefox'' then firefox else own)"

definition ns_user_agent_has_client_hints :: "string \<Rightarrow> bool" where
  "ns_user_agent_has_client_hints user_agent \<longleftrightarrow>
     strstr user_agent ''Chrome/'' \<noteq> None \<and> strstr user_agent ''Ladybird/'' = None"

lemma nosniff_token:
  assumes "length (takeWhile (\<lambda>c. \<not> token_sep c) s) = 7"
  shows "strncaseeq 7 s ''nosniff'' \<longleftrightarrow> strcaseeq (takeWhile (\<lambda>c. \<not> token_sep c) s) ''nosniff''"
proof -
  have "take 7 s = takeWhile (\<lambda>c. \<not> token_sep c) s"
    using assms by (metis takeWhile_eq_take)
  then show ?thesis by (simp add: strncaseeq_def strcaseeq_def)
qed

text \<open>The fuel is enough: every round consumes a character.\<close>

lemma nosniff_fuel: "length p \<le> n \<Longrightarrow> nosniff_loop (n + m) p = nosniff_loop n p"
proof (induction n arbitrary: p)
  case 0
  then show ?case by (cases m) simp_all
next
  case (Suc n)
  show ?case
  proof (cases p)
    case (Cons c p')
    let ?start = "dropWhile token_sep (c # p')"
    have "length (dropWhile (\<lambda>c. \<not> token_sep c) ?start) \<le> length p'"
    proof (cases "token_sep c")
      case True
      then have "?start = dropWhile token_sep p'" by simp
      then show ?thesis
        using length_dropWhile_le [of "\<lambda>c. \<not> token_sep c" "dropWhile token_sep p'"] length_dropWhile_le [of token_sep p']
        by simp
    next
      case False
      then show ?thesis by (simp add: length_dropWhile_le)
    qed
    then have "length (dropWhile (\<lambda>c. \<not> token_sep c) (dropWhile token_sep p)) \<le> n"
      using Suc.prems Cons by simp
    from Suc.IH [OF this] show ?thesis by (simp add: Let_def)
  qed simp
qed

section \<open>Dead hosts\<close>

definition NS_DEAD_HOST_TTL_US :: int where "NS_DEAD_HOST_TTL_US = 120 * 1000000"

type_synonym dead_hosts = "string \<rightharpoonup> int"

definition ns_net_host_recently_dead :: "int \<Rightarrow> string \<Rightarrow> dead_hosts \<Rightarrow> dead_hosts \<times> bool" where
  "ns_net_host_recently_dead now host dead =
     (case dead host of
        None \<Rightarrow> (dead, False)
      | Some expiry \<Rightarrow> if now < expiry then (dead, True) else (dead(host := None), False))"

definition ns_net_host_mark_dead :: "int \<Rightarrow> string \<Rightarrow> dead_hosts \<Rightarrow> dead_hosts" where
  "ns_net_host_mark_dead now host dead = dead(host \<mapsto> now + NS_DEAD_HOST_TTL_US)"

definition ns_net_host_mark_alive :: "string \<Rightarrow> dead_hosts \<Rightarrow> dead_hosts" where
  "ns_net_host_mark_alive host dead = dead(host := None)"

datatype dead_event = Mark_dead int string | Mark_alive string | Query_dead int string

fun dead_step :: "dead_hosts \<Rightarrow> dead_event \<Rightarrow> dead_hosts" where
  "dead_step d (Mark_dead now h) = ns_net_host_mark_dead now h d"
| "dead_step d (Mark_alive h) = ns_net_host_mark_alive h d"
| "dead_step d (Query_dead now h) = fst (ns_net_host_recently_dead now h d)"

fun event_time :: "dead_event \<Rightarrow> int option" where
  "event_time (Mark_dead t _) = Some t"
| "event_time (Query_dead t _) = Some t"
| "event_time (Mark_alive _) = None"

text \<open>The last verdict on a host: when it was found dead, unless it answered since.\<close>

fun last_verdict :: "string \<Rightarrow> dead_event list \<Rightarrow> int option" where
  "last_verdict h [] = None"
| "last_verdict h (Mark_dead t h' # older) = (if h' = h then Some t else last_verdict h older)"
| "last_verdict h (Mark_alive h' # older) = (if h' = h then None else last_verdict h older)"
| "last_verdict h (Query_dead t h' # older) = last_verdict h older"

lemma dead_entry:
  "list_all (\<lambda>e. \<forall>t. event_time e = Some t \<longrightarrow> t \<le> now) evs \<Longrightarrow>
    (case foldr (\<lambda>e d. dead_step d e) evs Map.empty h of
       Some expiry \<Rightarrow> last_verdict h evs = Some (expiry - NS_DEAD_HOST_TTL_US)
     | None \<Rightarrow> (case last_verdict h evs of None \<Rightarrow> True | Some t \<Rightarrow> t + NS_DEAD_HOST_TTL_US \<le> now))"
proof (induction evs)
  case (Cons e evs)
  then show ?case
    by (cases e) (auto simp: ns_net_host_mark_dead_def ns_net_host_mark_alive_def ns_net_host_recently_dead_def
        split: option.splits)
qed simp

text \<open>A host is reported as recently dead exactly if the last verdict on it, since which it has not
  answered, is less than two minutes old; queries in between, which drop expired entries, change no
  answer.\<close>

theorem dead_host_two_minutes:
  assumes "list_all (\<lambda>e. \<forall>t. event_time e = Some t \<longrightarrow> t \<le> now) evs"
  shows "snd (ns_net_host_recently_dead now h (foldr (\<lambda>e d. dead_step d e) evs Map.empty)) \<longleftrightarrow>
    (\<exists>t. last_verdict h evs = Some t \<and> now < t + 120000000)"
  using dead_entry [OF assms, of h]
  by (auto simp: ns_net_host_recently_dead_def NS_DEAD_HOST_TTL_US_def split: option.splits)

section \<open>Connection slots\<close>

definition NS_NET_MAX_PER_ORIGIN :: int where "NS_NET_MAX_PER_ORIGIN = 6"

definition origin_slot_key :: "string option \<Rightarrow> string option" where
  "origin_slot_key origin = (case origin of Some o' \<Rightarrow> if o' \<noteq> [] then Some (g_ascii_strdown o') else None | None \<Rightarrow> None)"

type_synonym slots = "string \<rightharpoonup> int"

datatype acquired = No_slot | Acquired | Waiting | Cancelled

text \<open>One round of the acquiring loop: a caller that finds all slots in use waits and comes back, or
  gives up if it was cancelled.\<close>

definition ns_net_acquire_origin_slot :: "string option \<Rightarrow> bool \<Rightarrow> slots \<Rightarrow> slots \<times> acquired" where
  "ns_net_acquire_origin_slot origin cancelled slots =
     (case origin_slot_key origin of
        None \<Rightarrow> (slots, No_slot)
      | Some key \<Rightarrow>
          let slots = (if slots key = None then slots(key \<mapsto> 0) else slots); in_use = the (slots key) in
          if in_use \<ge> NS_NET_MAX_PER_ORIGIN then (slots, if cancelled then Cancelled else Waiting)
          else (slots(key \<mapsto> in_use + 1), Acquired))"

definition ns_net_release_origin_slot :: "string option \<Rightarrow> slots \<Rightarrow> slots" where
  "ns_net_release_origin_slot origin slots =
     (case origin_slot_key origin of
        None \<Rightarrow> slots
      | Some key \<Rightarrow>
          (case slots key of Some n \<Rightarrow> if n > 0 then slots(key \<mapsto> n - 1) else slots | None \<Rightarrow> slots))"

text \<open>Fetching threads: each holds slots for the requests it has in flight.  \<^verbatim>\<open>held\<close> counts them by key;
  a thread releases only what it acquired.\<close>

record slot_system =
  sys_slots :: slots
  sys_held :: "string \<Rightarrow> int"

datatype slot_event = Acquire "string option" bool | Release "string option"

definition slot_step :: "slot_system \<Rightarrow> slot_event \<Rightarrow> slot_system" where
  "slot_step s ev =
     (case ev of
        Acquire origin cancelled \<Rightarrow>
          (case ns_net_acquire_origin_slot origin cancelled (sys_slots s) of
             (slots, res) \<Rightarrow>
               \<lparr>sys_slots = slots,
                sys_held = (case origin_slot_key origin of
                   Some k \<Rightarrow> if res = Acquired then (sys_held s)(k := sys_held s k + 1) else sys_held s | None \<Rightarrow> sys_held s)\<rparr>)
      | Release origin \<Rightarrow>
          (case origin_slot_key origin of
             None \<Rightarrow> s
           | Some k \<Rightarrow>
               if 0 < sys_held s k then
                 \<lparr>sys_slots = ns_net_release_origin_slot origin (sys_slots s), sys_held = (sys_held s)(k := sys_held s k - 1)\<rparr>
               else s))"

definition slots_ok :: "slot_system \<Rightarrow> bool" where
  "slots_ok s \<longleftrightarrow> (\<forall>k. (case sys_slots s k of None \<Rightarrow> sys_held s k = 0 | Some n \<Rightarrow> n = sys_held s k) \<and>
     0 \<le> sys_held s k \<and> sys_held s k \<le> NS_NET_MAX_PER_ORIGIN)"

interpretation origin_slots: invariant_system slot_step slots_ok
proof
  fix s ev
  assume ok: "slots_ok s"
  show "slots_ok (slot_step s ev)"
  proof (cases ev)
    case (Acquire origin cancelled)
    show ?thesis
    proof (cases "origin_slot_key origin")
      case None
      then show ?thesis using ok Acquire by (cases s) (simp add: slot_step_def ns_net_acquire_origin_slot_def)
    next
      case (Some k)
      have "(case sys_slots s k of None \<Rightarrow> sys_held s k = 0 | Some n \<Rightarrow> n = sys_held s k)"
        using ok by (simp add: slots_ok_def)
      with ok Acquire Some show ?thesis
        by (cases "sys_slots s k")
          (auto simp: slot_step_def ns_net_acquire_origin_slot_def slots_ok_def NS_NET_MAX_PER_ORIGIN_def Let_def
            cong: option.case_cong)
    qed
  next
    case (Release origin)
    show ?thesis
    proof (cases "origin_slot_key origin")
      case None
      then show ?thesis using ok Release by (simp add: slot_step_def)
    next
      case (Some k)
      have "(case sys_slots s k of None \<Rightarrow> sys_held s k = 0 | Some n \<Rightarrow> n = sys_held s k)" "sys_held s k \<le> 7"
        using ok by (auto simp: slots_ok_def NS_NET_MAX_PER_ORIGIN_def intro: order_trans)
      with ok Release Some show ?thesis
        by (cases "sys_slots s k")
          (auto simp: slot_step_def ns_net_release_origin_slot_def slots_ok_def NS_NET_MAX_PER_ORIGIN_def
            cong: option.case_cong)
    qed
  qed
qed

text \<open>C22. However the fetching threads interleave, no origin, in any letter case, ever has more than six
  requests in flight; the counter of the slots is exactly the number of slots held, and a thread only
  waits while all six are taken.\<close>

theorem origin_slots_bounded:
  "let s = foldl slot_step \<lparr>sys_slots = Map.empty, sys_held = (\<lambda>_. 0)\<rparr> evs in
     0 \<le> sys_held s k \<and> sys_held s k \<le> 6 \<and> (case sys_slots s k of Some n \<Rightarrow> n = sys_held s k | None \<Rightarrow> sys_held s k = 0) \<and>
     (snd (ns_net_acquire_origin_slot (Some org) cancelled (sys_slots s)) = Waiting \<longrightarrow>
        sys_held s (g_ascii_strdown org) = 6)"
proof -
  let ?s = "foldl slot_step \<lparr>sys_slots = Map.empty, sys_held = (\<lambda>_. 0)\<rparr> evs"
  have ok: "slots_ok ?s"
    by (rule origin_slots.inv_run) (simp add: slots_ok_def NS_NET_MAX_PER_ORIGIN_def)
  then have k: "0 \<le> sys_held ?s k" "sys_held ?s k \<le> 6"
    "(case sys_slots ?s k of Some n \<Rightarrow> n = sys_held ?s k | None \<Rightarrow> sys_held ?s k = 0)" for k
    by (auto simp: slots_ok_def NS_NET_MAX_PER_ORIGIN_def split: option.splits)
  have "sys_held ?s (g_ascii_strdown org) = 6"
    if "snd (ns_net_acquire_origin_slot (Some org) cancelled (sys_slots ?s)) = Waiting"
    using that k [of "g_ascii_strdown org"]
    by (auto simp: ns_net_acquire_origin_slot_def origin_slot_key_def NS_NET_MAX_PER_ORIGIN_def Let_def split: if_splits option.splits)
  with k show ?thesis by (simp add: Let_def)
qed

theorem origin_slots_bounded_witness:
  "let s = foldl slot_step \<lparr>sys_slots = Map.empty, sys_held = (\<lambda>_. 0)\<rparr> (replicate 7 (Acquire (Some ''https://A'') False)) in
     sys_held s ''https://a'' \<le> 6 \<and> sys_held s ''https://a'' = 6 \<and>
     snd (ns_net_acquire_origin_slot (Some ''HTTPS://a'') False (sys_slots s)) = Waiting"
proof -
  let ?s = "foldl slot_step \<lparr>sys_slots = Map.empty, sys_held = (\<lambda>_. 0)\<rparr> (replicate 7 (Acquire (Some ''https://A'') False))"
  have "sys_held ?s ''https://a'' \<le> 6"
    using origin_slots_bounded [of "replicate 7 (Acquire (Some ''https://A'') False)" "''https://a''"] by (simp only: Let_def)
  moreover have "sys_held ?s ''https://a'' = 6" by code_simp
  moreover have "snd (ns_net_acquire_origin_slot (Some ''HTTPS://a'') False (sys_slots ?s)) = Waiting" by code_simp
  ultimately show ?thesis by (simp only: Let_def simp_thms)
qed

theorem dead_host_two_minutes_witness:
  "snd (ns_net_host_recently_dead 100000000 ''h'' (foldr (\<lambda>e d. dead_step d e) [Query_dead 50 ''h'', Mark_dead 40 ''h''] Map.empty)) \<longleftrightarrow>
    (\<exists>t. last_verdict ''h'' [Query_dead 50 ''h'', Mark_dead 40 ''h''] = Some t \<and> 100000000 < t + 120000000)"
  by (rule dead_host_two_minutes) simp

end
