(* ===== verification/NS_Dom.thy ===== *)
theory NS_Dom
  imports NS_Interfaces
begin

text \<open>
  The document tree of \<^verbatim>\<open>src/dom.c\<close>: nodes on a heap, linked to their parent, their first and last
  child and their siblings, and the operations on the links, here and in the insertion handlers of
  \<^verbatim>\<open>src/js.c\<close>.  The links are shown to implement a map from each node to the list of its children.
  Ownership flags of strings and the release of nodes belong to memory management and are not
  modelled; a string is its value.
\<close>

section \<open>Nodes\<close>

datatype ns_node_kind = NS_NODE_DOCUMENT | NS_NODE_DOCTYPE | NS_NODE_ELEMENT | NS_NODE_TEXT | NS_NODE_COMMENT

text \<open>A value may hold NUL bytes; its list has length \<^verbatim>\<open>value_len\<close>.  \<^verbatim>\<open>attr_lower\<close> is the flag
  \<^verbatim>\<open>NS_ATTR_NAME_LOWER\<close>.\<close>

record ns_attr =
  attr_name :: string
  attr_value :: string
  namespace_uri :: "string option"
  attr_prefix :: "string option"
  local_name :: "string option"
  attr_lower :: bool

type_synonym ref = nat

type_synonym node_table = "string \<rightharpoonup> ref list"

record ns_node =
  kind :: ns_node_kind
  node_name :: "string option"
  node_text :: "string option"
  public_id :: "string option"
  system_id :: "string option"
  attrs :: "ns_attr list"
  parent :: "ref option"
  first_child :: "ref option"
  last_child :: "ref option"
  prev_sibling :: "ref option"
  next_sibling :: "ref option"
  id_index :: "(string \<rightharpoonup> ref) option"
  id_counts :: "(string \<rightharpoonup> nat) option"
  class_index :: "node_table option"
  tag_index :: "node_table option"
  class_set :: "string list option"
  attr_bloom :: "64 word"
  attr_gen :: "32 word"
  node_flags :: "32 word"
  tpl_content :: "ref option"

type_synonym heap = "ref \<Rightarrow> ns_node"

text \<open>The heap and the number of nodes allocated so far.\<close>

record dom =
  nodes :: heap
  n_nodes :: nat

definition NS_NODE_FRAGMENT :: "32 word" where "NS_NODE_FRAGMENT = 2 ^ 2"
definition NS_NODE_TEMPLATE_CONTENT :: "32 word" where "NS_NODE_TEMPLATE_CONTENT = 2 ^ 4"
definition NS_NODE_SVG_NS :: "32 word" where "NS_NODE_SVG_NS = 2 ^ 7"
definition NS_NODE_FOREIGN_NS :: "32 word" where "NS_NODE_FOREIGN_NS = 2 ^ 9"
definition NS_NODE_CDATA :: "32 word" where "NS_NODE_CDATA = 2 ^ 10"
definition NS_NODE_PI :: "32 word" where "NS_NODE_PI = 2 ^ 11"
definition NS_NODE_KEEP_CASE :: "32 word" where "NS_NODE_KEEP_CASE = 2 ^ 12"
definition NS_NODE_INPUT_INDETERMINATE :: "32 word" where "NS_NODE_INPUT_INDETERMINATE = 2 ^ 18"

definition has_flag :: "ns_node \<Rightarrow> 32 word \<Rightarrow> bool" where
  "has_flag n f \<longleftrightarrow> and (node_flags n) f \<noteq> 0"

definition ns_node_new :: "ns_node_kind \<Rightarrow> ns_node" where
  "ns_node_new k = \<lparr>kind = k, node_name = None, node_text = None, public_id = None, system_id = None, attrs = [],
     parent = None, first_child = None, last_child = None, prev_sibling = None, next_sibling = None,
     id_index = None, id_counts = None, class_index = None, tag_index = None, class_set = None,
     attr_bloom = 0, attr_gen = 0, node_flags = 0, tpl_content = None\<rparr>"

definition ns_node_new_document :: ns_node where
  "ns_node_new_document = ns_node_new NS_NODE_DOCUMENT"

definition ns_node_new_doctype :: "string \<Rightarrow> string \<Rightarrow> string \<Rightarrow> ns_node" where
  "ns_node_new_doctype nm pid sid =
     ns_node_new NS_NODE_DOCTYPE \<lparr>node_name := Some nm, public_id := Some pid, system_id := Some sid\<rparr>"

definition ns_node_new_element :: "string \<Rightarrow> ns_node" where
  "ns_node_new_element nm = ns_node_new NS_NODE_ELEMENT \<lparr>node_name := Some nm\<rparr>"

definition ns_node_new_text :: "string \<Rightarrow> ns_node" where
  "ns_node_new_text txt = ns_node_new NS_NODE_TEXT \<lparr>node_text := Some txt\<rparr>"

definition ns_node_new_comment :: "string \<Rightarrow> ns_node" where
  "ns_node_new_comment txt = ns_node_new NS_NODE_COMMENT \<lparr>node_text := Some txt\<rparr>"

text \<open>A new node is put at the next free address.\<close>

definition alloc :: "ns_node \<Rightarrow> dom \<Rightarrow> dom \<times> ref" where
  "alloc n d = (d\<lparr>nodes := (nodes d)(n_nodes d := n), n_nodes := Suc (n_nodes d)\<rparr>, n_nodes d)"

section \<open>Links\<close>

definition upd :: "ref \<Rightarrow> (ns_node \<Rightarrow> ns_node) \<Rightarrow> heap \<Rightarrow> heap" where
  "upd r f h = h(r := f (h r))"

definition set_next :: "ref option \<Rightarrow> ref option \<Rightarrow> heap \<Rightarrow> heap" where
  "set_next r v h = (case r of Some x \<Rightarrow> upd x (\<lambda>n. n\<lparr>next_sibling := v\<rparr>) h | None \<Rightarrow> h)"

definition set_prev :: "ref option \<Rightarrow> ref option \<Rightarrow> heap \<Rightarrow> heap" where
  "set_prev r v h = (case r of Some x \<Rightarrow> upd x (\<lambda>n. n\<lparr>prev_sibling := v\<rparr>) h | None \<Rightarrow> h)"

definition ns_node_detach :: "ref \<Rightarrow> heap \<Rightarrow> heap" where
  "ns_node_detach child h =
     (case parent (h child) of
        None \<Rightarrow> h
      | Some p \<Rightarrow>
          let h = (if prev_sibling (h child) \<noteq> None then set_next (prev_sibling (h child)) (next_sibling (h child)) h
                   else upd p (\<lambda>n. n\<lparr>first_child := next_sibling (h child)\<rparr>) h);
              h = (if next_sibling (h child) \<noteq> None then set_prev (next_sibling (h child)) (prev_sibling (h child)) h
                   else upd p (\<lambda>n. n\<lparr>last_child := prev_sibling (h child)\<rparr>) h)
          in upd child (\<lambda>n. n\<lparr>parent := None, prev_sibling := None, next_sibling := None\<rparr>) h)"

definition ns_node_append_child :: "ref \<Rightarrow> ref \<Rightarrow> heap \<Rightarrow> heap" where
  "ns_node_append_child par child h =
     (let h = ns_node_detach child h;
          h = upd child (\<lambda>n. n\<lparr>parent := Some par\<rparr>) h;
          h = upd child (\<lambda>n. n\<lparr>prev_sibling := last_child (h par)\<rparr>) h;
          h = (if last_child (h par) \<noteq> None then set_next (last_child (h par)) (Some child) h
               else upd par (\<lambda>n. n\<lparr>first_child := Some child\<rparr>) h)
      in upd par (\<lambda>n. n\<lparr>last_child := Some child\<rparr>) h)"

definition ns_node_remove :: "ref \<Rightarrow> heap \<Rightarrow> heap" where
  "ns_node_remove child h = ns_node_detach child h"

text \<open>The insertion handlers link a node themselves.\<close>

definition ns_element_insert_before_single :: "ref \<Rightarrow> ref \<Rightarrow> ref \<Rightarrow> heap \<Rightarrow> heap" where
  "ns_element_insert_before_single par newc rf h =
     (if newc = rf then h
      else
        let h = (if parent (h newc) \<noteq> None then ns_node_remove newc h else h);
            h = upd newc (\<lambda>n. n\<lparr>parent := Some par\<rparr>) h;
            h = upd newc (\<lambda>n. n\<lparr>next_sibling := Some rf\<rparr>) h;
            h = upd newc (\<lambda>n. n\<lparr>prev_sibling := prev_sibling (h rf)\<rparr>) h;
            h = (if prev_sibling (h rf) \<noteq> None then set_next (prev_sibling (h rf)) (Some newc) h
                 else upd par (\<lambda>n. n\<lparr>first_child := Some newc\<rparr>) h)
        in upd rf (\<lambda>n. n\<lparr>prev_sibling := Some newc\<rparr>) h)"

definition ns_insert_sibling_before :: "ref \<Rightarrow> ref \<Rightarrow> heap \<Rightarrow> heap" where
  "ns_insert_sibling_before rf newc h =
     (case parent (h rf) of
        None \<Rightarrow> h
      | Some _ \<Rightarrow>
          if rf = newc then h
          else
            let h = (if parent (h newc) \<noteq> None then ns_node_remove newc h else h)
            in case parent (h rf) of
                 None \<Rightarrow> h
               | Some par \<Rightarrow>
                   let h = upd newc (\<lambda>n. n\<lparr>parent := Some par\<rparr>) h;
                       h = upd newc (\<lambda>n. n\<lparr>next_sibling := Some rf\<rparr>) h;
                       h = upd newc (\<lambda>n. n\<lparr>prev_sibling := prev_sibling (h rf)\<rparr>) h;
                       h = (if prev_sibling (h rf) \<noteq> None then set_next (prev_sibling (h rf)) (Some newc) h
                            else upd par (\<lambda>n. n\<lparr>first_child := Some newc\<rparr>) h)
                   in upd rf (\<lambda>n. n\<lparr>prev_sibling := Some newc\<rparr>) h)"

definition ns_insert_sibling_after :: "ref \<Rightarrow> ref \<Rightarrow> heap \<Rightarrow> heap" where
  "ns_insert_sibling_after rf newc h =
     (case parent (h rf) of
        None \<Rightarrow> h
      | Some _ \<Rightarrow>
          if rf = newc then h
          else
            let h = (if parent (h newc) \<noteq> None then ns_node_remove newc h else h)
            in case parent (h rf) of
                 None \<Rightarrow> h
               | Some par \<Rightarrow>
                   let h = upd newc (\<lambda>n. n\<lparr>parent := Some par\<rparr>) h;
                       h = upd newc (\<lambda>n. n\<lparr>prev_sibling := Some rf\<rparr>) h;
                       h = upd newc (\<lambda>n. n\<lparr>next_sibling := next_sibling (h rf)\<rparr>) h;
                       h = (if next_sibling (h rf) \<noteq> None then set_prev (next_sibling (h rf)) (Some newc) h
                            else upd par (\<lambda>n. n\<lparr>last_child := Some newc\<rparr>) h)
                   in upd rf (\<lambda>n. n\<lparr>next_sibling := Some newc\<rparr>) h)"

text \<open>The position \<^verbatim>\<open>afterbegin\<close> of \<^verbatim>\<open>ns_insert_adjacent_node\<close> puts a node in front of all children.\<close>

definition insert_first :: "ref \<Rightarrow> ref \<Rightarrow> heap \<Rightarrow> heap" where
  "insert_first self newc h =
     (let h = ns_node_remove newc h;
          h = upd newc (\<lambda>n. n\<lparr>parent := Some self\<rparr>) h;
          h = upd newc (\<lambda>n. n\<lparr>next_sibling := first_child (h self)\<rparr>) h;
          h = upd newc (\<lambda>n. n\<lparr>prev_sibling := None\<rparr>) h;
          h = (if first_child (h self) \<noteq> None then set_prev (first_child (h self)) (Some newc) h
               else upd self (\<lambda>n. n\<lparr>last_child := Some newc\<rparr>) h)
      in upd self (\<lambda>n. n\<lparr>first_child := Some newc\<rparr>) h)"

text \<open>The links of \<^verbatim>\<open>ns_element_replaceChild\<close> for a new child that is not a fragment.\<close>

definition replace_child_links :: "ref \<Rightarrow> ref \<Rightarrow> ref \<Rightarrow> heap \<Rightarrow> heap" where
  "replace_child_links par newc oldc h =
     (let h = (if parent (h newc) \<noteq> None then ns_node_remove newc h else h);
          h = upd newc (\<lambda>n. n\<lparr>parent := Some par\<rparr>) h;
          h = upd newc (\<lambda>n. n\<lparr>prev_sibling := prev_sibling (h oldc)\<rparr>) h;
          h = upd newc (\<lambda>n. n\<lparr>next_sibling := next_sibling (h oldc)\<rparr>) h;
          h = (if prev_sibling (h oldc) \<noteq> None then set_next (prev_sibling (h oldc)) (Some newc) h
               else upd par (\<lambda>n. n\<lparr>first_child := Some newc\<rparr>) h);
          h = (if next_sibling (h oldc) \<noteq> None then set_prev (next_sibling (h oldc)) (Some newc) h
               else upd par (\<lambda>n. n\<lparr>last_child := Some newc\<rparr>) h)
      in upd oldc (\<lambda>n. n\<lparr>parent := None, prev_sibling := None, next_sibling := None\<rparr>) h)"

text \<open>\<^verbatim>\<open>split_text\<close> links the new tail behind the text node.\<close>

definition split_text_links :: "ref \<Rightarrow> ref \<Rightarrow> heap \<Rightarrow> heap" where
  "split_text_links n tail h =
     (case parent (h n) of
        None \<Rightarrow> h
      | Some p \<Rightarrow>
          let h = upd tail (\<lambda>t. t\<lparr>parent := Some p\<rparr>) h;
              h = upd tail (\<lambda>t. t\<lparr>prev_sibling := Some n\<rparr>) h;
              h = upd tail (\<lambda>t. t\<lparr>next_sibling := next_sibling (h n)\<rparr>) h;
              h = (if next_sibling (h n) \<noteq> None then set_prev (next_sibling (h n)) (Some tail) h
                   else upd p (\<lambda>t. t\<lparr>last_child := Some tail\<rparr>) h)
          in upd n (\<lambda>t. t\<lparr>next_sibling := Some tail\<rparr>) h)"

text \<open>Loops over siblings and up the parents; the number of allocated nodes bounds them.\<close>

fun sibling_list :: "nat \<Rightarrow> heap \<Rightarrow> ref option \<Rightarrow> ref list" where
  "sibling_list 0 h c = []"
| "sibling_list (Suc k) h None = []"
| "sibling_list (Suc k) h (Some c) = c # sibling_list k h (next_sibling (h c))"

definition children :: "dom \<Rightarrow> ref \<Rightarrow> ref list" where
  "children d n = sibling_list (n_nodes d) (nodes d) (first_child (nodes d n))"

fun parent_chain :: "nat \<Rightarrow> heap \<Rightarrow> ref \<Rightarrow> ref list" where
  "parent_chain 0 h n = []"
| "parent_chain (Suc k) h n = n # (case parent (h n) of Some p \<Rightarrow> parent_chain k h p | None \<Rightarrow> [])"

definition ancestors_or_self :: "dom \<Rightarrow> ref \<Rightarrow> ref list" where
  "ancestors_or_self d n = parent_chain (n_nodes d) (nodes d) n"

definition ns_node_contains :: "dom \<Rightarrow> ref \<Rightarrow> ref \<Rightarrow> bool" where
  "ns_node_contains d ancestor n = list_ex (\<lambda>p. p = ancestor) (ancestors_or_self d n)"

definition ns_node_root :: "dom \<Rightarrow> ref \<Rightarrow> ref" where
  "ns_node_root d n = last (ancestors_or_self d n)"

definition ns_node_is_element_named :: "heap \<Rightarrow> ref \<Rightarrow> string \<Rightarrow> bool" where
  "ns_node_is_element_named h n tag \<longleftrightarrow> kind (h n) = NS_NODE_ELEMENT \<and> node_name (h n) = Some tag"

definition ns_node_is_embedded_document :: "heap \<Rightarrow> ref \<Rightarrow> bool" where
  "ns_node_is_embedded_document h n \<longleftrightarrow> kind (h n) = NS_NODE_DOCUMENT \<and> parent (h n) \<noteq> None"

section \<open>The tree the links stand for\<close>

definition hd_opt :: "'a list \<Rightarrow> 'a option" where
  "hd_opt xs = (case xs of [] \<Rightarrow> None | x # _ \<Rightarrow> Some x)"

definition last_opt :: "'a list \<Rightarrow> 'a option" where
  "last_opt xs = hd_opt (rev xs)"

text \<open>The neighbour of an element in a list without repetitions; the one before it is the one after it
  in the reversed list.\<close>

fun next_in :: "'a list \<Rightarrow> 'a \<Rightarrow> 'a option" where
  "next_in [] c = None"
| "next_in (x # xs) c = (if x = c then hd_opt xs else next_in xs c)"

definition siblings_ok :: "heap \<Rightarrow> ref \<Rightarrow> ref list \<Rightarrow> bool" where
  "siblings_ok h p cs \<longleftrightarrow>
     distinct cs \<and> first_child (h p) = hd_opt cs \<and> last_child (h p) = last_opt cs \<and>
     (\<forall>c \<in> set cs. parent (h c) = Some p \<and> next_sibling (h c) = next_in cs c \<and> prev_sibling (h c) = next_in (rev cs) c)"

text \<open>\<^verbatim>\<open>forest h K\<close>: the links of \<^verbatim>\<open>h\<close> say that the children of each node \<^verbatim>\<open>p\<close> are \<^verbatim>\<open>K p\<close>, in this order.\<close>

definition forest :: "heap \<Rightarrow> (ref \<Rightarrow> ref list) \<Rightarrow> bool" where
  "forest h K \<longleftrightarrow> (\<forall>p. siblings_ok h p (K p)) \<and>
     (\<forall>c. (\<forall>p. parent (h c) = Some p \<longrightarrow> c \<in> set (K p)) \<and>
          (parent (h c) = None \<longrightarrow> prev_sibling (h c) = None \<and> next_sibling (h c) = None))"

lemma hd_opt_simps [simp]: "hd_opt [] = None" "hd_opt (x # xs) = Some x"
  by (simp_all add: hd_opt_def)

lemma last_opt_simps [simp]: "last_opt [] = None" "last_opt (xs @ [x]) = Some x"
  by (simp_all add: last_opt_def)

lemma hd_opt_Some: "hd_opt xs = Some x \<longleftrightarrow> (\<exists>ys. xs = x # ys)"
  by (cases xs) auto

lemma last_opt_Some: "last_opt xs = Some x \<longleftrightarrow> (\<exists>ys. xs = ys @ [x])"
  by (cases xs rule: rev_cases) auto

lemma opt_None [simp]: "hd_opt xs = None \<longleftrightarrow> xs = []" "last_opt xs = None \<longleftrightarrow> xs = []"
  by (cases xs; simp) (cases xs rule: rev_cases; simp)

lemma hd_opt_append: "hd_opt (xs @ ys) = (if xs = [] then hd_opt ys else hd_opt xs)"
  by (cases xs) auto

lemma last_opt_append: "last_opt (xs @ ys) = (if ys = [] then last_opt xs else last_opt ys)"
  by (simp add: last_opt_def hd_opt_append)

lemma hd_opt_rev: "hd_opt (rev xs) = last_opt xs" and last_opt_rev: "last_opt (rev xs) = hd_opt xs"
  by (simp_all add: last_opt_def)

lemma last_opt_Cons: "last_opt (x # xs) = (if xs = [] then Some x else last_opt xs)"
  using last_opt_append [of "[x]" xs] by (auto simp: last_opt_def)

lemma next_in_notin [simp]: "c \<notin> set xs \<Longrightarrow> next_in (xs @ ys) c = next_in ys c"
  by (induction xs) auto

lemma next_in_append:
  "c \<in> set xs \<Longrightarrow> distinct xs \<Longrightarrow> next_in (xs @ ys) c = (if last_opt xs = Some c then hd_opt ys else next_in xs c)"
proof (induction xs)
  case (Cons x xs)
  show ?case
  proof (cases "c = x")
    case True
    with Cons.prems show ?thesis
      by (cases xs) (auto simp: last_opt_Cons last_opt_Some hd_opt_append)
  next
    case False
    with Cons show ?thesis by (auto simp: last_opt_Cons)
  qed
qed simp

lemma forestD:
  assumes "forest h K"
  shows "distinct (K p)" "first_child (h p) = hd_opt (K p)" "last_child (h p) = last_opt (K p)"
    "c \<in> set (K p) \<Longrightarrow> parent (h c) = Some p" "parent (h c) = Some p \<Longrightarrow> c \<in> set (K p)"
    "c \<in> set (K p) \<Longrightarrow> next_sibling (h c) = next_in (K p) c"
    "c \<in> set (K p) \<Longrightarrow> prev_sibling (h c) = next_in (rev (K p)) c"
    "parent (h c) = None \<Longrightarrow> prev_sibling (h c) = None" "parent (h c) = None \<Longrightarrow> next_sibling (h c) = None"
  using assms unfolding forest_def siblings_ok_def by blast+

lemma forest_parent_iff: "forest h K \<Longrightarrow> parent (h c) = Some p \<longleftrightarrow> c \<in> set (K p)"
  using forestD(4,5) by blast

text \<open>Linking and unlinking in one step: what the sequences of assignments amount to.\<close>

definition link_at :: "ref \<Rightarrow> ref \<Rightarrow> ref list \<Rightarrow> ref list \<Rightarrow> heap \<Rightarrow> heap" where
  "link_at p c xs ys h = (\<lambda>r.
     let n = h r;
         n = (if r = c then n\<lparr>parent := Some p, prev_sibling := last_opt xs, next_sibling := hd_opt ys\<rparr> else n);
         n = (if last_opt xs = Some r then n\<lparr>next_sibling := Some c\<rparr> else n);
         n = (if hd_opt ys = Some r then n\<lparr>prev_sibling := Some c\<rparr> else n);
         n = (if r = p \<and> last_opt xs = None then n\<lparr>first_child := Some c\<rparr> else n)
     in if r = p \<and> hd_opt ys = None then n\<lparr>last_child := Some c\<rparr> else n)"

definition unlink_at :: "ref \<Rightarrow> ref \<Rightarrow> ref list \<Rightarrow> ref list \<Rightarrow> heap \<Rightarrow> heap" where
  "unlink_at p c xs ys h = (\<lambda>r.
     let n = h r;
         n = (if last_opt xs = Some r then n\<lparr>next_sibling := hd_opt ys\<rparr> else n);
         n = (if hd_opt ys = Some r then n\<lparr>prev_sibling := last_opt xs\<rparr> else n);
         n = (if r = p \<and> last_opt xs = None then n\<lparr>first_child := hd_opt ys\<rparr> else n);
         n = (if r = p \<and> hd_opt ys = None then n\<lparr>last_child := last_opt xs\<rparr> else n)
     in if r = c then n\<lparr>parent := None, prev_sibling := None, next_sibling := None\<rparr> else n)"

lemma forestI:
  assumes "\<And>p. siblings_ok h p (K p)" and "\<And>c p. parent (h c) = Some p \<Longrightarrow> c \<in> set (K p)"
    and "\<And>c. parent (h c) = None \<Longrightarrow> prev_sibling (h c) = None \<and> next_sibling (h c) = None"
  shows "forest h K"
  using assms unfolding forest_def by blast

lemma siblings_okI:
  assumes "distinct cs" "first_child (h p) = hd_opt cs" "last_child (h p) = last_opt cs"
    and "\<And>c. c \<in> set cs \<Longrightarrow> parent (h c) = Some p \<and> next_sibling (h c) = next_in cs c \<and> prev_sibling (h c) = next_in (rev cs) c"
  shows "siblings_ok h p cs"
  using assms unfolding siblings_ok_def by blast

lemma next_in_insert:
  assumes "distinct (xs @ c # ys)"
  shows "r \<in> set (xs @ ys) \<Longrightarrow> next_in (xs @ c # ys) r = (if last_opt xs = Some r then Some c else next_in (xs @ ys) r)"
    and "next_in (xs @ c # ys) c = hd_opt ys"
proof -
  show "next_in (xs @ c # ys) c = hd_opt ys" using assms by simp
next
  assume r: "r \<in> set (xs @ ys)"
  show "next_in (xs @ c # ys) r = (if last_opt xs = Some r then Some c else next_in (xs @ ys) r)"
  proof (cases "r \<in> set xs")
    case True
    then show ?thesis using assms by (simp add: next_in_append)
  next
    case False
    then have "last_opt xs \<noteq> Some r" "r \<noteq> c" using r assms by (auto simp: last_opt_Some)
    with False show ?thesis by simp
  qed
qed

lemma prev_in_insert:
  assumes "distinct (xs @ c # ys)"
  shows "r \<in> set (xs @ ys) \<Longrightarrow>
      next_in (rev (xs @ c # ys)) r = (if hd_opt ys = Some r then Some c else next_in (rev (xs @ ys)) r)"
    and "next_in (rev (xs @ c # ys)) c = last_opt xs"
  using next_in_insert(1) [of "rev ys" c "rev xs" r] next_in_insert(2) [of "rev ys" c "rev xs"] assms
  by (auto simp: last_opt_rev hd_opt_rev Int_commute)

lemma ends_mem: "last_opt xs = Some r \<Longrightarrow> r \<in> set xs" "hd_opt ys = Some r \<Longrightarrow> r \<in> set ys"
  by (auto simp: last_opt_Some hd_opt_Some)

lemma link_at_sel:
  "parent (link_at p c xs ys h r) = (if r = c then Some p else parent (h r))"
  "c \<notin> set (xs @ ys) \<Longrightarrow> prev_sibling (link_at p c xs ys h r) =
     (if r = c then last_opt xs else if hd_opt ys = Some r then Some c else prev_sibling (h r))"
  "c \<notin> set (xs @ ys) \<Longrightarrow> next_sibling (link_at p c xs ys h r) =
     (if r = c then hd_opt ys else if last_opt xs = Some r then Some c else next_sibling (h r))"
  "first_child (link_at p c xs ys h r) = (if r = p \<and> xs = [] then Some c else first_child (h r))"
  "last_child (link_at p c xs ys h r) = (if r = p \<and> ys = [] then Some c else last_child (h r))"
  by (auto simp: link_at_def Let_def dest: ends_mem)

lemma forest_link:
  assumes f: "forest h K" and c: "parent (h c) = None" and p: "K p = xs @ ys"
  shows "forest (link_at p c xs ys h) (K(p := xs @ c # ys))"
proof (rule forestI)
  have fresh: "c \<notin> set (K q)" for q
    using c forestD(4) [OF f, of c q] by (metis option.distinct(1))
  have par: "parent (h r) = Some p" if "r \<in> set xs \<union> set ys" for r
    using that p by (intro forestD(4) [OF f]) auto
  have d: "distinct (xs @ c # ys)" using forestD(1) [OF f, of p] fresh [of p] p by auto
  then have cn: "c \<notin> set (xs @ ys)" by simp
  have ends: "first_child (h p) = hd_opt (xs @ ys)" "last_child (h p) = last_opt (xs @ ys)"
    using forestD(2,3) [OF f, of p] p by simp_all
  fix q
  show "siblings_ok (link_at p c xs ys h) q ((K(p := xs @ c # ys)) q)"
  proof (cases "q = p")
    case False
    have keep: "r \<noteq> c" "last_opt xs \<noteq> Some r" "hd_opt ys \<noteq> Some r" if "r \<in> set (K q)" for r
      using that fresh [of q] par [of r] forestD(4) [OF f that] False ends_mem(1) [of xs r] ends_mem(2) [of ys r] by auto
    show ?thesis
      using False keep forestD(1-3) [OF f, of q] forestD(4,6,7) [OF f, of _ q] cn
      by (intro siblings_okI) (simp_all add: link_at_sel)
  next
    case True
    show ?thesis
    proof (rule siblings_okI)
      show "distinct ((K(p := xs @ c # ys)) q)" using d True by simp
    next
      fix r assume "r \<in> set ((K(p := xs @ c # ys)) q)"
      then have r: "r = c \<or> r \<noteq> c \<and> r \<in> set (xs @ ys)" using True by auto
      have old: "next_sibling (h r) = next_in (xs @ ys) r \<and> prev_sibling (h r) = next_in (rev (xs @ ys)) r" if "r \<in> set (xs @ ys)"
        using forestD(6,7) [OF f, of r p] that p by simp
      show "parent (link_at p c xs ys h r) = Some q \<and>
          next_sibling (link_at p c xs ys h r) = next_in ((K(p := xs @ c # ys)) q) r \<and>
          prev_sibling (link_at p c xs ys h r) = next_in (rev ((K(p := xs @ c # ys)) q)) r"
        using r old par [of r] True cn next_in_insert(1) [OF d, of r] next_in_insert(2) [OF d] prev_in_insert(1) [OF d, of r] prev_in_insert(2) [OF d]
        by (auto simp: link_at_sel simp del: rev_append)
    qed (use True ends in \<open>simp_all add: link_at_sel hd_opt_append last_opt_append last_opt_Cons\<close>)
  qed
next
  fix r q assume "parent (link_at p c xs ys h r) = Some q"
  then show "r \<in> set ((K(p := xs @ c # ys)) q)"
    using forestD(5) [OF f, of r q] p by (auto simp: link_at_sel split: if_splits)
next
  fix r assume none: "parent (link_at p c xs ys h r) = None"
  then have "r \<noteq> c" "parent (h r) = None" by (simp_all add: link_at_sel split: if_splits)
  moreover from this have "r \<notin> set (K p)" "c \<notin> set (K p)"
    using forestD(4) [OF f, of r p] forestD(4) [OF f, of c p] c by auto
  then have "last_opt xs \<noteq> Some r" "hd_opt ys \<noteq> Some r" "c \<notin> set (xs @ ys)" using p by (auto dest: ends_mem)
  ultimately show "prev_sibling (link_at p c xs ys h r) = None \<and> next_sibling (link_at p c xs ys h r) = None"
    using forestD(8,9) [OF f, of r] by (simp add: link_at_sel)
qed

lemma unlink_at_sel:
  "parent (unlink_at p c xs ys h r) = (if r = c then None else parent (h r))"
  "prev_sibling (unlink_at p c xs ys h r) =
     (if r = c then None else if hd_opt ys = Some r then last_opt xs else prev_sibling (h r))"
  "next_sibling (unlink_at p c xs ys h r) =
     (if r = c then None else if last_opt xs = Some r then hd_opt ys else next_sibling (h r))"
  "first_child (unlink_at p c xs ys h r) = (if r = p \<and> xs = [] then hd_opt ys else first_child (h r))"
  "last_child (unlink_at p c xs ys h r) = (if r = p \<and> ys = [] then last_opt xs else last_child (h r))"
  by (simp_all add: unlink_at_def Let_def)

lemma next_in_delete:
  assumes "distinct (xs @ c # ys)" "r \<in> set (xs @ ys)"
  shows "next_in (xs @ ys) r = (if last_opt xs = Some r then hd_opt ys else next_in (xs @ c # ys) r)"
proof (cases "r \<in> set xs")
  case True
  then show ?thesis using assms by (simp add: next_in_append)
next
  case False
  then have "last_opt xs \<noteq> Some r" "r \<noteq> c" using assms by (auto dest: ends_mem)
  with False show ?thesis by simp
qed

lemma forest_unlink:
  assumes f: "forest h K" and p: "K p = xs @ c # ys"
  shows "forest (unlink_at p c xs ys h) (K(p := xs @ ys))"
proof (rule forestI)
  have par: "parent (h r) = Some p" if "r \<in> set (xs @ c # ys)" for r
    using that p by (intro forestD(4) [OF f]) auto
  have d: "distinct (xs @ c # ys)" using forestD(1) [OF f, of p] p by auto
  then have d': "distinct (rev ys @ c # rev xs)" by auto
  have ends: "first_child (h p) = hd_opt (xs @ c # ys)" "last_child (h p) = last_opt (xs @ c # ys)"
    using forestD(2,3) [OF f, of p] p by simp_all
  fix q
  show "siblings_ok (unlink_at p c xs ys h) q ((K(p := xs @ ys)) q)"
  proof (cases "q = p")
    case False
    have keep: "r \<noteq> c" "last_opt xs \<noteq> Some r" "hd_opt ys \<noteq> Some r" if "r \<in> set (K q)" for r
      using par [of r] forestD(4) [OF f that] False ends_mem(1) [of xs r] ends_mem(2) [of ys r] by auto
    show ?thesis
      using False keep forestD(1-3) [OF f, of q] forestD(4,6,7) [OF f, of _ q]
      by (intro siblings_okI) (simp_all add: unlink_at_sel)
  next
    case True
    show ?thesis
    proof (rule siblings_okI)
      show "distinct ((K(p := xs @ ys)) q)" using d True by simp
    next
      fix r assume "r \<in> set ((K(p := xs @ ys)) q)"
      then have r: "r \<noteq> c" "r \<in> set (xs @ ys)" using True d by auto
      then have r': "r \<in> set (rev ys @ rev xs)" by auto
      have "next_sibling (h r) = next_in (xs @ c # ys) r \<and> prev_sibling (h r) = next_in (rev ys @ c # rev xs) r"
        using forestD(6,7) [OF f, of r p] r p by simp
      then show "parent (unlink_at p c xs ys h r) = Some q \<and>
          next_sibling (unlink_at p c xs ys h r) = next_in ((K(p := xs @ ys)) q) r \<and>
          prev_sibling (unlink_at p c xs ys h r) = next_in (rev ((K(p := xs @ ys)) q)) r"
        using r par [of r] True next_in_delete [OF d r(2)] next_in_delete [OF d' r']
        by (simp add: unlink_at_sel last_opt_rev hd_opt_rev)
    qed (use True ends in \<open>simp_all add: unlink_at_sel hd_opt_append last_opt_append last_opt_Cons\<close>)
  qed
next
  fix r q assume "parent (unlink_at p c xs ys h r) = Some q"
  then show "r \<in> set ((K(p := xs @ ys)) q)"
    using forestD(5) [OF f, of r q] p by (auto simp: unlink_at_sel split: if_splits)
next
  fix r assume none: "parent (unlink_at p c xs ys h r) = None"
  show "prev_sibling (unlink_at p c xs ys h r) = None \<and> next_sibling (unlink_at p c xs ys h r) = None"
  proof (cases "r = c")
    case False
    then have "parent (h r) = None" using none by (simp add: unlink_at_sel)
    moreover from this have "r \<notin> set (K p)" using forestD(4) [OF f, of r p] by auto
    then have "last_opt xs \<noteq> Some r" "hd_opt ys \<noteq> Some r" using p by (auto dest: ends_mem)
    ultimately show ?thesis using False forestD(8,9) [OF f, of r] by (simp add: unlink_at_sel)
  qed (simp add: unlink_at_sel)
qed

section \<open>The link operations refine operations on lists of children\<close>

definition K_remove :: "(ref \<Rightarrow> ref list) \<Rightarrow> ref \<Rightarrow> ref \<Rightarrow> ref list" where
  "K_remove K c = (\<lambda>p. filter (\<lambda>x. x \<noteq> c) (K p))"

definition K_append :: "(ref \<Rightarrow> ref list) \<Rightarrow> ref \<Rightarrow> ref \<Rightarrow> ref \<Rightarrow> ref list" where
  "K_append K p c = (K_remove K c)(p := K_remove K c p @ [c])"

definition K_prepend :: "(ref \<Rightarrow> ref list) \<Rightarrow> ref \<Rightarrow> ref \<Rightarrow> ref \<Rightarrow> ref list" where
  "K_prepend K p c = (K_remove K c)(p := c # K_remove K c p)"

definition K_before :: "(ref \<Rightarrow> ref list) \<Rightarrow> ref \<Rightarrow> ref \<Rightarrow> ref \<Rightarrow> ref \<Rightarrow> ref list" where
  "K_before K p c rf = (K_remove K c)(p := takeWhile (\<lambda>x. x \<noteq> rf) (K_remove K c p) @ c #
     dropWhile (\<lambda>x. x \<noteq> rf) (K_remove K c p))"

definition K_after :: "(ref \<Rightarrow> ref list) \<Rightarrow> ref \<Rightarrow> ref \<Rightarrow> ref \<Rightarrow> ref \<Rightarrow> ref list" where
  "K_after K p c rf = (K_remove K c)(p := takeWhile (\<lambda>x. x \<noteq> rf) (K_remove K c p) @ rf # c #
     tl (dropWhile (\<lambda>x. x \<noteq> rf) (K_remove K c p)))"

definition K_replace :: "(ref \<Rightarrow> ref list) \<Rightarrow> ref \<Rightarrow> ref \<Rightarrow> ref \<Rightarrow> ref \<Rightarrow> ref list" where
  "K_replace K p newc oldc = (K_remove K newc)(p := map (\<lambda>x. if x = oldc then newc else x) (K_remove K newc p))"

lemma forest_split:
  assumes "forest h K" "K p = xs @ c # ys"
  shows "parent (h c) = Some p" "next_sibling (h c) = hd_opt ys" "prev_sibling (h c) = last_opt xs"
    "distinct (xs @ c # ys)"
proof -
  show d: "distinct (xs @ c # ys)" using forestD(1) [OF assms(1), of p] assms(2) by simp
  show "parent (h c) = Some p" using forestD(4) [OF assms(1)] assms(2) by simp
  show "next_sibling (h c) = hd_opt ys" "prev_sibling (h c) = last_opt xs"
    using forestD(6,7) [OF assms(1), of c p] assms(2) d by (simp_all add: hd_opt_rev)
qed

lemma upd_apply: "upd r f h x = (if x = r then f (h r) else h x)"
  by (simp add: upd_def)

lemma upd_same [simp]: "upd r f h r = f (h r)" and upd_other [simp]: "x \<noteq> r \<Longrightarrow> upd r f h x = h x"
  by (simp_all add: upd_def)

lemma set_next_simps [simp]: "set_next (Some r) v h = upd r (\<lambda>n. n\<lparr>next_sibling := v\<rparr>) h" "set_next None v h = h"
  and set_prev_simps [simp]: "set_prev (Some r) v h = upd r (\<lambda>n. n\<lparr>prev_sibling := v\<rparr>) h" "set_prev None v h = h"
  by (simp_all add: set_next_def set_prev_def)

lemma detach_steps:
  assumes "parent (h c) = Some p" "next_sibling (h c) \<noteq> Some c" "prev_sibling (h c) \<noteq> Some c"
  shows "ns_node_detach c h =
    upd c (\<lambda>n. n\<lparr>parent := None, prev_sibling := None, next_sibling := None\<rparr>)
      ((if next_sibling (h c) \<noteq> None then set_prev (next_sibling (h c)) (prev_sibling (h c))
        else upd p (\<lambda>n. n\<lparr>last_child := prev_sibling (h c)\<rparr>))
      ((if prev_sibling (h c) \<noteq> None then set_next (prev_sibling (h c)) (next_sibling (h c))
        else upd p (\<lambda>n. n\<lparr>first_child := next_sibling (h c)\<rparr>)) h))"
  using assms by (cases "prev_sibling (h c)"; cases "next_sibling (h c)") (auto simp: ns_node_detach_def upd_apply)

lemma detach_unlink:
  assumes "forest h K" "K p = xs @ c # ys"
  shows "ns_node_detach c h = unlink_at p c xs ys h"
proof
  fix r
  note sp = forest_split [OF assms]
  have "next_sibling (h c) \<noteq> Some c" "prev_sibling (h c) \<noteq> Some c"
    using sp by (auto dest: ends_mem)
  note st = detach_steps [of h c p, OF sp(1) this]
  show "ns_node_detach c h r = unlink_at p c xs ys h r"
    unfolding st sp(2,3)
    by (cases "last_opt xs"; cases "hd_opt ys"; cases "r = c"; cases "r = p")
      (simp_all add: unlink_at_def upd_apply)
qed

lemma link_steps:
  assumes "c \<notin> set (xs @ ys)"
  shows "link_at p c xs ys h =
    (if hd_opt ys \<noteq> None then set_prev (hd_opt ys) (Some c) else upd p (\<lambda>n. n\<lparr>last_child := Some c\<rparr>))
      ((if last_opt xs \<noteq> None then set_next (last_opt xs) (Some c) else upd p (\<lambda>n. n\<lparr>first_child := Some c\<rparr>))
        (upd c (\<lambda>n. n\<lparr>parent := Some p, prev_sibling := last_opt xs, next_sibling := hd_opt ys\<rparr>) h))"
proof
  fix r
  have ends: "last_opt xs \<noteq> Some c" "hd_opt ys \<noteq> Some c" using assms by (auto dest: ends_mem)
  show "link_at p c xs ys h r =
    (if hd_opt ys \<noteq> None then set_prev (hd_opt ys) (Some c) else upd p (\<lambda>n. n\<lparr>last_child := Some c\<rparr>))
      ((if last_opt xs \<noteq> None then set_next (last_opt xs) (Some c) else upd p (\<lambda>n. n\<lparr>first_child := Some c\<rparr>))
        (upd c (\<lambda>n. n\<lparr>parent := Some p, prev_sibling := last_opt xs, next_sibling := hd_opt ys\<rparr>) h)) r"
  proof (cases "last_opt xs")
    case l: None
    show ?thesis
    proof (cases "hd_opt ys")
      case None
      then show ?thesis using l by (simp add: link_at_def upd_apply)
    next
      case (Some b)
      then have "b \<noteq> c" using ends by simp
      then show ?thesis using l Some by (simp add: link_at_def upd_apply)
    qed
  next
    case l: (Some a)
    then have a: "a \<noteq> c" using ends by simp
    show ?thesis
    proof (cases "hd_opt ys")
      case None
      then show ?thesis using l a by (simp add: link_at_def upd_apply)
    next
      case (Some b)
      then have "b \<noteq> c" using ends by simp
      then show ?thesis using l Some a by (simp add: link_at_def upd_apply)
    qed
  qed
qed

lemma K_remove_split: "K p = xs @ c # ys \<Longrightarrow> distinct (K p) \<Longrightarrow> (\<And>q. q \<noteq> p \<Longrightarrow> c \<notin> set (K q)) \<Longrightarrow>
    K_remove K c = K(p := xs @ ys)"
  by (rule ext) (auto simp: K_remove_def filter_id_conv intro!: arg_cong2 [where f = "(@)"])

lemma forest_only_parent: "forest h K \<Longrightarrow> c \<in> set (K p) \<Longrightarrow> q \<noteq> p \<Longrightarrow> c \<notin> set (K q)"
  using forestD(4) by (metis option.inject)

lemma forest_detach:
  assumes "forest h K"
  shows "forest (ns_node_detach c h) (K_remove K c)" "parent (ns_node_detach c h c) = None"
proof -
  have "forest (ns_node_detach c h) (K_remove K c) \<and> parent (ns_node_detach c h c) = None"
  proof (cases "parent (h c)")
    case None
    then have "c \<notin> set (K p)" for p using forestD(4) [OF assms, of c p] by auto
    then have "K_remove K c = K" by (auto simp: K_remove_def fun_eq_iff filter_id_conv)
    with None assms show ?thesis by (simp add: ns_node_detach_def)
  next
    case (Some p)
    then have c: "c \<in> set (K p)" using forestD(5) [OF assms] by simp
    then obtain xs ys where p: "K p = xs @ c # ys" by (auto dest: split_list)
    have "K_remove K c = K(p := xs @ ys)"
      using K_remove_split [of K p xs c ys] p forestD(1) [OF assms, of p] forest_only_parent [OF assms c] by blast
    then show ?thesis
      using forest_unlink [OF assms p] detach_unlink [OF assms p] by (simp add: unlink_at_sel)
  qed
  then show "forest (ns_node_detach c h) (K_remove K c)" "parent (ns_node_detach c h c) = None" by simp_all
qed

lemma same_field [simp]:
  "next_sibling n = v \<Longrightarrow> n\<lparr>next_sibling := v\<rparr> = n" "prev_sibling n = v \<Longrightarrow> n\<lparr>prev_sibling := v\<rparr> = n"
  by auto

lemma fresh_child: "forest h K \<Longrightarrow> parent (h c) = None \<Longrightarrow> c \<notin> set (K p)"
  using forestD(4) [of h K c p] by auto

lemma forest_append_child:
  assumes "forest h K"
  shows "forest (ns_node_append_child p c h) (K_append K p c)"
proof -
  let ?h = "ns_node_detach c h" and ?K = "K_remove K c"
  note f = forest_detach [OF assms, of c]
  have "ns_node_append_child p c h = link_at p c (?K p) [] ?h"
    using forestD(3) [OF f(1), of p] forestD(9) [OF f] fresh_child [OF f, of p]
    by (cases "last_opt (?K p)") (auto simp: ns_node_append_child_def link_steps upd_def Let_def dest: ends_mem)
  then show ?thesis
    using forest_link [OF f, of p "?K p" "[]"] by (simp add: K_append_def)
qed

text \<open>Every insertion first takes the node out of its old place.\<close>

lemma remove_first_eq:
  "(if parent (h c) \<noteq> None then ns_node_remove c h else h) = ns_node_detach c h"
  by (auto simp: ns_node_remove_def ns_node_detach_def)

lemma K_remove_mem: "x \<in> set (K_remove K c p) \<longleftrightarrow> x \<in> set (K p) \<and> x \<noteq> c"
  by (auto simp: K_remove_def)

lemma split_at:
  assumes "rf \<in> set xs"
  obtains us vs where "xs = us @ rf # vs" "takeWhile (\<lambda>x. x \<noteq> rf) xs = us" "dropWhile (\<lambda>x. x \<noteq> rf) xs = rf # vs"
  using assms by (metis (mono_tags, lifting) dropWhile_eq_Cons_conv dropWhile_eq_Nil_conv list.exhaust takeWhile_dropWhile_id)

lemma forest_insert_before:
  assumes f: "forest h K" and rf: "rf \<in> set (K p)" "rf \<noteq> c"
  shows "forest (ns_element_insert_before_single p c rf h) (K_before K p c rf)"
    and "ns_insert_sibling_before rf c h = ns_element_insert_before_single p c rf h"
proof -
  let ?h = "ns_node_detach c h" and ?K = "K_remove K c"
  note f' = forest_detach [OF f, of c]
  obtain us vs where uv: "?K p = us @ rf # vs" "takeWhile (\<lambda>x. x \<noteq> rf) (?K p) = us"
    "dropWhile (\<lambda>x. x \<noteq> rf) (?K p) = rf # vs"
    using split_at [of rf "?K p"] rf by (auto simp: K_remove_mem)
  note sp = forest_split [OF f'(1) uv(1)]
  have c: "c \<notin> set (us @ rf # vs)" using fresh_child [OF f', of p] uv by simp
  have eq: "ns_element_insert_before_single p c rf h = link_at p c us (rf # vs) ?h"
    using sp c rf(2) unfolding ns_element_insert_before_single_def remove_first_eq
    by (cases "last_opt us") (auto simp: link_steps upd_def Let_def fun_eq_iff dest: ends_mem)
  show "forest (ns_element_insert_before_single p c rf h) (K_before K p c rf)"
    using forest_link [OF f', of p us "rf # vs"] uv by (simp add: eq K_before_def)
  have "parent (h rf) = Some p" using forestD(4) [OF f rf(1)] .
  then show "ns_insert_sibling_before rf c h = ns_element_insert_before_single p c rf h"
    using sp rf(2) unfolding ns_insert_sibling_before_def ns_element_insert_before_single_def remove_first_eq by simp
qed

lemma forest_insert_after:
  assumes f: "forest h K" and rf: "rf \<in> set (K p)" "rf \<noteq> c"
  shows "forest (ns_insert_sibling_after rf c h) (K_after K p c rf)"
proof -
  let ?h = "ns_node_detach c h" and ?K = "K_remove K c"
  note f' = forest_detach [OF f, of c]
  obtain us vs where uv: "?K p = us @ rf # vs" "takeWhile (\<lambda>x. x \<noteq> rf) (?K p) = us"
    "dropWhile (\<lambda>x. x \<noteq> rf) (?K p) = rf # vs"
    using split_at [of rf "?K p"] rf by (auto simp: K_remove_mem)
  note sp = forest_split [OF f'(1) uv(1)]
  have c: "c \<notin> set (us @ rf # vs)" using fresh_child [OF f', of p] uv by simp
  have "parent (h rf) = Some p" using forestD(4) [OF f rf(1)] .
  moreover have "ns_insert_sibling_after rf c h r = link_at p c (us @ [rf]) vs ?h r" if "parent (h rf) = Some p" for r
  proof (cases "hd_opt vs")
    case None
    then show ?thesis
      using sp c rf(2) that unfolding ns_insert_sibling_after_def remove_first_eq
      by (simp add: link_steps upd_apply)
  next
    case (Some b)
    then have "b \<noteq> rf" "b \<noteq> c" using sp(4) c by (auto dest: ends_mem)
    then show ?thesis
      using sp c rf(2) that Some unfolding ns_insert_sibling_after_def remove_first_eq
      by (simp add: link_steps upd_apply)
  qed
  ultimately have "ns_insert_sibling_after rf c h = link_at p c (us @ [rf]) vs ?h" by blast
  then show ?thesis
    using forest_link [OF f', of p "us @ [rf]" vs] uv by (simp add: K_after_def)
qed


lemma forest_insert_first:
  assumes f: "forest h K" and pc: "p \<noteq> c"
  shows "forest (insert_first p c h) (K_prepend K p c)"
proof -
  let ?h = "ns_node_detach c h" and ?K = "K_remove K c"
  note f' = forest_detach [OF f, of c]
  have c: "c \<notin> set (?K p)" using fresh_child [OF f', of p] .
  have "insert_first p c h r = link_at p c [] (?K p) ?h r" for r
  proof (cases "hd_opt (?K p)")
    case None
    then show ?thesis
      using forestD(2) [OF f'(1), of p] forestD(8) [OF f'] c pc
      by (simp add: insert_first_def ns_node_remove_def link_steps upd_apply Let_def)
  next
    case (Some b)
    then have "b \<noteq> c" using c by (auto dest: ends_mem)
    then show ?thesis
      using forestD(2) [OF f'(1), of p] forestD(8) [OF f'] c pc Some
      by (simp add: insert_first_def ns_node_remove_def link_steps upd_apply Let_def)
  qed
  then have "insert_first p c h = link_at p c [] (?K p) ?h" by blast
  then show ?thesis
    using forest_link [OF f', of p "[]" "?K p"] by (simp add: K_prepend_def)
qed

lemma upd_twice [simp]: "upd r f (upd r g h) = upd r (\<lambda>n. f (g n)) h"
  by (auto simp: upd_def)

lemma upd_commute: "r \<noteq> s \<Longrightarrow> upd r f (upd s g h) = upd s g (upd r f h)"
  by (simp add: upd_def fun_upd_twist)

lemma replace_steps:
  assumes "prev_sibling (ns_node_detach newc h oldc) = P" "next_sibling (ns_node_detach newc h oldc) = N"
    and "oldc \<noteq> newc" "P \<noteq> Some oldc" "N \<noteq> Some oldc" "p \<noteq> oldc"
  shows "replace_child_links p newc oldc h =
    upd oldc (\<lambda>n. n\<lparr>parent := None, prev_sibling := None, next_sibling := None\<rparr>)
      ((if N \<noteq> None then set_prev N (Some newc) else upd p (\<lambda>n. n\<lparr>last_child := Some newc\<rparr>))
      ((if P \<noteq> None then set_next P (Some newc) else upd p (\<lambda>n. n\<lparr>first_child := Some newc\<rparr>))
      (upd newc (\<lambda>n. n\<lparr>parent := Some p, prev_sibling := P, next_sibling := N\<rparr>) (ns_node_detach newc h))))"
  using assms unfolding replace_child_links_def remove_first_eq
  by (cases P; cases N) (simp_all add: Let_def)

lemma unlink_steps:
  assumes "forest h K" "K p = xs @ c # ys"
  shows "unlink_at p c xs ys h =
    upd c (\<lambda>n. n\<lparr>parent := None, prev_sibling := None, next_sibling := None\<rparr>)
      ((if hd_opt ys \<noteq> None then set_prev (hd_opt ys) (last_opt xs) else upd p (\<lambda>n. n\<lparr>last_child := last_opt xs\<rparr>))
      ((if last_opt xs \<noteq> None then set_next (last_opt xs) (hd_opt ys) else upd p (\<lambda>n. n\<lparr>first_child := hd_opt ys\<rparr>)) h))"
proof -
  note sp = forest_split [OF assms]
  have "next_sibling (h c) \<noteq> Some c" "prev_sibling (h c) \<noteq> Some c"
    using sp by (auto dest: ends_mem)
  note st = detach_steps [of h c p, OF sp(1) this]
  show ?thesis unfolding detach_unlink [OF assms, symmetric] st sp(2,3) ..
qed

lemma forest_replace_child:
  assumes f: "forest h K" and oldc: "oldc \<in> set (K p)" "oldc \<noteq> newc" and p: "p \<noteq> newc" "p \<notin> set (K p)"
  shows "forest (replace_child_links p newc oldc h) (K_replace K p newc oldc)"
proof -
  let ?h = "ns_node_detach newc h" and ?K = "K_remove K newc"
  note f' = forest_detach [OF f, of newc]
  have "oldc \<in> set (?K p)" using oldc by (simp add: K_remove_mem)
  then obtain us vs where uv: "?K p = us @ oldc # vs" by (metis split_list)
  note sp = forest_split [OF f'(1) uv]
  have c: "newc \<notin> set (us @ oldc # vs)" using fresh_child [OF f', of p] uv by simp
  let ?h2 = "unlink_at p oldc us vs ?h"
  have f2: "forest ?h2 (?K(p := us @ vs))" using forest_unlink [OF f'(1) uv] .
  have p2: "parent (?h2 newc) = None" using f'(2) by (simp add: unlink_at_sel)
  have po: "p \<noteq> oldc" using p(2) oldc(1) by auto
  have ends: "last_opt us \<noteq> Some oldc" "hd_opt vs \<noteq> Some oldc" "last_opt us \<noteq> Some newc" "hd_opt vs \<noteq> Some newc"
    using sp(4) c by (auto dest: ends_mem)
  have "p \<notin> set (us @ vs)" using p(2) uv by (auto simp: K_remove_def filter_eq_Cons_iff dest!: arg_cong [where f = set])
  then have pe: "last_opt us \<noteq> Some p" "hd_opt vs \<noteq> Some p" by (auto dest: ends_mem)
  have ne: "last_opt us = Some a \<Longrightarrow> hd_opt vs \<noteq> Some a" for a using sp(4) by (auto dest!: ends_mem)
  have "newc \<notin> set (us @ vs)" using c by simp
  note lk = link_steps [OF this, of p]
  have "replace_child_links p newc oldc h = link_at p newc us vs ?h2"
    unfolding replace_steps [OF sp(3,2) oldc(2) ends(1,2) po] lk unlink_steps [OF f'(1) uv]
    using p oldc(2) po ends pe ne
    by (cases "last_opt us"; cases "hd_opt vs") (simp_all add: upd_commute)
  moreover have "map (\<lambda>x. if x = oldc then newc else x) zs = zs" if "oldc \<notin> set zs" for zs
    using that by (induction zs) auto
  then have "K_replace K p newc oldc = (?K(p := us @ vs))(p := us @ newc # vs)"
    using uv sp(4) by (simp add: K_replace_def)
  ultimately show ?thesis
    using forest_link [OF f2 p2, of p us vs] by simp
qed

section \<open>Loops over the links\<close>

text \<open>A store with an abstraction: the links are those of \<^verbatim>\<open>K\<close>, only allocated nodes are linked, and no
  node is its own descendant.\<close>

definition edges :: "(ref \<Rightarrow> ref list) \<Rightarrow> (ref \<times> ref) set" where
  "edges K = {(p, c). c \<in> set (K p)}"

definition dom_tree :: "dom \<Rightarrow> (ref \<Rightarrow> ref list) \<Rightarrow> bool" where
  "dom_tree d K \<longleftrightarrow> forest (nodes d) K \<and> (\<forall>p. set (K p) \<subseteq> {..<n_nodes d}) \<and> (\<forall>p \<ge> n_nodes d. K p = []) \<and> acyclic (edges K)"

lemma dom_treeD:
  assumes "dom_tree d K"
  shows "forest (nodes d) K" "c \<in> set (K p) \<Longrightarrow> c < n_nodes d" "c \<in> set (K p) \<Longrightarrow> p < n_nodes d" "acyclic (edges K)"
proof -
  show "forest (nodes d) K" "acyclic (edges K)" using assms unfolding dom_tree_def by blast+
  show "c \<in> set (K p) \<Longrightarrow> c < n_nodes d" using assms unfolding dom_tree_def by blast
  show "c \<in> set (K p) \<Longrightarrow> p < n_nodes d"
    using assms unfolding dom_tree_def by (metis empty_iff empty_set not_le)
qed

lemma sibling_list_suffix:
  "distinct (us @ cs) \<Longrightarrow> (\<And>c. c \<in> set (us @ cs) \<Longrightarrow> next_sibling (h c) = next_in (us @ cs) c) \<Longrightarrow> length cs \<le> k \<Longrightarrow>
    sibling_list k h (hd_opt cs) = cs"
proof (induction cs arbitrary: us k)
  case Nil
  then show ?case by (cases k) simp_all
next
  case (Cons c cs)
  then obtain k' where k: "k = Suc k'" by (cases k) auto
  have "next_sibling (h c) = hd_opt cs" using Cons.prems(1) Cons.prems(2) [of c] by simp
  moreover have "sibling_list k' h (hd_opt cs) = cs"
    using Cons.IH [of "us @ [c]" k'] Cons.prems k by simp
  ultimately show ?case using k by simp
qed

lemma children_eq:
  assumes "dom_tree d K"
  shows "children d p = K p"
proof -
  note f = dom_treeD(1) [OF assms]
  have "length (K p) = card (set (K p))" using forestD(1) [OF f, of p] by (simp add: distinct_card)
  also have "\<dots> \<le> card {..<n_nodes d}" using assms by (intro card_mono) (auto simp: dom_tree_def)
  finally have "sibling_list (n_nodes d) (nodes d) (hd_opt (K p)) = K p"
    using forestD(1,6) [OF f, where p = p] by (intro sibling_list_suffix [where us = "[]"]) auto
  then show ?thesis using forestD(2) [OF f, of p] by (simp add: children_def)
qed

text \<open>Parents: the chain from a node upwards visits exactly its ancestors, and the bound is enough.\<close>

lemma edges_parent: "forest h K \<Longrightarrow> (p, c) \<in> edges K \<longleftrightarrow> parent (h c) = Some p"
  by (auto simp: edges_def forest_parent_iff)

lemma parent_chain_sound: "forest h K \<Longrightarrow> a \<in> set (parent_chain k h c) \<Longrightarrow> (a, c) \<in> (edges K)\<^sup>*"
proof (induction k arbitrary: c)
  case (Suc k)
  show ?case
  proof (cases "parent (h c)")
    case (Some p)
    then have "(p, c) \<in> edges K" using Suc.prems(1) by (simp add: edges_parent)
    then show ?thesis using Suc Some by (auto intro: rtrancl_into_rtrancl)
  qed (use Suc in auto)
qed simp

lemma finite_ancestors: "finite r \<Longrightarrow> finite {x. (x, c) \<in> r\<^sup>*}"
proof -
  assume "finite r"
  have "{x. (x, c) \<in> r\<^sup>*} = (r\<inverse>)\<^sup>* `` {c}" by (auto simp: rtrancl_converse)
  then show ?thesis using \<open>finite r\<close> by simp
qed

lemma parent_chain_complete:
  assumes "forest h K" "acyclic (edges K)" "finite (edges K)"
  shows "(a, c) \<in> (edges K)\<^sup>* \<Longrightarrow> card {x. (x, c) \<in> (edges K)\<^sup>*} \<le> k \<Longrightarrow> a \<in> set (parent_chain k h c)"
proof (induction k arbitrary: c)
  case 0
  then show ?case using finite_ancestors [OF assms(3), of c] by auto
next
  case (Suc k)
  show ?case
  proof (cases "a = c")
    case False
    with Suc.prems(1) obtain p where p: "(a, p) \<in> (edges K)\<^sup>*" "(p, c) \<in> edges K" by (meson rtranclE)
    note fin = finite_ancestors [OF assms(3), of c]
    have "{x. (x, p) \<in> (edges K)\<^sup>*} \<subset> {x. (x, c) \<in> (edges K)\<^sup>*}"
    proof
      show "{x. (x, p) \<in> (edges K)\<^sup>*} \<subseteq> {x. (x, c) \<in> (edges K)\<^sup>*}" using p(2) by (auto intro: rtrancl_into_rtrancl)
      have "(c, p) \<notin> (edges K)\<^sup>*" using p(2) assms(2) by (meson acyclic_def rtrancl_into_trancl1)
      then show "{x. (x, p) \<in> (edges K)\<^sup>*} \<noteq> {x. (x, c) \<in> (edges K)\<^sup>*}" by blast
    qed
    then have "card {x. (x, p) \<in> (edges K)\<^sup>*} < card {x. (x, c) \<in> (edges K)\<^sup>*}" using fin by (rule psubset_card_mono [rotated])
    then have "a \<in> set (parent_chain k h p)" using Suc p by simp
    then show ?thesis using p(2) assms(1) by (simp add: edges_parent)
  qed simp
qed

lemma tree_contains:
  assumes t: "dom_tree d K" and c: "c < n_nodes d"
  shows "ns_node_contains d a c \<longleftrightarrow> (a, c) \<in> (edges K)\<^sup>*"
proof
  note f = dom_treeD(1) [OF t]
  assume "ns_node_contains d a c"
  then show "(a, c) \<in> (edges K)\<^sup>*"
    using parent_chain_sound [OF f] by (auto simp: ns_node_contains_def ancestors_or_self_def list_ex_iff)
next
  note f = dom_treeD(1) [OF t]
  assume a: "(a, c) \<in> (edges K)\<^sup>*"
  have "edges K \<subseteq> {..<n_nodes d} \<times> {..<n_nodes d}"
    using dom_treeD(2,3) [OF t] by (auto simp: edges_def)
  then have "finite (edges K)" by (rule finite_subset) simp
  moreover have "{x. (x, c) \<in> (edges K)\<^sup>*} \<subseteq> {..<n_nodes d}"
    using c dom_treeD(3) [OF t] by (auto simp: edges_def elim: converse_rtranclE)
  then have "card {x. (x, c) \<in> (edges K)\<^sup>*} \<le> n_nodes d"
    using card_mono [of "{..<n_nodes d}"] by simp
  ultimately have "a \<in> set (parent_chain (n_nodes d) (nodes d) c)"
    using parent_chain_complete [OF f dom_treeD(4) [OF t]] a by blast
  then show "ns_node_contains d a c"
    by (auto simp: ns_node_contains_def ancestors_or_self_def list_ex_iff)
qed

text \<open>Operations keep the abstraction, provided that no node is put below itself.\<close>

lemma edges_remove: "edges (K_remove K c) = edges K - UNIV \<times> {c}"
  by (auto simp: edges_def K_remove_mem)

lemma acyclic_insert_child:
  assumes "acyclic (edges K)" "(c, p) \<notin> (edges K)\<^sup>*" "edges K' \<subseteq> insert (p, c) (edges K)"
  shows "acyclic (edges K')"
proof -
  have "acyclic (insert (p, c) (edges K))" using assms(1,2) by (simp add: acyclic_insert)
  then show ?thesis using assms(3) by (rule acyclic_subset)
qed

lemma dom_tree_update:
  assumes t: "dom_tree d K" and f: "forest h' K'"
    and new: "\<And>q. set (K' q) \<subseteq> (if q = p then insert c (set (K q)) else set (K q))"
    and pc: "p < n_nodes d" "c < n_nodes d" "(c, p) \<notin> (edges K)\<^sup>*"
  shows "dom_tree (d\<lparr>nodes := h'\<rparr>) K'"
proof -
  have sub: "edges K' \<subseteq> insert (p, c) (edges K)"
  proof
    fix e assume "e \<in> edges K'"
    then obtain q x where e: "e = (q, x)" "x \<in> set (K' q)" by (auto simp: edges_def)
    then show "e \<in> insert (p, c) (edges K)" using new [of q] by (auto simp: edges_def split: if_splits)
  qed
  have bounds: "x < n_nodes d \<and> q < n_nodes d" if "x \<in> set (K' q)" for q x
    using that new [of q] pc(1,2) dom_treeD(2,3) [OF t, of x q] by (auto split: if_splits)
  then have "K' q = []" if "q \<ge> n_nodes d" for q
    using that by (metis all_not_in_conv not_le set_empty)
  moreover have "acyclic (edges K')" using acyclic_insert_child [OF dom_treeD(4) [OF t] pc(3) sub] .
  ultimately show ?thesis using f bounds by (auto simp: dom_tree_def)
qed

section \<open>Sequences of link operations\<close>

text \<open>The link operations with the checks their callers make: the node is not an ancestor of its new
  parent, and a reference node is a child of it.  On lists of children the same checks read the lists.\<close>

datatype link_op =
    Append_child ref ref
  | Remove_child ref
  | Insert_before ref ref ref
  | Insert_after ref ref ref
  | Insert_first ref ref
  | Replace_child ref ref ref

fun link_guard :: "dom \<Rightarrow> link_op \<Rightarrow> bool" where
  "link_guard d (Append_child p c) \<longleftrightarrow> p < n_nodes d \<and> c < n_nodes d \<and> \<not> ns_node_contains d c p"
| "link_guard d (Remove_child c) \<longleftrightarrow> c < n_nodes d"
| "link_guard d (Insert_before p c rf) \<longleftrightarrow>
     p < n_nodes d \<and> c < n_nodes d \<and> \<not> ns_node_contains d c p \<and> parent (nodes d rf) = Some p \<and> rf \<noteq> c"
| "link_guard d (Insert_after p c rf) \<longleftrightarrow>
     p < n_nodes d \<and> c < n_nodes d \<and> \<not> ns_node_contains d c p \<and> parent (nodes d rf) = Some p \<and> rf \<noteq> c"
| "link_guard d (Insert_first p c) \<longleftrightarrow> p < n_nodes d \<and> c < n_nodes d \<and> \<not> ns_node_contains d c p"
| "link_guard d (Replace_child p c rf) \<longleftrightarrow>
     p < n_nodes d \<and> c < n_nodes d \<and> \<not> ns_node_contains d c p \<and> parent (nodes d rf) = Some p \<and> rf \<noteq> c"

fun link_heap :: "heap \<Rightarrow> link_op \<Rightarrow> heap" where
  "link_heap h (Append_child p c) = ns_node_append_child p c h"
| "link_heap h (Remove_child c) = ns_node_remove c h"
| "link_heap h (Insert_before p c rf) = ns_element_insert_before_single p c rf h"
| "link_heap h (Insert_after p c rf) = ns_insert_sibling_after rf c h"
| "link_heap h (Insert_first p c) = insert_first p c h"
| "link_heap h (Replace_child p c rf) = replace_child_links p c rf h"

definition link_step :: "dom \<Rightarrow> link_op \<Rightarrow> dom" where
  "link_step d op = (if link_guard d op then d\<lparr>nodes := link_heap (nodes d) op\<rparr> else d)"

text \<open>The abstract side: the number of nodes and the lists of children.\<close>

type_synonym child_lists = "nat \<times> (ref \<Rightarrow> ref list)"

definition placeable :: "child_lists \<Rightarrow> ref \<Rightarrow> ref \<Rightarrow> bool" where
  "placeable a p c \<longleftrightarrow> p < fst a \<and> c < fst a \<and> (c, p) \<notin> (edges (snd a))\<^sup>*"

fun K_step :: "child_lists \<Rightarrow> link_op \<Rightarrow> child_lists" where
  "K_step a (Append_child p c) = (if placeable a p c then (fst a, K_append (snd a) p c) else a)"
| "K_step a (Remove_child c) = (if c < fst a then (fst a, K_remove (snd a) c) else a)"
| "K_step a (Insert_before p c rf) =
     (if placeable a p c \<and> rf \<in> set (snd a p) \<and> rf \<noteq> c then (fst a, K_before (snd a) p c rf) else a)"
| "K_step a (Insert_after p c rf) =
     (if placeable a p c \<and> rf \<in> set (snd a p) \<and> rf \<noteq> c then (fst a, K_after (snd a) p c rf) else a)"
| "K_step a (Insert_first p c) = (if placeable a p c then (fst a, K_prepend (snd a) p c) else a)"
| "K_step a (Replace_child p c rf) =
     (if placeable a p c \<and> rf \<in> set (snd a p) \<and> rf \<noteq> c then (fst a, K_replace (snd a) p c rf) else a)"

definition dom_represents :: "dom \<Rightarrow> child_lists \<Rightarrow> bool" where
  "dom_represents d a \<longleftrightarrow> n_nodes d = fst a \<and> dom_tree d (snd a)"

lemma set_tlD: "x \<in> set (tl xs) \<Longrightarrow> x \<in> set xs"
  by (cases xs) auto

lemma K_members:
  "set (K_remove K c q) \<subseteq> set (K q)"
  "set (K_append K p c q) \<subseteq> (if q = p then insert c (set (K q)) else set (K q))"
  "set (K_prepend K p c q) \<subseteq> (if q = p then insert c (set (K q)) else set (K q))"
  "rf \<in> set (K p) \<Longrightarrow> set (K_before K p c rf q) \<subseteq> (if q = p then insert c (set (K q)) else set (K q))"
  "rf \<in> set (K p) \<Longrightarrow> set (K_after K p c rf q) \<subseteq> (if q = p then insert c (set (K q)) else set (K q))"
  "set (K_replace K p c rf q) \<subseteq> (if q = p then insert c (set (K q)) else set (K q))"
  by (auto simp: K_append_def K_prepend_def K_before_def K_after_def K_replace_def K_remove_mem split: if_splits
      dest!: set_tlD set_takeWhileD set_dropWhileD)

lemma dom_tree_remove:
  assumes "dom_tree d K"
  shows "dom_tree (d\<lparr>nodes := ns_node_detach c (nodes d)\<rparr>) (K_remove K c)"
proof -
  have "edges (K_remove K c) \<subseteq> edges K" by (auto simp: edges_remove)
  then have "acyclic (edges (K_remove K c))" using dom_treeD(4) [OF assms] by (rule acyclic_subset [rotated])
  then show ?thesis
    using assms forest_detach(1) [OF dom_treeD(1) [OF assms], of c] by (auto simp: dom_tree_def K_remove_def)
qed

interpretation dom_links: data_refinement link_step K_step dom_represents
proof
  fix d a op
  assume "dom_represents d a"
  then have t: "dom_tree d (snd a)" and n: "fst a = n_nodes d" by (simp_all add: dom_represents_def)
  note f = dom_treeD(1) [OF t]
  have guard: "p < n_nodes d \<Longrightarrow> ns_node_contains d c p \<longleftrightarrow> (c, p) \<in> (edges (snd a))\<^sup>*" for p c
    by (rule tree_contains [OF t])
  have child: "parent (nodes d rf) = Some p \<longleftrightarrow> rf \<in> set (snd a p)" for rf p
    by (rule forest_parent_iff [OF f])
  have neq: "p \<noteq> c" "p \<notin> set (snd a p)" if "placeable a p c" for p c
    using that dom_treeD(4) [OF t] by (auto simp: placeable_def acyclic_def edges_def)
  have up: "dom_represents (d\<lparr>nodes := h'\<rparr>) (n_nodes d, K')" if "placeable a p c" "forest h' K'"
    "\<And>q. set (K' q) \<subseteq> (if q = p then insert c (set (snd a q)) else set (snd a q))" for h' K' p c
    using dom_tree_update [OF t that(2,3)] that(1) n by (simp add: dom_represents_def placeable_def)
  show "dom_represents (link_step d op) (K_step a op)"
  proof (cases op)
    case (Append_child p c)
    then show ?thesis
      using \<open>dom_represents d a\<close> up [OF _ forest_append_child [OF f, of p c] K_members(2)] guard [of p c] n
      by (auto simp: link_step_def placeable_def)
  next
    case (Remove_child c)
    then show ?thesis
      using \<open>dom_represents d a\<close> dom_tree_remove [OF t, of c] n
      by (auto simp: link_step_def dom_represents_def ns_node_remove_def)
  next
    case (Insert_before p c rf)
    then show ?thesis
      using \<open>dom_represents d a\<close> up [OF _ forest_insert_before(1) [OF f, of rf p c] K_members(4)] guard [of p c] n child [of rf p]
      by (auto simp: link_step_def placeable_def)
  next
    case (Insert_after p c rf)
    then show ?thesis
      using \<open>dom_represents d a\<close> up [OF _ forest_insert_after [OF f, of rf p c] K_members(5)] guard [of p c] n child [of rf p]
      by (auto simp: link_step_def placeable_def)
  next
    case (Insert_first p c)
    have "p \<noteq> c" if "placeable a p c" using that by (auto simp: placeable_def)
    then show ?thesis
      using \<open>dom_represents d a\<close> up [OF _ forest_insert_first [OF f, of p c] K_members(3)] guard [of p c] n Insert_first
      by (auto simp: link_step_def placeable_def)
  next
    case (Replace_child p c rf)
    then show ?thesis
      using \<open>dom_represents d a\<close> up [OF _ forest_replace_child [OF f, of rf p c] K_members(6)] guard [of p c] n child [of rf p] neq [of p c]
      by (auto simp: link_step_def placeable_def)
  qed
qed

text \<open>C6. The pointers between nodes implement lists of children: whatever sequence of appending,
  removing, inserting before or after a reference node or in front, and replacing is run, the links
  afterwards are those of the same operations on the lists, following the sibling pointers of a node
  yields exactly its list, and no node has become its own descendant.\<close>

theorem dom_links_refine:
  assumes "dom_represents d (n, K)"
  shows "dom_represents (foldl link_step d ops) (foldl K_step (n, K) ops) \<and>
    children (foldl link_step d ops) p = snd (foldl K_step (n, K) ops) p \<and>
    acyclic {(q, c). c \<in> set (children (foldl link_step d ops) q)}"
proof -
  have r: "dom_represents (foldl link_step d ops) (foldl K_step (n, K) ops)"
    by (rule dom_links.run_refines [OF assms])
  then have t: "dom_tree (foldl link_step d ops) (snd (foldl K_step (n, K) ops))" by (simp add: dom_represents_def)
  then show ?thesis using r children_eq [OF t] dom_treeD(4) [OF t] by (simp add: edges_def)
qed

text \<open>Nodes as they are created are a forest of single nodes.\<close>

definition fresh_nodes :: "nat \<Rightarrow> dom" where
  "fresh_nodes n = \<lparr>nodes = (\<lambda>_. ns_node_new_element ''p''), n_nodes = n\<rparr>"

lemma fresh_nodes_represents: "dom_represents (fresh_nodes n) (n, \<lambda>_. [])"
  by (simp add: dom_represents_def dom_tree_def fresh_nodes_def forest_def siblings_ok_def edges_def acyclic_def
      ns_node_new_element_def ns_node_new_def)

theorem dom_links_refine_witness:
  "let d = foldl link_step (fresh_nodes 5)
     [Append_child 0 1, Append_child 0 2, Insert_before 0 3 2, Append_child 2 0, Insert_after 0 1 2, Replace_child 0 4 3] in
   children d 0 = [4, 2, 1] \<and> acyclic {(q, c). c \<in> set (children d q)}"
proof -
  let ?d = "foldl link_step (fresh_nodes 5)
     [Append_child 0 1, Append_child 0 2, Insert_before 0 3 2, Append_child 2 0, Insert_after 0 1 2, Replace_child 0 4 3]"
  have "children ?d 0 = [4, 2, 1]" by code_simp
  moreover have "acyclic {(q, c). c \<in> set (children ?d q)}"
    using dom_links_refine [OF fresh_nodes_represents] by blast
  ultimately show ?thesis by (simp only: Let_def simp_thms)
qed

end
