(* ===== verification/NS_Dom_Attr.thy ===== *)
theory NS_Dom_Attr
  imports NS_Dom
begin

text \<open>
  Attributes of elements (\<^verbatim>\<open>src/dom.c\<close>): the list with its two ways of naming an attribute, by its
  qualified name without regard to case and by namespace and local name, and the two caches an element
  keeps over it, the class tokens and the Bloom filter of the names.  The class cache is shown to agree
  with the attribute as long as no attribute with a namespace is named \<^verbatim>\<open>class\<close>, and to go stale
  otherwise.
\<close>

section \<open>Names\<close>

definition ns_str_is_ascii_lower :: "string \<Rightarrow> bool" where
  "ns_str_is_ascii_lower s \<longleftrightarrow> list_all (\<lambda>c. \<not> g_ascii_isupper c) s"

definition ns_attr_name_is_internal :: "string \<Rightarrow> bool" where
  "ns_attr_name_is_internal name \<longleftrightarrow> strncaseeq 8 name ''data-nd-''"

definition ns_attr_local_name :: "ns_attr \<Rightarrow> string" where
  "ns_attr_local_name a = (case local_name a of Some l \<Rightarrow> l | None \<Rightarrow> attr_name a)"

definition ns_attr_normalize_namespace :: "string option \<Rightarrow> string option" where
  "ns_attr_normalize_namespace uri = (if uri = Some [] then None else uri)"

definition ns_attr_namespace_equal :: "string option \<Rightarrow> string option \<Rightarrow> bool" where
  "ns_attr_namespace_equal a b \<longleftrightarrow> ns_attr_normalize_namespace a = ns_attr_normalize_namespace b"

definition ns_attr_matches_ns :: "ns_attr \<Rightarrow> string option \<Rightarrow> string \<Rightarrow> bool" where
  "ns_attr_matches_ns a uri local \<longleftrightarrow> ns_attr_namespace_equal (namespace_uri a) uri \<and> ns_attr_local_name a = local"

section \<open>The class cache\<close>

definition ns_clsset_ws :: "char \<Rightarrow> bool" where
  "ns_clsset_ws c \<longleftrightarrow> c = CHR '' '' \<or> c = CHR 0x09 \<or> c = CHR 0x0A \<or> c = CHR 0x0D \<or> c = CHR 0x0C"

text \<open>The tokens of a class attribute, in order, duplicates included.\<close>

function ns_class_set_build :: "string \<Rightarrow> string list" where
  "ns_class_set_build s =
     (case dropWhile ns_clsset_ws s of
        [] \<Rightarrow> []
      | c # t \<Rightarrow> (c # takeWhile (\<lambda>x. \<not> ns_clsset_ws x) t) # ns_class_set_build (dropWhile (\<lambda>x. \<not> ns_clsset_ws x) t))"
  by pat_completeness auto
termination
proof (relation "measure length")
  fix s c t
  assume "dropWhile ns_clsset_ws s = c # t"
  then have "length (c # t) \<le> length s" by (metis length_dropWhile_le)
  then show "(dropWhile (\<lambda>x. \<not> ns_clsset_ws x) t, s) \<in> measure length"
    using length_dropWhile_le [of "\<lambda>x. \<not> ns_clsset_ws x" t] by simp
qed simp

declare ns_class_set_build.simps [simp del]

definition ns_class_set_clear :: "ns_node \<Rightarrow> ns_node" where
  "ns_class_set_clear n = n\<lparr>class_set := None\<rparr>"

section \<open>Looking attributes up\<close>

definition ns_element_find_attr :: "ns_node \<Rightarrow> string \<Rightarrow> ns_attr option" where
  "ns_element_find_attr el name =
     (if kind el \<noteq> NS_NODE_ELEMENT then None
      else if has_flag el NS_NODE_SVG_NS then List.find (\<lambda>a. attr_name a = name) (attrs el)
      else if ns_str_is_ascii_lower name then
        List.find (\<lambda>a. if attr_lower a then attr_name a = name else strcaseeq (attr_name a) name) (attrs el)
      else List.find (\<lambda>a. strcaseeq (attr_name a) name) (attrs el))"

definition ns_element_get_attr :: "ns_node \<Rightarrow> string \<Rightarrow> string option" where
  "ns_element_get_attr el name = map_option (\<lambda>a. cstring (attr_value a)) (ns_element_find_attr el name)"

definition ns_element_get_attr_len :: "ns_node \<Rightarrow> string \<Rightarrow> string option" where
  "ns_element_get_attr_len el name = map_option attr_value (ns_element_find_attr el name)"

definition ns_element_find_attr_ns :: "ns_node \<Rightarrow> string option \<Rightarrow> string \<Rightarrow> ns_attr option" where
  "ns_element_find_attr_ns el uri local =
     (if kind el \<noteq> NS_NODE_ELEMENT then None
      else List.find (\<lambda>a. ns_attr_matches_ns a (ns_attr_normalize_namespace uri) local) (attrs el))"

text \<open>\<^verbatim>\<open>ns_node_has_class\<close> fills the cache on its first use.\<close>

definition ns_node_has_class :: "ns_node \<Rightarrow> string \<Rightarrow> ns_node \<times> bool" where
  "ns_node_has_class el name =
     (if kind el \<noteq> NS_NODE_ELEMENT then (el, False)
      else
        let el' = (case class_set el of
              Some _ \<Rightarrow> el
            | None \<Rightarrow> el\<lparr>class_set := Some (case ns_element_get_attr el ''class'' of
                 Some cls \<Rightarrow> (if cls \<noteq> [] then ns_class_set_build cls else []) | None \<Rightarrow> [])\<rparr>)
        in (el', list_ex (\<lambda>t. t = name) (the (class_set el'))))"

section \<open>Changing attributes\<close>

fun set_first :: "(ns_attr \<Rightarrow> bool) \<Rightarrow> string \<Rightarrow> ns_attr \<Rightarrow> ns_attr list \<Rightarrow> ns_attr list" where
  "set_first hit val new [] = [new]"
| "set_first hit val new (a # as) = (if hit a then a\<lparr>attr_value := val\<rparr> # as else a # set_first hit val new as)"

fun remove_first_attr :: "(ns_attr \<Rightarrow> bool) \<Rightarrow> ns_attr list \<Rightarrow> ns_attr list" where
  "remove_first_attr hit [] = []"
| "remove_first_attr hit (a # as) = (if hit a then as else a # remove_first_attr hit as)"

definition bump :: "ns_node \<Rightarrow> ns_node" where
  "bump n = n\<lparr>attr_bloom := 0, attr_gen := attr_gen n + 1\<rparr>"

definition ns_element_append_attr_borrow :: "string \<Rightarrow> string option \<Rightarrow> ns_node \<Rightarrow> ns_node" where
  "ns_element_append_attr_borrow name val el =
     (if kind el \<noteq> NS_NODE_ELEMENT then el
      else (bump (ns_class_set_clear el))\<lparr>attrs := attrs el @
        [\<lparr>attr_name = name, attr_value = (case val of Some v \<Rightarrow> v | None \<Rightarrow> []), namespace_uri = None, attr_prefix = None,
          local_name = None, attr_lower = ns_str_is_ascii_lower name\<rparr>]\<rparr>)"

definition ns_element_set_attr_len :: "string \<Rightarrow> string \<Rightarrow> ns_node \<Rightarrow> ns_node" where
  "ns_element_set_attr_len name val el =
     (if kind el \<noteq> NS_NODE_ELEMENT then el
      else
        let el = (if class_set el \<noteq> None \<and> strcaseeq name ''class'' then ns_class_set_clear el else el)
        in (bump el)\<lparr>attrs := set_first (\<lambda>a. strcaseeq (attr_name a) name) val
             \<lparr>attr_name = name, attr_value = val, namespace_uri = None, attr_prefix = None, local_name = None,
              attr_lower = ns_str_is_ascii_lower name\<rparr> (attrs el)\<rparr>)"

definition ns_element_set_attr :: "string \<Rightarrow> string option \<Rightarrow> ns_node \<Rightarrow> ns_node" where
  "ns_element_set_attr name val el = ns_element_set_attr_len name (case val of Some v \<Rightarrow> v | None \<Rightarrow> []) el"

definition ns_element_set_attr_ns :: "string option \<Rightarrow> string option \<Rightarrow> string \<Rightarrow> string option \<Rightarrow> string option \<Rightarrow> ns_node \<Rightarrow> ns_node" where
  "ns_element_set_attr_ns uri pfx local name val el =
     (if kind el \<noteq> NS_NODE_ELEMENT then el
      else
        let ns = ns_attr_normalize_namespace uri;
            pfx = (if pfx = Some [] then None else pfx);
            qualified = (case name of Some q \<Rightarrow> if q \<noteq> [] then q else local | None \<Rightarrow> local);
            el = (if class_set el \<noteq> None \<and> ns = None \<and> strcaseeq local ''class'' then ns_class_set_clear el else el);
            v = (case val of Some v \<Rightarrow> v | None \<Rightarrow> [])
        in (bump el)\<lparr>attrs := set_first (\<lambda>a. ns_attr_matches_ns a ns local) v
             \<lparr>attr_name = qualified, attr_value = v, namespace_uri = ns, attr_prefix = pfx, local_name = Some local,
              attr_lower = ns_str_is_ascii_lower qualified\<rparr> (attrs el)\<rparr>)"

definition ns_element_remove_attr :: "string \<Rightarrow> ns_node \<Rightarrow> ns_node" where
  "ns_element_remove_attr name el =
     (if kind el \<noteq> NS_NODE_ELEMENT then el
      else
        let el = (if class_set el \<noteq> None \<and> strcaseeq name ''class'' then ns_class_set_clear el else el)
        in (bump el)\<lparr>attrs := remove_first_attr (\<lambda>a. strcaseeq (attr_name a) name) (attrs el)\<rparr>)"

definition ns_element_remove_attr_ns :: "string option \<Rightarrow> string \<Rightarrow> ns_node \<Rightarrow> ns_node" where
  "ns_element_remove_attr_ns uri local el =
     (if kind el \<noteq> NS_NODE_ELEMENT then el
      else
        let ns = ns_attr_normalize_namespace uri;
            el = (if class_set el \<noteq> None \<and> ns = None \<and> strcaseeq local ''class'' then ns_class_set_clear el else el)
        in (bump el)\<lparr>attrs := remove_first_attr (\<lambda>a. ns_attr_matches_ns a ns local) (attrs el)\<rparr>)"

section \<open>The filter of the names\<close>

text \<open>FNV-1a over the bytes of the name, 32 bits wide, picks one of 64 bits.\<close>

fun fnv1a :: "32 word \<Rightarrow> string \<Rightarrow> 32 word" where
  "fnv1a h [] = h"
| "fnv1a h (c # s) = fnv1a (xor h (of_nat (ord c)) * 16777619) s"

definition ns_attr_name_bloom_bit :: "string \<Rightarrow> 64 word" where
  "ns_attr_name_bloom_bit name = push_bit (unat (and (fnv1a 2166136261 name) 63)) 1"

definition ns_node_attr_bloom :: "ns_node \<Rightarrow> ns_node \<times> 64 word" where
  "ns_node_attr_bloom el =
     (if attr_bloom el \<noteq> 0 then (el, attr_bloom el)
      else let b = foldl (\<lambda>b a. or b (ns_attr_name_bloom_bit (attr_name a))) 0 (attrs el)
           in (el\<lparr>attr_bloom := b\<rparr>, b))"

section \<open>Well-formed attribute lists\<close>

text \<open>The flag of an attribute says whether its name is in lower case, only elements have attributes, and
  a filled filter is the one of the names.\<close>

definition bloom_of :: "ns_attr list \<Rightarrow> 64 word" where
  "bloom_of as = foldr (\<lambda>a b. or (ns_attr_name_bloom_bit (attr_name a)) b) as 0"

definition attrs_ok :: "ns_node \<Rightarrow> bool" where
  "attrs_ok n \<longleftrightarrow> list_all (\<lambda>a. attr_lower a = ns_str_is_ascii_lower (attr_name a)) (attrs n) \<and>
     (attr_bloom n \<noteq> 0 \<longrightarrow> attr_bloom n = bloom_of (attrs n))"

text \<open>The operations on one element.\<close>

datatype attr_op =
    Append_attr string "string option"
  | Set_attr string string
  | Set_attr_ns "string option" "string option" string "string option" "string option"
  | Remove_attr string
  | Remove_attr_ns "string option" string
  | Has_class string
  | Bloom

fun attr_step :: "ns_node \<Rightarrow> attr_op \<Rightarrow> ns_node" where
  "attr_step n (Append_attr name val) = ns_element_append_attr_borrow name val n"
| "attr_step n (Set_attr name val) = ns_element_set_attr_len name val n"
| "attr_step n (Set_attr_ns uri pfx local name val) = ns_element_set_attr_ns uri pfx local name val n"
| "attr_step n (Remove_attr name) = ns_element_remove_attr name n"
| "attr_step n (Remove_attr_ns uri local) = ns_element_remove_attr_ns uri local n"
| "attr_step n (Has_class name) = fst (ns_node_has_class n name)"
| "attr_step n Bloom = fst (ns_node_attr_bloom n)"

lemmas attr_op_defs = ns_element_append_attr_borrow_def ns_element_set_attr_len_def ns_element_set_attr_ns_def
  ns_element_remove_attr_def ns_element_remove_attr_ns_def bump_def ns_class_set_clear_def

lemma set_first_all: "list_all P as \<Longrightarrow> P new \<Longrightarrow> (\<And>a. P a \<Longrightarrow> P (a\<lparr>attr_value := v\<rparr>)) \<Longrightarrow> list_all P (set_first hit v new as)"
  by (induction as) auto

lemma remove_first_attr_all: "list_all P as \<Longrightarrow> list_all P (remove_first_attr hit as)"
  by (induction as) auto

lemma bloom_foldl: "foldl (\<lambda>b a. or b (ns_attr_name_bloom_bit (attr_name a))) x as = or x (bloom_of as)"
  by (induction as arbitrary: x) (simp_all add: bloom_of_def or.assoc)

lemma attr_bloom_of: "attrs_ok n \<Longrightarrow> snd (ns_node_attr_bloom n) = bloom_of (attrs n)"
  by (auto simp: ns_node_attr_bloom_def attrs_ok_def bloom_foldl Let_def)

lemma attr_step_ok: "attrs_ok n \<Longrightarrow> attrs_ok (attr_step n op)"
proof (cases op)
  case Bloom
  assume "attrs_ok n"
  then show ?thesis using Bloom by (auto simp: attrs_ok_def ns_node_attr_bloom_def bloom_foldl Let_def)
qed (auto simp: attrs_ok_def attr_op_defs ns_node_has_class_def Let_def split: option.splits
    intro!: set_first_all remove_first_attr_all)

interpretation attr_ops: invariant_system attr_step attrs_ok
  by unfold_locales (rule attr_step_ok)

section \<open>The optimised lookup\<close>

lemma lower_case_eq: "ns_str_is_ascii_lower a \<Longrightarrow> g_ascii_strdown a = a"
  by (induction a) (auto simp: ns_str_is_ascii_lower_def g_ascii_strdown_def g_ascii_tolower_def)

lemma find_cong_all: "list_all (\<lambda>x. P x = Q x) xs \<Longrightarrow> List.find P xs = List.find Q xs"
  by (induction xs) auto

lemma find_attr_plain:
  assumes "attrs_ok n" "kind n = NS_NODE_ELEMENT" "\<not> has_flag n NS_NODE_SVG_NS"
  shows "ns_element_find_attr n name = List.find (\<lambda>a. strcaseeq (attr_name a) name) (attrs n)"
proof (cases "ns_str_is_ascii_lower name")
  case True
  have "list_all (\<lambda>a. (if attr_lower a then attr_name a = name else strcaseeq (attr_name a) name) = strcaseeq (attr_name a) name) (attrs n)"
    using assms(1) True by (auto simp: attrs_ok_def list_all_iff strcaseeq_def lower_case_eq)
  from find_cong_all [OF this] show ?thesis using assms(2,3) True by (simp add: ns_element_find_attr_def)
qed (use assms in \<open>simp add: ns_element_find_attr_def\<close>)

lemma find_set_first:
  "List.find hit (set_first hit v new as) = Some (case List.find hit as of Some a \<Rightarrow> a\<lparr>attr_value := v\<rparr> | None \<Rightarrow> new)"
  if "hit new" "\<And>a. hit a \<Longrightarrow> hit (a\<lparr>attr_value := v\<rparr>)"
  using that by (induction as) auto

lemma find_set_other:
  "List.find hit' (set_first hit v new as) = List.find hit' as"
  if "\<not> hit' new" "\<And>a. hit a \<Longrightarrow> \<not> hit' a \<and> \<not> hit' (a\<lparr>attr_value := v\<rparr>)"
  using that by (induction as) auto

lemma find_remove_other:
  "List.find hit' (remove_first_attr hit as) = List.find hit' as" if "\<And>a. hit a \<Longrightarrow> \<not> hit' a"
  using that by (induction as) auto

lemma strcaseeq_other: "\<not> strcaseeq a b \<Longrightarrow> strcaseeq x a \<Longrightarrow> \<not> strcaseeq x b"
  by (metis strcaseeq_sym strcaseeq_trans)

lemma element_step [simp]: "kind (attr_step n op) = kind n" "node_flags (attr_step n op) = node_flags n"
  by (cases op; auto simp: attr_op_defs ns_node_has_class_def ns_node_attr_bloom_def Let_def split: option.splits)+

definition distinct_names :: "ns_attr list \<Rightarrow> bool" where
  "distinct_names as \<longleftrightarrow> distinct (map (\<lambda>a. g_ascii_strdown (attr_name a)) as)"

lemma find_remove_first:
  "distinct_names as \<Longrightarrow> List.find (\<lambda>a. strcaseeq (attr_name a) name) (remove_first_attr (\<lambda>a. strcaseeq (attr_name a) name) as) = None"
  by (induction as) (force simp: distinct_names_def strcaseeq_def find_None_iff)+



lemma svg_set_first:
  "\<exists>a \<in> set as. strcaseeq (attr_name a) other \<Longrightarrow> \<forall>a \<in> set as. attr_name a \<noteq> other \<Longrightarrow>
    List.find (\<lambda>a. attr_name a = other) (set_first (\<lambda>a. strcaseeq (attr_name a) other) v new as) = None \<and>
    length (set_first (\<lambda>a. strcaseeq (attr_name a) other) v new as) = length as \<and>
    (\<exists>m b. m \<noteq> other \<and> strcaseeq m other \<and> attr_value b = v \<and>
      List.find (\<lambda>a. attr_name a = m) (set_first (\<lambda>a. strcaseeq (attr_name a) other) v new as) = Some b)"
proof (induction as)
  case (Cons a as)
  show ?case
  proof (cases "strcaseeq (attr_name a) other")
    case True
    moreover have "List.find (\<lambda>a. attr_name a = other) as = None" using Cons.prems(2) by (auto simp: find_None_iff)
    moreover have "\<exists>m b. m \<noteq> other \<and> strcaseeq m other \<and> attr_value b = v \<and>
        List.find (\<lambda>a. attr_name a = m) (a\<lparr>attr_value := v\<rparr> # as) = Some b"
      using True Cons.prems(2) by (intro exI [of _ "attr_name a"] exI [of _ "a\<lparr>attr_value := v\<rparr>"]) simp
    ultimately show ?thesis using Cons.prems(2) by simp
  next
    case False
    with Cons obtain m b where "m \<noteq> other" "strcaseeq m other" "attr_value b = v"
      "List.find (\<lambda>a. attr_name a = m) (set_first (\<lambda>a. strcaseeq (attr_name a) other) v new as) = Some b"
      by auto
    moreover from this False have "attr_name a \<noteq> m" by auto
    ultimately have "\<exists>m b. m \<noteq> other \<and> strcaseeq m other \<and> attr_value b = v \<and>
        List.find (\<lambda>a. attr_name a = m) (a # set_first (\<lambda>a. strcaseeq (attr_name a) other) v new as) = Some b"
      by (intro exI [of _ m] exI [of _ b]) simp
    then show ?thesis using Cons False by auto
  qed
qed simp

text \<open>On an SVG element names are looked up with regard to case but set without: setting an attribute
  of which only another spelling exists, as \<^verbatim>\<open>viewbox\<close> where there is \<^verbatim>\<open>viewBox\<close>, overwrites that other
  attribute, adds none, and the attribute that was set still does not exist.\<close>

theorem dom_svg_attr_lost:
  assumes "kind n = NS_NODE_ELEMENT" and "has_flag n NS_NODE_SVG_NS"
    and "ns_element_get_attr_len n name = Some old" and "strcaseeq name other" and "ns_element_get_attr_len n other = None"
  shows "ns_element_get_attr_len (ns_element_set_attr_len other v n) other = None \<and>
    length (attrs (ns_element_set_attr_len other v n)) = length (attrs n) \<and>
    (\<exists>m. m \<noteq> other \<and> strcaseeq m other \<and> ns_element_get_attr_len (ns_element_set_attr_len other v n) m = Some v)"
proof -
  let ?n = "ns_element_set_attr_len other v n"
  have flag: "has_flag ?n NS_NODE_SVG_NS" "kind ?n = NS_NODE_ELEMENT"
    using assms(1,2) element_step [of n "Set_attr other v"] by (simp_all add: has_flag_def)
  have get: "ns_element_get_attr_len x m = map_option attr_value (List.find (\<lambda>a. attr_name a = m) (attrs x))"
    if "has_flag x NS_NODE_SVG_NS" "kind x = NS_NODE_ELEMENT" for x m
    using that by (simp add: ns_element_get_attr_len_def ns_element_find_attr_def)
  have as: "attrs ?n = set_first (\<lambda>a. strcaseeq (attr_name a) other) v
      \<lparr>attr_name = other, attr_value = v, namespace_uri = None, attr_prefix = None, local_name = None,
       attr_lower = ns_str_is_ascii_lower other\<rparr> (attrs n)"
    using assms(1) by (auto simp: attr_op_defs Let_def)
  have "\<exists>a \<in> set (attrs n). strcaseeq (attr_name a) other"
    using assms(3,4) by (auto simp: get [OF assms(2,1)] find_Some_iff)
  moreover have "\<forall>a \<in> set (attrs n). attr_name a \<noteq> other"
    using assms(5) by (auto simp: get [OF assms(2,1)] find_None_iff)
  ultimately obtain m b where mb: "m \<noteq> other" "strcaseeq m other" "attr_value b = v"
    "List.find (\<lambda>a. attr_name a = m) (attrs ?n) = Some b" "List.find (\<lambda>a. attr_name a = other) (attrs ?n) = None"
    "length (attrs ?n) = length (attrs n)"
    unfolding as using svg_set_first [of "attrs n" other v] by blast
  then show ?thesis unfolding get [OF flag] by (intro conjI exI [of _ m]) simp_all
qed

definition sample_svg :: ns_node where
  "sample_svg = ns_element_set_attr_len ''viewBox'' ''0 0 1 1'' (ns_node_new_element ''svg'')\<lparr>node_flags := NS_NODE_SVG_NS\<rparr>"

theorem dom_svg_attr_lost_witness:
  "ns_element_get_attr_len (ns_element_set_attr_len ''viewbox'' ''9'' sample_svg) ''viewbox'' = None \<and>
   ns_element_get_attr_len (ns_element_set_attr_len ''viewbox'' ''9'' sample_svg) ''viewBox'' = Some ''9''"
proof -
  have "kind sample_svg = NS_NODE_ELEMENT" "has_flag sample_svg NS_NODE_SVG_NS"
    "ns_element_get_attr_len sample_svg ''viewBox'' = Some ''0 0 1 1''" "strcaseeq ''viewBox'' ''viewbox''"
    "ns_element_get_attr_len sample_svg ''viewbox'' = None"
    by code_simp+
  note dom_svg_attr_lost [OF this, of "''9''"]
  moreover have "ns_element_get_attr_len (ns_element_set_attr_len ''viewbox'' ''9'' sample_svg) ''viewBox'' = Some ''9''"
    by code_simp
  ultimately show ?thesis by simp
qed

section \<open>Coherence of the class cache\<close>

definition class_tokens :: "ns_node \<Rightarrow> string list" where
  "class_tokens n = (case ns_element_get_attr n ''class'' of Some cls \<Rightarrow> ns_class_set_build cls | None \<Rightarrow> [])"

definition cache_ok :: "ns_node \<Rightarrow> bool" where
  "cache_ok n \<longleftrightarrow> (\<forall>ts. class_set n = Some ts \<longrightarrow> ts = class_tokens n)"

text \<open>Attributes without a namespace have one name, and no other attribute is named \<^verbatim>\<open>class\<close>.\<close>

definition plain_class :: "string option \<Rightarrow> string \<Rightarrow> string \<Rightarrow> bool" where
  "plain_class uri name local \<longleftrightarrow>
     (if ns_attr_normalize_namespace uri = None then name = local else \<not> strcaseeq name ''class'')"

definition attr_plain :: "ns_attr \<Rightarrow> bool" where
  "attr_plain a \<longleftrightarrow> plain_class (namespace_uri a) (attr_name a) (ns_attr_local_name a)"

definition class_ok :: "ns_node \<Rightarrow> bool" where
  "class_ok n \<longleftrightarrow> list_all attr_plain (attrs n)"

lemma attr_plain_value [simp]: "attr_plain (a\<lparr>attr_value := v\<rparr>) = attr_plain a"
  by (simp add: attr_plain_def ns_attr_local_name_def split: option.split)

lemma attr_plain_new [simp]:
  "attr_plain \<lparr>attr_name = q, attr_value = v, namespace_uri = None, attr_prefix = None, local_name = None, attr_lower = b\<rparr>"
  "attr_plain \<lparr>attr_name = q, attr_value = v, namespace_uri = ns_attr_normalize_namespace uri, attr_prefix = pfx,
     local_name = Some local, attr_lower = b\<rparr> = plain_class uri q local"
  by (simp_all add: attr_plain_def plain_class_def ns_attr_local_name_def ns_attr_normalize_namespace_def)

fun class_guard :: "attr_op \<Rightarrow> bool" where
  "class_guard (Set_attr_ns uri pfx local name val) \<longleftrightarrow>
     plain_class uri (case name of Some q \<Rightarrow> if q \<noteq> [] then q else local | None \<Rightarrow> local) local"
| "class_guard op \<longleftrightarrow> True"

lemma class_build_Nil [simp]: "ns_class_set_build [] = []"
  by (subst ns_class_set_build.simps) simp

definition named :: "string option \<Rightarrow> string \<Rightarrow> string" where
  "named name local = (case name of Some q \<Rightarrow> if q \<noteq> [] then q else local | None \<Rightarrow> local)"

lemma attrs_step:
  assumes "kind n = NS_NODE_ELEMENT"
  shows "attrs (ns_element_append_attr_borrow name val n) = attrs n @ [\<lparr>attr_name = name, attr_value = (case val of Some v \<Rightarrow> v | None \<Rightarrow> []),
      namespace_uri = None, attr_prefix = None, local_name = None, attr_lower = ns_str_is_ascii_lower name\<rparr>]"
    "attrs (ns_element_set_attr_len name v n) = set_first (\<lambda>a. strcaseeq (attr_name a) name) v
      \<lparr>attr_name = name, attr_value = v, namespace_uri = None, attr_prefix = None, local_name = None,
       attr_lower = ns_str_is_ascii_lower name\<rparr> (attrs n)"
    "attrs (ns_element_set_attr_ns uri pfx local qn val n) =
      set_first (\<lambda>a. ns_attr_matches_ns a (ns_attr_normalize_namespace uri) local) (case val of Some v \<Rightarrow> v | None \<Rightarrow> [])
      \<lparr>attr_name = named qn local, attr_value = (case val of Some v \<Rightarrow> v | None \<Rightarrow> []),
       namespace_uri = ns_attr_normalize_namespace uri, attr_prefix = (if pfx = Some [] then None else pfx),
       local_name = Some local, attr_lower = ns_str_is_ascii_lower (named qn local)\<rparr> (attrs n)"
    "attrs (ns_element_remove_attr name n) = remove_first_attr (\<lambda>a. strcaseeq (attr_name a) name) (attrs n)"
    "attrs (ns_element_remove_attr_ns uri local n) =
      remove_first_attr (\<lambda>a. ns_attr_matches_ns a (ns_attr_normalize_namespace uri) local) (attrs n)"
    "attrs (fst (ns_node_has_class n name)) = attrs n"
    "attrs (fst (ns_node_attr_bloom n)) = attrs n"
  using assms
  by (simp_all add: attr_op_defs ns_node_has_class_def ns_node_attr_bloom_def named_def Let_def split: option.split)

lemma class_guard_ok: "class_ok n \<Longrightarrow> class_guard op \<Longrightarrow> class_ok (attr_step n op)"
proof (cases "kind n = NS_NODE_ELEMENT")
  case True
  assume ok: "class_ok n" and guard: "class_guard op"
  show ?thesis
    using ok guard
    by (cases op; simp only: class_ok_def attr_step.simps attrs_step [OF True])
      (simp_all add: named_def set_first_all remove_first_attr_all)
next
  case False
  assume "class_ok n"
  with False show ?thesis
    by (cases op) (simp_all add: class_ok_def attr_op_defs ns_node_has_class_def ns_node_attr_bloom_def Let_def)
qed

text \<open>What an operation leaves of the value of \<^verbatim>\<open>class\<close>, unless it clears the cache.\<close>

definition class_hit :: "ns_node \<Rightarrow> ns_attr \<Rightarrow> bool" where
  "class_hit n a \<longleftrightarrow>
     (if has_flag n NS_NODE_SVG_NS then attr_name a = ''class''
      else if attr_lower a then attr_name a = ''class'' else strcaseeq (attr_name a) ''class'')"

lemma find_class:
  assumes "kind n = NS_NODE_ELEMENT"
  shows "ns_element_find_attr n ''class'' = List.find (class_hit n) (attrs n)"
proof -
  have "ns_str_is_ascii_lower ''class''" by code_simp
  then show ?thesis
    using assms by (auto simp: ns_element_find_attr_def class_hit_def intro!: arg_cong [where f = "\<lambda>P. List.find P (attrs n)"])
qed

lemma class_hit_name: "class_hit n a \<Longrightarrow> strcaseeq (attr_name a) ''class''"
  and class_hit_value [simp]: "class_hit n (a\<lparr>attr_value := v\<rparr>) = class_hit n a"
  by (auto simp: class_hit_def split: if_splits)

lemma class_hit_flags: "node_flags m = node_flags n \<Longrightarrow> class_hit m = class_hit n"
  by (rule ext) (simp add: class_hit_def has_flag_def)

lemma tokens_eq:
  assumes "kind n = NS_NODE_ELEMENT" "kind m = NS_NODE_ELEMENT" "node_flags m = node_flags n"
    and "List.find (class_hit n) (attrs m) = List.find (class_hit n) (attrs n)"
  shows "class_tokens m = class_tokens n"
  using assms by (simp add: class_tokens_def ns_element_get_attr_def find_class class_hit_flags [OF assms(3)])

definition clears_class :: "attr_op \<Rightarrow> bool" where
  "clears_class op \<longleftrightarrow>
     (case op of
        Append_attr _ _ \<Rightarrow> True
      | Set_attr name _ \<Rightarrow> strcaseeq name ''class''
      | Set_attr_ns uri _ local _ _ \<Rightarrow> ns_attr_normalize_namespace uri = None \<and> strcaseeq local ''class''
      | Remove_attr name \<Rightarrow> strcaseeq name ''class''
      | Remove_attr_ns uri local \<Rightarrow> ns_attr_normalize_namespace uri = None \<and> strcaseeq local ''class''
      | _ \<Rightarrow> False)"

lemma plain_not_class:
  assumes "attr_plain a" "ns_attr_matches_ns a (ns_attr_normalize_namespace uri) local"
    and "\<not> (ns_attr_normalize_namespace uri = None \<and> strcaseeq local ''class'')"
  shows "\<not> strcaseeq (attr_name a) ''class''"
proof -
  have "ns_attr_normalize_namespace (namespace_uri a) = ns_attr_normalize_namespace uri"
    using assms(2) by (auto simp: ns_attr_matches_ns_def ns_attr_namespace_equal_def ns_attr_normalize_namespace_def split: if_splits)
  then show ?thesis
    using assms by (auto simp: attr_plain_def plain_class_def ns_attr_matches_ns_def split: if_splits)
qed

lemma find_set_other_all:
  "List.find hit' (set_first hit v new as) = List.find hit' as"
  if "\<not> hit' new" "list_all (\<lambda>a. hit a \<longrightarrow> \<not> hit' a \<and> \<not> hit' (a\<lparr>attr_value := v\<rparr>)) as"
  using that by (induction as) auto

lemma find_remove_other_all:
  "List.find hit' (remove_first_attr hit as) = List.find hit' as" if "list_all (\<lambda>a. hit a \<longrightarrow> \<not> hit' a) as"
  using that by (induction as) auto

lemma class_found_unchanged:
  assumes "kind n = NS_NODE_ELEMENT" "class_ok n" "class_guard op" "\<not> clears_class op"
  shows "List.find (class_hit n) (attrs (attr_step n op)) = List.find (class_hit n) (attrs n)"
proof -
  have plain: "attr_plain a" if "a \<in> set (attrs n)" for a using that assms(2) by (auto simp: class_ok_def list_all_iff)
  show ?thesis
  proof (cases op)
    case (Set_attr name v)
    then have "\<not> strcaseeq name ''class''" using assms(4) by (simp add: clears_class_def)
    then show ?thesis unfolding Set_attr attr_step.simps attrs_step [OF assms(1)]
      by (intro find_set_other) (auto dest!: class_hit_name dest: strcaseeq_other)
  next
    case (Remove_attr name)
    then have "\<not> strcaseeq name ''class''" using assms(4) by (simp add: clears_class_def)
    then show ?thesis unfolding Remove_attr attr_step.simps attrs_step [OF assms(1)]
      by (intro find_remove_other) (auto dest!: class_hit_name dest: strcaseeq_other)
  next
    case (Set_attr_ns uri pfx local qn val)
    then have nc: "\<not> (ns_attr_normalize_namespace uri = None \<and> strcaseeq local ''class'')"
      using assms(4) by (simp add: clears_class_def)
    have "\<not> strcaseeq (named qn local) ''class''"
      using nc assms(3) Set_attr_ns by (auto simp: named_def plain_class_def split: if_splits)
    then show ?thesis unfolding Set_attr_ns attr_step.simps attrs_step [OF assms(1)]
      using plain plain_not_class [OF _ _ nc]
      by (intro find_set_other_all) (auto simp: list_all_iff dest!: class_hit_name)
  next
    case (Remove_attr_ns uri local)
    then have nc: "\<not> (ns_attr_normalize_namespace uri = None \<and> strcaseeq local ''class'')"
      using assms(4) by (simp add: clears_class_def)
    then show ?thesis unfolding Remove_attr_ns attr_step.simps attrs_step [OF assms(1)]
      using plain plain_not_class [OF _ _ nc]
      by (intro find_remove_other_all) (auto simp: list_all_iff dest!: class_hit_name)
  qed (use assms(4) in \<open>auto simp: clears_class_def attrs_step [OF assms(1)]\<close>)
qed

lemma class_set_step:
  assumes "kind n = NS_NODE_ELEMENT"
  shows "clears_class op \<Longrightarrow> class_set (attr_step n op) = None"
    and "\<not> clears_class op \<Longrightarrow> class_set (attr_step n op) = class_set n \<or> class_set (attr_step n op) = Some (class_tokens n)"
  using assms
  by (cases op; auto simp: clears_class_def attr_op_defs ns_node_has_class_def ns_node_attr_bloom_def class_tokens_def Let_def
      split: option.splits)+

lemma cache_step:
  assumes "class_ok n" "cache_ok n" "class_guard op"
  shows "cache_ok (attr_step n op)"
proof (cases "kind n = NS_NODE_ELEMENT")
  case True
  show ?thesis
  proof (cases "clears_class op")
    case True
    then show ?thesis using class_set_step(1) [OF \<open>kind n = NS_NODE_ELEMENT\<close>] by (simp add: cache_ok_def)
  next
    case False
    have "class_tokens (attr_step n op) = class_tokens n"
      using True class_found_unchanged [OF True assms(1,3) False] by (intro tokens_eq) simp_all
    then show ?thesis using class_set_step(2) [OF True False] assms(2) by (auto simp: cache_ok_def)
  qed
next
  case False
  then have "attr_step n op = n \<or> (op = Bloom \<and> attr_step n op = fst (ns_node_attr_bloom n))"
    by (cases op) (simp_all add: attr_op_defs ns_node_has_class_def)
  then show ?thesis
    using assms(2) False
    by (auto simp: cache_ok_def ns_node_attr_bloom_def class_tokens_def ns_element_get_attr_def ns_element_find_attr_def Let_def
        split: if_splits)
qed

definition class_system_step :: "ns_node \<Rightarrow> attr_op \<Rightarrow> ns_node" where
  "class_system_step n op = (if class_guard op then attr_step n op else n)"

interpretation class_cache: invariant_system class_system_step "\<lambda>n. class_ok n \<and> cache_ok n"
  by unfold_locales (simp add: class_system_step_def class_guard_ok cache_step)

lemma guarded_run: "list_all class_guard ops \<Longrightarrow> foldl class_system_step n ops = foldl attr_step n ops"
  by (induction ops arbitrary: n) (simp_all add: class_system_step_def)

lemma has_class_tokens:
  assumes "kind n = NS_NODE_ELEMENT" "cache_ok n"
  shows "snd (ns_node_has_class n c) \<longleftrightarrow> c \<in> set (class_tokens n)"
  using assms
  by (auto simp: ns_node_has_class_def cache_ok_def class_tokens_def list_ex_iff Let_def split: option.splits)

text \<open>C8. Through any sequence of attribute operations, tests for classes and fillings of the filter in
  which no attribute with a namespace is given the name \<^verbatim>\<open>class\<close>, the cached class tokens stay those of the
  class attribute: an element has a class exactly if it is a token of the attribute's current value.\<close>

theorem dom_class_cache_coherent:
  assumes "class_ok n" and "cache_ok n" and "kind n = NS_NODE_ELEMENT" and "list_all class_guard ops"
  shows "let m = foldl attr_step n ops in
    cache_ok m \<and> (snd (ns_node_has_class m c) \<longleftrightarrow>
      (\<exists>val. ns_element_get_attr m ''class'' = Some val \<and> c \<in> set (ns_class_set_build val)))"
proof -
  let ?m = "foldl attr_step n ops"
  have "class_ok ?m \<and> cache_ok ?m"
    using class_cache.inv_run [of n ops] assms guarded_run [OF assms(4)] by simp
  moreover have "kind (foldl attr_step n ops) = NS_NODE_ELEMENT"
    using assms(3) by (induction ops arbitrary: n) simp_all
  ultimately show ?thesis
    using has_class_tokens [of ?m c]
    by (cases "ns_element_get_attr ?m ''class''") (simp_all add: class_tokens_def Let_def)
qed

theorem dom_class_cache_coherent_witness:
  "let m = foldl attr_step (ns_node_new_element ''p'') [Set_attr ''class'' ''a b'', Has_class ''a'', Set_attr ''CLASS'' ''c'', Has_class ''x''] in
     cache_ok m \<and> snd (ns_node_has_class m ''c'') \<and> \<not> snd (ns_node_has_class m ''a'')"
proof -
  let ?n = "ns_node_new_element ''p''"
  let ?ops = "[Set_attr ''class'' ''a b'', Has_class ''a'', Set_attr ''CLASS'' ''c'', Has_class ''x'']"
  have "class_ok ?n" "cache_ok ?n" "kind ?n = NS_NODE_ELEMENT" "list_all class_guard ?ops"
    by (simp_all add: class_ok_def cache_ok_def ns_node_new_element_def ns_node_new_def)
  note dom_class_cache_coherent [OF this, of "''c''"]
  moreover have "snd (ns_node_has_class (foldl attr_step ?n ?ops) ''c'')" "\<not> snd (ns_node_has_class (foldl attr_step ?n ?ops) ''a'')"
    by code_simp+
  ultimately show ?thesis by (simp only: Let_def simp_thms)
qed

text \<open>With a namespace the cache goes stale: after \<^verbatim>\<open>setAttributeNS(u, 'class', x)\<close>, a test for a class, and
  \<^verbatim>\<open>setAttributeNS(u, 'class', y)\<close>, the element still has the classes of \<^verbatim>\<open>x\<close> and none of \<^verbatim>\<open>y\<close>, although the value
  that is read for \<^verbatim>\<open>class\<close> is \<^verbatim>\<open>y\<close>.  (In the code the tokens point into the freed value.)\<close>

theorem dom_class_cache_stale:
  assumes "kind n = NS_NODE_ELEMENT" and "attrs n = []" and "class_set n = None" and "\<not> has_flag n NS_NODE_SVG_NS"
    and "u \<noteq> []" and "cstring x = x" and "cstring y = y"
  shows "let n1 = ns_element_set_attr_ns (Some u) None ''class'' (Some ''class'') (Some x) n;
             n2 = fst (ns_node_has_class n1 probe);
             n3 = ns_element_set_attr_ns (Some u) None ''class'' (Some ''class'') (Some y) n2
         in ns_element_get_attr n3 ''class'' = Some y \<and> snd (ns_node_has_class n3 c) = (c \<in> set (ns_class_set_build x))"
proof -
  have low: "ns_str_is_ascii_lower ''class''" by code_simp
  have m: "ns_attr_matches_ns a (Some u) ''class'' \<longleftrightarrow> namespace_uri a = Some u \<and> ns_attr_local_name a = ''class''" for a
    using assms(5) by (auto simp: ns_attr_matches_ns_def ns_attr_namespace_equal_def ns_attr_normalize_namespace_def)
  define A where "A v = \<lparr>attr_name = ''class'', attr_value = v, namespace_uri = Some u, attr_prefix = None,
    local_name = Some ''class'', attr_lower = True\<rparr>" for v
  have hit: "ns_attr_matches_ns (A v) (Some u) ''class''" for v by (simp add: m A_def ns_attr_local_name_def)
  have norm: "ns_attr_normalize_namespace (Some u) = Some u" using assms(5) by (simp add: ns_attr_normalize_namespace_def)
  let ?n1 = "ns_element_set_attr_ns (Some u) None ''class'' (Some ''class'') (Some x) n"
  let ?n2 = "fst (ns_node_has_class ?n1 probe)"
  let ?n3 = "ns_element_set_attr_ns (Some u) None ''class'' (Some ''class'') (Some y) ?n2"
  have n1: "attrs ?n1 = [A x]" "class_set ?n1 = None" "kind ?n1 = NS_NODE_ELEMENT" "node_flags ?n1 = node_flags n"
    using assms(1-3) low by (simp_all add: ns_element_set_attr_ns_def norm bump_def A_def Let_def)
  have get: "ns_element_get_attr q ''class'' = Some v"
    if "attrs q = [A v]" "kind q = NS_NODE_ELEMENT" "node_flags q = node_flags n" "cstring v = v" for q v
    using that assms(4) low by (simp add: ns_element_get_attr_def ns_element_find_attr_def has_flag_def A_def)
  have n2: "attrs ?n2 = [A x]" "class_set ?n2 = Some (ns_class_set_build x)" "kind ?n2 = NS_NODE_ELEMENT"
    "node_flags ?n2 = node_flags n"
    using n1 get [OF n1(1,3,4) assms(6)] by (simp_all add: ns_node_has_class_def Let_def)
  have n3: "attrs ?n3 = [A y]" "class_set ?n3 = Some (ns_class_set_build x)" "kind ?n3 = NS_NODE_ELEMENT"
    "node_flags ?n3 = node_flags n"
    using n2 hit [of x] by (simp_all add: ns_element_set_attr_ns_def norm bump_def A_def Let_def)
  show ?thesis
    using n3 get [OF n3(1,3,4) assms(7)] by (simp add: ns_node_has_class_def list_ex_iff Let_def)
qed

theorem dom_class_cache_stale_witness:
  "let n1 = ns_element_set_attr_ns (Some ''u'') None ''class'' (Some ''class'') (Some ''a'') (ns_node_new_element ''p'');
       n2 = fst (ns_node_has_class n1 ''a'');
       n3 = ns_element_set_attr_ns (Some ''u'') None ''class'' (Some ''class'') (Some ''b'') n2
   in ns_element_get_attr n3 ''class'' = Some ''b'' \<and> snd (ns_node_has_class n3 ''a'') = (''a'' \<in> set (ns_class_set_build ''a''))"
  by (rule dom_class_cache_stale)
    (simp_all add: ns_node_new_element_def ns_node_new_def has_flag_def cstring_def)

end
