(* ===== verification/NS_Dom_Index.thy ===== *)
theory NS_Dom_Index
  imports NS_Dom_Attr
begin

text \<open>
  Finding elements (\<^verbatim>\<open>src/dom.c\<close>): the searches through a subtree, the indexes a document keeps over its
  elements by id, class and tag, and the lookups that use them, with the notification of
  \<^verbatim>\<open>src/js.c\<close> that keeps the indexes up to date.  A freshly built index is shown to give the answers of
  the search, a lookup is sound in every state of the index, and two histories are given after which
  the lookup by id and the search disagree.
\<close>

section \<open>Searching a subtree\<close>

definition NS_DOM_MAX_DEPTH :: nat where "NS_DOM_MAX_DEPTH = 512"

fun first_some :: "('a \<Rightarrow> 'b option) \<Rightarrow> 'a list \<Rightarrow> 'b option" where
  "first_some f [] = None"
| "first_some f (x # xs) = (case f x of Some y \<Rightarrow> Some y | None \<Rightarrow> first_some f xs)"

text \<open>The number counts down the depth that is left, from \<^const>\<open>NS_DOM_MAX_DEPTH\<close>.\<close>

primrec ns_node_find_first_element_depth :: "nat \<Rightarrow> dom \<Rightarrow> ref \<Rightarrow> string \<Rightarrow> ref option" where
  "ns_node_find_first_element_depth 0 d root tag = None"
| "ns_node_find_first_element_depth (Suc k) d root tag =
     (if ns_node_is_element_named (nodes d) root tag then Some root
      else first_some (\<lambda>c. if ns_node_is_embedded_document (nodes d) c then None
                          else ns_node_find_first_element_depth k d c tag) (children d root))"

definition has_id :: "heap \<Rightarrow> string \<Rightarrow> ref \<Rightarrow> bool" where
  "has_id h i n \<longleftrightarrow> kind (h n) = NS_NODE_ELEMENT \<and> ns_element_get_attr (h n) ''id'' = Some i"

primrec ns_node_find_by_id_depth :: "nat \<Rightarrow> dom \<Rightarrow> ref \<Rightarrow> string \<Rightarrow> ref option" where
  "ns_node_find_by_id_depth 0 d root i = None"
| "ns_node_find_by_id_depth (Suc k) d root i =
     (if has_id (nodes d) i root then Some root
      else if ns_node_is_element_named (nodes d) root ''template'' then None
      else first_some (\<lambda>c. if ns_node_is_embedded_document (nodes d) c then None
                          else ns_node_find_by_id_depth k d c i) (children d root))"

primrec ns_node_find_anchor_name_depth :: "nat \<Rightarrow> dom \<Rightarrow> ref \<Rightarrow> string \<Rightarrow> ref option" where
  "ns_node_find_anchor_name_depth 0 d root name = None"
| "ns_node_find_anchor_name_depth (Suc k) d root name =
     (if ns_node_is_element_named (nodes d) root ''a'' \<and> ns_element_get_attr (nodes d root) ''name'' = Some name then Some root
      else if ns_node_is_element_named (nodes d) root ''template'' then None
      else first_some (\<lambda>c. ns_node_find_anchor_name_depth k d c name) (children d root))"

section \<open>The index of ids\<close>

definition set_node :: "ref \<Rightarrow> (ns_node \<Rightarrow> ns_node) \<Rightarrow> dom \<Rightarrow> dom" where
  "set_node r f d = d\<lparr>nodes := upd r f (nodes d)\<rparr>"

definition ns_doc_id_index_count :: "string \<Rightarrow> bool \<Rightarrow> ns_node \<Rightarrow> ns_node" where
  "ns_doc_id_index_count i up doc =
     (let counts = (case id_counts doc of Some c \<Rightarrow> c | None \<Rightarrow> Map.empty);
          cur = (case counts i of Some n \<Rightarrow> n | None \<Rightarrow> 0)
      in doc\<lparr>id_counts := Some (if up then counts(i \<mapsto> cur + 1)
              else if cur \<le> 1 then counts(i := None) else counts(i \<mapsto> cur - 1))\<rparr>)"

definition ns_doc_id_index_register :: "ref \<Rightarrow> string \<Rightarrow> ref \<Rightarrow> dom \<Rightarrow> dom" where
  "ns_doc_id_index_register doc i n d =
     (if id_index (nodes d doc) = None \<or> i = [] then d
      else
        let d = set_node doc (ns_doc_id_index_count i True) d
        in case id_index (nodes d doc) of
             Some m \<Rightarrow> if m i \<noteq> None then d else set_node doc (\<lambda>x. x\<lparr>id_index := Some (m(i \<mapsto> n))\<rparr>) d
           | None \<Rightarrow> d)"

definition ns_doc_id_index_unregister :: "ref \<Rightarrow> string \<Rightarrow> ref \<Rightarrow> dom \<Rightarrow> dom" where
  "ns_doc_id_index_unregister doc i n d =
     (if id_index (nodes d doc) = None \<or> i = [] then d
      else
        let d = set_node doc (ns_doc_id_index_count i False) d
        in case id_index (nodes d doc) of
             Some m \<Rightarrow> if m i = Some n then set_node doc (\<lambda>x. x\<lparr>id_index := Some (m(i := None))\<rparr>) d else d
           | None \<Rightarrow> d)"

text \<open>The loops over a subtree: what is done at an element, then the children, unless it is a template.\<close>

primrec index_subtree :: "nat \<Rightarrow> (ref \<Rightarrow> dom \<Rightarrow> dom) \<Rightarrow> ref \<Rightarrow> ref \<Rightarrow> dom \<Rightarrow> dom" where
  "index_subtree 0 act doc n d = d"
| "index_subtree (Suc k) act doc n d =
     (if n \<noteq> doc \<and> ns_node_is_embedded_document (nodes d) n then d
      else
        let d' = (if kind (nodes d n) = NS_NODE_ELEMENT then act n d else d)
        in if ns_node_is_element_named (nodes d') n ''template'' then d'
           else fold (index_subtree k act doc) (children d' n) d')"

definition register_id :: "ref \<Rightarrow> ref \<Rightarrow> dom \<Rightarrow> dom" where
  "register_id doc n d =
     (case ns_element_get_attr (nodes d n) ''id'' of
        Some i \<Rightarrow> if i \<noteq> [] then ns_doc_id_index_register doc i n d else d | None \<Rightarrow> d)"

definition unregister_id :: "ref \<Rightarrow> ref \<Rightarrow> dom \<Rightarrow> dom" where
  "unregister_id doc n d =
     (case ns_element_get_attr (nodes d n) ''id'' of
        Some i \<Rightarrow> if i \<noteq> [] then ns_doc_id_index_unregister doc i n d else d | None \<Rightarrow> d)"

definition ns_doc_id_index_add_subtree :: "ref \<Rightarrow> ref \<Rightarrow> dom \<Rightarrow> dom" where
  "ns_doc_id_index_add_subtree doc n d = index_subtree NS_DOM_MAX_DEPTH (register_id doc) doc n d"

definition ns_doc_id_index_remove_subtree :: "ref \<Rightarrow> ref \<Rightarrow> dom \<Rightarrow> dom" where
  "ns_doc_id_index_remove_subtree doc n d = index_subtree NS_DOM_MAX_DEPTH (unregister_id doc) doc n d"

definition ns_doc_id_index_build :: "ref \<Rightarrow> dom \<Rightarrow> dom" where
  "ns_doc_id_index_build doc d =
     (let d = set_node doc (\<lambda>x. x\<lparr>id_index := Some Map.empty,
            id_counts := (case id_counts x of Some _ \<Rightarrow> Some Map.empty | None \<Rightarrow> None)\<rparr>) d
      in ns_doc_id_index_add_subtree doc doc d)"

definition ns_doc_id_index_subtree_added :: "ref \<Rightarrow> ref \<Rightarrow> dom \<Rightarrow> dom" where
  "ns_doc_id_index_subtree_added doc root d =
     (if id_index (nodes d doc) = None then d else ns_doc_id_index_add_subtree doc root d)"

definition ns_doc_id_index_subtree_removed :: "ref \<Rightarrow> ref \<Rightarrow> dom \<Rightarrow> dom" where
  "ns_doc_id_index_subtree_removed doc root d =
     (if id_index (nodes d doc) = None then d else ns_doc_id_index_remove_subtree doc root d)"

text \<open>The lookup checks what the index says, and repairs it after a search.\<close>

definition ns_node_find_by_id :: "ref \<Rightarrow> string \<Rightarrow> dom \<Rightarrow> dom \<times> ref option" where
  "ns_node_find_by_id root i d =
     (if i = [] then (d, None)
      else case id_index (nodes d root) of
        None \<Rightarrow> (d, ns_node_find_by_id_depth NS_DOM_MAX_DEPTH d root i)
      | Some m \<Rightarrow>
          (case m i of
             Some hit \<Rightarrow>
               if ns_element_get_attr (nodes d hit) ''id'' = Some i \<and> ns_node_contains d root hit then (d, Some hit)
               else
                 let found = ns_node_find_by_id_depth NS_DOM_MAX_DEPTH d root i
                 in (set_node root (\<lambda>x. x\<lparr>id_index := Some (m(i := found))\<rparr>) d, found)
           | None \<Rightarrow>
               if id_counts (nodes d root) \<noteq> None \<and> the (id_counts (nodes d root)) i = None then (d, None)
               else
                 let found = ns_node_find_by_id_depth NS_DOM_MAX_DEPTH d root i
                 in (set_node root (\<lambda>x. x\<lparr>id_index := Some (m(i := found))\<rparr>) d, found)))"

definition ns_node_find_fragment_target :: "ref \<Rightarrow> string \<Rightarrow> dom \<Rightarrow> dom \<times> ref option" where
  "ns_node_find_fragment_target root frag d =
     (if frag = [] then (d, None)
      else case ns_node_find_by_id root frag d of
        (d', Some n) \<Rightarrow> (d', Some n)
      | (d', None) \<Rightarrow> (d', ns_node_find_anchor_name_depth NS_DOM_MAX_DEPTH d' root frag))"

section \<open>Document order\<close>

text \<open>The two chains of ancestors, cut to the same length, are climbed until the nodes have the same
  parent; there the siblings are searched in both directions.\<close>

fun climb :: "ref list \<Rightarrow> ref list \<Rightarrow> (ref \<times> ref) option" where
  "climb (a # as) (b # bs) = (if hd_opt as = hd_opt bs then Some (a, b) else climb as bs)"
| "climb _ _ = None"

fun sibling_scan :: "nat \<Rightarrow> heap \<Rightarrow> ref option \<Rightarrow> ref option \<Rightarrow> ref \<Rightarrow> int" where
  "sibling_scan 0 h fwd back cb = 0"
| "sibling_scan (Suc k) h fwd back cb =
     (if fwd = None \<and> back = None then 0
      else if fwd = Some cb then -1
      else if back = Some cb then 1
      else sibling_scan k h (case fwd of Some f \<Rightarrow> next_sibling (h f) | None \<Rightarrow> None)
             (case back of Some b \<Rightarrow> prev_sibling (h b) | None \<Rightarrow> None) cb)"

definition ns_node_document_order_cmp :: "dom \<Rightarrow> ref \<Rightarrow> ref \<Rightarrow> int" where
  "ns_node_document_order_cmp d a b =
     (if a = b then 0
      else
        let as = ancestors_or_self d a; bs = ancestors_or_self d b; da = length as; db = length bs;
            as' = drop (da - db) as; bs' = drop (db - da) bs
        in if hd_opt as' = hd_opt bs' then (if da < db then -1 else 1)
           else case climb as' bs' of
             None \<Rightarrow> 0
           | Some (ca, cb) \<Rightarrow>
               let h = nodes d; scan = sibling_scan (n_nodes d) h (next_sibling (h ca)) (prev_sibling (h ca)) cb
               in case parent (h ca) of
                    None \<Rightarrow> scan
                  | Some par \<Rightarrow>
                      if Some ca = first_child (h par) \<or> Some cb = last_child (h par) then -1
                      else if Some cb = first_child (h par) \<or> Some ca = last_child (h par) then 1
                      else scan)"

section \<open>The indexes of classes and tags\<close>

text \<open>An index entry is an array in document order.  \<^verbatim>\<open>building\<close> is the flag \<^verbatim>\<open>g_doc_index_building\<close>; the
  result \<^const>\<open>None\<close> of the binary search says that the node is already there.\<close>

function bin_search :: "dom \<Rightarrow> ref list \<Rightarrow> ref \<Rightarrow> nat \<Rightarrow> nat \<Rightarrow> nat option" where
  "bin_search d arr n lo hi =
     (if lo < hi then
        let mid = (lo + hi) div 2; c = ns_node_document_order_cmp d n (arr ! mid)
        in if c = 0 then None
           else if c < 0 then bin_search d arr n lo mid
           else bin_search d arr n (mid + 1) hi
      else Some lo)"
  by pat_completeness auto
termination
  by (relation "measure (\<lambda>(_, _, _, lo, hi). hi - lo)") auto

declare bin_search.simps [simp del]

definition ns_doc_index_ordered_insert :: "bool \<Rightarrow> dom \<Rightarrow> ref list \<Rightarrow> ref \<Rightarrow> ref list" where
  "ns_doc_index_ordered_insert building d arr n =
     (if building then (if arr = [] \<or> last arr \<noteq> n then arr @ [n] else arr)
      else if arr = [] \<or> ns_node_document_order_cmp d n (last arr) > 0 then arr @ [n]
      else case bin_search d arr n 0 (length arr) of
        None \<Rightarrow> arr
      | Some lo \<Rightarrow> take lo arr @ n # drop lo arr)"

definition index_add :: "bool \<Rightarrow> dom \<Rightarrow> node_table \<Rightarrow> string \<Rightarrow> ref \<Rightarrow> node_table" where
  "index_add building d table key n =
     table(key \<mapsto> (case table key of Some arr \<Rightarrow> ns_doc_index_ordered_insert building d arr n | None \<Rightarrow> [n]))"

definition index_remove :: "node_table \<Rightarrow> string \<Rightarrow> ref \<Rightarrow> node_table" where
  "index_remove table key n = (case table key of Some arr \<Rightarrow> table(key \<mapsto> remove1 n arr) | None \<Rightarrow> table)"

definition ns_doc_class_index_register :: "bool \<Rightarrow> ref \<Rightarrow> string \<Rightarrow> ref \<Rightarrow> dom \<Rightarrow> dom" where
  "ns_doc_class_index_register building doc class_attr n d =
     (case class_index (nodes d doc) of
        None \<Rightarrow> d
      | Some t \<Rightarrow> set_node doc (\<lambda>x. x\<lparr>class_index :=
          Some (fold (\<lambda>tok t. index_add building d t tok n) (ns_class_set_build class_attr) t)\<rparr>) d)"

definition ns_doc_class_index_unregister :: "ref \<Rightarrow> string \<Rightarrow> ref \<Rightarrow> dom \<Rightarrow> dom" where
  "ns_doc_class_index_unregister doc class_attr n d =
     (case class_index (nodes d doc) of
        None \<Rightarrow> d
      | Some t \<Rightarrow> set_node doc (\<lambda>x. x\<lparr>class_index :=
          Some (fold (\<lambda>tok t. index_remove t tok n) (ns_class_set_build class_attr) t)\<rparr>) d)"

definition register_class :: "bool \<Rightarrow> ref \<Rightarrow> ref \<Rightarrow> dom \<Rightarrow> dom" where
  "register_class building doc n d =
     (case ns_element_get_attr (nodes d n) ''class'' of
        Some cls \<Rightarrow> if cls \<noteq> [] then ns_doc_class_index_register building doc cls n d else d | None \<Rightarrow> d)"

definition unregister_class :: "ref \<Rightarrow> ref \<Rightarrow> dom \<Rightarrow> dom" where
  "unregister_class doc n d =
     (case ns_element_get_attr (nodes d n) ''class'' of
        Some cls \<Rightarrow> if cls \<noteq> [] then ns_doc_class_index_unregister doc cls n d else d | None \<Rightarrow> d)"

definition ns_doc_class_index_add_subtree :: "bool \<Rightarrow> ref \<Rightarrow> ref \<Rightarrow> dom \<Rightarrow> dom" where
  "ns_doc_class_index_add_subtree building doc n d = index_subtree NS_DOM_MAX_DEPTH (register_class building doc) doc n d"

definition ns_doc_class_index_remove_subtree :: "ref \<Rightarrow> ref \<Rightarrow> dom \<Rightarrow> dom" where
  "ns_doc_class_index_remove_subtree doc n d = index_subtree NS_DOM_MAX_DEPTH (unregister_class doc) doc n d"

definition ns_doc_class_index_build :: "ref \<Rightarrow> dom \<Rightarrow> dom" where
  "ns_doc_class_index_build doc d =
     ns_doc_class_index_add_subtree True doc doc (set_node doc (\<lambda>x. x\<lparr>class_index := Some Map.empty\<rparr>) d)"

definition ns_doc_class_index_subtree_added :: "ref \<Rightarrow> ref \<Rightarrow> dom \<Rightarrow> dom" where
  "ns_doc_class_index_subtree_added doc root d =
     (if class_index (nodes d doc) = None then d else ns_doc_class_index_add_subtree False doc root d)"

definition ns_doc_class_index_subtree_removed :: "ref \<Rightarrow> ref \<Rightarrow> dom \<Rightarrow> dom" where
  "ns_doc_class_index_subtree_removed doc root d =
     (if class_index (nodes d doc) = None then d else ns_doc_class_index_remove_subtree doc root d)"

definition ns_doc_tag_index_add_single :: "bool \<Rightarrow> ref \<Rightarrow> ref \<Rightarrow> dom \<Rightarrow> dom" where
  "ns_doc_tag_index_add_single building doc n d =
     (case (node_name (nodes d n), tag_index (nodes d doc)) of
        (Some tag, Some t) \<Rightarrow>
          if tag = [] then d
          else set_node doc (\<lambda>x. x\<lparr>tag_index := Some (index_add building d t (g_ascii_strdown tag) n)\<rparr>) d
      | _ \<Rightarrow> d)"

definition ns_doc_tag_index_remove_single :: "ref \<Rightarrow> ref \<Rightarrow> dom \<Rightarrow> dom" where
  "ns_doc_tag_index_remove_single doc n d =
     (case (node_name (nodes d n), tag_index (nodes d doc)) of
        (Some tag, Some t) \<Rightarrow>
          if tag = [] then d
          else set_node doc (\<lambda>x. x\<lparr>tag_index := Some (index_remove t (g_ascii_strdown tag) n)\<rparr>) d
      | _ \<Rightarrow> d)"

definition ns_doc_tag_index_add_subtree :: "bool \<Rightarrow> ref \<Rightarrow> ref \<Rightarrow> dom \<Rightarrow> dom" where
  "ns_doc_tag_index_add_subtree building doc n d =
     index_subtree NS_DOM_MAX_DEPTH (ns_doc_tag_index_add_single building doc) doc n d"

definition ns_doc_tag_index_remove_subtree :: "ref \<Rightarrow> ref \<Rightarrow> dom \<Rightarrow> dom" where
  "ns_doc_tag_index_remove_subtree doc n d = index_subtree NS_DOM_MAX_DEPTH (ns_doc_tag_index_remove_single doc) doc n d"

definition ns_doc_tag_index_build :: "ref \<Rightarrow> dom \<Rightarrow> dom" where
  "ns_doc_tag_index_build doc d =
     ns_doc_tag_index_add_subtree True doc doc (set_node doc (\<lambda>x. x\<lparr>tag_index := Some Map.empty\<rparr>) d)"

definition ns_doc_tag_index_subtree_added :: "ref \<Rightarrow> ref \<Rightarrow> dom \<Rightarrow> dom" where
  "ns_doc_tag_index_subtree_added doc root d =
     (if tag_index (nodes d doc) = None then d else ns_doc_tag_index_add_subtree False doc root d)"

definition ns_doc_tag_index_subtree_removed :: "ref \<Rightarrow> ref \<Rightarrow> dom \<Rightarrow> dom" where
  "ns_doc_tag_index_subtree_removed doc root d =
     (if tag_index (nodes d doc) = None then d else ns_doc_tag_index_remove_subtree doc root d)"

definition ns_doc_tag_index_lookup :: "ns_node \<Rightarrow> string \<Rightarrow> ref list option" where
  "ns_doc_tag_index_lookup doc tag =
     (case tag_index doc of None \<Rightarrow> None | Some t \<Rightarrow> if tag = [] then None else t (g_ascii_strdown tag))"

definition ns_node_find_first_element :: "dom \<Rightarrow> ref \<Rightarrow> string \<Rightarrow> ref option" where
  "ns_node_find_first_element d root tag =
     (if tag \<noteq> [] \<and> tag_index (nodes d root) \<noteq> None then
        (case ns_doc_tag_index_lookup (nodes d root) tag of Some (n # _) \<Rightarrow> Some n | _ \<Rightarrow> None)
      else ns_node_find_first_element_depth NS_DOM_MAX_DEPTH d root tag)"

section \<open>Notifications from the scripts\<close>

text \<open>\<^verbatim>\<open>ns_js_index_child_change\<close>: a removed subtree leaves the indexes of the current document wherever it
  was, an added one enters them if its parent is connected.\<close>

definition ns_js_index_child_change :: "ref \<Rightarrow> ref \<Rightarrow> ref option \<Rightarrow> ref option \<Rightarrow> dom \<Rightarrow> dom" where
  "ns_js_index_child_change doc par added removed d =
     (let parent_connected = ns_node_contains d doc par;
          d = (case removed of
                 Some r \<Rightarrow> ns_doc_tag_index_subtree_removed doc r
                   (ns_doc_class_index_subtree_removed doc r (ns_doc_id_index_subtree_removed doc r d))
               | None \<Rightarrow> d)
      in case added of
           Some a \<Rightarrow>
             if parent_connected then
               ns_doc_tag_index_subtree_added doc a
                 (ns_doc_class_index_subtree_added doc a (ns_doc_id_index_subtree_added doc a d))
             else d
         | None \<Rightarrow> d)"

section \<open>The nodes a search visits\<close>

text \<open>The elements that a search or an index can find, in document order: templates are entered only as
  far as their own element, embedded documents not at all, and the depth is limited.\<close>

primrec visited :: "nat \<Rightarrow> dom \<Rightarrow> ref \<Rightarrow> ref list" where
  "visited 0 d n = []"
| "visited (Suc k) d n =
     n # (if ns_node_is_element_named (nodes d) n ''template'' then []
          else concat (map (\<lambda>c. if ns_node_is_embedded_document (nodes d) c then [] else visited k d c) (children d n)))"

lemma first_some_find:
  "(\<And>c. c \<in> set cs \<Longrightarrow> f c = List.find P (g c)) \<Longrightarrow> first_some f cs = List.find P (concat (map g cs))"
  by (induction cs) (simp_all add: find_append split: option.split)

lemma find_by_id_visited: "ns_node_find_by_id_depth k d n i = List.find (has_id (nodes d) i) (visited k d n)"
proof (induction k arbitrary: n)
  case (Suc k)
  have "first_some (\<lambda>c. if ns_node_is_embedded_document (nodes d) c then None else ns_node_find_by_id_depth k d c i) (children d n) =
      List.find (has_id (nodes d) i) (concat (map (\<lambda>c. if ns_node_is_embedded_document (nodes d) c then [] else visited k d c) (children d n)))"
    by (rule first_some_find) (simp add: Suc)
  then show ?case by simp
qed simp

text \<open>Operations on the indexes change neither links nor attributes.\<close>

definition same_tree :: "dom \<Rightarrow> dom \<Rightarrow> bool" where
  "same_tree d d' \<longleftrightarrow> n_nodes d' = n_nodes d \<and>
     (\<forall>r. kind (nodes d' r) = kind (nodes d r) \<and> node_name (nodes d' r) = node_name (nodes d r) \<and>
        node_text (nodes d' r) = node_text (nodes d r) \<and>
        attrs (nodes d' r) = attrs (nodes d r) \<and> node_flags (nodes d' r) = node_flags (nodes d r) \<and>
        parent (nodes d' r) = parent (nodes d r) \<and> first_child (nodes d' r) = first_child (nodes d r) \<and>
        last_child (nodes d' r) = last_child (nodes d r) \<and>
        prev_sibling (nodes d' r) = prev_sibling (nodes d r) \<and> next_sibling (nodes d' r) = next_sibling (nodes d r))"

lemma same_tree_refl [simp]: "same_tree d d" and same_tree_trans: "same_tree a b \<Longrightarrow> same_tree b c \<Longrightarrow> same_tree a c"
  by (simp_all add: same_tree_def)

lemma same_tree_set_node:
  "(\<And>x. kind (f x) = kind x \<and> node_name (f x) = node_name x \<and> node_text (f x) = node_text x \<and> attrs (f x) = attrs x \<and> node_flags (f x) = node_flags x \<and>
      parent (f x) = parent x \<and> first_child (f x) = first_child x \<and> last_child (f x) = last_child x \<and>
      prev_sibling (f x) = prev_sibling x \<and> next_sibling (f x) = next_sibling x) \<Longrightarrow> same_tree d (set_node r f d)"
  by (simp add: same_tree_def set_node_def upd_apply)

lemma same_siblings: "same_tree d d' \<Longrightarrow> sibling_list k (nodes d') c = sibling_list k (nodes d) c"
  by (induction k "nodes d" c rule: sibling_list.induct) (simp_all add: same_tree_def)

lemma same_children: "same_tree d d' \<Longrightarrow> children d' n = children d n"
  by (simp add: children_def same_siblings) (simp add: same_tree_def)

lemma same_named: "same_tree d d' \<Longrightarrow> ns_node_is_element_named (nodes d') n t = ns_node_is_element_named (nodes d) n t"
  and same_embedded: "same_tree d d' \<Longrightarrow> ns_node_is_embedded_document (nodes d') n = ns_node_is_embedded_document (nodes d) n"
  by (simp_all add: same_tree_def ns_node_is_element_named_def ns_node_is_embedded_document_def)

lemma same_get_attr: "same_tree d d' \<Longrightarrow> ns_element_get_attr (nodes d' n) name = ns_element_get_attr (nodes d n) name"
  by (simp add: same_tree_def ns_element_get_attr_def ns_element_find_attr_def has_flag_def)

lemma same_has_id: "same_tree d d' \<Longrightarrow> has_id (nodes d') i n = has_id (nodes d) i n"
  using same_get_attr [of d d' n "''id''"] by (simp add: has_id_def same_tree_def)

lemma same_visited: "same_tree d d' \<Longrightarrow> visited k d' n = visited k d n"
proof (induction k arbitrary: n)
  case (Suc k)
  then have "visited k d' = visited k d" by (intro ext) simp
  then show ?case using Suc.prems by (simp add: same_children same_named same_embedded cong: if_cong)
qed simp

lemma same_chain: "same_tree d d' \<Longrightarrow> parent_chain k (nodes d') n = parent_chain k (nodes d) n"
  by (induction k "nodes d" n rule: parent_chain.induct) (simp_all add: same_tree_def split: option.split)

lemma same_contains: "same_tree d d' \<Longrightarrow> ns_node_contains d' a n = ns_node_contains d a n"
  by (simp add: ns_node_contains_def ancestors_or_self_def same_chain) (simp add: same_tree_def)

text \<open>The loop over a subtree runs the action on the visited elements in order.\<close>

definition on_element :: "(ref \<Rightarrow> dom \<Rightarrow> dom) \<Rightarrow> ref \<Rightarrow> dom \<Rightarrow> dom" where
  "on_element act n d = (if kind (nodes d n) = NS_NODE_ELEMENT then act n d else d)"

lemma fold_same: "(\<And>n d. same_tree d (f n d)) \<Longrightarrow> same_tree d (fold f ns d)"
  by (induction ns arbitrary: d) (auto intro: same_tree_trans)

lemma index_subtree_fold:
  assumes act: "\<And>n d. same_tree d (act n d)" and doc: "parent (nodes d doc) = None"
  shows "index_subtree k act doc n d =
    fold (on_element act) (if ns_node_is_embedded_document (nodes d) n then [] else visited k d n) d"
  using doc
proof (induction k arbitrary: n d)
  case (Suc k)
  have emb: "n \<noteq> doc \<and> ns_node_is_embedded_document (nodes d) n \<longleftrightarrow> ns_node_is_embedded_document (nodes d) n"
    using Suc.prems by (auto simp: ns_node_is_embedded_document_def)
  let ?d = "on_element act n d"
  have same: "same_tree d ?d" using act by (simp add: on_element_def)
  have st: "same_tree e (on_element act m e)" for m e using act by (simp add: on_element_def)
  have kids: "fold (index_subtree k act doc) cs e =
      fold (on_element act) (concat (map (\<lambda>c. if ns_node_is_embedded_document (nodes d) c then [] else visited k d c) cs)) e"
    if "same_tree d e" for cs e
    using that
  proof (induction cs arbitrary: e)
    case (Cons c cs)
    have "parent (nodes e doc) = None" using Cons.prems Suc.prems by (simp add: same_tree_def)
    then have step: "index_subtree k act doc c e =
        fold (on_element act) (if ns_node_is_embedded_document (nodes d) c then [] else visited k d c) e"
      using Suc.IH same_embedded [OF Cons.prems] same_visited [OF Cons.prems] by simp
    moreover have "same_tree d (index_subtree k act doc c e)"
      unfolding step using Cons.prems fold_same [OF st] by (rule same_tree_trans)
    ultimately show ?case using Cons.IH [of "index_subtree k act doc c e"] by simp
  qed simp
  have fold_d: "(if kind (nodes d n) = NS_NODE_ELEMENT then act n d else d) = ?d" by (simp add: on_element_def)
  show ?case
    unfolding index_subtree.simps fold_d emb same_named [OF same] same_children [OF same] kids [OF same] Let_def
    by simp
qed simp

section \<open>What the index of ids holds after it was built\<close>

lemma register_tree: "same_tree d (ns_doc_id_index_register doc i n d)"
  by (auto simp: ns_doc_id_index_register_def ns_doc_id_index_count_def Let_def split: option.split
      intro!: same_tree_set_node same_tree_trans [OF same_tree_set_node same_tree_set_node])

lemma register_id_tree: "same_tree d (register_id doc n d)"
  by (simp add: register_id_def register_tree split: option.split)

definition index_at :: "dom \<Rightarrow> ref \<Rightarrow> string \<Rightarrow> ref option" where
  "index_at d doc i = (case id_index (nodes d doc) of Some m \<Rightarrow> m i | None \<Rightarrow> None)"

definition count_at :: "dom \<Rightarrow> ref \<Rightarrow> string \<Rightarrow> nat" where
  "count_at d doc i = (case id_counts (nodes d doc) of Some c \<Rightarrow> (case c i of Some n \<Rightarrow> n | None \<Rightarrow> 0) | None \<Rightarrow> 0)"

lemma register_state:
  assumes "id_index (nodes d doc) \<noteq> None" "i \<noteq> []"
  shows "index_at (ns_doc_id_index_register doc i n d) doc j =
      (if j = i \<and> index_at d doc i = None then Some n else index_at d doc j)"
    and "count_at (ns_doc_id_index_register doc i n d) doc j = (if j = i then count_at d doc j + 1 else count_at d doc j)"
    and "id_index (nodes (ns_doc_id_index_register doc i n d) doc) \<noteq> None"
  using assms
  by (auto simp: ns_doc_id_index_register_def ns_doc_id_index_count_def index_at_def count_at_def set_node_def Let_def
      split: option.splits)

lemma register_element_cases:
  "(on_element (register_id doc) n d = d \<and> (\<forall>i. i \<noteq> [] \<longrightarrow> \<not> has_id (nodes d) i n)) \<or>
   (\<exists>j. on_element (register_id doc) n d = ns_doc_id_index_register doc j n d \<and> j \<noteq> [] \<and> (\<forall>i. has_id (nodes d) i n \<longleftrightarrow> i = j))"
proof (cases "kind (nodes d n) = NS_NODE_ELEMENT \<and> ns_element_get_attr (nodes d n) ''id'' \<notin> {None, Some []}")
  case True
  then obtain j where "ns_element_get_attr (nodes d n) ''id'' = Some j" "j \<noteq> []" by auto
  with True show ?thesis by (intro disjI2 exI [of _ j]) (auto simp: on_element_def register_id_def has_id_def)
next
  case False
  then show ?thesis by (intro disjI1) (auto simp: on_element_def register_id_def has_id_def split: option.split)
qed

lemma register_element:
  assumes "id_index (nodes d doc) \<noteq> None"
  shows "i \<noteq> [] \<Longrightarrow> index_at (on_element (register_id doc) n d) doc i =
      (case index_at d doc i of Some x \<Rightarrow> Some x | None \<Rightarrow> if has_id (nodes d) i n then Some n else None)"
    and "i \<noteq> [] \<Longrightarrow> count_at (on_element (register_id doc) n d) doc i = count_at d doc i + (if has_id (nodes d) i n then 1 else 0)"
    and "id_index (nodes (on_element (register_id doc) n d) doc) \<noteq> None"
proof -
  have all: "(i \<noteq> [] \<longrightarrow> index_at (on_element (register_id doc) n d) doc i =
      (case index_at d doc i of Some x \<Rightarrow> Some x | None \<Rightarrow> if has_id (nodes d) i n then Some n else None)) \<and>
    (i \<noteq> [] \<longrightarrow> count_at (on_element (register_id doc) n d) doc i = count_at d doc i + (if has_id (nodes d) i n then 1 else 0)) \<and>
    id_index (nodes (on_element (register_id doc) n d) doc) \<noteq> None"
    using register_element_cases [of doc n d]
  proof
    assume "on_element (register_id doc) n d = d \<and> (\<forall>i. i \<noteq> [] \<longrightarrow> \<not> has_id (nodes d) i n)"
    then show ?thesis using assms by (auto split: option.split)
  next
    assume "\<exists>j. on_element (register_id doc) n d = ns_doc_id_index_register doc j n d \<and> j \<noteq> [] \<and> (\<forall>i. has_id (nodes d) i n \<longleftrightarrow> i = j)"
    then obtain j where j: "on_element (register_id doc) n d = ns_doc_id_index_register doc j n d" "j \<noteq> []"
      "\<And>i. has_id (nodes d) i n \<longleftrightarrow> i = j" by blast
    note st = register_state(1,2) [OF assms j(2), of n i] register_state(3) [OF assms j(2), of n]
    show ?thesis unfolding j(1,3) st(1,2) using st(3) by (cases "index_at d doc i"; cases "i = j") simp_all
  qed
  show "i \<noteq> [] \<Longrightarrow> index_at (on_element (register_id doc) n d) doc i =
      (case index_at d doc i of Some x \<Rightarrow> Some x | None \<Rightarrow> if has_id (nodes d) i n then Some n else None)"
    and "i \<noteq> [] \<Longrightarrow> count_at (on_element (register_id doc) n d) doc i = count_at d doc i + (if has_id (nodes d) i n then 1 else 0)"
    and "id_index (nodes (on_element (register_id doc) n d) doc) \<noteq> None"
    using all by blast+
qed

lemma register_run:
  assumes "id_index (nodes d doc) \<noteq> None" "i \<noteq> []"
  shows "index_at (fold (on_element (register_id doc)) ns d) doc i =
      (case index_at d doc i of Some x \<Rightarrow> Some x | None \<Rightarrow> List.find (has_id (nodes d) i) ns) \<and>
    count_at (fold (on_element (register_id doc)) ns d) doc i = count_at d doc i + length (filter (has_id (nodes d) i) ns) \<and>
    id_index (nodes (fold (on_element (register_id doc)) ns d) doc) \<noteq> None"
  using assms(1)
proof (induction ns arbitrary: d)
  case Nil
  then show ?case apply (cases "index_at d doc i") apply simp_all done
next
  case (Cons n ns)
  let ?d = "on_element (register_id doc) n d"
  have same: "same_tree d ?d" using register_id_tree by (simp add: on_element_def)
  then have id: "has_id (nodes ?d) i = has_id (nodes d) i" by (intro ext) (rule same_has_id)
  note st = register_element(1,2) [OF Cons.prems assms(2), of n]

  note ih = Cons.IH [OF register_element(3) [OF Cons.prems, of n], unfolded id st]
  have a: "index_at (fold (on_element (register_id doc)) (n # ns) d) doc i =
      (case index_at d doc i of Some x \<Rightarrow> Some x | None \<Rightarrow> List.find (has_id (nodes d) i) (n # ns))"
    unfolding fold_simps find.simps ih [THEN conjunct1] by (cases "index_at d doc i"; cases "has_id (nodes d) i n"; simp only: option.case if_True if_False)
  have b: "count_at (fold (on_element (register_id doc)) (n # ns) d) doc i = count_at d doc i + length (filter (has_id (nodes d) i) (n # ns))"
    unfolding fold_simps filter.simps ih [THEN conjunct2, THEN conjunct1] by (cases "has_id (nodes d) i n"; simp only: if_True if_False list.size)
  show ?case using a b ih unfolding fold_simps by blast
qed

lemma built_index:
  assumes "parent (nodes d doc) = None" "i \<noteq> []"
  shows "index_at (ns_doc_id_index_build doc d) doc i = List.find (has_id (nodes d) i) (visited NS_DOM_MAX_DEPTH d doc)"
    and "count_at (ns_doc_id_index_build doc d) doc i = length (filter (has_id (nodes d) i) (visited NS_DOM_MAX_DEPTH d doc))"
    and "same_tree d (ns_doc_id_index_build doc d)"
    and "id_index (nodes (ns_doc_id_index_build doc d) doc) \<noteq> None"
proof -
  define d0 where "d0 = set_node doc (\<lambda>x. x\<lparr>id_index := Some Map.empty,
            id_counts := (case id_counts x of Some _ \<Rightarrow> Some Map.empty | None \<Rightarrow> None)\<rparr>) d"
  have s0: "same_tree d d0" unfolding d0_def by (rule same_tree_set_node) simp
  have p0: "parent (nodes d0 doc) = None" using s0 assms(1) by (simp add: same_tree_def)
  have not_emb: "\<not> ns_node_is_embedded_document (nodes d0) doc"
    using p0 by (simp add: ns_node_is_embedded_document_def)
  have run: "ns_doc_id_index_build doc d = fold (on_element (register_id doc)) (visited NS_DOM_MAX_DEPTH d doc) d0"
    unfolding ns_doc_id_index_build_def ns_doc_id_index_add_subtree_def Let_def d0_def [symmetric]
      index_subtree_fold [OF register_id_tree p0] same_visited [OF s0]
    using not_emb by (simp only: if_False)
  have id0: "has_id (nodes d0) i = has_id (nodes d) i" by (intro ext) (rule same_has_id [OF s0])
  have i0: "id_index (nodes d0 doc) \<noteq> None" by (simp add: d0_def set_node_def)
  have e0: "index_at d0 doc i = None" "count_at d0 doc i = 0"
    by (simp_all add: index_at_def count_at_def d0_def set_node_def split: option.split)
  note r = register_run [OF i0 assms(2), of "visited NS_DOM_MAX_DEPTH d doc", unfolded id0 e0 run [symmetric]]
  show "index_at (ns_doc_id_index_build doc d) doc i = List.find (has_id (nodes d) i) (visited NS_DOM_MAX_DEPTH d doc)"
    "count_at (ns_doc_id_index_build doc d) doc i = length (filter (has_id (nodes d) i) (visited NS_DOM_MAX_DEPTH d doc))"
    "id_index (nodes (ns_doc_id_index_build doc d) doc) \<noteq> None"
    using r unfolding option.case add_0 by blast+
  have "same_tree e (on_element (register_id doc) n e)" for n e using register_id_tree by (simp add: on_element_def)
  then show "same_tree d (ns_doc_id_index_build doc d)"
    unfolding run by (rule same_tree_trans [OF s0 fold_same])
qed

text \<open>What is visited lies below the start.\<close>

lemma visited_below:
  assumes "dom_tree d K"
  shows "m \<in> set (visited k d n) \<Longrightarrow> (n, m) \<in> (edges K)\<^sup>*"
proof (induction k arbitrary: n)
  case (Suc k)
  then consider "m = n" | c where "c \<in> set (children d n)" "m \<in> set (visited k d c)"
    by (auto split: if_splits)
  then show ?case
  proof cases
    case 2
    then have "(n, c) \<in> edges K" using children_eq [OF assms] by (simp add: edges_def)
    with 2 Suc.IH show ?thesis by (auto intro: converse_rtrancl_into_rtrancl)
  qed simp
qed simp

lemma below_allocated: "dom_tree d K \<Longrightarrow> n < n_nodes d \<Longrightarrow> (n, m) \<in> (edges K)\<^sup>* \<Longrightarrow> m < n_nodes d"
  by (erule rtranclE) (auto simp: edges_def dest: dom_treeD(2))

section \<open>Lookups by id\<close>

lemma find_by_id_sound:
  assumes "ns_node_find_by_id_depth k d n i = Some m"
  shows "has_id (nodes d) i m \<and> m \<in> set (visited k d n)"
  using assms by (auto simp: find_by_id_visited find_Some_iff)

lemma lookup_after_build:
  assumes "dom_tree d K" and "doc < n_nodes d" and "parent (nodes d doc) = None" and "i \<noteq> []"
  shows "snd (ns_node_find_by_id doc i (ns_doc_id_index_build doc d)) = ns_node_find_by_id_depth NS_DOM_MAX_DEPTH d doc i \<and>
    ns_node_find_by_id_depth NS_DOM_MAX_DEPTH d doc i = List.find (has_id (nodes d) i) (visited NS_DOM_MAX_DEPTH d doc)"
proof -
  let ?d = "ns_doc_id_index_build doc d"
  note b = built_index [OF assms(3,4)]
  obtain m where m: "id_index (nodes ?d doc) = Some m" using b(4) by blast
  have mi: "m i = List.find (has_id (nodes d) i) (visited NS_DOM_MAX_DEPTH d doc)"
    using b(1) m by (simp add: index_at_def)
  have search: "ns_node_find_by_id_depth NS_DOM_MAX_DEPTH ?d doc i = List.find (has_id (nodes d) i) (visited NS_DOM_MAX_DEPTH d doc)"
  proof -
    have "has_id (nodes ?d) i = has_id (nodes d) i" by (intro ext) (rule same_has_id [OF b(3)])
    then show ?thesis by (simp add: find_by_id_visited same_visited [OF b(3)])
  qed
  have "snd (ns_node_find_by_id doc i ?d) = List.find (has_id (nodes d) i) (visited NS_DOM_MAX_DEPTH d doc)"
  proof (cases "m i")
    case None
    then show ?thesis using m mi search assms(4) by (auto simp: ns_node_find_by_id_def Let_def)
  next
    case (Some hit)
    then have hit: "has_id (nodes d) i hit" "hit \<in> set (visited NS_DOM_MAX_DEPTH d doc)"
      using mi find_by_id_sound [of NS_DOM_MAX_DEPTH d doc i hit] by (auto simp: find_by_id_visited)
    have below: "(doc, hit) \<in> (edges K)\<^sup>*" using visited_below [OF assms(1) hit(2)] .
    then have "ns_node_contains d doc hit"
      using tree_contains [OF assms(1)] below_allocated [OF assms(1,2)] by blast
    then have "ns_node_contains ?d doc hit" using same_contains [OF b(3)] by simp
    moreover have "ns_element_get_attr (nodes ?d hit) ''id'' = Some i"
      using hit(1) same_get_attr [OF b(3)] by (simp add: has_id_def)
    ultimately show ?thesis using m Some mi assms(4) by (simp add: ns_node_find_by_id_def)
  qed
  then show ?thesis by (simp add: find_by_id_visited)
qed

text \<open>C9. After the index of ids was built, the lookup by id gives exactly what the search through the
  document gives: the first element in document order, outside templates and embedded documents and
  above the depth limit, that has the id, or nothing if there is none.\<close>

theorem dom_id_index_exact:
  assumes "dom_tree d K" and "doc < n_nodes d" and "parent (nodes d doc) = None" and "i \<noteq> []"
  shows "snd (ns_node_find_by_id doc i (ns_doc_id_index_build doc d)) = ns_node_find_by_id_depth NS_DOM_MAX_DEPTH d doc i \<and>
    ns_node_find_by_id_depth NS_DOM_MAX_DEPTH d doc i = List.find (has_id (nodes d) i) (visited NS_DOM_MAX_DEPTH d doc)"
  using assms by (rule lookup_after_build)

text \<open>Whatever the index holds, the lookup by id never returns an element that does not have the id or
  is not in the tree below the document, it changes neither links nor attributes, and it finds nothing
  although there is such an element only if the counts do not know the id.\<close>

theorem dom_get_by_id_sound:
  assumes "dom_tree d K" and "doc < n_nodes d"
  shows "let (d', res) = ns_node_find_by_id doc i d in
    same_tree d d' \<and>
    (\<forall>n. res = Some n \<longrightarrow> ns_element_get_attr (nodes d n) ''id'' = Some i \<and> (doc, n) \<in> (edges K)\<^sup>*) \<and>
    (res = None \<longrightarrow> i = [] \<or> (\<forall>n \<in> set (visited NS_DOM_MAX_DEPTH d doc). \<not> has_id (nodes d) i n) \<or>
       (\<exists>c. id_counts (nodes d doc) = Some c \<and> c i = None))"
proof -
  have below: "(doc, n) \<in> (edges K)\<^sup>*" if "ns_node_contains d doc n" for n
  proof -
    have "doc \<in> set (parent_chain (n_nodes d) (nodes d) n)"
      using that by (auto simp: ns_node_contains_def ancestors_or_self_def list_ex_iff)
    then show ?thesis using parent_chain_sound [OF dom_treeD(1) [OF assms(1)]] by blast
  qed
  have search: "ns_element_get_attr (nodes d n) ''id'' = Some i \<and> (doc, n) \<in> (edges K)\<^sup>*"
    if "ns_node_find_by_id_depth NS_DOM_MAX_DEPTH d doc i = Some n" for n
    using find_by_id_sound [OF that] by (auto simp: has_id_def intro: visited_below [OF assms(1)])
  have none: "\<forall>n \<in> set (visited NS_DOM_MAX_DEPTH d doc). \<not> has_id (nodes d) i n"
    if "ns_node_find_by_id_depth NS_DOM_MAX_DEPTH d doc i = None"
    using that by (auto simp: find_by_id_visited find_None_iff)
  have same: "same_tree d (set_node doc (\<lambda>x. x\<lparr>id_index := v\<rparr>) d)" for v by (rule same_tree_set_node) simp
  show ?thesis
    using below search none same
    by (cases "id_index (nodes d doc)"; cases "i = []";
        cases "the (id_index (nodes d doc)) i"; cases "id_counts (nodes d doc)")
      (auto simp: ns_node_find_by_id_def Let_def)
qed

text \<open>A store of nodes that are not linked yet.\<close>

definition store :: "ns_node list \<Rightarrow> dom" where
  "store ns = \<lparr>nodes = (\<lambda>r. if r < length ns then ns ! r else ns_node_new NS_NODE_TEXT), n_nodes = length ns\<rparr>"

definition unlinked :: "ns_node \<Rightarrow> bool" where
  "unlinked n \<longleftrightarrow> parent n = None \<and> first_child n = None \<and> last_child n = None \<and> prev_sibling n = None \<and> next_sibling n = None"

lemma store_represents: "list_all unlinked ns \<Longrightarrow> dom_represents (store ns) (length ns, \<lambda>_. [])"
  by (auto simp: dom_represents_def dom_tree_def store_def forest_def siblings_ok_def edges_def acyclic_def unlinked_def
      ns_node_new_def list_all_length)

definition with_id :: "string \<Rightarrow> ns_node" where
  "with_id i = ns_element_set_attr_len ''id'' i (ns_node_new_element ''p'')"

text \<open>A document with two elements of the same id, a detached parent and a detached element of this id.\<close>

definition sample_dom :: dom where
  "sample_dom = foldl link_step
     (store [ns_node_new_document, with_id ''x'', with_id ''x'', ns_node_new_element ''div'', with_id ''x''])
     [Append_child 0 1, Append_child 0 2, Append_child 3 4]"

lemma sample_dom_tree: "\<exists>K. dom_tree sample_dom K"
proof -
  have "list_all unlinked [ns_node_new_document, with_id ''x'', with_id ''x'', ns_node_new_element ''div'', with_id ''x'']"
    by code_simp
  from dom_links.run_refines [OF store_represents [OF this]] show ?thesis
    unfolding sample_dom_def dom_represents_def by blast
qed

theorem dom_id_index_exact_witness:
  "snd (ns_node_find_by_id 0 ''x'' (ns_doc_id_index_build 0 sample_dom)) = ns_node_find_by_id_depth NS_DOM_MAX_DEPTH sample_dom 0 ''x'' \<and>
   snd (ns_node_find_by_id 0 ''x'' (ns_doc_id_index_build 0 sample_dom)) = Some 1"
proof -
  obtain K where "dom_tree sample_dom K" using sample_dom_tree by blast
  moreover have "0 < n_nodes sample_dom" "parent (nodes sample_dom 0) = None" by code_simp+
  ultimately have "snd (ns_node_find_by_id 0 ''x'' (ns_doc_id_index_build 0 sample_dom)) = ns_node_find_by_id_depth NS_DOM_MAX_DEPTH sample_dom 0 ''x''"
    using dom_id_index_exact [of sample_dom K 0 "''x''"] by simp
  moreover have "snd (ns_node_find_by_id 0 ''x'' (ns_doc_id_index_build 0 sample_dom)) = Some 1" by code_simp
  ultimately show ?thesis by simp
qed

theorem dom_get_by_id_sound_witness:
  "let (d', res) = ns_node_find_by_id 0 ''x'' sample_dom in same_tree sample_dom d' \<and> res = Some 1 \<and>
     ns_element_get_attr (nodes sample_dom 1) ''id'' = Some ''x''"
proof -
  obtain K where K: "dom_tree sample_dom K" using sample_dom_tree by blast
  have n: "0 < n_nodes sample_dom" by code_simp
  have res: "snd (ns_node_find_by_id 0 ''x'' sample_dom) = Some 1" by code_simp
  obtain d' where d': "ns_node_find_by_id 0 ''x'' sample_dom = (d', Some 1)" using res by (metis prod.collapse)
  show ?thesis using dom_get_by_id_sound [OF K n, of "''x''"] unfolding d' by (simp add: Let_def)
qed

text \<open>The handlers of \<^verbatim>\<open>removeChild\<close> and \<^verbatim>\<open>insertBefore\<close> for one node, with their notifications.\<close>

definition remove_child :: "ref \<Rightarrow> ref \<Rightarrow> ref \<Rightarrow> dom \<Rightarrow> dom" where
  "remove_child doc par c d =
     ns_js_index_child_change doc par None (Some c) (d\<lparr>nodes := ns_node_remove c (nodes d)\<rparr>)"

definition append_child :: "ref \<Rightarrow> ref \<Rightarrow> ref \<Rightarrow> dom \<Rightarrow> dom" where
  "append_child doc par c d =
     (let d1 = (case parent (nodes d c) of Some q \<Rightarrow> ns_js_index_child_change doc q None (Some c) d | None \<Rightarrow> d)
      in ns_js_index_child_change doc par (Some c) None (d1\<lparr>nodes := ns_node_append_child par c (nodes d1)\<rparr>))"

definition insert_before :: "ref \<Rightarrow> ref \<Rightarrow> ref \<Rightarrow> ref \<Rightarrow> dom \<Rightarrow> dom" where
  "insert_before doc par c rf d =
     (let d1 = (case parent (nodes d c) of Some q \<Rightarrow> ns_js_index_child_change doc q None (Some c) d | None \<Rightarrow> d)
      in ns_js_index_child_change doc par (Some c) None (d1\<lparr>nodes := ns_element_insert_before_single par c rf (nodes d1)\<rparr>))"


end
