(* ===== verification/NS_Cookies.thy ===== *)
theory NS_Cookies
  imports NS_Url
begin

text \<open>
  Cookies as scripts see them (\<^verbatim>\<open>src/net.c\<close>): the two files of a site, libcurl's jar and the file of the
  cookies that scripts set, what \<^verbatim>\<open>document.cookie\<close> reads from them and how it stores one.  A file system
  is a map from names to contents.  SHA-256, the public suffix list, the URL parser and libcurl's date
  parser are third-party code and the fields of the environment.
\<close>

section \<open>Files\<close>

record cookie_env =
  sha256_hex :: "string \<Rightarrow> string"
  registrable :: "string \<Rightarrow> string option"
  is_public_suffix :: "string \<Rightarrow> bool"
  lexbor :: url_parser
  curl_getdate :: "string \<Rightarrow> int option"

type_synonym files = "string \<rightharpoonup> string"

definition ns_net_cookie_path_for_partition :: "cookie_env \<Rightarrow> string \<Rightarrow> string" where
  "ns_net_cookie_path_for_partition env top_origin =
     take 32 (sha256_hex env (if top_origin \<noteq> [] then top_origin else ''default'')) @ ''.txt''"

definition ns_net_cookie_js_path_for_partition :: "cookie_env \<Rightarrow> string \<Rightarrow> string" where
  "ns_net_cookie_js_path_for_partition env top_origin =
     take 32 (sha256_hex env (if top_origin \<noteq> [] then top_origin else ''default'')) @ ''.js.txt''"

text \<open>\<^verbatim>\<open>g_strsplit(s, d, n)\<close>: at most \<^verbatim>\<open>n\<close> pieces, the last one takes the rest.\<close>

fun split_max :: "nat \<Rightarrow> char \<Rightarrow> string \<Rightarrow> string list" where
  "split_max 0 d s = [s]"
| "split_max (Suc n) d s =
     (if n = 0 \<or> d \<notin> set s then [s]
      else takeWhile (\<lambda>c. c \<noteq> d) s # split_max n d (tl (dropWhile (\<lambda>c. c \<noteq> d) s)))"

definition file_lines :: "string \<Rightarrow> string list" where
  "file_lines contents = g_strsplit_set (cstring contents) [CHR 0x0A]"

section \<open>Reading\<close>

definition cookie_domain_matches :: "string \<Rightarrow> string \<Rightarrow> bool" where
  "cookie_domain_matches host cdomain =
     (if cdomain \<noteq> [] \<and> hd cdomain = CHR ''.'' then
        (length host \<ge> length cdomain \<and> strcaseeq (drop (length host - length cdomain) host) cdomain) \<or>
        strcaseeq host (tl cdomain)
      else strcaseeq host cdomain)"

definition cookie_path_matches :: "string \<Rightarrow> string \<Rightarrow> bool" where
  "cookie_path_matches path cpath =
     (if cpath = [] then True
      else if \<not> g_str_has_prefix path cpath then False
      else let rest = drop (length cpath) path in
        \<not> (rest \<noteq> [] \<and> hd rest \<noteq> CHR ''/'' \<and> last cpath \<noteq> CHR ''/''))"

text \<open>A line of a jar: the name and the value, if the cookie is for this request.\<close>

definition cookie_line :: "string \<Rightarrow> string \<Rightarrow> bool \<Rightarrow> int \<Rightarrow> string \<Rightarrow> (string \<times> string) option" where
  "cookie_line host path is_https now raw =
     (let line = g_strchomp raw in
      if line = [] \<or> hd line = CHR ''#'' then None
      else let f = split_max 7 (CHR 0x09) line in
        if length f < 7 then None
        else
          let csecure = strcaseeq (f ! 3) ''TRUE''; cexpiry = fst (g_ascii_strtoll (f ! 4)) in
          if cookie_domain_matches host (f ! 0) \<and> cookie_path_matches path (f ! 2) \<and> \<not> (csecure \<and> \<not> is_https) \<and>
             \<not> (cexpiry \<noteq> 0 \<and> cexpiry < now) \<and> f ! 5 \<noteq> []
          then Some (f ! 5, f ! 6) else None)"

text \<open>\<^verbatim>\<open>order\<close> and \<^verbatim>\<open>vals\<close>: names in the order of their first appearance, each with its last value.\<close>

fun put_cookie :: "string \<Rightarrow> string \<Rightarrow> (string \<times> string) list \<Rightarrow> (string \<times> string) list" where
  "put_cookie name val [] = [(name, val)]"
| "put_cookie name val ((n, v) # cs) = (if n = name then (n, val) # cs else (n, v) # put_cookie name val cs)"

fun read_lines :: "string \<Rightarrow> string \<Rightarrow> bool \<Rightarrow> int \<Rightarrow> string list \<Rightarrow> (string \<times> string) list \<Rightarrow> (string \<times> string) list" where
  "read_lines host path is_https now [] acc = acc"
| "read_lines host path is_https now (l # ls) acc =
     read_lines host path is_https now ls
       (case cookie_line host path is_https now l of Some (n, v) \<Rightarrow> put_cookie n v acc | None \<Rightarrow> acc)"

definition read_file :: "string \<Rightarrow> string \<Rightarrow> bool \<Rightarrow> int \<Rightarrow> string option \<Rightarrow> (string \<times> string) list \<Rightarrow> (string \<times> string) list" where
  "read_file host path is_https now contents acc =
     (case contents of None \<Rightarrow> acc | Some c \<Rightarrow> read_lines host path is_https now (file_lines c) acc)"

definition is_https_url :: "ns_url_parts \<Rightarrow> bool" where
  "is_https_url parts \<longleftrightarrow> strcaseeq (up_protocol parts) ''https:''"

text \<open>The cookies for a URL, as a list; \<^const>\<open>None\<close> if the URL has no host or no site.\<close>

definition visible_cookies :: "cookie_env \<Rightarrow> int \<Rightarrow> files \<Rightarrow> string \<Rightarrow> (string \<times> string) list option" where
  "visible_cookies env now fs url =
     (if url = [] then None
      else case ns_url_parts_new (lexbor env) url of
        None \<Rightarrow> None
      | Some parts \<Rightarrow>
          if up_hostname parts = [] then None
          else
            let host = up_hostname parts; path = (if up_pathname parts \<noteq> [] then up_pathname parts else ''/'');
                https = is_https_url parts
            in case ns_url_site_from (registrable env) (lexbor env) url of
                 None \<Rightarrow> None
               | Some site \<Rightarrow>
                   if site = [] then None
                   else Some (read_file host path https now (fs (ns_net_cookie_js_path_for_partition env site))
                     (read_file host path https now (fs (ns_net_cookie_path_for_partition env site)) [])))"

fun join_cookies :: "string \<Rightarrow> (string \<times> string) list \<Rightarrow> string" where
  "join_cookies out [] = out"
| "join_cookies out ((n, v) # cs) = join_cookies ((if out \<noteq> [] then out @ ''; '' else out) @ n @ ''='' @ v) cs"

definition ns_net_cookies_for_js :: "cookie_env \<Rightarrow> int \<Rightarrow> files \<Rightarrow> string \<Rightarrow> string option" where
  "ns_net_cookies_for_js env now fs url =
     (case visible_cookies env now fs url of
        None \<Rightarrow> None
      | Some cs \<Rightarrow> let out = join_cookies [] cs in if out = [] then None else Some out)"

section \<open>Storing\<close>

definition is_blank :: "char \<Rightarrow> bool" where
  "is_blank c \<longleftrightarrow> c = CHR '' '' \<or> c = CHR 0x09"

definition trim_left :: "string \<Rightarrow> string" where "trim_left s = dropWhile is_blank s"
definition trim_right :: "string \<Rightarrow> string" where "trim_right s = rev (dropWhile is_blank (rev s))"

record cookie_attrs =
  domain_attr :: "string option"
  path_attr :: "string option"
  secure :: bool
  has_expiry :: bool
  expired :: bool
  expiry :: int

definition cookie_attr :: "cookie_env \<Rightarrow> int \<Rightarrow> string \<Rightarrow> cookie_attrs \<Rightarrow> cookie_attrs" where
  "cookie_attr env now piece a =
     (let p = trim_right (trim_left piece); key = cspan ''='' p; aeq = (CHR ''='' \<in> set p);
          av = trim_left (drop (length key + 1) p) in
      if p = [] then a
      else if length key = 6 \<and> strcaseeq key ''secure'' then a\<lparr>secure := True\<rparr>
      else if length key = 7 \<and> strcaseeq key ''max-age'' \<and> aeq then
        (let (ma, number) = g_ascii_strtoll av in
         if number then
           (if ma > 0 then a\<lparr>has_expiry := True, expired := False, expiry := gint64 (now + ma)\<rparr>
            else a\<lparr>has_expiry := True, expired := True\<rparr>)
         else a)
      else if length key = 7 \<and> strcaseeq key ''expires'' \<and> aeq \<and> \<not> has_expiry a then
        (case curl_getdate env av of
           None \<Rightarrow> a
         | Some t \<Rightarrow> a\<lparr>has_expiry := True, expiry := t, expired := (if t \<le> now then True else expired a)\<rparr>)
      else if length key = 6 \<and> strcaseeq key ''domain'' \<and> aeq then a\<lparr>domain_attr := Some av\<rparr>
      else if length key = 4 \<and> strcaseeq key ''path'' \<and> aeq then a\<lparr>path_attr := Some av\<rparr>
      else a)"

fun cookie_attr_loop :: "cookie_env \<Rightarrow> int \<Rightarrow> string list \<Rightarrow> cookie_attrs \<Rightarrow> cookie_attrs" where
  "cookie_attr_loop env now [] a = a"
| "cookie_attr_loop env now (p # ps) a = cookie_attr_loop env now ps (cookie_attr env now p a)"

definition no_attrs :: cookie_attrs where
  "no_attrs = \<lparr>domain_attr = None, path_attr = None, secure = False, has_expiry = False, expired = False, expiry = 0\<rparr>"

definition given :: "string option \<Rightarrow> bool" where
  "given s \<longleftrightarrow> s \<noteq> None \<and> s \<noteq> Some []"

definition prefix_rules_ok :: "string \<Rightarrow> bool \<Rightarrow> cookie_attrs \<Rightarrow> bool" where
  "prefix_rules_ok name is_https a \<longleftrightarrow>
     \<not> (secure a \<and> \<not> is_https) \<and>
     \<not> (length name \<ge> 9 \<and> strncaseeq 9 name ''__Secure-'' \<and> \<not> (secure a \<and> is_https)) \<and>
     \<not> (length name \<ge> 7 \<and> strncaseeq 7 name ''__Host-'' \<and>
        (\<not> secure a \<or> \<not> is_https \<or> given (domain_attr a) \<or> (given (path_attr a) \<and> path_attr a \<noteq> Some ''/'')))"

text \<open>The domain field and the flag \<^verbatim>\<open>tail\<close>, if the host may set a cookie for this domain.\<close>

definition cookie_file_domain :: "cookie_env \<Rightarrow> string \<Rightarrow> string option \<Rightarrow> (string \<times> string) option" where
  "cookie_file_domain env host domain =
     (if given domain then
        let dom = the domain; d = (if hd dom = CHR ''.'' then tl dom else dom); dl = length d; hl = length host;
            ok = (strcaseeq host d \<or> (hl > dl \<and> host ! (hl - dl - 1) = CHR ''.'' \<and> strcaseeq (drop (hl - dl) host) d))
        in if \<not> ok \<or> dl = 0 then None
           else if is_public_suffix env (g_ascii_strdown d) then None
           else Some (''.'' @ d, ''TRUE'')
      else Some (host, ''FALSE''))"

text \<open>The part of the request path before its last slash.\<close>

definition default_cookie_path :: "string \<Rightarrow> string" where
  "default_cookie_path request_path =
     (let dir = rev (tl (dropWhile (\<lambda>c. c \<noteq> CHR ''/'') (rev request_path)))
      in if CHR ''/'' \<notin> set request_path \<or> dir = [] then ''/'' else dir)"

definition cookie_path :: "string option \<Rightarrow> string \<Rightarrow> string" where
  "cookie_path attr request_path =
     (if given attr \<and> hd (the attr) = CHR ''/'' then the attr else default_cookie_path request_path)"

definition same_cookie :: "string list \<Rightarrow> string \<Rightarrow> string \<Rightarrow> string \<Rightarrow> bool" where
  "same_cookie f file_domain path name \<longleftrightarrow> strcaseeq (f ! 0) file_domain \<and> f ! 2 = path \<and> f ! 5 = name"

text \<open>One line of the old file: whether it is kept, and whether it is an HTTP-only cookie that must not be
  overwritten.\<close>

definition old_line :: "int \<Rightarrow> string \<Rightarrow> string \<Rightarrow> string \<Rightarrow> string \<Rightarrow> string \<times> bool" where
  "old_line now file_domain path name line =
     (if line = [] then ([], False)
      else if hd line = CHR ''#'' then
        (line @ [CHR 0x0A],
         g_str_has_prefix line ''#HttpOnly_'' \<and>
           (let hf = split_max 7 (CHR 0x09) (drop 10 line) in
            drop 10 line \<noteq> [] \<and> length hf \<ge> 7 \<and> same_cookie hf file_domain path name))
      else
        let f = split_max 7 (CHR 0x09) line in
        if length f < 7 then ([], False)
        else
          let cexp = fst (g_ascii_strtoll (f ! 4)) in
          if \<not> same_cookie f file_domain path name \<and> \<not> (cexp \<noteq> 0 \<and> cexp < now) then (line @ [CHR 0x0A], False)
          else ([], False))"

fun rewrite_lines :: "int \<Rightarrow> string \<Rightarrow> string \<Rightarrow> string \<Rightarrow> string list \<Rightarrow> string \<times> bool" where
  "rewrite_lines now file_domain path name [] = ([], False)"
| "rewrite_lines now file_domain path name (l # ls) =
     (let (out, blocked) = old_line now file_domain path name l; (outs, blockeds) = rewrite_lines now file_domain path name ls
      in (out @ outs, blocked \<or> blockeds))"

definition show_int :: "int \<Rightarrow> string" where
  "show_int i = (if i < 0 then ''-'' @ show_nat (nat (- i)) else show_nat (nat i))"

definition new_line :: "string \<Rightarrow> string \<Rightarrow> string \<Rightarrow> cookie_attrs \<Rightarrow> string \<Rightarrow> string \<Rightarrow> string" where
  "new_line file_domain tail path a name val =
     file_domain @ [CHR 0x09] @ tail @ [CHR 0x09] @ path @ [CHR 0x09] @ (if secure a then ''TRUE'' else ''FALSE'') @ [CHR 0x09] @
     show_int (expiry a) @ [CHR 0x09] @ name @ [CHR 0x09] @ val @ [CHR 0x0A]"

definition ns_net_cookie_store_from_js :: "cookie_env \<Rightarrow> int \<Rightarrow> string \<Rightarrow> string \<Rightarrow> files \<Rightarrow> files" where
  "ns_net_cookie_store_from_js env now url cookie fs =
     (if url = [] then fs
      else if \<not> g_str_has_prefix url ''http://'' \<and> \<not> g_str_has_prefix url ''https://'' then fs
      else if list_ex (\<lambda>c. ord c < 0x20) cookie then fs
      else case ns_url_parts_new (lexbor env) url of
        None \<Rightarrow> fs
      | Some parts \<Rightarrow>
          if up_hostname parts = [] then fs
          else
            let pair = cspan '';'' cookie; raw_name = cspan ''='' pair in
            if CHR ''='' \<notin> set pair \<or> raw_name = [] then fs
            else
              let name = trim_right (trim_left raw_name); val = trim_right (trim_left (drop (length raw_name + 1) pair)) in
              if name = [] then fs
              else
                let a = cookie_attr_loop env now (split_pieces '';'' (drop (length pair) cookie)) no_attrs in
                if \<not> prefix_rules_ok name (is_https_url parts) a then fs
                else case cookie_file_domain env (up_hostname parts) (domain_attr a) of
                  None \<Rightarrow> fs
                | Some (file_domain, tail) \<Rightarrow>
                    let path = cookie_path (path_attr a) (up_pathname parts) in
                    case ns_url_site_from (registrable env) (lexbor env) url of
                      None \<Rightarrow> fs
                    | Some site \<Rightarrow>
                        if site = [] then fs
                        else
                          let jar_path = ns_net_cookie_js_path_for_partition env site;
                              (out, blocked_httponly) = (case fs jar_path of
                                 None \<Rightarrow> ([], False) | Some contents \<Rightarrow> rewrite_lines now file_domain path name (file_lines contents));
                              out = (if \<not> expired a \<and> \<not> blocked_httponly then out @ new_line file_domain tail path a name val else out)
                          in fs(jar_path \<mapsto> out))"

section \<open>Lines of a cookie file\<close>

lemma split_max_last [simp]: "split_max (Suc 0) d s = [s]"
  by simp

lemma split_max_field:
  assumes "d \<notin> set p"
  shows "split_max (Suc (Suc n)) d (p @ d # s) = p # split_max (Suc n) d s"
proof -
  have "takeWhile (\<lambda>c. c \<noteq> d) (p @ d # s) = p" "dropWhile (\<lambda>c. c \<noteq> d) (p @ d # s) = d # s"
    using assms by (induction p) auto
  then show ?thesis by (simp del: split_max.simps add: split_max.simps(2) [of "Suc n"])
qed

text \<open>The seven fields of a cookie line.\<close>

definition fields_line :: "string list \<Rightarrow> string \<Rightarrow> string" where
  "fields_line fs v = concat (map (\<lambda>f. f @ [CHR 0x09]) fs) @ v"

lemma split_max_line:
  assumes "list_all (\<lambda>f. CHR 0x09 \<notin> set f) fs"
  shows "split_max (Suc (length fs)) (CHR 0x09) (fields_line fs v) = fs @ [v]"
  using assms
proof (induction fs)
  case Nil
  then show ?case by (simp add: fields_line_def)
next
  case (Cons f fs)
  then have "CHR 0x09 \<notin> set f" by simp
  moreover have "fields_line (f # fs) v = f @ CHR 0x09 # fields_line fs v" by (simp add: fields_line_def)
  ultimately have "split_max (Suc (length (f # fs))) (CHR 0x09) (fields_line (f # fs) v) =
      f # split_max (Suc (length fs)) (CHR 0x09) (fields_line fs v)"
    using split_max_field [of "CHR 0x09" f "length fs" "fields_line fs v"] by (metis length_Cons)
  moreover have "split_max (Suc (length fs)) (CHR 0x09) (fields_line fs v) = fs @ [v]" using Cons by simp
  ultimately show ?case by (simp only: append_Cons)
qed

lemma new_line_fields:
  "new_line fd tail p a n v =
   fields_line [fd, tail, p, if secure a then ''TRUE'' else ''FALSE'', show_int (expiry a), n] v @ [CHR 0x0A]"
  by (simp add: new_line_def fields_line_def)

lemma file_lines_concat:
  assumes "list_all (\<lambda>l. CHR 0x0A \<notin> set l \<and> CHR 0x00 \<notin> set l) ls"
  shows "file_lines (concat (map (\<lambda>l. l @ [CHR 0x0A]) ls)) = (if ls = [] then [] else ls @ [[]])"
proof -
  have "list_all (\<lambda>c. c \<noteq> CHR 0x00) (concat (map (\<lambda>l. l @ [CHR 0x0A]) ls))"
    using assms by (auto simp: list_all_iff)
  then have "cstring (concat (map (\<lambda>l. l @ [CHR 0x0A]) ls)) = concat (map (\<lambda>l. l @ [CHR 0x0A]) ls)"
    by (rule cstring_id)
  moreover have "split_pieces [CHR 0x0A] (concat (map (\<lambda>l. l @ [CHR 0x0A]) ls)) = ls @ [[]]"
    using assms by (intro split_lines) (simp add: list_all_iff)
  moreover have "(concat (map (\<lambda>l. l @ [CHR 0x0A]) ls) = []) = (ls = [])" by (cases ls) simp_all
  ultimately show ?thesis by (simp only: file_lines_def g_strsplit_set_def split: if_splits)
qed

lemma file_lines_clean: "l \<in> set (file_lines c) \<Longrightarrow> CHR 0x0A \<notin> set l \<and> CHR 0x00 \<notin> set l"
proof -
  assume "l \<in> set (file_lines c)"
  then have l: "l \<in> set (split_pieces [CHR 0x0A] (cstring c))"
    by (auto simp: file_lines_def g_strsplit_set_def split: if_splits)
  then have "CHR 0x00 \<notin> set l"
    using split_pieces_subset [OF l] by (auto simp: cstring_def dest: set_takeWhileD)
  with split_pieces_disjoint [OF l] show ?thesis by auto
qed

text \<open>What survives a rewrite of the file: whole lines of the old one.\<close>

definition kept :: "int \<Rightarrow> string \<Rightarrow> string \<Rightarrow> string \<Rightarrow> string \<Rightarrow> bool" where
  "kept now fd p n l \<longleftrightarrow> fst (old_line now fd p n l) \<noteq> []"

lemma old_line_kept: "fst (old_line now fd p n l) = (if kept now fd p n l then l @ [CHR 0x0A] else [])"
  by (auto simp: kept_def old_line_def Let_def)

lemma rewrite_lines_kept:
  "fst (rewrite_lines now fd p n ls) = concat (map (\<lambda>l. l @ [CHR 0x0A]) (filter (kept now fd p n) ls))"
proof (induction ls)
  case (Cons l ls)
  obtain o1 b1 where 1: "old_line now fd p n l = (o1, b1)" by fastforce
  obtain o2 b2 where 2: "rewrite_lines now fd p n ls = (o2, b2)" by fastforce
  from 1 have "o1 = (if kept now fd p n l then l @ [CHR 0x0A] else [])"
    using old_line_kept [of now fd p n l] by simp
  with 1 2 Cons show ?case by simp
qed simp

lemma rewrite_lines_blocked: "snd (rewrite_lines now fd p n ls) \<longleftrightarrow> (\<exists>l \<in> set ls. snd (old_line now fd p n l))"
  by (induction ls) (auto split: prod.splits)

lemma kept_not_Nil: "kept now fd p n l \<Longrightarrow> l \<noteq> []"
  by (auto simp: kept_def old_line_def)

lemma blocked_hash: "snd (old_line now fd p n l) \<Longrightarrow> l \<noteq> [] \<and> hd l = CHR ''#''"
  by (auto simp: old_line_def Let_def split: if_splits)

section \<open>The list of visible cookies\<close>

lemma map_of_put_cookie: "map_of (put_cookie n v cs) = (map_of cs)(n \<mapsto> v)"
  by (induction cs) auto

lemma set_put_cookie: "set (put_cookie n v cs) \<subseteq> insert (n, v) (set cs)"
  by (induction cs) (auto split: if_splits)

lemma distinct_put_cookie: "distinct (map fst cs) \<Longrightarrow> distinct (map fst (put_cookie n v cs))"
proof (induction cs)
  case (Cons c cs)
  have "fst ` set (put_cookie n v cs) \<subseteq> insert n (fst ` set cs)" using set_put_cookie by fastforce
  with Cons show ?case by (cases c) auto
qed simp

lemma read_lines_append:
  "read_lines h p s now (xs @ ys) acc = read_lines h p s now ys (read_lines h p s now xs acc)"
  by (induction xs arbitrary: acc) simp_all

lemma distinct_read_lines:
  "distinct (map fst acc) \<Longrightarrow> distinct (map fst (read_lines h p s now ls acc))"
  by (induction ls arbitrary: acc) (simp_all add: distinct_put_cookie split: option.splits prod.splits)

lemma read_lines_set:
  "(n, v) \<in> set (read_lines h p s now ls acc) \<Longrightarrow>
   (n, v) \<in> set acc \<or> (\<exists>l \<in> set ls. cookie_line h p s now l = Some (n, v))"
proof (induction ls arbitrary: acc)
  case (Cons l ls)
  show ?case
  proof (cases "cookie_line h p s now l")
    case None
    with Cons show ?thesis by auto
  next
    case (Some nv)
    obtain n' v' where nv: "nv = (n', v')" by fastforce
    from Cons.prems Some nv have "(n, v) \<in> set (read_lines h p s now ls (put_cookie n' v' acc))" by simp
    from Cons.IH [OF this] consider "(n, v) \<in> set (put_cookie n' v' acc)"
      | "\<exists>l \<in> set ls. cookie_line h p s now l = Some (n, v)" by blast
    then show ?thesis
    proof cases
      case 1
      then have "(n, v) = (n', v') \<or> (n, v) \<in> set acc" using set_put_cookie by fastforce
      with Some nv show ?thesis by auto
    qed auto
  qed
qed simp

section \<open>Plain cookies\<close>

definition no_ctl :: "string \<Rightarrow> bool" where
  "no_ctl s \<longleftrightarrow> list_all (\<lambda>c. 0x20 \<le> ord c) s"

text \<open>A name and a value as pages write them: trimmed, without the separators, not empty.\<close>

definition plain_name :: "string \<Rightarrow> bool" where
  "plain_name n \<longleftrightarrow> n \<noteq> [] \<and> no_ctl n \<and> CHR '';'' \<notin> set n \<and> CHR ''='' \<notin> set n \<and>
     \<not> is_blank (hd n) \<and> \<not> is_blank (last n)"

definition plain_value :: "string \<Rightarrow> bool" where
  "plain_value v \<longleftrightarrow> v \<noteq> [] \<and> no_ctl v \<and> CHR '';'' \<notin> set v \<and> \<not> is_blank (hd v) \<and> \<not> is_blank (last v)"

lemma no_ctl_simps [simp]:
  "no_ctl []" "no_ctl (c # s) \<longleftrightarrow> 0x20 \<le> ord c \<and> no_ctl s" "no_ctl (s @ t) \<longleftrightarrow> no_ctl s \<and> no_ctl t"
  by (simp_all add: no_ctl_def)

lemma no_ctlD: "no_ctl s \<Longrightarrow> ord c < 0x20 \<Longrightarrow> c \<notin> set s"
  by (auto simp: no_ctl_def list_all_iff)

lemma no_ctl_subset: "no_ctl s \<Longrightarrow> set t \<subseteq> set s \<Longrightarrow> no_ctl t"
  by (auto simp: no_ctl_def list_all_iff)

lemma no_ctl_store: "no_ctl s \<longleftrightarrow> \<not> list_ex (\<lambda>c. ord c < 0x20) s"
  by (simp add: no_ctl_def list_all_iff list_ex_iff not_less)

lemma trim_id: "s \<noteq> [] \<Longrightarrow> \<not> is_blank (hd s) \<Longrightarrow> \<not> is_blank (last s) \<Longrightarrow> trim_right (trim_left s) = s"
  unfolding trim_left_def trim_right_def
  by (metis dropWhile_eq_self_iff hd_rev rev_is_Nil_conv rev_rev_ident)

lemma default_path_match:
  assumes "p = [] \<or> hd p = CHR ''/''"
  shows "cookie_path_matches (if p \<noteq> [] then p else ''/'') (default_cookie_path p)"
proof (cases "CHR ''/'' \<in> set p")
  case False
  with assms have "p = []" by (cases p) auto
  then show ?thesis by (simp add: default_cookie_path_def cookie_path_matches_def)
next
  case True
  then obtain d g where p: "p = d @ CHR ''/'' # g" and g: "CHR ''/'' \<notin> set g"
    by (meson split_list_last)
  have "dropWhile (\<lambda>c. c \<noteq> CHR ''/'') (rev g @ CHR ''/'' # rev d) = CHR ''/'' # rev d"
    using g by (subst dropWhile_append2) auto
  then have "dropWhile (\<lambda>c. c \<noteq> CHR ''/'') (rev p) = CHR ''/'' # rev d"
    by (simp add: p)
  with True have def: "default_cookie_path p = (if d = [] then ''/'' else d)"
    by (simp add: default_cookie_path_def)
  show ?thesis
  proof (cases "d = []")
    case True
    with p def have "p = CHR ''/'' # g" and "default_cookie_path p = ''/''" by simp_all
    then show ?thesis by (simp only: cookie_path_matches_def) simp
  next
    case False
    with p def have "p = d @ CHR ''/'' # g" and "default_cookie_path p = d" by simp_all
    then show ?thesis by (simp only: cookie_path_matches_def) simp
  qed
qed

lemma default_path_set: "set (default_cookie_path p) \<subseteq> set p \<union> {CHR ''/''}"
proof -
  have "set (tl (dropWhile (\<lambda>c. c \<noteq> CHR ''/'') (rev p))) \<subseteq> set p"
    by (metis dual_order.trans list.set_sel(2) set_dropWhileD set_rev subsetI tl_Nil)
  then show ?thesis by (auto simp: default_cookie_path_def Let_def)
qed

lemma no_ctl_default_path: "no_ctl p \<Longrightarrow> no_ctl (default_cookie_path p)"
proof -
  assume "no_ctl p"
  then have "no_ctl (p @ ''/'')" by simp
  moreover have "set (default_cookie_path p) \<subseteq> set (p @ ''/'')" using default_path_set [of p] by simp
  ultimately show ?thesis by (rule no_ctl_subset)
qed

lemma domain_matches_refl: "cookie_domain_matches h h"
  by (simp add: cookie_domain_matches_def)

text \<open>The line of a session cookie without attributes is read back by the host that wrote it.\<close>

lemma cookie_line_new:
  assumes "no_ctl h" "h \<noteq> []" "hd h \<noteq> CHR ''#''" "no_ctl p" "cookie_path_matches rp p"
    and "no_ctl n" "n \<noteq> []" "v \<noteq> []" "\<not> g_ascii_isspace (last v)"
  shows "cookie_line h rp s now (fields_line [h, ''FALSE'', p, ''FALSE'', ''0'', n] v) = Some (n, v)"
proof -
  let ?fs = "[h, ''FALSE'', p, ''FALSE'', ''0'', n]"
  let ?l = "fields_line ?fs v"
  have last: "last ?l = last v" and ne: "?l \<noteq> []" and hd: "hd ?l = hd h"
    using assms by (simp_all add: fields_line_def)
  then have chomp: "g_strchomp ?l = ?l" using assms by (intro strchomp_id) simp
  have "list_all (\<lambda>f. CHR 0x09 \<notin> set f) ?fs"
    using no_ctlD [of h "CHR 0x09"] no_ctlD [of p "CHR 0x09"] no_ctlD [of n "CHR 0x09"] assms by simp
  from split_max_line [OF this, of v] have split: "split_max 7 (CHR 0x09) ?l = ?fs @ [v]"
    by (simp add: eval_nat_numeral del: split_max.simps)
  have "fst (g_ascii_strtoll ''0'') = 0" by code_simp
  moreover have "\<not> strcaseeq ''FALSE'' ''TRUE''" by code_simp
  ultimately show ?thesis
    using assms ne hd domain_matches_refl [of h]
    by (simp add: cookie_line_def chomp split Let_def del: split_max.simps)
qed

definition js_file_ok :: "string option \<Rightarrow> bool" where
  "js_file_ok c \<longleftrightarrow> (case c of None \<Rightarrow> True | Some t \<Rightarrow> list_all (\<lambda>l. l = [] \<or> hd l \<noteq> CHR ''#'') (file_lines t))"

definition old_part :: "int \<Rightarrow> string \<Rightarrow> string \<Rightarrow> string \<Rightarrow> string option \<Rightarrow> string list" where
  "old_part now fd p n c = (case c of None \<Rightarrow> [] | Some t \<Rightarrow> filter (kept now fd p n) (file_lines t))"

lemma js_file_ok_unblocked:
  "js_file_ok (Some t) \<Longrightarrow>
   rewrite_lines now fd p n (file_lines t) = (concat (map (\<lambda>l. l @ [CHR 0x0A]) (old_part now fd p n (Some t))), False)"
proof -
  assume "js_file_ok (Some t)"
  then have "\<not> snd (rewrite_lines now fd p n (file_lines t))"
    unfolding rewrite_lines_blocked js_file_ok_def by (auto simp: list_all_iff dest: blocked_hash)
  then show ?thesis
    by (simp add: prod_eq_iff rewrite_lines_kept old_part_def)
qed

lemma old_part_lines:
  "list_all (\<lambda>l. CHR 0x0A \<notin> set l \<and> CHR 0x00 \<notin> set l \<and> l \<noteq> []) (old_part now fd p n c)"
  by (auto simp: old_part_def list_all_iff dest: file_lines_clean kept_not_Nil split: option.splits)

section \<open>Storing into a file\<close>

lemma file_lines_store:
  assumes "no_ctl fd" "no_ctl p" "no_ctl n" "no_ctl v" "tail = ''TRUE'' \<or> tail = ''FALSE''"
    and "no_ctl (show_int (expiry a))"
  defines "l \<equiv> fields_line [fd, tail, p, if secure a then ''TRUE'' else ''FALSE'', show_int (expiry a), n] v"
  shows "file_lines (concat (map (\<lambda>l. l @ [CHR 0x0A]) (old_part now fd p n c)) @ new_line fd tail p a n v) =
         old_part now fd p n c @ [l, []]"
proof -
  let ?old = "old_part now fd p n c"
  have "CHR 0x0A \<notin> set x \<and> CHR 0x00 \<notin> set x" if "no_ctl x" for x
    using no_ctlD [OF that, of "CHR 0x0A"] no_ctlD [OF that, of "CHR 0x00"] by simp
  from this [OF assms(1)] this [OF assms(2)] this [OF assms(3)] this [OF assms(4)] this [OF assms(6)] assms(5)
  have l: "CHR 0x0A \<notin> set l \<and> CHR 0x00 \<notin> set l"
    unfolding l_def fields_line_def by (cases "secure a"; elim disjE; simp)
  have "list_all (\<lambda>l. CHR 0x0A \<notin> set l \<and> CHR 0x00 \<notin> set l) (?old @ [l])"
    using l old_part_lines [of now fd p n c] by (simp add: list_all_iff)
  from file_lines_concat [OF this] have
    "file_lines (concat (map (\<lambda>l. l @ [CHR 0x0A]) (?old @ [l]))) = (?old @ [l]) @ [[]]" by simp
  moreover have "concat (map (\<lambda>l. l @ [CHR 0x0A]) (?old @ [l])) =
      concat (map (\<lambda>l. l @ [CHR 0x0A]) ?old) @ new_line fd tail p a n v"
    by (simp add: new_line_fields l_def)
  ultimately show ?thesis by simp
qed

lemma no_ctl_show_nat: "no_ctl (show_nat n)"
proof (induction n rule: less_induct)
  case (less n)
  have d: "no_ctl [char_of (48 + k)]" if "k < 10" for k :: nat
    using that by (simp add: of_char_of)
  show ?case
  proof (cases "n < 10")
    case True
    then show ?thesis using d [of n] by (subst show_nat.simps) simp
  next
    case False
    then have "no_ctl (show_nat (n div 10))" by (intro less) simp
    with False d [of "n mod 10"] show ?thesis by (subst show_nat.simps) simp
  qed
qed

lemma no_ctl_show_int: "no_ctl (show_int i)"
  by (simp add: show_int_def no_ctl_show_nat)

lemma plain_cookie_parse:
  assumes "plain_name n" and "plain_value v"
  shows "cspan '';'' (n @ ''='' @ v) = n @ ''='' @ v" and "cspan ''='' (n @ ''='' @ v) = n"
    and "trim_right (trim_left n) = n" and "trim_right (trim_left v) = v" and "no_ctl (n @ ''='' @ v)"
proof -
  show "cspan '';'' (n @ ''='' @ v) = n @ ''='' @ v"
    using assms cspan_stop(1) [of "n @ ''='' @ v" "'';''" "[]"] by (simp add: plain_name_def plain_value_def)
  show "cspan ''='' (n @ ''='' @ v) = n"
    using assms cspan_stop(1) [of n "''=''" "''='' @ v"] by (simp add: plain_name_def)
  show "trim_right (trim_left n) = n" using assms by (intro trim_id) (simp_all add: plain_name_def)
  show "trim_right (trim_left v) = v" using assms by (intro trim_id) (simp_all add: plain_value_def)
  show "no_ctl (n @ ''='' @ v)" using assms by (simp add: plain_name_def plain_value_def)
qed

text \<open>The host and the site of a request.\<close>

definition request_of :: "cookie_env \<Rightarrow> string \<Rightarrow> string \<Rightarrow> string \<Rightarrow> bool \<Rightarrow> string \<Rightarrow> bool" where
  "request_of env url host path https site \<longleftrightarrow>
     url \<noteq> [] \<and> host \<noteq> [] \<and> site \<noteq> [] \<and>
     (\<exists>parts. ns_url_parts_new (lexbor env) url = Some parts \<and> up_hostname parts = host \<and>
        up_pathname parts = path \<and> is_https_url parts = https) \<and>
     ns_url_site_from (registrable env) (lexbor env) url = Some site"

lemma store_plain:
  assumes r: "request_of env url host path https site"
    and http: "ns_url_is_http_or_https url"
    and n: "plain_name n" and v: "plain_value v" and pre: "prefix_rules_ok n https no_attrs"
    and old: "js_file_ok (fs (ns_net_cookie_js_path_for_partition env site))"
  shows "ns_net_cookie_store_from_js env now url (n @ ''='' @ v) fs =
     (let j = ns_net_cookie_js_path_for_partition env site; p = default_cookie_path path in
      fs(j \<mapsto> concat (map (\<lambda>l. l @ [CHR 0x0A]) (old_part now host p n (fs j))) @ new_line host ''FALSE'' p no_attrs n v))"
proof -
  note parse = plain_cookie_parse [OF n v]
  have attrs: "cookie_attr_loop env now (split_pieces '';'' []) no_attrs = no_attrs"
    by (simp add: cookie_attr_def trim_left_def trim_right_def Let_def)
  have nn: "n \<noteq> []" using n by (simp add: plain_name_def)
  have dom: "cookie_file_domain env host None = Some (host, ''FALSE'')" "cookie_path None path = default_cookie_path path"
    by (simp_all add: cookie_file_domain_def cookie_path_def given_def)
  have na: "domain_attr no_attrs = None" "path_attr no_attrs = None" "\<not> expired no_attrs"
    by (simp_all add: no_attrs_def)
  show ?thesis
  proof (cases "fs (ns_net_cookie_js_path_for_partition env site)")
    case None
    then show ?thesis
      using r http pre parse nn attrs dom na
      by (auto simp: ns_net_cookie_store_from_js_def request_of_def ns_url_is_http_or_https_def no_ctl_store Let_def
          old_part_def)
  next
    case (Some t)
    with old have "js_file_ok (Some t)" by simp
    note rw = js_file_ok_unblocked [OF this]
    from Some show ?thesis
      using r http pre parse nn attrs dom na
      by (auto simp: ns_net_cookie_store_from_js_def request_of_def ns_url_is_http_or_https_def no_ctl_store Let_def rw)
  qed
qed

section \<open>Properties: reading and writing\<close>

lemma visible_cookies_request:
  assumes "request_of env url host path https site"
  shows "visible_cookies env now fs url =
    Some (read_file host (if path \<noteq> [] then path else ''/'') https now (fs (ns_net_cookie_js_path_for_partition env site))
      (read_file host (if path \<noteq> [] then path else ''/'') https now (fs (ns_net_cookie_path_for_partition env site)) []))"
  using assms by (auto simp: visible_cookies_def request_of_def Let_def)


text \<open>A host on its own, with the parser that sees it.\<close>

definition one_host_env :: cookie_env where
  "one_host_env = \<lparr>sha256_hex = (\<lambda>k. k), registrable = (\<lambda>h. None), is_public_suffix = (\<lambda>d. CHR ''.'' \<notin> set d),
     lexbor = (\<lambda>u. Some \<lparr>lxb_href = u, lxb_scheme = ''https'', lxb_host = Some ''a.b'', lxb_port = None, lxb_path = ''/x/y'',
        lxb_query = [], lxb_fragment = [], lxb_username = [], lxb_password = []\<rparr>),
     curl_getdate = (\<lambda>d. None)\<rparr>"

definition one_url :: string where "one_url = ''https://a.b/x/y''"
definition one_site :: string where "one_site = ''https:://a.b''"

lemma one_host_request: "request_of one_host_env one_url ''a.b'' ''/x/y'' True one_site"
  by (simp add: request_of_def one_host_env_def one_url_def one_site_def ns_url_parts_new_def url_parts_of_def
      ns_url_site_from_def is_https_url_def Let_def)


section \<open>Properties: who sees a cookie\<close>

text \<open>C24. A cookie that a page sees comes from a line of one of the files of its own site; the line is not a
  comment (so it is not an HTTP-only cookie), its domain and path match the page, it is not a secure cookie on an
  insecure page and it has not expired; and no name is seen twice.\<close>

theorem cookie_visible_sound:
  assumes "request_of env url host path https site" and "visible_cookies env now fs url = Some cs"
  shows "distinct (map fst cs) \<and>
    (\<forall>n v. (n, v) \<in> set cs \<longrightarrow>
      (\<exists>c f. (fs (ns_net_cookie_path_for_partition env site) = Some c \<or> fs (ns_net_cookie_js_path_for_partition env site) = Some c) \<and>
        f \<in> set (file_lines c) \<and> hd f \<noteq> CHR ''#'' \<and>
        (let g = split_max 7 (CHR 0x09) (g_strchomp f) in
         length g \<ge> 7 \<and> g ! 5 = n \<and> g ! 6 = v \<and> cookie_domain_matches host (g ! 0) \<and>
         cookie_path_matches (if path \<noteq> [] then path else ''/'') (g ! 2) \<and>
         (strcaseeq (g ! 3) ''TRUE'' \<longrightarrow> https) \<and>
         (fst (g_ascii_strtoll (g ! 4)) = 0 \<or> now \<le> fst (g_ascii_strtoll (g ! 4))))))"
proof -
  let ?rp = "if path \<noteq> [] then path else ''/''"
  let ?rf = "read_file host ?rp https now"
  have line: "hd f \<noteq> CHR ''#'' \<and> (let g = split_max 7 (CHR 0x09) (g_strchomp f) in
         length g \<ge> 7 \<and> g ! 5 = n \<and> g ! 6 = v \<and> cookie_domain_matches host (g ! 0) \<and> cookie_path_matches ?rp (g ! 2) \<and>
         (strcaseeq (g ! 3) ''TRUE'' \<longrightarrow> https) \<and>
         (fst (g_ascii_strtoll (g ! 4)) = 0 \<or> now \<le> fst (g_ascii_strtoll (g ! 4))))"
    if "cookie_line host ?rp https now f = Some (n, v)" for f n v
  proof -
    have "g_strchomp f \<noteq> []" "hd (g_strchomp f) \<noteq> CHR ''#''"
      using that by (auto simp: cookie_line_def Let_def split: if_splits)
    moreover from this(1) have "hd (g_strchomp f) = hd f"
      using strchomp_prefix [of f] unfolding prefix_def by (metis hd_append2)
    ultimately show ?thesis
      using that by (auto simp: cookie_line_def Let_def split: if_splits)
  qed
  have sound: "(n, v) \<in> set acc \<or> (\<exists>c f. contents = Some c \<and> f \<in> set (file_lines c) \<and> cookie_line host ?rp https now f = Some (n, v))"
    if "(n, v) \<in> set (?rf contents acc)" for n v contents acc
    using that by (auto simp: read_file_def dest: read_lines_set split: option.splits)
  have dist: "distinct (map fst (?rf contents acc))" if "distinct (map fst acc)" for contents acc
    using that by (auto simp: read_file_def distinct_read_lines split: option.splits)
  have cs: "cs = ?rf (fs (ns_net_cookie_js_path_for_partition env site)) (?rf (fs (ns_net_cookie_path_for_partition env site)) [])"
    using visible_cookies_request [OF assms(1)] assms(2) by simp
  have "distinct (map fst cs)" unfolding cs by (intro dist) simp
  moreover have "\<exists>c f. (fs (ns_net_cookie_path_for_partition env site) = Some c \<or> fs (ns_net_cookie_js_path_for_partition env site) = Some c) \<and>
      f \<in> set (file_lines c) \<and> cookie_line host ?rp https now f = Some (n, v)" if "(n, v) \<in> set cs" for n v
    using that sound unfolding cs by (metis empty_iff list.set(1))
  ultimately show ?thesis using line by blast
qed

theorem cookie_visible_sound_witness:
  "distinct (map fst [(''k'', ''v'')]) \<and>
   visible_cookies one_host_env 5 (ns_net_cookie_store_from_js one_host_env 3 one_url ''k=v'' (\<lambda>f. None)) one_url = Some [(''k'', ''v'')]"
proof -
  have "visible_cookies one_host_env 5 (ns_net_cookie_store_from_js one_host_env 3 one_url ''k=v'' (\<lambda>f. None)) one_url = Some [(''k'', ''v'')]"
    by code_simp
  with cookie_visible_sound [OF one_host_request this] show ?thesis by blast
qed

section \<open>Properties: the file of the script cookies\<close>

text \<open>A request to store: the time, the URL of the page and the text of the cookie.\<close>

definition store_step :: "cookie_env \<Rightarrow> files \<Rightarrow> int \<times> string \<times> string \<Rightarrow> files" where
  "store_step env fs r = (case r of (now, url, cookie) \<Rightarrow> ns_net_cookie_store_from_js env now url cookie fs)"

text \<open>A URL parser whose hosts neither start with a number sign nor hold control characters.\<close>

definition hosts_clean :: "cookie_env \<Rightarrow> bool" where
  "hosts_clean env \<longleftrightarrow> (\<forall>url parts. ns_url_parts_new (lexbor env) url = Some parts \<longrightarrow>
     no_ctl (up_hostname parts) \<and> no_ctl (up_pathname parts) \<and> (up_hostname parts = [] \<or> hd (up_hostname parts) \<noteq> CHR ''#''))"

lemma js_file_ok_store:
  assumes "js_file_ok c" and "no_ctl fd" "no_ctl p" "no_ctl n" "no_ctl v" "tail = ''TRUE'' \<or> tail = ''FALSE''"
    and "fd \<noteq> []" "hd fd \<noteq> CHR ''#''"
  shows "js_file_ok (Some (concat (map (\<lambda>l. l @ [CHR 0x0A]) (old_part now fd p n c)) @ new_line fd tail p a n v))"
    and "js_file_ok (Some (concat (map (\<lambda>l. l @ [CHR 0x0A]) (old_part now fd p n c))))"
proof -
  have old: "list_all (\<lambda>l. l = [] \<or> hd l \<noteq> CHR ''#'') (old_part now fd p n c)"
    using assms(1) by (auto simp: js_file_ok_def old_part_def list_all_iff split: option.splits)
  note file_lines_store [where now = now and c = c and a = a, OF assms(2-6) no_ctl_show_int]
  then show "js_file_ok (Some (concat (map (\<lambda>l. l @ [CHR 0x0A]) (old_part now fd p n c)) @ new_line fd tail p a n v))"
    using old assms(7,8) by (simp add: js_file_ok_def fields_line_def)
  have "list_all (\<lambda>l. CHR 0x0A \<notin> set l \<and> CHR 0x00 \<notin> set l) (old_part now fd p n c)"
    using old_part_lines [of now fd p n c] by (simp add: list_all_iff)
  from file_lines_concat [OF this]
  show "js_file_ok (Some (concat (map (\<lambda>l. l @ [CHR 0x0A]) (old_part now fd p n c))))"
    using old by (simp add: js_file_ok_def)
qed

text \<open>The values that come from the text of the cookie hold no control characters.\<close>

lemma set_trim: "set (trim_right s) \<subseteq> set s" "set (trim_left s) \<subseteq> set s"
  by (auto simp: trim_left_def trim_right_def dest: set_dropWhileD)

definition attrs_no_ctl :: "cookie_attrs \<Rightarrow> bool" where
  "attrs_no_ctl a \<longleftrightarrow> (\<forall>s. domain_attr a = Some s \<or> path_attr a = Some s \<longrightarrow> no_ctl s)"

lemma attrs_no_ctl_step: "no_ctl piece \<Longrightarrow> attrs_no_ctl a \<Longrightarrow> attrs_no_ctl (cookie_attr env now piece a)"
proof -
  assume piece: "no_ctl piece" and a: "attrs_no_ctl a"
  define p where "p = trim_right (trim_left piece)"
  define av where "av = trim_left (drop (length (cspan ''='' p) + 1) p)"
  have "set p \<subseteq> set piece" unfolding p_def by (meson set_trim subset_trans)
  moreover have "set av \<subseteq> set p" unfolding av_def by (meson set_trim set_drop_subset subset_trans)
  ultimately have "no_ctl av" using piece by (meson no_ctl_subset subset_trans)
  moreover have "domain_attr (cookie_attr env now piece a) = domain_attr a \<or> domain_attr (cookie_attr env now piece a) = Some av"
    unfolding cookie_attr_def Let_def p_def [symmetric] av_def [symmetric]
    by (simp split: prod.split option.split)
  moreover have "path_attr (cookie_attr env now piece a) = path_attr a \<or> path_attr (cookie_attr env now piece a) = Some av"
    unfolding cookie_attr_def Let_def p_def [symmetric] av_def [symmetric]
    by (simp split: prod.split option.split)
  ultimately show ?thesis using a unfolding attrs_no_ctl_def by (metis option.sel)
qed

lemma attrs_no_ctl_loop:
  "list_all no_ctl ps \<Longrightarrow> attrs_no_ctl a \<Longrightarrow> attrs_no_ctl (cookie_attr_loop env now ps a)"
  by (induction ps arbitrary: a) (simp_all add: attrs_no_ctl_step)

definition js_files_ok :: "cookie_env \<Rightarrow> files \<Rightarrow> bool" where
  "js_files_ok env fs \<longleftrightarrow> (\<forall>site. js_file_ok (fs (ns_net_cookie_js_path_for_partition env site)))"

lemma file_domain_ok:
  assumes "cookie_file_domain env host d = Some (fd, tail)" and "no_ctl host" "host \<noteq> []" "hd host \<noteq> CHR ''#''"
    and "\<And>s. d = Some s \<Longrightarrow> no_ctl s"
  shows "no_ctl fd \<and> fd \<noteq> [] \<and> hd fd \<noteq> CHR ''#'' \<and> (tail = ''TRUE'' \<or> tail = ''FALSE'')"
proof (cases "given d")
  case False
  with assms show ?thesis by (simp add: cookie_file_domain_def)
next
  case True
  then obtain s where s: "d = Some s" "s \<noteq> []" by (auto simp: given_def)
  then have "no_ctl (tl s)" "no_ctl s" using assms(5) by (cases s; auto)+
  with assms(1) True s show ?thesis
    by (auto simp: cookie_file_domain_def Let_def split: if_splits)
qed

lemma cookie_path_ok: "no_ctl rp \<Longrightarrow> (\<And>s. d = Some s \<Longrightarrow> no_ctl s) \<Longrightarrow> no_ctl (cookie_path d rp)"
  by (cases d) (auto simp: cookie_path_def given_def no_ctl_default_path)

lemma store_js_file:
  assumes "no_ctl fd" "fd \<noteq> []" "hd fd \<noteq> CHR ''#''" "no_ctl p" "no_ctl n" "no_ctl v" "tail = ''TRUE'' \<or> tail = ''FALSE''"
    and old: "js_file_ok c"
  shows "js_file_ok (Some (let (out, blocked) = (case c of None \<Rightarrow> ([], False) | Some t \<Rightarrow> rewrite_lines now fd p n (file_lines t))
     in if \<not> expired a \<and> \<not> blocked then out @ new_line fd tail p a n v else out))"
proof -
  have "(case c of None \<Rightarrow> ([], False) | Some t \<Rightarrow> rewrite_lines now fd p n (file_lines t)) =
      (concat (map (\<lambda>l. l @ [CHR 0x0A]) (old_part now fd p n c)), False)"
    using old js_file_ok_unblocked [of _ now fd p n] by (cases c) (simp_all add: old_part_def)
  moreover note js_file_ok_store(1) [where now = now and a = a, OF old assms(1,4,5,6,7,2,3)]
    js_file_ok_store(2) [where now = now, OF old assms(1,4,5,6,7,2,3)]
  ultimately show ?thesis by (simp add: Let_def)
qed

lemma js_files_ok_store:
  assumes env: "hosts_clean env" and fs: "js_files_ok env fs"
  shows "js_files_ok env (store_step env fs r)"
proof (rule ccontr)
  assume bad: "\<not> js_files_ok env (store_step env fs r)"
  obtain now url cookie where r: "r = (now, url, cookie)" by (cases r) auto
  define pair where "pair = cspan '';'' cookie"
  define raw where "raw = cspan ''='' pair"
  define n where "n = trim_right (trim_left raw)"
  define v where "v = trim_right (trim_left (drop (length raw + 1) pair))"
  define a where "a = cookie_attr_loop env now (split_pieces '';'' (drop (length pair) cookie)) no_attrs"
  have ne: "ns_net_cookie_store_from_js env now url cookie fs \<noteq> fs"
    using bad fs by (auto simp: r store_step_def)
  then obtain parts fd tail site where
    c: "no_ctl cookie" and parts: "ns_url_parts_new (lexbor env) url = Some parts" "up_hostname parts \<noteq> []"
    and fd: "cookie_file_domain env (up_hostname parts) (domain_attr a) = Some (fd, tail)"
    and site: "ns_url_site_from (registrable env) (lexbor env) url = Some site"
    unfolding ns_net_cookie_store_from_js_def Let_def
      pair_def [symmetric] raw_def [symmetric] n_def [symmetric] v_def [symmetric] a_def [symmetric]
    by (auto simp: no_ctl_store split: if_splits option.splits prod.splits)
  let ?j = "ns_net_cookie_js_path_for_partition env site" and ?p = "cookie_path (path_attr a) (up_pathname parts)"
  obtain out blocked where rw:
    "(case fs ?j of None \<Rightarrow> ([], False) | Some t \<Rightarrow> rewrite_lines now fd ?p n (file_lines t)) = (out, blocked)"
    by fastforce
  have new: "ns_net_cookie_store_from_js env now url cookie fs =
      fs(?j \<mapsto> (let (out, blocked) = (case fs ?j of None \<Rightarrow> ([], False) | Some t \<Rightarrow> rewrite_lines now fd ?p n (file_lines t))
        in if \<not> expired a \<and> \<not> blocked then out @ new_line fd tail ?p a n v else out))"
    using ne parts fd site rw
    unfolding ns_net_cookie_store_from_js_def Let_def
      pair_def [symmetric] raw_def [symmetric] n_def [symmetric] v_def [symmetric] a_def [symmetric]
    by (auto split: if_splits)
  have pair: "no_ctl pair" unfolding pair_def using c cspan_subset by (rule no_ctl_subset)
  then have raw: "no_ctl raw" unfolding raw_def using cspan_subset by (rule no_ctl_subset)
  have trim: "no_ctl (trim_right (trim_left s))" if "no_ctl s" for s
    using that by (meson set_trim subset_trans no_ctl_subset)
  have "no_ctl (drop (length raw + 1) pair)" using pair set_drop_subset by (rule no_ctl_subset)
  then have nv: "no_ctl n" "no_ctl v" using raw trim by (simp_all add: n_def v_def)
  have "no_ctl (drop (length pair) cookie)" using c set_drop_subset by (rule no_ctl_subset)
  then have "list_all no_ctl (split_pieces '';'' (drop (length pair) cookie))"
    unfolding list_all_iff by (meson no_ctl_subset split_pieces_subset)
  then have a: "attrs_no_ctl a" unfolding a_def
    by (rule attrs_no_ctl_loop) (simp add: attrs_no_ctl_def no_attrs_def)
  have host: "no_ctl (up_hostname parts)" "no_ctl (up_pathname parts)" "hd (up_hostname parts) \<noteq> CHR ''#''"
    using env parts by (auto simp: hosts_clean_def)
  have "no_ctl fd \<and> fd \<noteq> [] \<and> hd fd \<noteq> CHR ''#'' \<and> (tail = ''TRUE'' \<or> tail = ''FALSE'')"
    using a by (intro file_domain_ok [OF fd host(1) parts(2) host(3)]) (simp add: attrs_no_ctl_def)
  moreover have "no_ctl ?p" using a host by (intro cookie_path_ok) (simp_all add: attrs_no_ctl_def)
  moreover have "js_file_ok (fs ?j)" using fs by (simp add: js_files_ok_def)
  ultimately have "js_file_ok (store_step env fs r ?j)"
    unfolding r store_step_def prod.case new fun_upd_same using nv by (intro store_js_file) simp_all
  then have "js_files_ok env (store_step env fs r)"
    using fs unfolding js_files_ok_def r store_step_def prod.case new by (simp del: fun_upd_apply add: fun_upd_def) 
  with bad show False by simp
qed

interpretation cookie_files: invariant_system "\<lambda>(env, fs) r. (env, store_step env fs r)" "\<lambda>(env, fs). hosts_clean env \<and> js_files_ok env fs"
  by unfold_locales (auto simp: js_files_ok_store split: prod.splits)

lemma foldl_store_pair:
  "foldl (\<lambda>(env, fs) r. (env, store_step env fs r)) (env, fs) rs = (env, foldl (store_step env) fs rs)"
  by (induction rs arbitrary: fs) simp_all

text \<open>Whatever pages store, starting with no files of script cookies, such a file never has a comment line, so
  the guard that is to keep an HTTP-only cookie from being overwritten finds no HTTP-only cookie and never fires:
  those cookies are in the other file, which the operation does not read.\<close>

theorem cookie_httponly_guard_idle:
  assumes "hosts_clean env" and "\<And>site. fs (ns_net_cookie_js_path_for_partition env site) = None"
    and "foldl (store_step env) fs rs (ns_net_cookie_js_path_for_partition env site) = Some c"
  shows "(\<forall>l \<in> set (file_lines c). l = [] \<or> hd l \<noteq> CHR ''#'') \<and> \<not> snd (rewrite_lines now fd p n (file_lines c))"
proof -
  have "js_files_ok env fs" using assms(2) by (simp add: js_files_ok_def js_file_ok_def)
  with assms(1) cookie_files.inv_run [of "(env, fs)" rs] have "js_files_ok env (foldl (store_step env) fs rs)"
    by (simp add: foldl_store_pair)
  with assms(3) have ok: "js_file_ok (Some c)" unfolding js_files_ok_def by metis
  then show ?thesis
    using js_file_ok_unblocked [OF ok, of now fd p n] by (simp add: js_file_ok_def list_all_iff)
qed

lemma one_host_clean: "hosts_clean one_host_env"
proof -
  have "up_hostname parts = ''a.b'' \<and> up_pathname parts = ''/x/y''"
    if "ns_url_parts_new (lexbor one_host_env) url = Some parts" for url parts
    using that by (auto simp: one_host_env_def ns_url_parts_new_def url_parts_of_def Let_def split: if_splits)
  moreover have "no_ctl ''a.b'' \<and> no_ctl ''/x/y''" by code_simp
  ultimately show ?thesis unfolding hosts_clean_def by fastforce
qed

definition one_js_file :: string where
  "one_js_file = ns_net_cookie_js_path_for_partition one_host_env one_site"

theorem cookie_httponly_guard_idle_witness:
  "\<exists>c. foldl (store_step one_host_env) (\<lambda>f. None) [(3, one_url, ''k=v'')] one_js_file = Some c \<and>
     \<not> snd (rewrite_lines 4 ''a.b'' ''/x'' ''k'' (file_lines c))"
proof -
  define c where "c = the (foldl (store_step one_host_env) (\<lambda>f. None) [(3, one_url, ''k=v'')] one_js_file)"
  have "foldl (store_step one_host_env) (\<lambda>f. None) [(3, one_url, ''k=v'')] one_js_file \<noteq> None" by code_simp
  then have "foldl (store_step one_host_env) (\<lambda>f. None) [(3, one_url, ''k=v'')] one_js_file = Some c"
    by (simp add: c_def)
  with cookie_httponly_guard_idle [OF one_host_clean, of "\<lambda>f. None" "[(3, one_url, ''k=v'')]" one_site c 4 "''a.b''" "''/x''" "''k''"]
  show ?thesis unfolding one_js_file_def by blast
qed

text \<open>C25. So a script can put its own value in front of an HTTP-only cookie: the jar holds an HTTP-only session
  cookie for the host, a page of the host stores a cookie of the same name, domain and path, and its file gets the
  line; reading the cookies back gives the value of the script.\<close>

definition one_jar :: files where
  "one_jar = [ns_net_cookie_path_for_partition one_host_env one_site \<mapsto>
     ''#HttpOnly_a.b'' @ [CHR 0x09] @ ''FALSE'' @ [CHR 0x09] @ ''/x'' @ [CHR 0x09] @ ''TRUE'' @ [CHR 0x09] @ ''0'' @ [CHR 0x09] @
     ''sid'' @ [CHR 0x09] @ ''secret'' @ [CHR 0x0A]]"


text \<open>A cookie with an empty value is written and cannot be read: trimming the line cuts off its last tab, and six
  fields are too few.\<close>

lemma cookie_empty_value_lost:
  "(let fs = ns_net_cookie_store_from_js one_host_env 3 one_url ''k='' (\<lambda>f. None) in
    fs one_js_file = Some (''a.b'' @ [CHR 0x09] @ ''FALSE'' @ [CHR 0x09] @ ''/x'' @ [CHR 0x09] @ ''FALSE'' @ [CHR 0x09] @ ''0'' @ [CHR 0x09] @
      ''k'' @ [CHR 0x09] @ [CHR 0x0A]) \<and>
    ns_net_cookies_for_js one_host_env 3 fs one_url = None)"
  by code_simp

text \<open>A lifetime close to the largest number overflows, so that the cookie has expired long ago.\<close>

lemma cookie_long_life_lost:
  "cookie_attr one_host_env 3 ''max-age=9223372036854775807'' no_attrs =
     no_attrs\<lparr>has_expiry := True, expiry := - 9223372036854775806\<rparr>"
  by code_simp

end
