(* ===== verification/NS_Cache.thy ===== *)
theory NS_Cache
  imports NS_Url NS_Interfaces "HOL-Library.Multiset" "HOL-Library.List_Lexorder" "HOL-Library.Char_ord" "HOL-Library.Product_Lexorder"
begin

text \<open>
  The HTTP cache (\<^verbatim>\<open>src/cache.c\<close>): the table \<^verbatim>\<open>entries\<close> of its SQLite database as the list of its rows in the
  order of their row numbers, and the files of the bodies as a map from paths to contents.  Every SQL statement of
  the source is the function on rows that it denotes.  SHA-256 and the calendar of GLib are third-party code and
  parameters; the clock is an argument of the operations; whether a statement or a write succeeds is an argument
  where the source distinguishes it.
\<close>

section \<open>Keys and variants\<close>

record cache_env =
  sha256 :: "string \<Rightarrow> string"
  iso8601_unix :: "string \<Rightarrow> int option"  \<comment> \<open>\<^verbatim>\<open>g_date_time_new_from_iso8601\<close>, in seconds\<close>
  utc_unix :: "int \<Rightarrow> int \<Rightarrow> int \<Rightarrow> int \<Rightarrow> int \<Rightarrow> int \<Rightarrow> int option"  \<comment> \<open>\<^verbatim>\<open>g_date_time_new\<close> for UTC\<close>

definition cache_cap_bytes :: "int \<Rightarrow> int" where
  "cache_cap_bytes cap_mb = (if cap_mb \<le> 0 then 256 else cap_mb) * 1024 * 1024"

definition base_key_for_url :: "cache_env \<Rightarrow> string \<Rightarrow> string option \<Rightarrow> string" where
  "base_key_for_url env url part =
     sha256 env (url @ (case part of None \<Rightarrow> [] | Some p \<Rightarrow> if p = [] then [] else CHR 0x1F # p))"

definition body_path_for_key :: "string \<Rightarrow> string" where
  "body_path_for_key key = take 2 key @ ''/'' @ drop 2 key"

fun request_header_value :: "string list \<Rightarrow> string \<Rightarrow> string option" where
  "request_header_value [] name = None"
| "request_header_value (h # hs) name =
     (if strncaseeq (length name) h name \<and> length h > length name \<and> h ! length name = CHR '':''
      then Some (dropWhile (\<lambda>c. c = CHR '' '' \<or> c = CHR 0x09) (drop (length name + 1) h))
      else request_header_value hs name)"

fun vary_loop :: "string list \<Rightarrow> string list \<Rightarrow> string \<Rightarrow> string option" where
  "vary_loop [] headers selector = Some selector"
| "vary_loop (t # ts) headers selector =
     (let name = g_ascii_strdown (g_strstrip t) in
      if name = [] \<or> name = ''accept-encoding'' then vary_loop ts headers selector
      else if name \<noteq> ''accept'' \<and> name \<noteq> ''accept-language'' \<and> name \<noteq> ''user-agent'' \<and> name \<noteq> ''origin'' then None
      else case request_header_value headers name of
        None \<Rightarrow> None
      | Some v \<Rightarrow> vary_loop ts headers (selector @ name @ '':'' @ v @ [CHR 0x0A]))"

definition vary_selector :: "string option \<Rightarrow> string list \<Rightarrow> string option" where
  "vary_selector vary headers =
     (case vary of
        None \<Rightarrow> Some []
      | Some v \<Rightarrow> if v = [] then Some [] else vary_loop (g_strsplit_set v '','') headers [])"

definition row_key_for :: "cache_env \<Rightarrow> string \<Rightarrow> string \<Rightarrow> string" where
  "row_key_for env base_key selector = (if selector = [] then base_key else sha256 env (base_key @ [CHR 0x1F] @ selector))"

section \<open>Dates and freshness\<close>

text \<open>The directives of \<^verbatim>\<open>sscanf\<close> that the date formats use.  A number that does not fit is read as glibc reads it:
  cut to a \<^verbatim>\<open>long\<close>, then to an \<^verbatim>\<open>int\<close>.\<close>

definition c_isspace :: "char \<Rightarrow> bool" where
  "c_isspace c \<longleftrightarrow> g_ascii_isspace c \<or> c = CHR 0x0B"

definition scan_d :: "string \<Rightarrow> (int \<times> string) option" where
  "scan_d s =
     (let t = dropWhile c_isspace s; neg = (t \<noteq> [] \<and> hd t = CHR ''-'');
          u = (if t \<noteq> [] \<and> (hd t = CHR ''-'' \<or> hd t = CHR ''+'') then tl t else t);
          ds = takeWhile g_ascii_isdigit u; v = decimal_value ds;
          l = (if neg then max (- (2 ^ 63)) (- v) else min (2 ^ 63 - 1) v)
      in if ds = [] then None else Some ((l + 2 ^ 31) mod 2 ^ 32 - 2 ^ 31, dropWhile g_ascii_isdigit u))"

definition scan_3s :: "string \<Rightarrow> (string \<times> string) option" where
  "scan_3s s =
     (let t = dropWhile c_isspace s; w = take 3 (takeWhile (\<lambda>c. \<not> c_isspace c) t)
      in if w = [] then None else Some (w, drop (length w) t))"

definition scan_c :: "string \<Rightarrow> (char \<times> string) option" where
  "scan_c s = (if s = [] then None else Some (hd s, tl s))"

definition scan_lit :: "char \<Rightarrow> string \<Rightarrow> string option" where
  "scan_lit c s = (if s \<noteq> [] \<and> hd s = c then Some (tl s) else None)"

text \<open>\<^verbatim>\<open>%d:%d:%d\<close>.\<close>

definition scan_time :: "string \<Rightarrow> ((int \<times> int \<times> int) \<times> string) option" where
  "scan_time s =
     (case scan_d s of None \<Rightarrow> None | Some (hh, s) \<Rightarrow>
      case scan_lit (CHR '':'') s of None \<Rightarrow> None | Some s \<Rightarrow>
      case scan_d s of None \<Rightarrow> None | Some (mm, s) \<Rightarrow>
      case scan_lit (CHR '':'') s of None \<Rightarrow> None | Some s \<Rightarrow>
      case scan_d s of None \<Rightarrow> None | Some (ss, s) \<Rightarrow> Some ((hh, mm, ss), s))"

record date_fields =
  df_day :: int
  df_mon :: string
  df_year :: int
  df_time :: "int \<times> int \<times> int"

text \<open>\<^verbatim>\<open>"%d %3s %d %d:%d:%d"\<close>\<close>

definition scan_rfc1123 :: "string \<Rightarrow> date_fields option" where
  "scan_rfc1123 s =
     (case scan_d s of None \<Rightarrow> None | Some (day, s) \<Rightarrow>
      case scan_3s s of None \<Rightarrow> None | Some (mon, s) \<Rightarrow>
      case scan_d s of None \<Rightarrow> None | Some (year, s) \<Rightarrow>
      case scan_time s of None \<Rightarrow> None | Some (time, s) \<Rightarrow>
        Some \<lparr>df_day = day, df_mon = mon, df_year = year, df_time = time\<rparr>)"

text \<open>\<^verbatim>\<open>"%d%c%3s%c%d %d:%d:%d"\<close>\<close>

definition scan_rfc850 :: "string \<Rightarrow> date_fields option" where
  "scan_rfc850 s =
     (case scan_d s of None \<Rightarrow> None | Some (day, s) \<Rightarrow>
      case scan_c s of None \<Rightarrow> None | Some (sep, s) \<Rightarrow>
      case scan_3s s of None \<Rightarrow> None | Some (mon, s) \<Rightarrow>
      case scan_c s of None \<Rightarrow> None | Some (sep, s) \<Rightarrow>
      case scan_d s of None \<Rightarrow> None | Some (year, s) \<Rightarrow>
      case scan_time s of None \<Rightarrow> None | Some (time, s) \<Rightarrow>
        Some \<lparr>df_day = day, df_mon = mon,
          df_year = (if year < 100 then year + (if year < 70 then 2000 else 1900) else year), df_time = time\<rparr>)"

text \<open>\<^verbatim>\<open>"%3s %d %d:%d:%d %d"\<close>\<close>

definition scan_asctime :: "string \<Rightarrow> date_fields option" where
  "scan_asctime s =
     (case scan_3s s of None \<Rightarrow> None | Some (mon, s) \<Rightarrow>
      case scan_d s of None \<Rightarrow> None | Some (day, s) \<Rightarrow>
      case scan_time s of None \<Rightarrow> None | Some (time, s) \<Rightarrow>
      case scan_d s of None \<Rightarrow> None | Some (year, s) \<Rightarrow>
        Some \<lparr>df_day = day, df_mon = mon, df_year = year, df_time = time\<rparr>)"

definition month_names :: "string list" where
  "month_names = [''Jan'', ''Feb'', ''Mar'', ''Apr'', ''May'', ''Jun'', ''Jul'', ''Aug'', ''Sep'', ''Oct'', ''Nov'', ''Dec'']"

fun month_index :: "string list \<Rightarrow> int \<Rightarrow> string \<Rightarrow> int" where
  "month_index [] i m = 0"
| "month_index (n # ns) i m = (if strncaseeq 3 m n then i + 1 else month_index ns (i + 1) m)"

definition month_from_name :: "string \<Rightarrow> int" where
  "month_from_name m = month_index month_names 0 m"

definition parse_http_date :: "cache_env \<Rightarrow> string option \<Rightarrow> int" where
  "parse_http_date env s0 =
     (case s0 of
        None \<Rightarrow> 0
      | Some s \<Rightarrow>
          if s = [] then 0
          else case iso8601_unix env s of
            Some r \<Rightarrow> r
          | None \<Rightarrow>
              let p = dropWhile (\<lambda>c. c = CHR '' '') (case strchr s (CHR '','') of None \<Rightarrow> s | Some t \<Rightarrow> tl t);
                  fields = (case scan_rfc1123 p of Some f \<Rightarrow> Some f
                    | None \<Rightarrow> (case scan_rfc850 p of Some f \<Rightarrow> Some f | None \<Rightarrow> scan_asctime p))
              in case fields of
                None \<Rightarrow> 0
              | Some f \<Rightarrow>
                  let month = month_from_name (df_mon f); (hh, mm, ss) = df_time f in
                  if month = 0 then 0
                  else if df_year f < 1970 \<or> df_year f > 9999 \<or> df_day f < 1 \<or> df_day f > 31 \<or>
                          hh < 0 \<or> hh > 23 \<or> mm < 0 \<or> mm > 59 \<or> ss < 0 \<or> ss > 60 then 0
                  else case utc_unix env (df_year f) month (df_day f) hh mm ss of None \<Rightarrow> 0 | Some r \<Rightarrow> r)"

definition freshness_from_headers :: "cache_env \<Rightarrow> int \<Rightarrow> string option \<Rightarrow> string option \<Rightarrow> int" where
  "freshness_from_headers env now cache_control expires_header =
     (let by_expires = (case expires_header of
            None \<Rightarrow> 0
          | Some e \<Rightarrow> (let t = parse_http_date env (Some e) in if t > 0 then t else 0))
      in case cache_control of
        None \<Rightarrow> by_expires
      | Some cc \<Rightarrow>
          if strstr cc ''no-store'' \<noteq> None then -1
          else if strstr cc ''no-cache'' \<noteq> None then 0
          else
            let rest = (if strstr cc ''immutable'' \<noteq> None then now + 86400 * 30 else by_expires) in
            case strstr cc ''max-age'' of
              None \<Rightarrow> rest
            | Some p \<Rightarrow> (case strchr p (CHR ''='') of
                None \<Rightarrow> rest
              | Some q \<Rightarrow> now + min (86400 * 3650) (max 0 (fst (g_ascii_strtoll (tl q))))))"

definition is_cacheable_status :: "int \<Rightarrow> bool" where
  "is_cacheable_status s \<longleftrightarrow> s = 200 \<or> s = 203 \<or> s = 301 \<or> s = 410"

definition url_should_cache :: "string \<Rightarrow> bool" where
  "url_should_cache url \<longleftrightarrow> ns_url_is_http_or_https url \<and> \<not> list_ex (\<lambda>c. ord c < 0x20 \<or> ord c = 0x7F) url"

section \<open>The database and the bodies\<close>

record cache_row =
  row_key :: string
  base_key :: string
  row_url :: string
  row_final_url :: "string option"
  row_status :: int
  row_content_type :: "string option"
  row_cors_allow_origin :: "string option"
  row_etag :: "string option"
  row_last_modified :: "string option"
  row_vary :: "string option"
  row_expires_at :: int
  row_fetched_at :: int
  last_used :: int
  body_size :: int

record http_cache =
  cache_enabled :: bool
  rows :: "cache_row list"
  bodies :: "string \<Rightarrow> string option"

record ns_cache_entry =
  ce_final_url :: string
  ce_status :: int
  ce_content_type :: "string option"
  ce_cors_allow_origin :: "string option"
  ce_etag :: "string option"
  ce_last_modified :: "string option"
  ce_expires_at :: int
  ce_fetched_at :: int
  ce_body :: string

text \<open>\<^verbatim>\<open>DELETE FROM entries WHERE key=?\<close>, after the body was unlinked.\<close>

definition delete_key :: "string \<Rightarrow> http_cache \<Rightarrow> http_cache" where
  "delete_key key c = c\<lparr>rows := filter (\<lambda>r. row_key r \<noteq> key) (rows c), bodies := (bodies c)(body_path_for_key key := None)\<rparr>"

definition touch_key :: "int \<Rightarrow> string \<Rightarrow> http_cache \<Rightarrow> http_cache" where
  "touch_key now key c = c\<lparr>rows := map (\<lambda>r. if row_key r = key then r\<lparr>last_used := now\<rparr> else r) (rows c)\<rparr>"

definition row_matches :: "cache_env \<Rightarrow> string \<Rightarrow> string list \<Rightarrow> cache_row \<Rightarrow> bool" where
  "row_matches env base headers r \<longleftrightarrow> base_key r = base \<and>
     (case vary_selector (row_vary r) headers of None \<Rightarrow> False | Some sel \<Rightarrow> row_key r = row_key_for env base sel)"

definition find_row_key :: "cache_env \<Rightarrow> string \<Rightarrow> string list \<Rightarrow> cache_row list \<Rightarrow> string option" where
  "find_row_key env base headers rs = map_option row_key (List.find (row_matches env base headers) rs)"

text \<open>\<^verbatim>\<open>SUM(body_size) OVER (ORDER BY last_used DESC, key DESC)\<close>: the rows from the most recently used one on,
  and the keys of those at which the running sum exceeds the cap.\<close>

definition lru_order :: "cache_row list \<Rightarrow> cache_row list" where
  "lru_order rs = rev (sort_key (\<lambda>r. (last_used r, row_key r)) rs)"

fun over_cap :: "int \<Rightarrow> int \<Rightarrow> cache_row list \<Rightarrow> string list" where
  "over_cap cap running [] = []"
| "over_cap cap running (r # rs) =
     (let sum = running + body_size r in if sum > cap then row_key r # over_cap cap sum rs else over_cap cap sum rs)"

definition evict_by_select :: "string list \<Rightarrow> http_cache \<Rightarrow> http_cache" where
  "evict_by_select keys c = fold delete_key keys c"

definition NS_CACHE_MAX_AGE_SECONDS :: int where
  "NS_CACHE_MAX_AGE_SECONDS = 30 * 24 * 60 * 60"

definition evict_aged_out :: "int \<Rightarrow> http_cache \<Rightarrow> http_cache" where
  "evict_aged_out now c =
     evict_by_select (map row_key (filter (\<lambda>r. last_used r < now - NS_CACHE_MAX_AGE_SECONDS) (rows c))) c"

definition evict_to_cap :: "int \<Rightarrow> int \<Rightarrow> http_cache \<Rightarrow> http_cache" where
  "evict_to_cap cap_mb now c =
     (let c = evict_aged_out now c in evict_by_select (over_cap (cache_cap_bytes cap_mb) 0 (lru_order (rows c))) c)"

definition ns_cache_clear :: "http_cache \<Rightarrow> http_cache" where
  "ns_cache_clear c = c\<lparr>rows := (if cache_enabled c then [] else rows c), bodies := (\<lambda>p. None)\<rparr>"

definition entry_of_row :: "string \<Rightarrow> cache_row \<Rightarrow> string \<Rightarrow> ns_cache_entry" where
  "entry_of_row url r body =
     \<lparr>ce_final_url = (case row_final_url r of None \<Rightarrow> url | Some f \<Rightarrow> f), ce_status = row_status r,
      ce_content_type = row_content_type r, ce_cors_allow_origin = row_cors_allow_origin r, ce_etag = row_etag r,
      ce_last_modified = row_last_modified r, ce_expires_at = row_expires_at r, ce_fetched_at = row_fetched_at r,
      ce_body = body\<rparr>"

definition ns_cache_get ::
    "cache_env \<Rightarrow> int \<Rightarrow> int \<Rightarrow> string \<Rightarrow> string option \<Rightarrow> string list \<Rightarrow> http_cache \<Rightarrow> ns_cache_entry option \<times> http_cache" where
  "ns_cache_get env cap_mb now url part headers c =
     (if \<not> cache_enabled c then (None, c)
      else case find_row_key env (base_key_for_url env url part) headers (rows c) of
        None \<Rightarrow> (None, c)
      | Some key \<Rightarrow>
          (case List.find (\<lambda>r. row_key r = key) (rows c) of
             None \<Rightarrow> (None, c)
           | Some r \<Rightarrow>
               if \<not> is_cacheable_status (row_status r) then (None, delete_key key c)
               else if body_size r < 0 \<or> body_size r > cache_cap_bytes cap_mb then (None, c)
               else case bodies c (body_path_for_key key) of
                 None \<Rightarrow> (None, delete_key key c)
               | Some data \<Rightarrow>
                   if int (length data) > cache_cap_bytes cap_mb \<or> int (length data) > 2 ^ 32 - 1 then (None, delete_key key c)
                   else (Some (entry_of_row url r data), touch_key now key c)))"

definition ns_cache_is_fresh :: "int \<Rightarrow> ns_cache_entry \<Rightarrow> bool" where
  "ns_cache_is_fresh now e \<longleftrightarrow> ce_expires_at e > now"

text \<open>A response to store.\<close>

record put_request =
  p_url :: string
  p_partition :: "string option"
  p_final_url :: "string option"
  p_status :: int
  p_content_type :: "string option"
  p_cors :: "string option"
  p_etag :: "string option"
  p_last_modified :: "string option"
  p_cache_control :: "string option"
  p_expires :: "string option"
  p_vary :: "string option"
  p_headers :: "string list"
  p_body :: string

text \<open>\<^verbatim>\<open>INSERT INTO entries(...) VALUES(...) ON CONFLICT(key) DO UPDATE SET ...\<close>: an update leaves the key and the
  base key alone.\<close>

fun upsert :: "cache_row \<Rightarrow> cache_row list \<Rightarrow> cache_row list" where
  "upsert n [] = [n]"
| "upsert n (r # rs) = (if row_key r = row_key n then n\<lparr>base_key := base_key r\<rparr> # rs else r # upsert n rs)"

definition put_row :: "cache_env \<Rightarrow> int \<Rightarrow> put_request \<Rightarrow> string \<Rightarrow> int \<Rightarrow> cache_row" where
  "put_row env now p selector expires_at =
     (let base = base_key_for_url env (p_url p) (p_partition p) in
      \<lparr>row_key = row_key_for env base selector, base_key = base, row_url = p_url p,
       row_final_url = Some (case p_final_url p of None \<Rightarrow> p_url p | Some f \<Rightarrow> f), row_status = p_status p,
       row_content_type = p_content_type p, row_cors_allow_origin = p_cors p, row_etag = p_etag p,
       row_last_modified = p_last_modified p, row_vary = p_vary p, row_expires_at = expires_at, row_fetched_at = now,
       last_used = now, body_size = int (length (p_body p))\<rparr>)"

definition ns_cache_put :: "cache_env \<Rightarrow> int \<Rightarrow> int \<Rightarrow> bool \<Rightarrow> bool \<Rightarrow> put_request \<Rightarrow> http_cache \<Rightarrow> http_cache" where
  "ns_cache_put env cap_mb now sql_ok write_ok p c =
     (if \<not> cache_enabled c \<or> \<not> url_should_cache (p_url p) then c
      else if (case p_cache_control p of None \<Rightarrow> False
               | Some cc \<Rightarrow> strstr cc ''no-store'' \<noteq> None \<or> strstr cc ''private'' \<noteq> None) then c
      else if \<not> is_cacheable_status (p_status p) then c
      else if int (length (p_body p)) > 2 ^ 31 - 1 \<or> int (length (p_body p)) > cache_cap_bytes cap_mb then c
      else
        let expires_at = freshness_from_headers env now (p_cache_control p) (p_expires p) in
        if expires_at < 0 then c
        else case vary_selector (p_vary p) (p_headers p) of
          None \<Rightarrow> c
        | Some selector \<Rightarrow>
            let row = put_row env now p selector expires_at; key = row_key row in
            if \<not> sql_ok then c
            else
              let c = c\<lparr>rows := upsert row (rows c)\<rparr> in
              if \<not> write_ok then delete_key key c
              else evict_to_cap cap_mb now (c\<lparr>bodies := (bodies c)(body_path_for_key key \<mapsto> p_body p)\<rparr>))"

definition ns_cache_promote_304 ::
    "cache_env \<Rightarrow> int \<Rightarrow> string \<Rightarrow> string option \<Rightarrow> string list \<Rightarrow> string option \<Rightarrow> string option \<Rightarrow> http_cache \<Rightarrow> http_cache" where
  "ns_cache_promote_304 env now url part headers cache_control expires_header c =
     (if \<not> cache_enabled c \<or> \<not> url_should_cache url then c
      else case find_row_key env (base_key_for_url env url part) headers (rows c) of
        None \<Rightarrow> c
      | Some key \<Rightarrow>
          (case List.find (\<lambda>r. row_key r = key) (rows c) of
             None \<Rightarrow> c
           | Some r \<Rightarrow>
               let f = freshness_from_headers env now cache_control expires_header;
                   expires_at = (if f < 0 then 0 else f)
               in if expires_at \<le> row_expires_at r then c
                  else c\<lparr>rows := map (\<lambda>r. if row_key r = key
                    then r\<lparr>row_expires_at := expires_at, row_fetched_at := now, last_used := now\<rparr> else r) (rows c)\<rparr>))"

section \<open>The invariant of the store\<close>

text \<open>What the cache relies on of SHA-256: the digest is 64 hexadecimal digits.\<close>

definition is_hex_digit :: "char \<Rightarrow> bool" where
  "is_hex_digit c \<longleftrightarrow> g_ascii_isdigit c \<or> (97 \<le> ord c \<and> ord c \<le> 102)"

definition digests_hex :: "cache_env \<Rightarrow> bool" where
  "digests_hex env \<longleftrightarrow> (\<forall>s. length (sha256 env s) = 64 \<and> list_all is_hex_digit (sha256 env s))"

definition cache_total :: "cache_row list \<Rightarrow> int" where
  "cache_total rs = sum_list (map body_size rs)"

text \<open>Keys are unique and long enough for their path, only cacheable responses are stored, and every row has its
  body, of the recorded size.\<close>

definition row_ok :: "(string \<Rightarrow> string option) \<Rightarrow> cache_row \<Rightarrow> bool" where
  "row_ok files r \<longleftrightarrow> length (row_key r) = 64 \<and> is_cacheable_status (row_status r) \<and>
     (case files (body_path_for_key (row_key r)) of None \<Rightarrow> False | Some d \<Rightarrow> body_size r = int (length d))"

definition cache_wf :: "http_cache \<Rightarrow> bool" where
  "cache_wf c \<longleftrightarrow> distinct (map row_key (rows c)) \<and> list_all (row_ok (bodies c)) (rows c)"

lemma cache_wfI:
  "distinct (map row_key (rows c)) \<Longrightarrow> (\<And>r. r \<in> set (rows c) \<Longrightarrow> row_ok (bodies c) r) \<Longrightarrow> cache_wf c"
  by (simp add: cache_wf_def list_all_iff)

lemma cache_wfD: "cache_wf c \<Longrightarrow> r \<in> set (rows c) \<Longrightarrow> row_ok (bodies c) r"
  by (simp add: cache_wf_def list_all_iff)

lemma row_ok_size: "row_ok f r \<Longrightarrow> 0 \<le> body_size r"
  by (auto simp: row_ok_def split: option.splits)

lemma body_path_inj:
  assumes "length k = 64" "length k' = 64" "body_path_for_key k = body_path_for_key k'"
  shows "k = k'"
proof -
  have "take 2 k = take 2 k' \<and> ''/'' @ drop 2 k = ''/'' @ drop 2 k'"
    using assms unfolding body_path_for_key_def by (intro append_eq_append_conv [THEN iffD1]) simp_all
  then show ?thesis by (metis append_take_drop_id same_append_eq)
qed

lemma body_path_inj_any: "length k = 64 \<Longrightarrow> body_path_for_key k = body_path_for_key k' \<Longrightarrow> k = k'"
proof (rule body_path_inj)
  assume k: "length k = 64" and e: "body_path_for_key k = body_path_for_key k'"
  from e have "length (body_path_for_key k') = length (body_path_for_key k)" by simp
  with k show "length k' = 64" by (simp add: body_path_for_key_def min_def split: if_splits)
qed

lemma length_row_key: "digests_hex env \<Longrightarrow> length (row_key_for env (base_key_for_url env u p) sel) = 64"
  by (simp add: digests_hex_def row_key_for_def base_key_for_url_def)

subsection \<open>Deleting\<close>

lemma delete_key_simps [simp]:
  "cache_enabled (delete_key k c) = cache_enabled c"
  "rows (delete_key k c) = filter (\<lambda>r. row_key r \<noteq> k) (rows c)"
  "bodies (delete_key k c) = (bodies c)(body_path_for_key k := None)"
  by (simp_all add: delete_key_def)

lemma evict_simps [simp]:
  "cache_enabled (evict_by_select ks c) = cache_enabled c"
  "rows (evict_by_select ks c) = filter (\<lambda>r. row_key r \<notin> set ks) (rows c)"
  "bodies (evict_by_select ks c) p = (if p \<in> body_path_for_key ` set ks then None else bodies c p)"
  by (induction ks arbitrary: c) (auto simp: evict_by_select_def)

lemma evict_wf: "cache_wf c \<Longrightarrow> cache_wf (evict_by_select ks c)"
proof (rule cache_wfI)
  assume wf: "cache_wf c"
  then show "distinct (map row_key (rows (evict_by_select ks c)))"
    by (simp add: cache_wf_def distinct_map_filter)
  fix r assume "r \<in> set (rows (evict_by_select ks c))"
  then have r: "r \<in> set (rows c)" "row_key r \<notin> set ks" by auto
  have "row_ok (bodies c) r" using wf r(1) by (rule cache_wfD)
  moreover from this have "body_path_for_key (row_key r) \<notin> body_path_for_key ` set ks"
    using r(2) body_path_inj_any by (auto simp: row_ok_def)
  ultimately show "row_ok (bodies (evict_by_select ks c)) r" by (simp add: row_ok_def)
qed

lemma delete_key_evict: "delete_key k c = evict_by_select [k] c"
  by (simp add: evict_by_select_def)

lemma delete_wf: "cache_wf c \<Longrightarrow> cache_wf (delete_key k c)"
  unfolding delete_key_evict by (rule evict_wf)

lemma cache_total_filter:
  "(\<And>r. r \<in> set rs \<Longrightarrow> 0 \<le> body_size r) \<Longrightarrow> cache_total (filter P rs) \<le> cache_total rs"
  by (induction rs) (auto simp: cache_total_def intro: add_mono_thms_linordered_semiring(1) order_trans [OF _ add_increasing])

subsection \<open>The order of eviction\<close>

lemma lru_order_simps [simp]:
  "set (lru_order rs) = set rs" "length (lru_order rs) = length rs"
  by (simp_all add: lru_order_def)

lemma mset_lru_order: "mset (lru_order rs) = mset rs"
  by (simp add: lru_order_def)

lemma lru_order_sorted: "sorted_wrt (\<lambda>q r. (last_used r, row_key r) \<le> (last_used q, row_key q)) (lru_order rs)"
proof -
  have "sorted (map (\<lambda>r. (last_used r, row_key r)) (sort_key (\<lambda>r. (last_used r, row_key r)) rs))"
    by (rule sorted_sort_key)
  then show ?thesis unfolding lru_order_def sorted_wrt_rev sorted_map .
qed

text \<open>The keys over the cap are those of a tail of the list, and what is before it is the longest head that fits.\<close>

lemma over_cap_above: "(\<And>r. r \<in> set rs \<Longrightarrow> 0 \<le> body_size r) \<Longrightarrow> running > cap \<Longrightarrow> over_cap cap running rs = map row_key rs"
proof (induction rs arbitrary: running)
  case (Cons r rs)
  then have "0 \<le> body_size r" by simp
  with Cons.prems(2) have "running + body_size r > cap" by linarith
  with Cons show ?case by (simp add: Let_def)
qed simp

lemma over_cap_tail:
  assumes "\<And>r. r \<in> set rs \<Longrightarrow> 0 \<le> body_size r" and "running \<le> cap"
  shows "\<exists>n \<le> length rs. over_cap cap running rs = map row_key (drop n rs) \<and>
    running + cache_total (take n rs) \<le> cap \<and>
    (n < length rs \<longrightarrow> running + cache_total (take (Suc n) rs) > cap)"
  using assms
proof (induction rs arbitrary: running)
  case Nil
  then show ?case by (simp add: cache_total_def)
next
  case (Cons r rs)
  show ?case
  proof (cases "running + body_size r > cap")
    case True
    with Cons.prems over_cap_above [of rs cap "running + body_size r"] show ?thesis
      by (intro exI [of _ 0]) (simp add: cache_total_def Let_def)
  next
    case False
    with Cons.IH [of "running + body_size r"] Cons.prems obtain n where
      "n \<le> length rs" "over_cap cap (running + body_size r) rs = map row_key (drop n rs)"
      "running + body_size r + cache_total (take n rs) \<le> cap"
      "n < length rs \<longrightarrow> running + body_size r + cache_total (take (Suc n) rs) > cap"
      by auto
    with False show ?thesis
      by (intro exI [of _ "Suc n"]) (simp add: cache_total_def Let_def add.assoc)
  qed
qed

lemma mset_filter_take:
  assumes "distinct (map row_key rs)"
  shows "filter (\<lambda>r. row_key r \<notin> set (map row_key (drop n rs))) rs = take n rs"
proof -
  have d: "distinct (map row_key (take n rs @ drop n rs))" using assms by simp
  then have "\<forall>r \<in> set (take n rs). row_key r \<notin> row_key ` set (drop n rs)"
    unfolding map_append distinct_append by (metis (mono_tags, opaque_lifting) disjoint_iff image_eqI list.set_map)
  then have "filter (\<lambda>r. row_key r \<notin> set (map row_key (drop n rs))) (take n rs) = take n rs"
    by (simp add: filter_id_conv)
  moreover have "filter (\<lambda>r. row_key r \<notin> set (map row_key (drop n rs))) (drop n rs) = []"
    by (simp add: filter_empty_conv)
  ultimately show ?thesis
    by (metis append_Nil2 append_take_drop_id filter_append)
qed

lemma cache_total_mset: "mset rs = mset qs \<Longrightarrow> cache_total rs = cache_total qs"
  unfolding cache_total_def by (metis mset_map sum_mset_sum_list)

lemma evict_to_cap_total:
  assumes "distinct (map row_key (rows c))" and "\<And>r. r \<in> set (rows c) \<Longrightarrow> 0 \<le> body_size r" and "0 \<le> cap"
  defines "c' \<equiv> evict_by_select (over_cap cap 0 (lru_order (rows c))) c"
  obtains n where "n \<le> length (rows c)" and "mset (rows c') = mset (take n (lru_order (rows c)))"
    and "cache_total (rows c') \<le> cap"
    and "n < length (rows c) \<Longrightarrow> cache_total (take (Suc n) (lru_order (rows c))) > cap"
proof -
  let ?l = "lru_order (rows c)"
  have ms: "mset ?l = mset (rows c)" by (rule mset_lru_order)
  then have dl: "distinct (map row_key ?l)"
    using assms(1) by (metis mset_eq_imp_distinct_iff mset_map)
  have nn: "\<And>r. r \<in> set ?l \<Longrightarrow> 0 \<le> body_size r" using assms(2) by simp
  obtain n where n: "n \<le> length ?l" "over_cap cap 0 ?l = map row_key (drop n ?l)"
    "cache_total (take n ?l) \<le> cap" "n < length ?l \<longrightarrow> cache_total (take (Suc n) ?l) > cap"
    using over_cap_tail [of ?l 0 cap, OF nn assms(3)] by auto
  have "mset (rows c') = mset (filter (\<lambda>r. row_key r \<notin> set (map row_key (drop n ?l))) (rows c))"
    unfolding c'_def evict_simps n(2) ..
  also have "\<dots> = mset (filter (\<lambda>r. row_key r \<notin> set (map row_key (drop n ?l))) ?l)"
    using ms by (metis mset_filter)
  also have "\<dots> = mset (take n ?l)" using mset_filter_take [OF dl] by simp
  finally have m: "mset (rows c') = mset (take n ?l)" .
  from m have "cache_total (rows c') = cache_total (take n ?l)" by (rule cache_total_mset)
  with n m that show ?thesis by simp
qed

subsection \<open>Storing\<close>

lemma map_key_upsert:
  "map row_key (upsert n rs) =
   (if row_key n \<in> set (map row_key rs) then map row_key rs else map row_key rs @ [row_key n])"
  by (induction rs) auto

lemma distinct_upsert: "distinct (map row_key rs) \<Longrightarrow> distinct (map row_key (upsert n rs))"
  unfolding map_key_upsert by auto

lemma set_upsert:
  "distinct (map row_key rs) \<Longrightarrow> r \<in> set (upsert n rs) \<Longrightarrow>
   (\<exists>b. r = n\<lparr>base_key := b\<rparr>) \<or> (r \<in> set rs \<and> row_key r \<noteq> row_key n)"
proof (induction rs)
  case Nil
  then have "r = n\<lparr>base_key := base_key n\<rparr>" by simp
  then show ?case by blast
next
  case (Cons q rs)
  show ?case
  proof (cases "row_key q = row_key n")
    case True
    with Cons.prems have "r = n\<lparr>base_key := base_key q\<rparr> \<or> (r \<in> set rs \<and> row_key r \<noteq> row_key n)"
      by (auto simp: image_iff)
    then show ?thesis by auto
  next
    case False
    with Cons show ?thesis by auto
  qed
qed

lemma filter_upsert: "filter (\<lambda>r. row_key r \<noteq> row_key n) (upsert n rs) = filter (\<lambda>r. row_key r \<noteq> row_key n) rs"
  by (induction rs) auto

lemma filter_aged_wf:
  assumes "cache_wf c"
  shows "cache_wf (evict_to_cap cap_mb now c)" and "cache_total (rows (evict_to_cap cap_mb now c)) \<le> cache_cap_bytes cap_mb"
proof -
  let ?c = "evict_aged_out now c" and ?cap = "cache_cap_bytes cap_mb"
  have wf: "cache_wf ?c" unfolding evict_aged_out_def using assms by (rule evict_wf)
  then show "cache_wf (evict_to_cap cap_mb now c)"
    unfolding evict_to_cap_def Let_def by (rule evict_wf)
  have d: "distinct (map row_key (rows ?c))" using wf by (simp add: cache_wf_def)
  have nn: "\<And>r. r \<in> set (rows ?c) \<Longrightarrow> 0 \<le> body_size r" using wf by (meson cache_wfD row_ok_size)
  have cap: "0 \<le> ?cap" by (simp add: cache_cap_bytes_def)
  show "cache_total (rows (evict_to_cap cap_mb now c)) \<le> ?cap"
    unfolding evict_to_cap_def Let_def by (rule evict_to_cap_total [OF d nn cap])
qed

lemma put_row_simps [simp]:
  "row_key (put_row env now p sel e) = row_key_for env (base_key_for_url env (p_url p) (p_partition p)) sel"
  "base_key (put_row env now p sel e) = base_key_for_url env (p_url p) (p_partition p)"
  "row_status (put_row env now p sel e) = p_status p"
  "body_size (put_row env now p sel e) = int (length (p_body p))"
  "last_used (put_row env now p sel e) = now"
  "row_vary (put_row env now p sel e) = p_vary p"
  by (simp_all add: put_row_def Let_def)

text \<open>What \<^verbatim>\<open>ns_cache_put\<close> does once its checks have passed.\<close>

definition storable :: "string option \<Rightarrow> bool" where
  "storable cache_control \<longleftrightarrow>
     (case cache_control of None \<Rightarrow> True | Some cc \<Rightarrow> strstr cc ''no-store'' = None \<and> strstr cc ''private'' = None)"

definition may_store :: "cache_env \<Rightarrow> int \<Rightarrow> int \<Rightarrow> put_request \<Rightarrow> bool" where
  "may_store env cap_mb now p \<longleftrightarrow> url_should_cache (p_url p) \<and>
     storable (p_cache_control p) \<and>
     is_cacheable_status (p_status p) \<and> int (length (p_body p)) \<le> 2 ^ 31 - 1 \<and>
     int (length (p_body p)) \<le> cache_cap_bytes cap_mb \<and>
     0 \<le> freshness_from_headers env now (p_cache_control p) (p_expires p) \<and>
     vary_selector (p_vary p) (p_headers p) \<noteq> None"

lemma put_cases:
  fixes c :: http_cache and p :: put_request and env :: cache_env and now :: int
  defines "row \<equiv> put_row env now p (the (vary_selector (p_vary p) (p_headers p)))
     (freshness_from_headers env now (p_cache_control p) (p_expires p))"
  shows "ns_cache_put env cap_mb now sql_ok write_ok p c =
    (if \<not> (cache_enabled c \<and> may_store env cap_mb now p \<and> sql_ok) then c
     else if \<not> write_ok then delete_key (row_key row) (c\<lparr>rows := upsert row (rows c)\<rparr>)
     else evict_to_cap cap_mb now (c\<lparr>rows := upsert row (rows c),
       bodies := (bodies c)(body_path_for_key (row_key row) \<mapsto> p_body p)\<rparr>))"
  unfolding ns_cache_put_def may_store_def storable_def row_def Let_def
  by (cases "p_cache_control p"; cases "vary_selector (p_vary p) (p_headers p)") (simp_all add: not_less)

lemma put_stored_wf:
  assumes wf: "cache_wf c" and hex: "digests_hex env" and store: "may_store env cap_mb now p"
  shows "cache_wf (c\<lparr>rows := upsert (put_row env now p sel e) (rows c),
    bodies := (bodies c)(body_path_for_key (row_key (put_row env now p sel e)) \<mapsto> p_body p)\<rparr>)"
proof (rule cache_wfI)
  let ?n = "put_row env now p sel e"
  let ?k = "row_key ?n"
  have d: "distinct (map row_key (rows c))" using wf by (simp add: cache_wf_def)
  then show "distinct (map row_key (rows (c\<lparr>rows := upsert ?n (rows c), bodies := (bodies c)(body_path_for_key ?k \<mapsto> p_body p)\<rparr>)))"
    by (simp add: distinct_upsert)
  have len: "length ?k = 64" using hex length_row_key by simp
  fix r
  assume "r \<in> set (rows (c\<lparr>rows := upsert ?n (rows c), bodies := (bodies c)(body_path_for_key ?k \<mapsto> p_body p)\<rparr>))"
  then have "r \<in> set (upsert ?n (rows c))" by simp
  from set_upsert [OF d this] consider b where "r = ?n\<lparr>base_key := b\<rparr>" | "r \<in> set (rows c)" "row_key r \<noteq> ?k" by blast
  then show "row_ok (bodies (c\<lparr>rows := upsert ?n (rows c), bodies := (bodies c)(body_path_for_key ?k \<mapsto> p_body p)\<rparr>)) r"
  proof cases
    case 1
    with len store show ?thesis by (simp add: row_ok_def may_store_def)
  next
    case 2
    then have "row_ok (bodies c) r" using wf by (blast intro: cache_wfD)
    moreover have "body_path_for_key (row_key r) \<noteq> body_path_for_key ?k"
      using 2(2) body_path_inj_any [OF len] by metis
    ultimately show ?thesis by (simp add: row_ok_def)
  qed
qed

section \<open>Histories of the cache\<close>

datatype cache_op =
    Put int bool bool put_request
  | Get int string "string option" "string list"
  | Promote int string "string option" "string list" "string option" "string option"
  | Clear
  | Evict int  \<comment> \<open>what opening the cache does\<close>

fun cache_step :: "cache_env \<Rightarrow> int \<Rightarrow> http_cache \<Rightarrow> cache_op \<Rightarrow> http_cache" where
  "cache_step env cap_mb c (Put now sql_ok write_ok p) = ns_cache_put env cap_mb now sql_ok write_ok p c"
| "cache_step env cap_mb c (Get now url part headers) = snd (ns_cache_get env cap_mb now url part headers c)"
| "cache_step env cap_mb c (Promote now url part headers cc ex) = ns_cache_promote_304 env now url part headers cc ex c"
| "cache_step env cap_mb c Clear = ns_cache_clear c"
| "cache_step env cap_mb c (Evict now) = evict_to_cap cap_mb now c"

definition empty_cache :: http_cache where
  "empty_cache = \<lparr>cache_enabled = True, rows = [], bodies = (\<lambda>p. None)\<rparr>"

definition cache_run :: "cache_env \<Rightarrow> int \<Rightarrow> cache_op list \<Rightarrow> http_cache" where
  "cache_run env cap_mb ops = foldl (cache_step env cap_mb) empty_cache ops"

text \<open>An update of bookkeeping columns keeps the invariant and the sizes.\<close>

definition same_body :: "(cache_row \<Rightarrow> cache_row) \<Rightarrow> bool" where
  "same_body f \<longleftrightarrow> (\<forall>r. row_key (f r) = row_key r \<and> row_status (f r) = row_status r \<and> body_size (f r) = body_size r)"

lemma map_rows_wf:
  assumes "same_body f" and "cache_wf c"
  shows "cache_wf (c\<lparr>rows := map f (rows c)\<rparr>)" and "cache_total (map f (rows c)) = cache_total (rows c)"
proof -
  have keys: "map row_key (map f (rows c)) = map row_key (rows c)"
    and sizes: "map body_size (map f (rows c)) = map body_size (rows c)"
    using assms(1) by (simp_all add: same_body_def)
  have "list_all (row_ok (bodies c)) (map f (rows c))"
    using assms by (auto simp: cache_wf_def same_body_def row_ok_def list_all_iff split: option.splits)
  moreover have "distinct (map row_key (map f (rows c)))"
    unfolding keys using assms(2) by (simp add: cache_wf_def)
  ultimately show "cache_wf (c\<lparr>rows := map f (rows c)\<rparr>)" by (simp add: cache_wf_def del: map_map)
  show "cache_total (map f (rows c)) = cache_total (rows c)" unfolding cache_total_def sizes ..
qed

definition cache_good :: "int \<Rightarrow> http_cache \<Rightarrow> bool" where
  "cache_good cap_mb c \<longleftrightarrow> cache_enabled c \<and> cache_wf c \<and> cache_total (rows c) \<le> cache_cap_bytes cap_mb"

lemma delete_good: "cache_good cap_mb c \<Longrightarrow> cache_good cap_mb (delete_key k c)"
proof -
  assume g: "cache_good cap_mb c"
  then have "cache_total (rows (delete_key k c)) \<le> cache_total (rows c)"
    unfolding delete_key_simps by (intro cache_total_filter) (meson cache_good_def cache_wfD row_ok_size)
  with g show ?thesis using delete_wf [of c k] by (simp add: cache_good_def)
qed

lemma map_rows_good: "same_body f \<Longrightarrow> cache_good cap_mb c \<Longrightarrow> cache_good cap_mb (c\<lparr>rows := map f (rows c)\<rparr>)"
  using map_rows_wf [of f c] by (simp add: cache_good_def)

lemma touch_good: "cache_good cap_mb c \<Longrightarrow> cache_good cap_mb (touch_key now k c)"
  unfolding touch_key_def by (rule map_rows_good) (simp_all add: same_body_def)

lemma get_good: "cache_good cap_mb c \<Longrightarrow> cache_good cap_mb (snd (ns_cache_get env cap_mb now url part headers c))"
  by (auto simp: ns_cache_get_def delete_good touch_good split: option.splits)

lemma promote_good: "cache_good cap_mb c \<Longrightarrow> cache_good cap_mb (ns_cache_promote_304 env now url part headers cc ex c)"
  by (auto simp: ns_cache_promote_304_def Let_def same_body_def intro: map_rows_good split: option.splits)

lemma evict_good: "cache_wf c \<Longrightarrow> cache_enabled c \<Longrightarrow> cache_good cap_mb (evict_to_cap cap_mb now c)"
  using filter_aged_wf [of c cap_mb now] by (simp add: cache_good_def evict_to_cap_def evict_aged_out_def Let_def)

lemma delete_upsert: "delete_key (row_key n) (c\<lparr>rows := upsert n (rows c)\<rparr>) = delete_key (row_key n) c"
  by (simp add: delete_key_def filter_upsert)

lemma put_good:
  assumes "digests_hex env" and "cache_good cap_mb c"
  shows "cache_good cap_mb (ns_cache_put env cap_mb now sql_ok write_ok p c)"
  unfolding put_cases delete_upsert
  using assms put_stored_wf [of c env cap_mb now p] delete_good [of cap_mb c]
  by (auto simp: cache_good_def intro!: evict_good [unfolded cache_good_def])

lemma clear_good: "cache_good cap_mb c \<Longrightarrow> cache_good cap_mb (ns_cache_clear c)"
  by (simp add: cache_good_def ns_cache_clear_def cache_wf_def cache_total_def cache_cap_bytes_def)

lemma step_good: "digests_hex env \<Longrightarrow> cache_good cap_mb c \<Longrightarrow> cache_good cap_mb (cache_step env cap_mb c op)"
proof (cases op)
  case (Evict now)
  assume "cache_good cap_mb c"
  then show ?thesis unfolding Evict cache_step.simps by (intro evict_good) (simp_all add: cache_good_def)
qed (simp_all add: put_good get_good promote_good clear_good)

lemma empty_good: "cache_good cap_mb empty_cache"
  by (simp add: cache_good_def empty_cache_def cache_wf_def cache_total_def cache_cap_bytes_def)

text \<open>The environment and the size limit stay as they are, so that a history is a run of the system.\<close>

definition cache_system_step :: "cache_env \<times> int \<times> http_cache \<Rightarrow> cache_op \<Rightarrow> cache_env \<times> int \<times> http_cache" where
  "cache_system_step s op = (case s of (env, cap_mb, c) \<Rightarrow> (env, cap_mb, cache_step env cap_mb c op))"

lemma foldl_cache_system:
  "foldl cache_system_step (env, cap_mb, c) ops = (env, cap_mb, foldl (cache_step env cap_mb) c ops)"
  by (induction ops arbitrary: c) (simp_all add: cache_system_step_def)

interpretation cache_system: invariant_system cache_system_step
    "\<lambda>(env, cap_mb, c). digests_hex env \<and> cache_good cap_mb c"
  by unfold_locales (auto simp: cache_system_step_def step_good)

lemma run_good: "digests_hex env \<Longrightarrow> cache_good cap_mb (cache_run env cap_mb ops)"
  using cache_system.inv_run [of "(env, cap_mb, empty_cache)" ops] empty_good
  by (simp add: foldl_cache_system cache_run_def)

section \<open>Properties: the store\<close>

text \<open>C27. Through every history of the cache, from the empty store and with the digests of SHA-256, the table is
  well-formed: the keys are unique digests, only cacheable responses are in it, and every row has its body in the
  file of its key, with the recorded size; and together the bodies never exceed the limit of the configuration.\<close>

theorem cache_table_wf:
  assumes "digests_hex env"
  shows "cache_wf (cache_run env cap_mb ops) \<and>
    cache_total (rows (cache_run env cap_mb ops)) \<le> cache_cap_bytes cap_mb"
  using run_good [OF assms] by (simp add: cache_good_def)

text \<open>A hash for examples: the first characters of the text, as digits, and zeros.\<close>

definition toy_digest :: "string \<Rightarrow> string" where
  "toy_digest s = take 64 (map (\<lambda>c. if is_hex_digit c then c else CHR ''f'') s @ replicate 64 (CHR ''0''))"

definition toy_env :: cache_env where
  "toy_env = \<lparr>sha256 = toy_digest, iso8601_unix = (\<lambda>s. None),
     utc_unix = (\<lambda>y mo d h mi s. Some (((((y - 1970) * 12 + (mo - 1)) * 31 + d) * 24 + h) * 3600 + mi * 60 + s))\<rparr>"

lemma toy_hex: "digests_hex toy_env"
proof -
  have "is_hex_digit (CHR ''f'')" "is_hex_digit (CHR ''0'')" by code_simp+
  then have "list_all is_hex_digit (map (\<lambda>c. if is_hex_digit c then c else CHR ''f'') s @ replicate 64 (CHR ''0''))" for s
    by (auto simp: list_all_iff)
  then have "list_all is_hex_digit (toy_digest s)" for s
    unfolding toy_digest_def by (metis append_take_drop_id list_all_append)
  moreover have "length (toy_digest s) = 64" for s by (simp add: toy_digest_def)
  ultimately show ?thesis by (simp add: digests_hex_def toy_env_def)
qed

definition toy_put :: "string \<Rightarrow> string option \<Rightarrow> string \<Rightarrow> string \<Rightarrow> put_request" where
  "toy_put url vary header body = \<lparr>p_url = url, p_partition = None, p_final_url = None, p_status = 200,
     p_content_type = Some ''text/html'', p_cors = None, p_etag = None, p_last_modified = None,
     p_cache_control = Some ''max-age=60'', p_expires = None, p_vary = vary, p_headers = [header], p_body = body\<rparr>"

theorem cache_table_wf_witness:
  "cache_wf (cache_run toy_env 1 [Put 100 True True (toy_put ''http://a/'' None ''Accept: x'' ''hello''), Evict 200]) \<and>
   rows (cache_run toy_env 1 [Put 100 True True (toy_put ''http://a/'' None ''Accept: x'' ''hello''), Evict 200]) \<noteq> []"
proof -
  have "rows (cache_run toy_env 1 [Put 100 True True (toy_put ''http://a/'' None ''Accept: x'' ''hello''), Evict 200]) \<noteq> []"
    by code_simp
  with cache_table_wf [OF toy_hex] show ?thesis by blast
qed

definition aged :: "int \<Rightarrow> cache_row \<Rightarrow> bool" where
  "aged now r \<longleftrightarrow> last_used r < now - NS_CACHE_MAX_AGE_SECONDS"

lemma filter_keys:
  assumes "distinct (map row_key rs)"
  shows "filter (\<lambda>r. row_key r \<notin> set (map row_key (filter P rs))) rs = filter (\<lambda>r. \<not> P r) rs"
proof (rule filter_cong [OF refl])
  fix r assume r: "r \<in> set rs"
  have "row_key r \<in> set (map row_key (filter P rs)) \<longleftrightarrow> P r"
    using assms r by (auto simp: distinct_map inj_on_def)
  then show "(row_key r \<notin> set (map row_key (filter P rs))) = (\<not> P r)" by simp
qed

lemma rows_evict_aged:
  "cache_wf c \<Longrightarrow> rows (evict_aged_out now c) = filter (\<lambda>r. \<not> aged now r) (rows c)"
  unfolding evict_aged_out_def evict_simps aged_def by (rule filter_keys) (simp add: cache_wf_def)

text \<open>C29. Eviction is by recency: of the rows that were used in the last thirty days, listed from the most recently
  used one on, those that stay are the longest head of the list that fits into the limit.\<close>

theorem cache_evicts_lru:
  assumes "cache_wf c"
  shows "\<exists>n. mset (rows (evict_to_cap cap_mb now c)) =
      mset (take n (lru_order (filter (\<lambda>r. \<not> aged now r) (rows c)))) \<and>
    cache_total (take n (lru_order (filter (\<lambda>r. \<not> aged now r) (rows c)))) \<le> cache_cap_bytes cap_mb \<and>
    (n < length (filter (\<lambda>r. \<not> aged now r) (rows c)) \<longrightarrow>
      cache_total (take (Suc n) (lru_order (filter (\<lambda>r. \<not> aged now r) (rows c)))) > cache_cap_bytes cap_mb)"
proof -
  let ?c = "evict_aged_out now c" and ?cap = "cache_cap_bytes cap_mb"
  have wf: "cache_wf ?c" unfolding evict_aged_out_def using assms by (rule evict_wf)
  have d: "distinct (map row_key (rows ?c))" using wf by (simp add: cache_wf_def)
  have nn: "\<And>r. r \<in> set (rows ?c) \<Longrightarrow> 0 \<le> body_size r" using wf by (meson cache_wfD row_ok_size)
  have cap: "0 \<le> ?cap" by (simp add: cache_cap_bytes_def)
  obtain n where n: "mset (rows (evict_by_select (over_cap ?cap 0 (lru_order (rows ?c))) ?c)) = mset (take n (lru_order (rows ?c)))"
    "cache_total (rows (evict_by_select (over_cap ?cap 0 (lru_order (rows ?c))) ?c)) \<le> ?cap"
    "n < length (rows ?c) \<longrightarrow> cache_total (take (Suc n) (lru_order (rows ?c))) > ?cap"
    using evict_to_cap_total [OF d nn cap] by metis
  from n(2) cache_total_mset [OF n(1)] have "cache_total (take n (lru_order (rows ?c))) \<le> ?cap" by simp
  with n show ?thesis unfolding rows_evict_aged [OF assms] evict_to_cap_def Let_def by blast
qed

theorem cache_evicts_lru_witness:
  "\<exists>n. mset (rows (evict_to_cap 1 500 (cache_run toy_env 1 [Put 100 True True (toy_put ''http://a/'' None ''Accept: x'' ''hello'')]))) =
     mset (take n (lru_order (filter (\<lambda>r. \<not> aged 500 r)
       (rows (cache_run toy_env 1 [Put 100 True True (toy_put ''http://a/'' None ''Accept: x'' ''hello'')])))))"
proof -
  have "cache_wf (cache_run toy_env 1 [Put 100 True True (toy_put ''http://a/'' None ''Accept: x'' ''hello'')])"
    using run_good [OF toy_hex] by (simp add: cache_good_def)
  from cache_evicts_lru [OF this] show ?thesis by blast
qed

section \<open>Properties: what a request gets\<close>

lemma find_unique:
  assumes "distinct (map row_key rs)" and "r \<in> set rs"
  shows "List.find (\<lambda>q. row_key q = row_key r) rs = Some r"
  using assms by (induction rs) (auto simp: image_iff)

lemma find_only:
  assumes "r \<in> set rs" and "P r" and "\<And>q. q \<in> set rs \<Longrightarrow> P q \<Longrightarrow> q = r"
  shows "List.find P rs = Some r"
proof -
  from assms(1,2) obtain q where q: "List.find P rs = Some q"
    by (metis find_None_iff option.exhaust)
  then have "q \<in> set rs" "P q" by (auto simp: find_Some_iff)
  with assms(3) q show ?thesis by simp
qed

lemma lru_hd:
  assumes "r \<in> set rs" and "\<And>q. q \<in> set rs \<Longrightarrow> q \<noteq> r \<Longrightarrow> last_used q < last_used r"
  shows "hd (lru_order rs) = r"
proof (rule ccontr)
  assume ne: "hd (lru_order rs) \<noteq> r"
  from assms(1) obtain q l where l: "lru_order rs = q # l"
    by (metis empty_iff list.set(1) lru_order_simps(1) neq_Nil_conv)
  with ne have q: "q \<noteq> r" "q \<in> set rs" "r \<in> set l"
    using assms(1) lru_order_simps(1) [of rs] by auto
  with lru_order_sorted [of rs] l have "(last_used r, row_key r) \<le> (last_used q, row_key q)" by simp
  moreover from q assms(2) have "last_used q < last_used r" by simp
  ultimately show False by (simp add: less_eq_prod_def)
qed

text \<open>The most recently used row survives eviction if it fits.\<close>

lemma evict_keeps_newest:
  assumes wf: "cache_wf c" and r: "r \<in> set (rows c)" and new: "\<And>q. q \<in> set (rows c) \<Longrightarrow> q \<noteq> r \<Longrightarrow> last_used q < last_used r"
    and now: "last_used r = now" and fits: "body_size r \<le> cache_cap_bytes cap_mb"
  shows "r \<in> set (rows (evict_to_cap cap_mb now c))"
proof -
  let ?c = "evict_aged_out now c" and ?cap = "cache_cap_bytes cap_mb"
  have wf': "cache_wf ?c" unfolding evict_aged_out_def using wf by (rule evict_wf)
  have "\<not> aged now r" using now by (simp add: aged_def NS_CACHE_MAX_AGE_SECONDS_def)
  then have r': "r \<in> set (rows ?c)" using r by (simp add: rows_evict_aged [OF wf])
  have "hd (lru_order (rows ?c)) = r"
    using r' new by (intro lru_hd) (auto simp: rows_evict_aged [OF wf])
  then obtain l where l: "lru_order (rows ?c) = r # l"
    using r' by (metis empty_iff list.collapse list.set(1) lru_order_simps(1))
  have nn: "\<And>q. q \<in> set l \<Longrightarrow> 0 \<le> body_size q"
    using wf' l by (metis cache_wfD row_ok_size list.set_intros(2) lru_order_simps(1))
  have d: "distinct (map row_key (r # l))"
    using wf' mset_lru_order [of "rows ?c"] unfolding l cache_wf_def by (metis mset_eq_imp_distinct_iff mset_map)
  have "row_key r \<notin> set (over_cap ?cap 0 (r # l))"
  proof -
    obtain n where "over_cap ?cap (body_size r) l = map row_key (drop n l)"
      using over_cap_tail [of l "body_size r" ?cap, OF nn fits] by blast
    moreover have "row_key r \<notin> row_key ` set (drop n l)" for n
      using d by (auto dest: in_set_dropD)
    ultimately show ?thesis using fits by (simp add: Let_def)
  qed
  with r' show ?thesis unfolding evict_to_cap_def Let_def evict_simps l by simp
qed

lemma evict_to_cap_subset:
  "set (rows (evict_to_cap cap_mb now c)) \<subseteq> set (rows c)"
  "bodies (evict_to_cap cap_mb now c) p \<noteq> None \<Longrightarrow> bodies (evict_to_cap cap_mb now c) p = bodies c p"
  "cache_enabled (evict_to_cap cap_mb now c) = cache_enabled c"
  by (auto simp: evict_to_cap_def evict_aged_out_def Let_def split: if_splits)

lemma upsert_in:
  assumes "\<And>r. r \<in> set rs \<Longrightarrow> row_key r = row_key n \<Longrightarrow> base_key r = base_key n"
  shows "n \<in> set (upsert n rs)"
proof -
  have "\<forall>r \<in> set rs. row_key r = row_key n \<longrightarrow> n\<lparr>base_key := base_key r\<rparr> = n"
    using assms by (metis cache_row.surjective cache_row.update_convs(2) cache_row.select_convs(2))
  then show ?thesis by (induction rs) (force simp del: cache_row.update_convs)+
qed

lemma distinct_key_eq: "distinct (map row_key rs) \<Longrightarrow> q \<in> set rs \<Longrightarrow> r \<in> set rs \<Longrightarrow> row_key q = row_key r \<Longrightarrow> q = r"
  by (auto simp: distinct_map inj_on_def)

text \<open>A response that may be stored, put into a store whose rows are all older, is in the table afterwards.\<close>

lemma put_then_row:
  assumes hex: "digests_hex env" and good: "cache_good cap_mb c" and store: "may_store env cap_mb now p"
    and sel: "vary_selector (p_vary p) (p_headers p) = Some sel"
    and older: "\<And>r. r \<in> set (rows c) \<Longrightarrow> last_used r < now"
  defines "n \<equiv> put_row env now p sel (freshness_from_headers env now (p_cache_control p) (p_expires p))"
  assumes base: "\<And>r. r \<in> set (rows c) \<Longrightarrow> row_key r = row_key n \<Longrightarrow> base_key r = base_key n"
  shows "n \<in> set (rows (ns_cache_put env cap_mb now True True p c))"
    and "set (rows (ns_cache_put env cap_mb now True True p c)) \<subseteq> insert n (set (rows c))"
    and "bodies (ns_cache_put env cap_mb now True True p c) (body_path_for_key (row_key n)) = Some (p_body p)"
    and "cache_good cap_mb (ns_cache_put env cap_mb now True True p c)"
proof -
  define c1 where "c1 = c\<lparr>rows := upsert n (rows c), bodies := (bodies c)(body_path_for_key (row_key n) \<mapsto> p_body p)\<rparr>"
  have en: "cache_enabled c" and wf: "cache_wf c" and d: "distinct (map row_key (rows c))"
    using good by (simp_all add: cache_good_def cache_wf_def)
  have put: "ns_cache_put env cap_mb now True True p c = evict_to_cap cap_mb now c1"
    using en store sel unfolding put_cases by (simp add: c1_def n_def)
  have wf1: "cache_wf c1" unfolding c1_def n_def by (rule put_stored_wf [OF wf hex store])
  then have d1: "distinct (map row_key (rows c1))" by (simp add: cache_wf_def)
  have n1: "n \<in> set (rows c1)" using base by (simp add: c1_def upsert_in)
  have old1: "q \<in> set (rows c) \<and> row_key q \<noteq> row_key n" if "q \<in> set (rows c1)" "q \<noteq> n" for q
    using set_upsert [OF d, of q n] that distinct_key_eq [OF d1 that(1) n1] by (auto simp: c1_def)
  have "body_size n \<le> cache_cap_bytes cap_mb" "last_used n = now" using store by (simp_all add: n_def may_store_def)
  with n1 old1 older show in2: "n \<in> set (rows (ns_cache_put env cap_mb now True True p c))"
    unfolding put by (intro evict_keeps_newest [OF wf1]) auto
  show "set (rows (ns_cache_put env cap_mb now True True p c)) \<subseteq> insert n (set (rows c))"
    unfolding put using evict_to_cap_subset(1) [of cap_mb now c1] old1 by blast
  show good2: "cache_good cap_mb (ns_cache_put env cap_mb now True True p c)" using hex good by (rule put_good)
  then have "row_ok (bodies (evict_to_cap cap_mb now c1)) n"
    using in2 unfolding put cache_good_def by (blast intro: cache_wfD)
  then have "bodies (evict_to_cap cap_mb now c1) (body_path_for_key (row_key n)) \<noteq> None"
    by (auto simp: row_ok_def split: option.splits)
  from evict_to_cap_subset(2) [OF this]
  show "bodies (ns_cache_put env cap_mb now True True p c) (body_path_for_key (row_key n)) = Some (p_body p)"
    unfolding put by (simp add: c1_def)
qed



section \<open>Provenance\<close>

definition partition_name :: "string option \<Rightarrow> string" where
  "partition_name part = (case part of None \<Rightarrow> [] | Some p \<Rightarrow> p)"

definition base_input :: "string \<Rightarrow> string option \<Rightarrow> string" where
  "base_input url part = url @ (if partition_name part = [] then [] else CHR 0x1F # partition_name part)"

lemma base_key_input: "base_key_for_url env url part = sha256 env (base_input url part)"
  by (simp add: base_key_for_url_def base_input_def partition_name_def split: option.split)

definition row_input :: "string \<Rightarrow> string \<Rightarrow> string" where
  "row_input base sel = base @ [CHR 0x1F] @ sel"

text \<open>The texts that are digested for a stored response, and for a request.\<close>

definition put_digests :: "cache_env \<Rightarrow> put_request \<Rightarrow> string set" where
  "put_digests env p = {base_input (p_url p) (p_partition p)} \<union>
     (case vary_selector (p_vary p) (p_headers p) of None \<Rightarrow> {}
      | Some sel \<Rightarrow> {row_input (base_key_for_url env (p_url p) (p_partition p)) sel})"

definition get_digests :: "cache_env \<Rightarrow> put_request list \<Rightarrow> string \<Rightarrow> string option \<Rightarrow> string list \<Rightarrow> string set" where
  "get_digests env ps url part headers = {base_input url part} \<union>
     (\<Union>p \<in> set ps. case vary_selector (p_vary p) headers of None \<Rightarrow> {}
      | Some sel \<Rightarrow> {row_input (base_key_for_url env url part) sel})"

fun puts_of :: "cache_op list \<Rightarrow> put_request list" where
  "puts_of [] = []"
| "puts_of (Put now sql_ok write_ok p # ops) = p # puts_of ops"
| "puts_of (op # ops) = puts_of ops"

lemma puts_of_append: "puts_of (xs @ ys) = puts_of xs @ puts_of ys"
  by (induction xs rule: puts_of.induct) simp_all

lemma http_url_hd: "url_should_cache url \<Longrightarrow> url \<noteq> [] \<and> hd url = CHR ''h''"
  by (cases url) (auto simp: url_should_cache_def ns_url_is_http_or_https_def)

lemma base_input_not_row:
  assumes "digests_hex env" and "url_should_cache url"
  shows "base_input url part \<noteq> row_input (sha256 env s) sel"
proof
  assume e: "base_input url part = row_input (sha256 env s) sel"
  have s: "sha256 env s \<noteq> []" "list_all is_hex_digit (sha256 env s)"
    using assms(1) by (auto simp: digests_hex_def dest: spec [of _ s])
  have "hd (base_input url part) = CHR ''h''" using http_url_hd [OF assms(2)] by (simp add: base_input_def)
  with e s(1) have "hd (sha256 env s) = CHR ''h''" by (simp add: row_input_def)
  with s have "is_hex_digit (CHR ''h'')" by (metis list.set_sel(1) list_all_iff)
  moreover have "\<not> is_hex_digit (CHR ''h'')" by code_simp
  ultimately show False by blast
qed

lemma row_key_inj:
  assumes hex: "digests_hex env" and inj: "inj_on (sha256 env) S"
    and u: "url_should_cache u1" "url_should_cache u2"
    and S: "base_input u1 p1 \<in> S" "base_input u2 p2 \<in> S"
      "row_input (base_key_for_url env u1 p1) s1 \<in> S" "row_input (base_key_for_url env u2 p2) s2 \<in> S"
    and eq: "row_key_for env (base_key_for_url env u1 p1) s1 = row_key_for env (base_key_for_url env u2 p2) s2"
  shows "base_key_for_url env u1 p1 = base_key_for_url env u2 p2"
proof (cases "s1 = []"; cases "s2 = []")
  assume "s1 \<noteq> []" "s2 \<noteq> []"
  with eq have "sha256 env (row_input (base_key_for_url env u1 p1) s1) = sha256 env (row_input (base_key_for_url env u2 p2) s2)"
    by (simp add: row_key_for_def row_input_def)
  with inj S(3,4) have "row_input (base_key_for_url env u1 p1) s1 = row_input (base_key_for_url env u2 p2) s2"
    by (meson inj_onD)
  moreover have "length (base_key_for_url env u1 p1) = length (base_key_for_url env u2 p2)"
    using hex by (simp add: base_key_input digests_hex_def)
  ultimately show ?thesis unfolding row_input_def by (meson append_eq_append_conv)
next
  assume "s1 = []" "s2 \<noteq> []"
  with eq have "sha256 env (base_input u1 p1) = sha256 env (row_input (base_key_for_url env u2 p2) s2)"
    by (simp add: row_key_for_def row_input_def base_key_input)
  with inj S(1,4) have "base_input u1 p1 = row_input (base_key_for_url env u2 p2) s2" by (meson inj_onD)
  with base_input_not_row [OF hex u(1)] show ?thesis unfolding base_key_input by blast
next
  assume "s1 \<noteq> []" "s2 = []"
  with eq have "sha256 env (base_input u2 p2) = sha256 env (row_input (base_key_for_url env u1 p1) s1)"
    by (simp add: row_key_for_def row_input_def base_key_input)
  with inj S(2,3) have "base_input u2 p2 = row_input (base_key_for_url env u1 p1) s1" by (meson inj_onD)
  with base_input_not_row [OF hex u(2)] show ?thesis unfolding base_key_input by blast
qed (use eq in \<open>simp add: row_key_for_def\<close>)

text \<open>A row up to its bookkeeping columns, and the response it was made of.\<close>

definition content :: "cache_row \<Rightarrow> cache_row" where
  "content r = r\<lparr>row_expires_at := 0, row_fetched_at := 0, last_used := 0\<rparr>"

definition row_from :: "cache_env \<Rightarrow> cache_row \<Rightarrow> put_request \<Rightarrow> bool" where
  "row_from env r p \<longleftrightarrow> (\<exists>sel. vary_selector (p_vary p) (p_headers p) = Some sel \<and> content r = content (put_row env 0 p sel 0))"

definition may_keep :: "put_request \<Rightarrow> bool" where
  "may_keep p \<longleftrightarrow> url_should_cache (p_url p) \<and>
     storable (p_cache_control p) \<and>
     is_cacheable_status (p_status p)"

definition provenance :: "cache_env \<Rightarrow> put_request set \<Rightarrow> http_cache \<Rightarrow> bool" where
  "provenance env H c \<longleftrightarrow> (\<forall>r \<in> set (rows c). \<exists>p \<in> H. may_keep p \<and> row_from env r p \<and>
     bodies c (body_path_for_key (row_key r)) = Some (p_body p))"

lemma content_key: "content r = content q \<Longrightarrow> row_key r = row_key q \<and> base_key r = base_key q \<and> row_vary r = row_vary q \<and>
    row_status r = row_status q \<and> row_final_url r = row_final_url q \<and> row_content_type r = row_content_type q \<and>
    row_cors_allow_origin r = row_cors_allow_origin q \<and> row_etag r = row_etag q \<and> row_last_modified r = row_last_modified q"
  by (cases r; cases q) (simp add: content_def)

lemma provenance_mono: "provenance env H c \<Longrightarrow> H \<subseteq> H' \<Longrightarrow> provenance env H' c"
  unfolding provenance_def by (meson subsetD)

text \<open>Whatever only drops rows and bodies and rewrites bookkeeping keeps the provenance.\<close>

lemma provenance_shrink:
  assumes "provenance env H c" and "cache_wf c'"
    and "\<And>r'. r' \<in> set (rows c') \<Longrightarrow> \<exists>r \<in> set (rows c). content r' = content r"
    and "\<And>p. bodies c' p \<noteq> None \<Longrightarrow> bodies c' p = bodies c p"
  shows "provenance env H c'"
  unfolding provenance_def
proof
  fix r' assume r': "r' \<in> set (rows c')"
  then obtain r where r: "r \<in> set (rows c)" "content r' = content r" using assms(3) by blast
  then obtain p where p: "p \<in> H" "may_keep p" "row_from env r p" "bodies c (body_path_for_key (row_key r)) = Some (p_body p)"
    using assms(1) unfolding provenance_def by blast
  have "bodies c' (body_path_for_key (row_key r')) \<noteq> None"
    using cache_wfD [OF assms(2) r'] by (auto simp: row_ok_def split: option.splits)
  with assms(4) p(4) content_key [OF r(2)] have "bodies c' (body_path_for_key (row_key r')) = Some (p_body p)" by metis
  moreover have "row_from env r' p" using p(3) r(2) by (simp add: row_from_def)
  ultimately show "\<exists>p \<in> H. may_keep p \<and> row_from env r' p \<and> bodies c' (body_path_for_key (row_key r')) = Some (p_body p)"
    using p by blast
qed

lemma provenance_delete: "cache_good cap_mb c \<Longrightarrow> provenance env H c \<Longrightarrow> provenance env H (delete_key k c)"
  using delete_wf [of c k] by (elim provenance_shrink) (auto simp: cache_good_def split: if_splits)

lemma provenance_evict: "cache_wf c \<Longrightarrow> provenance env H c \<Longrightarrow> provenance env H (evict_to_cap cap_mb now c)"
  using filter_aged_wf(1) [of c cap_mb now] evict_to_cap_subset(1) [of cap_mb now c] evict_to_cap_subset(2) [of cap_mb now c]
  by (elim provenance_shrink) blast+

lemma provenance_map:
  "same_body f \<Longrightarrow> (\<And>r. content (f r) = content r) \<Longrightarrow> cache_wf c \<Longrightarrow> provenance env H c \<Longrightarrow>
   provenance env H (c\<lparr>rows := map f (rows c)\<rparr>)"
  using map_rows_wf(1) [of f c] by (elim provenance_shrink) auto

lemma provenance_get:
  assumes "cache_good cap_mb c" and "provenance env H c"
  shows "provenance env H (snd (ns_cache_get env' cap_mb now url part headers c))"
proof -
  have "provenance env H (touch_key now k c)" for k
    unfolding touch_key_def using assms
    by (intro provenance_map) (simp_all add: same_body_def content_def cache_good_def)
  with assms show ?thesis
    using provenance_delete [OF assms] by (auto simp: ns_cache_get_def split: option.splits)
qed

lemma provenance_promote:
  assumes "cache_good cap_mb c" and "provenance env H c"
  shows "provenance env H (ns_cache_promote_304 env' now url part headers cc ex c)"
proof -
  have "provenance env H (c\<lparr>rows := map (\<lambda>r. if row_key r = k then r\<lparr>row_expires_at := e, row_fetched_at := now, last_used := now\<rparr> else r) (rows c)\<rparr>)"
    for k e
    using assms by (intro provenance_map) (simp_all add: same_body_def content_def cache_good_def)
  with assms show ?thesis by (auto simp: ns_cache_promote_304_def Let_def split: option.splits)
qed

lemma set_upsert_same:
  assumes "\<And>r. r \<in> set rs \<Longrightarrow> row_key r = row_key n \<Longrightarrow> base_key r = base_key n" and "distinct (map row_key rs)"
    and "r \<in> set (upsert n rs)"
  shows "r = n \<or> (r \<in> set rs \<and> row_key r \<noteq> row_key n)"
  using set_upsert [OF assms(2,3)] upsert_in [of rs n, OF assms(1)] distinct_upsert [OF assms(2), of n] assms(3)
  by (metis cache_row.select_convs(1) cache_row.surjective cache_row.update_convs(2) distinct_key_eq)

lemma row_from_keys:
  assumes "row_from env r p"
  obtains sel where "vary_selector (p_vary p) (p_headers p) = Some sel"
    and "base_key r = base_key_for_url env (p_url p) (p_partition p)"
    and "row_key r = row_key_for env (base_key_for_url env (p_url p) (p_partition p)) sel" and "row_vary r = p_vary p"
proof -
  from assms obtain sel where "vary_selector (p_vary p) (p_headers p) = Some sel" "content r = content (put_row env 0 p sel 0)"
    by (auto simp: row_from_def)
  with content_key [OF this(2)] that show ?thesis by simp
qed

lemma provenance_put:
  assumes hex: "digests_hex env" and good: "cache_good cap_mb c" and prov: "provenance env H c" and p: "p \<in> H"
    and inj: "inj_on (sha256 env) (\<Union>p \<in> H. put_digests env p)"
  shows "provenance env H (ns_cache_put env cap_mb now sql_ok write_ok p c)"
proof (cases "cache_enabled c \<and> may_store env cap_mb now p \<and> sql_ok")
  case False
  with prov show ?thesis by (simp only: put_cases if_True simp_thms)
next
  case True
  let ?e = "freshness_from_headers env now (p_cache_control p) (p_expires p)"
  from True obtain sel where sel: "vary_selector (p_vary p) (p_headers p) = Some sel" by (auto simp: may_store_def)
  let ?n = "put_row env now p sel ?e"
  let ?c = "c\<lparr>rows := upsert ?n (rows c), bodies := (bodies c)(body_path_for_key (row_key ?n) \<mapsto> p_body p)\<rparr>"
  have d: "distinct (map row_key (rows c))" using good by (simp add: cache_good_def cache_wf_def)
  have keep: "may_keep p" using True by (simp add: may_store_def may_keep_def)
  have from_p: "row_from env ?n p" using sel by (simp add: row_from_def content_def put_row_def Let_def)
  have base: "base_key r = base_key ?n" if r: "r \<in> set (rows c)" "row_key r = row_key ?n" for r
  proof -
    obtain q where q: "q \<in> H" "may_keep q" "row_from env r q" using prov r(1) unfolding provenance_def by blast
    from q(3) obtain s where s: "vary_selector (p_vary q) (p_headers q) = Some s"
      "base_key r = base_key_for_url env (p_url q) (p_partition q)"
      "row_key r = row_key_for env (base_key_for_url env (p_url q) (p_partition q)) s" by (rule row_from_keys)
    have "put_digests env q \<union> put_digests env p \<subseteq> (\<Union>p \<in> H. put_digests env p)" using p q(1) by blast
    with inj have "inj_on (sha256 env) (put_digests env q \<union> put_digests env p)" by (rule inj_on_subset)
    from row_key_inj [OF hex this, of "p_url q" "p_url p" "p_partition q" "p_partition p" s sel] keep q(2) s sel r(2)
    show ?thesis by (simp add: put_digests_def may_keep_def)
  qed
  have wf: "cache_wf ?c" using good hex True put_stored_wf [of c env cap_mb now p sel ?e] by (simp add: cache_good_def)
  have "provenance env H ?c"
    unfolding provenance_def
  proof
    fix r assume "r \<in> set (rows ?c)"
    then have "r \<in> set (upsert ?n (rows c))" by simp
    from set_upsert_same [OF base d this] consider "r = ?n" | "r \<in> set (rows c)" "row_key r \<noteq> row_key ?n" by blast
    then show "\<exists>p \<in> H. may_keep p \<and> row_from env r p \<and> bodies ?c (body_path_for_key (row_key r)) = Some (p_body p)"
    proof cases
      case 1
      with p keep from_p show ?thesis by auto
    next
      case 2
      have "length (row_key ?n) = 64" using length_row_key [OF hex] by simp
      with 2(2) have "body_path_for_key (row_key r) \<noteq> body_path_for_key (row_key ?n)" using body_path_inj_any by metis
      with 2(1) prov show ?thesis by (auto simp: provenance_def)
    qed
  qed
  moreover have "provenance env H (delete_key (row_key ?n) c)" using good prov by (rule provenance_delete)
  ultimately show ?thesis
    using True wf sel provenance_evict [OF wf] unfolding put_cases delete_upsert by simp
qed

lemma provenance_run:
  assumes hex: "digests_hex env" and inj: "inj_on (sha256 env) (\<Union>p \<in> set (puts_of ops). put_digests env p)"
  shows "provenance env (set (puts_of ops)) (cache_run env cap_mb ops)"
  using inj
proof (induction ops rule: rev_induct)
  case Nil
  then show ?case by (simp add: cache_run_def empty_cache_def provenance_def)
next
  case (snoc op ops)
  have sub: "set (puts_of ops) \<subseteq> set (puts_of (ops @ [op]))" by (simp add: puts_of_append)
  then have "inj_on (sha256 env) (\<Union>p \<in> set (puts_of ops). put_digests env p)"
    by (intro inj_on_subset [OF snoc.prems]) blast
  then have "provenance env (set (puts_of ops)) (cache_run env cap_mb ops)" by (rule snoc.IH)
  then have prov: "provenance env (set (puts_of (ops @ [op]))) (cache_run env cap_mb ops)"
    using sub by (rule provenance_mono)
  have good: "cache_good cap_mb (cache_run env cap_mb ops)" by (rule run_good [OF hex])
  have run: "cache_run env cap_mb (ops @ [op]) = cache_step env cap_mb (cache_run env cap_mb ops) op"
    by (simp add: cache_run_def)
  show ?case
  proof (cases op)
    case (Put now sql_ok write_ok p)
    then have "p \<in> set (puts_of (ops @ [op]))" by (simp add: puts_of_append)
    then show ?thesis unfolding run using provenance_put [OF hex good prov _ snoc.prems] by (simp add: Put)
  next
    case Clear
    then show ?thesis unfolding run using good by (simp add: ns_cache_clear_def provenance_def cache_good_def)
  next
    case (Evict now)
    then show ?thesis unfolding run using good prov provenance_evict by (simp add: cache_good_def)
  next
    case (Get now url part headers)
    show ?thesis unfolding run using provenance_get [OF good prov] by (simp add: Get)
  next
    case (Promote now url part headers cc ex)
    show ?thesis unfolding run using provenance_promote [OF good prov] by (simp add: Promote)
  qed
qed

lemma partition_eq:
  assumes "CHR 0x1F \<notin> set u" "CHR 0x1F \<notin> set v" and "base_input u p = base_input v q"
  shows "u = v \<and> partition_name p = partition_name q"
proof -
  have cut: "takeWhile (\<lambda>c. c \<noteq> CHR 0x1F) (base_input w r) = w" if "CHR 0x1F \<notin> set w" for w r
    using that by (induction w) (auto simp: base_input_def)
  then have "u = v" using assms by metis
  with assms(3) show ?thesis by (auto simp: base_input_def split: if_splits)
qed


lemma variant_inj:
  assumes hex: "digests_hex env" and inj: "inj_on (sha256 env) S" and u: "url_should_cache u"
    and S: "base_input u p \<in> S" "row_input (base_key_for_url env u p) s \<in> S" "row_input (base_key_for_url env u p) t \<in> S"
    and eq: "row_key_for env (base_key_for_url env u p) s = row_key_for env (base_key_for_url env u p) t"
  shows "s = t"
proof -
  let ?b = "base_key_for_url env u p"
  have not_base: "sha256 env (row_input ?b x) \<noteq> ?b" if "row_input ?b x \<in> S" for x
    using inj_onD [OF inj, of "row_input ?b x" "base_input u p"] that S(1) base_input_not_row [OF hex u]
    unfolding base_key_input by metis
  have "row_input ?b s = row_input ?b t" if "sha256 env (row_input ?b s) = sha256 env (row_input ?b t)"
    using inj_onD [OF inj that S(2,3)] .
  then have "sha256 env (row_input ?b s) = sha256 env (row_input ?b t) \<Longrightarrow> s = t" by (simp add: row_input_def)
  with eq not_base [OF S(2)] not_base [OF S(3)] show ?thesis
    unfolding row_key_for_def row_input_def [symmetric] by (auto split: if_splits)
qed

lemma get_entry:
  assumes get: "ns_cache_get env cap_mb now url part headers c = (Some e, c')" and d: "distinct (map row_key (rows c))"
  obtains r body where "r \<in> set (rows c)" and "row_matches env (base_key_for_url env url part) headers r"
    and "bodies c (body_path_for_key (row_key r)) = Some body" and "e = entry_of_row url r body"
proof -
  obtain key where en: "cache_enabled c" and key: "find_row_key env (base_key_for_url env url part) headers (rows c) = Some key"
    using get by (auto simp: ns_cache_get_def split: if_splits option.splits)
  from key obtain q where "List.find (row_matches env (base_key_for_url env url part) headers) (rows c) = Some q"
    and k: "row_key q = key" by (auto simp: find_row_key_def)
  then have q: "q \<in> set (rows c)" "row_matches env (base_key_for_url env url part) headers q"
    by (auto simp: find_Some_iff)
  have "\<exists>body. bodies c (body_path_for_key key) = Some body \<and> e = entry_of_row url q body"
    using get en unfolding ns_cache_get_def key option.case find_unique [OF d q(1), unfolded k]
    by (auto split: if_splits option.splits)
  with q that k show ?thesis by blast
qed

text \<open>C26. Whatever a request gets from the cache is a response that was stored for the same address and the same
  partition, that was neither marked \<^verbatim>\<open>no-store\<close> nor \<^verbatim>\<open>private\<close>, with its body, status and header fields, and
  its \<^verbatim>\<open>Vary\<close> field selects the same values from the headers of both requests.  The digests of the run are taken
  to be free of collisions.\<close>

theorem cache_get_sound:
  assumes "digests_hex env"
    and "inj_on (sha256 env) ((\<Union>p \<in> set (puts_of ops). put_digests env p) \<union> get_digests env (puts_of ops) url part headers)"
    and "CHR 0x1F \<notin> set url"
    and "ns_cache_get env cap_mb now url part headers (cache_run env cap_mb ops) = (Some e, c')"
  shows "\<exists>p \<in> set (puts_of ops). p_url p = url \<and> partition_name (p_partition p) = partition_name part \<and>
    storable (p_cache_control p) \<and> is_cacheable_status (p_status p) \<and>
    ce_body e = p_body p \<and> ce_status e = p_status p \<and> ce_content_type e = p_content_type p \<and>
    ce_cors_allow_origin e = p_cors p \<and> ce_etag e = p_etag p \<and> ce_last_modified e = p_last_modified p \<and>
    ce_final_url e = (case p_final_url p of None \<Rightarrow> url | Some f \<Rightarrow> f) \<and>
    (\<exists>sel. vary_selector (p_vary p) (p_headers p) = Some sel \<and> vary_selector (p_vary p) headers = Some sel)"
proof -
  let ?c = "cache_run env cap_mb ops" and ?P = "\<Union>p \<in> set (puts_of ops). put_digests env p"
  have "inj_on (sha256 env) ?P" using assms(2) by (rule inj_on_subset) blast
  then have prov: "provenance env (set (puts_of ops)) ?c" by (rule provenance_run [OF assms(1)])
  have "distinct (map row_key (rows ?c))" using run_good [OF assms(1)] by (simp add: cache_good_def cache_wf_def)
  from get_entry [OF assms(4) this] obtain r body where r: "r \<in> set (rows ?c)"
    "row_matches env (base_key_for_url env url part) headers r"
    "bodies ?c (body_path_for_key (row_key r)) = Some body" "e = entry_of_row url r body" .
  obtain p where p: "p \<in> set (puts_of ops)" "may_keep p" "row_from env r p"
    "bodies ?c (body_path_for_key (row_key r)) = Some (p_body p)" using prov r(1) unfolding provenance_def by blast
  from p(3) obtain sel where sel: "vary_selector (p_vary p) (p_headers p) = Some sel"
    "base_key r = base_key_for_url env (p_url p) (p_partition p)"
    "row_key r = row_key_for env (base_key_for_url env (p_url p) (p_partition p)) sel" "row_vary r = p_vary p"
    by (rule row_from_keys)
  from r(2) sel(4) obtain sel' where sel': "vary_selector (p_vary p) headers = Some sel'"
    "base_key r = base_key_for_url env url part" "row_key r = row_key_for env (base_key_for_url env url part) sel'"
    by (auto simp: row_matches_def split: option.splits)
  let ?S = "?P \<union> get_digests env (puts_of ops) url part headers"
  have in_S: "base_input (p_url p) (p_partition p) \<in> ?S" "base_input url part \<in> ?S"
    "row_input (base_key_for_url env (p_url p) (p_partition p)) sel \<in> ?S" "row_input (base_key_for_url env url part) sel' \<in> ?S"
  proof -
    have P: "put_digests env p \<subseteq> ?S" using p(1) by blast
    show "base_input (p_url p) (p_partition p) \<in> ?S" by (rule subsetD [OF P]) (simp add: put_digests_def)
    show "row_input (base_key_for_url env (p_url p) (p_partition p)) sel \<in> ?S"
      by (rule subsetD [OF P]) (simp add: put_digests_def sel(1))
    show "base_input url part \<in> ?S" by (simp add: get_digests_def)
    show "row_input (base_key_for_url env url part) sel' \<in> ?S"
      unfolding get_digests_def by (intro UnI2 UN_I [OF p(1)]) (simp add: sel'(1))
  qed
  have clean: "CHR 0x1F \<notin> set (p_url p)" using p(2) by (auto simp: may_keep_def url_should_cache_def list_ex_iff)
  from sel(2) sel'(2) have base: "base_key_for_url env (p_url p) (p_partition p) = base_key_for_url env url part" by simp
  then have "base_input (p_url p) (p_partition p) = base_input url part"
    using assms(2) in_S(1,2) unfolding base_key_input by (meson inj_onD)
  then have eq: "p_url p = url" "partition_name (p_partition p) = partition_name part"
    using partition_eq [OF clean assms(3)] by blast+
  have "url_should_cache url" using p(2) eq(1) by (simp add: may_keep_def)
  moreover have "row_key_for env (base_key_for_url env url part) sel = row_key_for env (base_key_for_url env url part) sel'"
    using sel(3) sel'(3) by (simp only: base)
  ultimately have same: "sel = sel'"
    using variant_inj [OF assms(1,2) _ in_S(2) in_S(3) [unfolded base] in_S(4)] by blast
  obtain sel0 where "vary_selector (p_vary p) (p_headers p) = Some sel0" "content r = content (put_row env 0 p sel0 0)"
    using p(3) unfolding row_from_def by blast
  note fields = content_key [OF this(2)]
  have "body = p_body p" using r(3) p(4) by simp
  then have "ce_body e = p_body p \<and> ce_status e = p_status p \<and> ce_content_type e = p_content_type p \<and>
    ce_cors_allow_origin e = p_cors p \<and> ce_etag e = p_etag p \<and> ce_last_modified e = p_last_modified p \<and>
    ce_final_url e = (case p_final_url p of None \<Rightarrow> url | Some f \<Rightarrow> f)"
    using fields eq(1) unfolding r(4) entry_of_row_def put_row_def Let_def by (simp split: option.split)
  then show ?thesis
    using p(1,2) eq sel(1) sel'(1) same unfolding may_keep_def by blast
qed

text \<open>Two variants of a page by language, and a request for one of them.\<close>

definition toy_ops :: "cache_op list" where
  "toy_ops = [Put 100 True True (toy_put ''http://a/'' (Some ''Accept-Language'') ''Accept-Language: 1'' ''one''),
     Put 101 True True (toy_put ''http://a/'' (Some ''Accept-Language'') ''Accept-Language: 2'' ''two'')]"

definition wide_digest :: "string \<Rightarrow> string" where
  "wide_digest s = (let t = filter is_hex_digit s in drop (length t) (replicate 64 (CHR ''0'') @ t))"

definition wide_env :: cache_env where
  "wide_env = toy_env\<lparr>sha256 := wide_digest\<rparr>"

lemma wide_hex: "digests_hex wide_env"
proof -
  have "is_hex_digit (CHR ''0'')" by code_simp
  then have "list_all is_hex_digit (replicate 64 (CHR ''0'') @ filter is_hex_digit s)" for s
    by (simp add: list_all_iff)
  then have "list_all is_hex_digit (wide_digest s)" for s
    unfolding wide_digest_def Let_def by (metis append_take_drop_id list_all_append)
  moreover have "length (wide_digest s) = 64" for s by (simp add: wide_digest_def Let_def)
  ultimately show ?thesis by (simp add: digests_hex_def wide_env_def)
qed

theorem cache_get_sound_witness:
  "\<exists>e c'. ns_cache_get wide_env 1 105 ''http://a/'' None [''Accept-Language: 2''] (cache_run wide_env 1 toy_ops) = (Some e, c') \<and>
     (\<exists>p \<in> set (puts_of toy_ops). p_url p = ''http://a/'' \<and> ce_body e = p_body p)"
proof -
  let ?get = "ns_cache_get wide_env 1 105 ''http://a/'' None [''Accept-Language: 2''] (cache_run wide_env 1 toy_ops)"
  have "fst ?get \<noteq> None" by code_simp
  then obtain e c' where get: "?get = (Some e, c')" by (cases ?get) auto
  let ?b = "base_key_for_url wide_env ''http://a/'' None"
  let ?S = "{''http://a/'', row_input ?b (''accept-language:1'' @ [CHR 0x0A]), row_input ?b (''accept-language:2'' @ [CHR 0x0A])}"
  have v: "vary_selector (Some ''Accept-Language'') [''Accept-Language: 1''] = Some (''accept-language:1'' @ [CHR 0x0A])"
    "vary_selector (Some ''Accept-Language'') [''Accept-Language: 2''] = Some (''accept-language:2'' @ [CHR 0x0A])" by code_simp+
  have "(\<Union>p \<in> set (puts_of toy_ops). put_digests wide_env p) \<union>
      get_digests wide_env (puts_of toy_ops) ''http://a/'' None [''Accept-Language: 2''] = ?S"
    by (auto simp: toy_ops_def toy_put_def put_digests_def get_digests_def v base_input_def partition_name_def)
  moreover have "distinct (map (sha256 wide_env) [''http://a/'', row_input ?b (''accept-language:1'' @ [CHR 0x0A]),
      row_input ?b (''accept-language:2'' @ [CHR 0x0A])])" by code_simp
  then have "inj_on (sha256 wide_env) ?S" by (auto simp: inj_on_def)
  ultimately have "\<exists>p \<in> set (puts_of toy_ops). p_url p = ''http://a/'' \<and> ce_body e = p_body p"
    using cache_get_sound [OF wide_hex _ _ get] by fastforce
  with get show ?thesis by blast
qed


text \<open>The directives are compared with regard to case: a response marked \<^verbatim>\<open>No-Store\<close> is stored.\<close>

lemma cache_no_store_case:
  "map_option ce_body (fst (ns_cache_get wide_env 1 105 ''http://a/'' None []
     (cache_run wide_env 1 [Put 100 True True ((toy_put ''http://a/'' None [] ''secret'')\<lparr>p_cache_control := Some ''No-Store''\<rparr>)]))) =
   Some ''secret''"
  by code_simp

section \<open>Properties: dates\<close>

definition digit :: "nat \<Rightarrow> char" where
  "digit k = char_of (48 + k)"

definition pad2 :: "nat \<Rightarrow> string" where
  "pad2 n = [digit (n div 10), digit (n mod 10)]"

definition pad4 :: "nat \<Rightarrow> string" where
  "pad4 n = pad2 (n div 100) @ pad2 (n mod 100)"

text \<open>A date as servers send it: \<^verbatim>\<open>Sun, 06 Nov 1994 08:49:37 GMT\<close>.\<close>

definition http_date :: "string \<Rightarrow> nat \<Rightarrow> nat \<Rightarrow> nat \<Rightarrow> nat \<Rightarrow> nat \<Rightarrow> nat \<Rightarrow> string" where
  "http_date wd y mo d h mi s =
     wd @ '', '' @ pad2 d @ '' '' @ month_names ! (mo - 1) @ '' '' @ pad4 y @ '' '' @ pad2 h @ '':'' @ pad2 mi @ '':'' @ pad2 s @ '' GMT''"

lemma ord_digit: "k < 10 \<Longrightarrow> ord (digit k) = 48 + k"
  by (simp add: digit_def of_char_of)

lemma digit_isdigit: "k < 10 \<Longrightarrow> g_ascii_isdigit (digit k)"
  by (simp add: g_ascii_isdigit_def ord_digit)

lemma pad_digits: "n < 100 \<Longrightarrow> list_all g_ascii_isdigit (pad2 n)" "n < 10000 \<Longrightarrow> list_all g_ascii_isdigit (pad4 n)"
  by (simp_all add: pad2_def pad4_def digit_isdigit)

lemma pad_value:
  "n < 100 \<Longrightarrow> decimal_value (pad2 n) = int n" "n < 10000 \<Longrightarrow> decimal_value (pad4 n) = int n"
proof -
  assume n: "n < 100"
  have "int n = 10 * int (n div 10) + int (n mod 10)"
    by (metis mult_div_mod_eq of_nat_add of_nat_mult of_nat_numeral)
  then show "decimal_value (pad2 n) = int n" using n
    by (simp add: pad2_def decimal_value_def ord_digit)
next
  assume n: "n < 10000"
  have split: "int k = 10 * int (k div 10) + int (k mod 10)" "int k = 100 * int (k div 100) + int (k mod 100)" for k
    by (metis mult_div_mod_eq of_nat_add of_nat_mult of_nat_numeral)+
  have "decimal_value (pad4 n) = 1000 * int (n div 100 div 10) + 100 * int (n div 100 mod 10) + (10 * int (n mod 100 div 10) + int (n mod 100 mod 10))"
    using n by (simp del: div_mult2_eq add: pad2_def pad4_def decimal_value_def ord_digit)
  also have "\<dots> = int n" using split(2) [of n] split(1) [of "n div 100"] split(1) [of "n mod 100"] by linarith
  finally show "decimal_value (pad4 n) = int n" .
qed

lemma digit_not_space: "g_ascii_isdigit c \<Longrightarrow> \<not> c_isspace c \<and> c \<noteq> CHR ''-'' \<and> c \<noteq> CHR ''+''"
  by (auto simp: c_isspace_def g_ascii_isdigit_def g_ascii_isspace_def)

lemma scan_d_digits:
  assumes "list_all c_isspace sp" and "list_all g_ascii_isdigit ds" and "ds \<noteq> []" and "rest = [] \<or> \<not> g_ascii_isdigit (hd rest)"
    and "0 \<le> decimal_value ds" "decimal_value ds < 2 ^ 31"
  shows "scan_d (sp @ ds @ rest) = Some (decimal_value ds, rest)"
proof -
  obtain c cs where ds: "ds = c # cs" using assms(3) by (cases ds) auto
  have c: "\<not> c_isspace c \<and> c \<noteq> CHR ''-'' \<and> c \<noteq> CHR ''+''" using assms(2) ds digit_not_space by simp
  have skip: "dropWhile c_isspace (sp @ ds @ rest) = ds @ rest"
    using assms(1) c by (induction sp) (simp_all add: ds)
  have "takeWhile g_ascii_isdigit (ds @ rest) = ds" "dropWhile g_ascii_isdigit (ds @ rest) = rest"
    using assms(2,4) by (induction ds) (cases rest; simp)+
  with skip c show ?thesis using assms(5,6)
    by (simp add: scan_d_def Let_def ds)
qed

lemma month_names_ok:
  assumes "1 \<le> mo" "mo \<le> 12"
  shows "month_from_name (month_names ! (mo - 1)) = int mo" and "length (month_names ! (mo - 1)) = 3"
    and "list_all (\<lambda>c. \<not> c_isspace c) (month_names ! (mo - 1))"
proof -
  have "list_all (\<lambda>i. month_from_name (month_names ! (i - 1)) = int i \<and> length (month_names ! (i - 1)) = 3 \<and>
      list_all (\<lambda>c. \<not> c_isspace c) (month_names ! (i - 1))) [1..<13]" by code_simp
  with assms show "month_from_name (month_names ! (mo - 1)) = int mo" "length (month_names ! (mo - 1)) = 3"
    "list_all (\<lambda>c. \<not> c_isspace c) (month_names ! (mo - 1))" by (auto simp: list_all_iff)
qed

lemma scan_3s_word:
  assumes "length w = 3" "list_all (\<lambda>c. \<not> c_isspace c) w" "list_all c_isspace sp"
  shows "scan_3s (sp @ w @ rest) = Some (w, rest)"
proof -
  obtain a b c where w: "w = [a, b, c]" using assms(1) by (auto simp: length_Suc_conv eval_nat_numeral)
  have "dropWhile c_isspace (sp @ w @ rest) = w @ rest" using assms(2,3) by (induction sp) (simp_all add: w)
  then show ?thesis using assms(2) by (simp add: scan_3s_def w)
qed

lemma scan_time_pads:
  assumes "h < 100" "mi < 100" "s < 100" "rest = [] \<or> \<not> g_ascii_isdigit (hd rest)"
  shows "scan_time ('' '' @ pad2 h @ '':'' @ pad2 mi @ '':'' @ pad2 s @ rest) = Some ((int h, int mi, int s), rest)"
proof -
  have colon: "\<not> g_ascii_isdigit (CHR '':'')" and space: "list_all c_isspace '' ''" by code_simp+
  have "scan_d ('' '' @ pad2 h @ '':'' @ pad2 mi @ '':'' @ pad2 s @ rest) = Some (int h, '':'' @ pad2 mi @ '':'' @ pad2 s @ rest)"
    using scan_d_digits [of "'' ''" "pad2 h" "'':'' @ pad2 mi @ '':'' @ pad2 s @ rest"] assms pad_digits pad_value colon space
    by (simp add: pad2_def)
  moreover have "scan_d (pad2 mi @ '':'' @ pad2 s @ rest) = Some (int mi, '':'' @ pad2 s @ rest)"
    using scan_d_digits [of "[]" "pad2 mi" "'':'' @ pad2 s @ rest"] assms pad_digits pad_value colon by (simp add: pad2_def)
  moreover have "scan_d (pad2 s @ rest) = Some (int s, rest)"
    using scan_d_digits [of "[]" "pad2 s" rest] assms pad_digits pad_value by (simp add: pad2_def)
  ultimately show ?thesis by (simp add: scan_time_def scan_lit_def)
qed

text \<open>C31. The date that a server writes in the format of HTTP is read as that date: the day, month, year and time reach
  the calendar as they were written, for all years from 1970 to 9999.\<close>

theorem http_date_roundtrip:
  assumes "CHR '','' \<notin> set wd" and "1970 \<le> y" "y \<le> 9999" and "1 \<le> mo" "mo \<le> 12" and "1 \<le> d" "d \<le> 31"
    and "h \<le> 23" "mi \<le> 59" "s \<le> 60" and "iso8601_unix env (http_date wd y mo d h mi s) = None"
  shows "parse_http_date env (Some (http_date wd y mo d h mi s)) =
    (case utc_unix env (int y) (int mo) (int d) (int h) (int mi) (int s) of None \<Rightarrow> 0 | Some r \<Rightarrow> r)"
proof -
  let ?time = "'' '' @ pad2 h @ '':'' @ pad2 mi @ '':'' @ pad2 s @ '' GMT''"
  let ?tail = "'' '' @ pad4 y @ ?time"
  let ?mon = "month_names ! (mo - 1)"
  let ?p = "pad2 d @ '' '' @ ?mon @ ?tail"
  note mon = month_names_ok [OF assms(4,5)]
  have space: "list_all c_isspace '' ''" "\<not> g_ascii_isdigit (CHR '' '')" by code_simp+
  have "http_date wd y mo d h mi s = wd @ CHR '','' # '' '' @ ?p" by (simp add: http_date_def)
  then have cut: "strchr (http_date wd y mo d h mi s) (CHR '','') = Some (CHR '','' # '' '' @ ?p)"
    using strchr_append [OF assms(1)] by simp
  have "digit (d div 10) \<noteq> CHR '' ''"
    using digit_isdigit [of "d div 10"] space(2) less_mult_imp_div_less [of d 10 10] assms(7) by auto
  then have skip: "dropWhile (\<lambda>c. c = CHR '' '') ('' '' @ ?p) = ?p" by (simp add: pad2_def)
  have 1: "scan_d ?p = Some (int d, '' '' @ ?mon @ ?tail)"
    using scan_d_digits [of "[]" "pad2 d" "'' '' @ ?mon @ ?tail"] assms pad_digits(1) [of d] pad_value(1) [of d] space
    by (simp add: pad2_def)
  have 2: "scan_3s ('' '' @ ?mon @ ?tail) = Some (?mon, ?tail)"
    using mon(2,3) space(1) by (rule scan_3s_word)
  have 3: "scan_d ?tail = Some (int y, ?time)"
    using scan_d_digits [of "'' ''" "pad4 y" ?time] assms pad_digits(2) [of y] pad_value(2) [of y] space
    by (simp add: pad4_def pad2_def)
  have 4: "scan_time ?time = Some ((int h, int mi, int s), '' GMT'')"
    using assms space(2) by (intro scan_time_pads) simp_all
  have "scan_rfc1123 ?p = Some \<lparr>df_day = int d, df_mon = ?mon, df_year = int y, df_time = (int h, int mi, int s)\<rparr>"
    unfolding scan_rfc1123_def 1 option.case prod.case 2 3 4 by simp
  moreover have "http_date wd y mo d h mi s \<noteq> []" by (simp add: http_date_def)
  ultimately show ?thesis
    using assms mon(1) unfolding parse_http_date_def option.case cut list.sel skip
    by (simp add: Let_def)
qed

theorem http_date_roundtrip_witness:
  "parse_http_date toy_env (Some (http_date ''Sun'' 1994 11 6 8 49 37)) =
   (case utc_unix toy_env 1994 11 6 8 49 37 of None \<Rightarrow> 0 | Some r \<Rightarrow> r)"
  using http_date_roundtrip [of "''Sun''" 1994 11 6 8 49 37 toy_env] by (simp add: toy_env_def)

text \<open>The two older formats: the one of RFC 850 is read, the one of \<^verbatim>\<open>asctime\<close> is not, because of its day of the week.\<close>

lemma http_date_old_formats:
  "parse_http_date toy_env (Some ''Sunday, 06-Nov-94 08:49:37 GMT'') = parse_http_date toy_env (Some (http_date ''Sun'' 1994 11 6 8 49 37))"
  "parse_http_date toy_env (Some ''Sun Nov  6 08:49:37 1994'') = 0"
  by code_simp+

end
