(* ===== verification/NS_Xml.thy ===== *)
theory NS_Xml
  imports NS_Dom_Attr
begin

text \<open>
  The XML parser (\<^verbatim>\<open>src/xml.c\<close>): names, character and entity references, namespace bindings, the prolog with
  its document type declaration, and elements with their content.  The parser's position is the rest of the
  input, its stack of bindings an argument (every exit of \<^verbatim>\<open>xml_parse_element\<close> that goes on restores it), and the
  flag \<^verbatim>\<open>ok\<close> is a result: once it is false the document is thrown away.  A node is the record of the DOM
  (\<^verbatim>\<open>NS_Dom\<close>) with the list of its children instead of the links.  Loops take fuel, and the parser is given
  enough of it: see \<^verbatim>\<open>xml_parse_total\<close>.
\<close>

section \<open>Results\<close>

datatype 'a xml_res = Fuel | Bad | Good 'a

datatype xml_tree = Node ns_node "xml_tree list"

fun xml_node :: "xml_tree \<Rightarrow> ns_node" where "xml_node (Node n ks) = n"
fun xml_kids :: "xml_tree \<Rightarrow> xml_tree list" where "xml_kids (Node n ks) = ks"

definition XML_NS_XML :: string where "XML_NS_XML = ''http://www.w3.org/XML/1998/namespace''"
definition XML_NS_XMLNS :: string where "XML_NS_XMLNS = ''http://www.w3.org/2000/xmlns/''"
definition XML_NS_XHTML :: string where "XML_NS_XHTML = ''http://www.w3.org/1999/xhtml''"
definition XML_NS_SVG :: string where "XML_NS_SVG = ''http://www.w3.org/2000/svg''"

definition NS_NODE_NOT_PARSER_INSERTED :: "32 word" where "NS_NODE_NOT_PARSER_INSERTED = 2 ^ 13"
definition NS_NODE_XML_DOC :: "32 word" where "NS_NODE_XML_DOC = 2 ^ 14"

text \<open>The binding of a prefix; \<^const>\<open>None\<close> is the default namespace.  The newest one is first.\<close>

type_synonym bindings = "(string option \<times> string) list"
type_synonym entities = "string \<rightharpoonup> string"

definition set_flags :: "32 word \<Rightarrow> ns_node \<Rightarrow> ns_node" where
  "set_flags f n = n\<lparr>node_flags := or (node_flags n) f\<rparr>"

section \<open>Names and references\<close>

definition xml_is_space :: "char \<Rightarrow> bool" where
  "xml_is_space c \<longleftrightarrow> c = CHR '' '' \<or> c = CHR 0x09 \<or> c = CHR 0x0A \<or> c = CHR 0x0D"

definition xml_skip_space :: "string \<Rightarrow> string" where
  "xml_skip_space s = dropWhile xml_is_space s"

definition xml_name_char :: "char \<Rightarrow> bool \<Rightarrow> bool" where
  "xml_name_char c fst_char \<longleftrightarrow> c = CHR '':'' \<or> c = CHR ''_'' \<or> g_ascii_isalpha c \<or> ord c \<ge> 0x80 \<or>
     (\<not> fst_char \<and> (c = CHR ''-'' \<or> c = CHR ''.'' \<or> g_ascii_isdigit c))"

definition xml_read_name :: "string \<Rightarrow> (string \<times> string) option" where
  "xml_read_name s =
     (case s of
        [] \<Rightarrow> None
      | c # t \<Rightarrow>
          if \<not> xml_name_char c True then None
          else Some (c # takeWhile (\<lambda>x. xml_name_char x False) t, dropWhile (\<lambda>x. xml_name_char x False) t))"

definition xml_qname_valid :: "string \<Rightarrow> bool" where
  "xml_qname_valid name \<longleftrightarrow>
     (case strchr name (CHR '':'') of
        None \<Rightarrow> True
      | Some colon \<Rightarrow> colon \<noteq> name \<and> tl colon \<noteq> [] \<and> CHR '':'' \<notin> set (tl colon))"

text \<open>\<^verbatim>\<open>g_ascii_strtoull(s, &end, base)\<close>: the value in 64 bits and \<^verbatim>\<open>end\<close>; \<^const>\<open>None\<close> for the end if there was no
  number, where the caller only asks whether the text was used up.\<close>

definition digit_value :: "char \<Rightarrow> nat" where
  "digit_value c = (if g_ascii_isdigit c then ord c - 48 else if g_ascii_islower c then ord c - 87 else ord c - 55)"

definition g_ascii_strtoull :: "bool \<Rightarrow> string \<Rightarrow> int \<times> string option" where
  "g_ascii_strtoull hex s =
     (let t = dropWhile (\<lambda>c. g_ascii_isspace c \<or> c = CHR 0x0B) s;
          neg = (t \<noteq> [] \<and> hd t = CHR ''-'');
          u = (if t \<noteq> [] \<and> (hd t = CHR ''-'' \<or> hd t = CHR ''+'') then tl t else t);
          u = (if hex \<and> length u \<ge> 2 \<and> hd u = CHR ''0'' \<and> g_ascii_tolower (u ! 1) = CHR ''x'' then drop 2 u else u);
          is_digit = (if hex then g_ascii_isxdigit else g_ascii_isdigit);
          ds = takeWhile is_digit u; base = (if hex then 16 else 10);
          v = foldl (\<lambda>n c. base * n + int (digit_value c)) 0 ds
      in if ds = [] then (0, None)
         else (if v > 2 ^ 64 - 1 then 2 ^ 64 - 1 else if neg then (- v) mod 2 ^ 64 else v, Some (dropWhile is_digit u)))"

definition byte_char :: "int \<Rightarrow> char" where
  "byte_char i = char_of (nat i)"

text \<open>\<^verbatim>\<open>g_unichar_to_utf8\<close>, for code points up to 0x10FFFF.\<close>

definition utf8_encode :: "int \<Rightarrow> string" where
  "utf8_encode cp =
     (if cp < 0x80 then [byte_char cp]
      else if cp < 0x800 then [byte_char (0xC0 + cp div 64), byte_char (0x80 + cp mod 64)]
      else if cp < 0x10000 then
        [byte_char (0xE0 + cp div 4096), byte_char (0x80 + cp div 64 mod 64), byte_char (0x80 + cp mod 64)]
      else [byte_char (0xF0 + cp div 262144), byte_char (0x80 + cp div 4096 mod 64), byte_char (0x80 + cp div 64 mod 64),
            byte_char (0x80 + cp mod 64)])"

definition xml_append_codepoint :: "int \<Rightarrow> string" where
  "xml_append_codepoint cp =
     (if cp = 0 \<or> cp > 0x10FFFF \<or> (cp \<ge> 0xD800 \<and> cp \<le> 0xDFFF) then [CHR 0xEF, CHR 0xBF, CHR 0xBD] else utf8_encode cp)"

text \<open>What stands for the reference between an ampersand and its semicolon.\<close>

definition xml_reference :: "entities \<Rightarrow> string \<Rightarrow> string option" where
  "xml_reference ents e =
     (if e = [] then None
      else if hd e = CHR ''#'' then
        (let hex = (length e \<ge> 2 \<and> (e ! 1 = CHR ''x'' \<or> e ! 1 = CHR ''X''));
             raw = cstring (drop (if hex then 2 else 1) e); (cp, num_end) = g_ascii_strtoull hex raw
         in if num_end = Some [] \<and> cp \<noteq> 0 \<and> cp \<le> 0x10FFFF \<and> \<not> (cp \<ge> 0xD800 \<and> cp \<le> 0xDFFF)
            then Some (xml_append_codepoint cp) else None)
      else if e = ''amp'' then Some ''&''
      else if e = ''lt'' then Some ''<''
      else if e = ''gt'' then Some ''>''
      else if e = ''quot'' then Some [CHR 0x22]
      else if e = ''apos'' then Some [CHR 0x27]
      else ents (cstring e))"

function xml_decode_text :: "entities \<Rightarrow> string \<Rightarrow> string option" where
  "xml_decode_text ents [] = Some []"
| "xml_decode_text ents (c # s) =
     (if c \<noteq> CHR ''&'' then map_option ((#) c) (xml_decode_text ents s)
      else
        let e = takeWhile (\<lambda>x. x \<noteq> CHR '';'') s; rest = dropWhile (\<lambda>x. x \<noteq> CHR '';'') s in
        if rest = [] then None
        else case xml_reference ents e of
          None \<Rightarrow> None
        | Some v \<Rightarrow> map_option (\<lambda>t. v @ t) (xml_decode_text ents (tl rest)))"
  by pat_completeness auto
termination
proof (relation "measure (length \<circ> snd)")
  fix ents c s e rest v
  assume "rest = dropWhile (\<lambda>x. x \<noteq> CHR '';'') (s :: string)"
  then have "length (tl rest) \<le> length s" using length_dropWhile_le [of "\<lambda>x. x \<noteq> CHR '';''" s] by simp
  then show "((ents, tl rest), ents, c # s) \<in> measure (length \<circ> snd)" by simp
qed simp_all

declare xml_decode_text.simps [simp del]

section \<open>Bindings\<close>

definition xml_lookup_prefix :: "bindings \<Rightarrow> string option \<Rightarrow> string option" where
  "xml_lookup_prefix ns pfx =
     (if pfx = Some ''xml'' then Some XML_NS_XML
      else if pfx = Some ''xmlns'' then Some XML_NS_XMLNS
      else map_option snd (List.find (\<lambda>b. fst b = pfx) ns))"

definition xml_push_binding :: "string option \<Rightarrow> string \<Rightarrow> bindings \<Rightarrow> bindings" where
  "xml_push_binding pfx uri ns = (if pfx = Some [] then None else pfx, uri) # ns"

section \<open>The prolog\<close>

text \<open>The text before a delimiter, and the text after it.\<close>

definition xml_until :: "string \<Rightarrow> string \<Rightarrow> (string \<times> string) option" where
  "xml_until s delim =
     (case strstr s delim of None \<Rightarrow> None | Some t \<Rightarrow> Some (take (length s - length t) s, drop (length delim) t))"

definition xml_read_quoted_range :: "string \<Rightarrow> (string \<times> string) option" where
  "xml_read_quoted_range s =
     (case s of
        [] \<Rightarrow> None
      | q # t \<Rightarrow>
          if q \<noteq> CHR 0x22 \<and> q \<noteq> CHR 0x27 then None
          else let v = takeWhile (\<lambda>c. c \<noteq> q) t; rest = dropWhile (\<lambda>c. c \<noteq> q) t in
            if rest = [] then None else Some (v, tl rest))"

definition xml_doctype_tail_parse :: "string \<Rightarrow> (string \<times> string) option" where
  "xml_doctype_tail_parse s =
     (let p = xml_skip_space s in
      if p = [] \<or> hd p = CHR ''['' then Some ([], [])
      else
        let spaced = (length p > 6 \<and> xml_is_space (p ! 6));
            has_public_id = (take 6 p = ''PUBLIC'' \<and> spaced); has_system_id = (take 6 p = ''SYSTEM'' \<and> spaced)
        in if \<not> has_public_id \<and> \<not> has_system_id then None
           else case xml_read_quoted_range (xml_skip_space (drop 6 p)) of
             None \<Rightarrow> None
           | Some (first_id, p) \<Rightarrow>
               let p = xml_skip_space p in
               if has_public_id then
                 (case xml_read_quoted_range p of
                    None \<Rightarrow> None
                  | Some (second_id, p) \<Rightarrow>
                      let p = xml_skip_space p in
                      if p = [] \<or> hd p = CHR ''['' then Some (first_id, second_id) else None)
               else if p = [] \<or> hd p = CHR ''['' then Some ([], first_id) else None)"

text \<open>The declarations of general entities in the internal subset; other markup in it is skipped.\<close>

fun xml_parse_internal_entities :: "nat \<Rightarrow> entities \<Rightarrow> string \<Rightarrow> entities xml_res" where
  "xml_parse_internal_entities 0 ents s = Fuel"
| "xml_parse_internal_entities (Suc f) ents s =
     (case strstr (cstring s) ''<!ENTITY'' of
        None \<Rightarrow> Good ents
      | Some t \<Rightarrow>
          let p = xml_skip_space (drop (length (cstring s) - length t + 8) s) in
          if p \<noteq> [] \<and> hd p = CHR ''%'' then xml_parse_internal_entities f ents (tl p)
          else case xml_read_name p of
            None \<Rightarrow> Bad
          | Some (name, p) \<Rightarrow>
              let p = xml_skip_space p in
              if p = [] \<or> (hd p \<noteq> CHR 0x22 \<and> hd p \<noteq> CHR 0x27) then xml_parse_internal_entities f ents p
              else case xml_read_quoted_range p of
                None \<Rightarrow> Bad
              | Some (v, rest) \<Rightarrow>
                  (case xml_decode_text ents v of
                     None \<Rightarrow> Bad
                   | Some value \<Rightarrow> xml_parse_internal_entities f (ents(name \<mapsto> cstring value)) rest))"

definition xml_pi_node :: "string \<Rightarrow> xml_tree" where
  "xml_pi_node body =
     (let target = takeWhile (\<lambda>c. \<not> xml_is_space c) body; data = xml_skip_space (dropWhile (\<lambda>c. \<not> xml_is_space c) body)
      in Node (set_flags NS_NODE_PI (ns_node_new_comment (cstring data) \<lparr>node_name := Some (cstring target)\<rparr>)) [])"

definition xml_comment_node :: "string \<Rightarrow> xml_tree" where
  "xml_comment_node body = Node (ns_node_new_comment (cstring body)) []"

definition xml_cdata_node :: "string \<Rightarrow> xml_tree" where
  "xml_cdata_node body = Node (set_flags NS_NODE_CDATA (ns_node_new_text (cstring body))) []"

definition xml_text_node :: "string \<Rightarrow> xml_tree" where
  "xml_text_node txt = Node (ns_node_new_text (cstring txt)) []"

text \<open>The end of a document type declaration: the first \<^verbatim>\<open>>\<close> outside brackets.\<close>

fun doctype_end :: "nat \<Rightarrow> string \<Rightarrow> (string \<times> string) option" where
  "doctype_end bracket [] = None"
| "doctype_end bracket (c # s) =
     (if c = CHR ''>'' \<and> bracket = 0 then Some ([], c # s)
      else map_option (\<lambda>(a, b). (c # a, b))
        (doctype_end (if c = CHR ''['' then bracket + 1 else if c = CHR '']'' then bracket - 1 else bracket) s))"

text \<open>The internal subset: between the first opening and the last closing bracket.\<close>

definition internal_subset :: "string \<Rightarrow> string option" where
  "internal_subset body =
     (case strchr body (CHR ''['') of
        None \<Rightarrow> None
      | Some t \<Rightarrow> if CHR '']'' \<in> set (tl t) then Some (rev (tl (dropWhile (\<lambda>c. c \<noteq> CHR '']'') (rev (tl t))))) else None)"

definition xml_doctype_node :: "string \<Rightarrow> xml_tree option" where
  "xml_doctype_node body =
     (let t = xml_skip_space body; stop = (\<lambda>c. xml_is_space c \<or> c = CHR ''>'' \<or> c = CHR ''['');
          name = takeWhile (\<lambda>c. \<not> stop c) t; tail = dropWhile (\<lambda>c. \<not> stop c) t
      in if name = [] \<or> \<not> xml_qname_valid (cstring name) then None
         else case xml_doctype_tail_parse tail of
           None \<Rightarrow> None
         | Some (pub, sys) \<Rightarrow> Some (Node (ns_node_new_doctype (cstring name) (cstring pub) (cstring sys)) []))"

fun xml_skip_misc_and_doctype :: "nat \<Rightarrow> entities \<Rightarrow> xml_tree list \<Rightarrow> string \<Rightarrow> (entities \<times> xml_tree list \<times> string) xml_res" where
  "xml_skip_misc_and_doctype 0 ents doc s = Fuel"
| "xml_skip_misc_and_doctype (Suc f) ents doc s =
     (let p = xml_skip_space s in
      if length p < 2 \<or> hd p \<noteq> CHR ''<'' then Good (ents, doc, p)
      else if p ! 1 = CHR ''?'' then
        (case xml_until (drop 2 p) ''?>'' of
           None \<Rightarrow> Bad
         | Some (body, rest) \<Rightarrow>
             let decl = (take 3 body = ''xml'' \<and> (length body = 3 \<or> xml_is_space (body ! 3)))
             in xml_skip_misc_and_doctype f ents (if decl then doc else doc @ [xml_pi_node body]) rest)
      else if g_str_has_prefix p ''<!--'' then
        (case xml_until (drop 4 p) ''-->'' of
           None \<Rightarrow> Bad
         | Some (body, rest) \<Rightarrow> xml_skip_misc_and_doctype f ents (doc @ [xml_comment_node body]) rest)
      else if length p \<ge> 9 \<and> strncaseeq 9 p ''<!DOCTYPE'' then
        (case doctype_end 0 (drop 9 p) of
           None \<Rightarrow> Bad
         | Some (body, rest) \<Rightarrow>
             (case (case internal_subset body of None \<Rightarrow> Good ents | Some sub \<Rightarrow> xml_parse_internal_entities f ents sub) of
                Fuel \<Rightarrow> Fuel
              | Bad \<Rightarrow> Bad
              | Good ents \<Rightarrow>
                  (case xml_doctype_node body of
                     None \<Rightarrow> Bad
                   | Some dt \<Rightarrow> xml_skip_misc_and_doctype f ents (doc @ [dt]) (tl rest))))
      else Good (ents, doc, p))"

section \<open>Elements\<close>

definition invalid_decl :: "string \<Rightarrow> string \<Rightarrow> bool" where
  "invalid_decl aname aval \<longleftrightarrow>
     (let default_decl = (aname = ''xmlns''); prefix_decl = g_str_has_prefix aname ''xmlns:''; decl_prefix = drop 6 aname in
      (prefix_decl \<and> decl_prefix = ''xmlns'') \<or>
      (prefix_decl \<and> decl_prefix = ''xml'' \<and> aval \<noteq> XML_NS_XML) \<or>
      (prefix_decl \<and> decl_prefix \<noteq> ''xml'' \<and> (aval = [] \<or> aval = XML_NS_XML \<or> aval = XML_NS_XMLNS)) \<or>
      (default_decl \<and> (aval = XML_NS_XML \<or> aval = XML_NS_XMLNS)))"

text \<open>One attribute of a tag, with the binding it may declare.\<close>

definition xml_parse_attribute ::
    "entities \<Rightarrow> (string \<times> string) list \<Rightarrow> bindings \<Rightarrow> string \<Rightarrow> ((string \<times> string) \<times> bindings \<times> string) option" where
  "xml_parse_attribute ents as ns p =
     (case xml_read_name p of
        None \<Rightarrow> None
      | Some (aname, p) \<Rightarrow>
          if \<not> xml_qname_valid aname then None
          else let p = xml_skip_space p in
            if p = [] \<or> hd p \<noteq> CHR ''='' then None
            else case xml_read_quoted_range (xml_skip_space (tl p)) of
              None \<Rightarrow> None
            | Some (v, p) \<Rightarrow>
                (case xml_decode_text ents v of
                   None \<Rightarrow> None
                 | Some dv \<Rightarrow>
                     let aval = cstring dv in
                     if invalid_decl aname aval then None
                     else if aname \<in> fst ` set as then None
                     else Some ((aname, aval),
                       (if aname = ''xmlns'' then xml_push_binding None aval ns
                        else if g_str_has_prefix aname ''xmlns:'' then xml_push_binding (Some (drop 6 aname)) aval ns
                        else ns), p)))"

fun xml_parse_attributes ::
    "nat \<Rightarrow> entities \<Rightarrow> (string \<times> string) list \<Rightarrow> bindings \<Rightarrow> string \<Rightarrow> ((string \<times> string) list \<times> bindings \<times> string) xml_res" where
  "xml_parse_attributes 0 ents as ns s = Fuel"
| "xml_parse_attributes (Suc f) ents as ns s =
     (let p = xml_skip_space s in
      if p = [] then Bad
      else if hd p = CHR ''>'' \<or> hd p = CHR ''/'' then Good (as, ns, p)
      else case xml_parse_attribute ents as ns p of
        None \<Rightarrow> Bad
      | Some (a, ns, p) \<Rightarrow> xml_parse_attributes f ents (as @ [a]) ns p)"

definition prefix_of :: "string \<Rightarrow> string option" where
  "prefix_of qname = (if CHR '':'' \<in> set qname then Some (takeWhile (\<lambda>c. c \<noteq> CHR '':'') qname) else None)"

definition local_of :: "string \<Rightarrow> string" where
  "local_of qname = tl (dropWhile (\<lambda>c. c \<noteq> CHR '':'') qname)"

definition xml_apply_namespace :: "string \<Rightarrow> string option \<Rightarrow> ns_node \<Rightarrow> ns_node" where
  "xml_apply_namespace qname uri el =
     (let el = set_flags (or NS_NODE_KEEP_CASE NS_NODE_XML_DOC) el;
          el = (case prefix_of qname of None \<Rightarrow> el | Some pfx \<Rightarrow> ns_element_set_attr ''data-nd-ns-prefix'' (Some pfx) el);
          el = (if uri \<noteq> None \<and> uri \<noteq> Some [] then ns_element_set_attr ''data-nd-ns-uri'' uri el else el)
      in if uri = Some XML_NS_XHTML then el
         else if uri = Some XML_NS_SVG then set_flags NS_NODE_SVG_NS el
         else set_flags NS_NODE_FOREIGN_NS el)"

text \<open>The attributes of the tag, resolved; \<^const>\<open>None\<close> if a prefix has no binding.\<close>

fun xml_set_attributes :: "bindings \<Rightarrow> (string \<times> string) list \<Rightarrow> ns_node \<Rightarrow> ns_node option" where
  "xml_set_attributes ns [] el = Some el"
| "xml_set_attributes ns ((an, av) # as) el =
     (if an = ''xmlns'' then
        xml_set_attributes ns as (ns_element_set_attr_ns (Some XML_NS_XMLNS) None ''xmlns'' (Some ''xmlns'') (Some av) el)
      else if CHR '':'' \<in> set an then
        (case xml_lookup_prefix ns (prefix_of an) of
           None \<Rightarrow> None
         | Some auri \<Rightarrow> xml_set_attributes ns as
             (ns_element_set_attr_ns (Some auri) (prefix_of an) (local_of an) (Some an) (Some av) el))
      else xml_set_attributes ns as (ns_element_set_attr_ns None None an (Some an) (Some av) el))"

definition xml_element_node :: "bindings \<Rightarrow> string \<Rightarrow> (string \<times> string) list \<Rightarrow> ns_node option" where
  "xml_element_node ns qname as =
     (let pfx = prefix_of qname; el_uri = xml_lookup_prefix ns pfx in
      if pfx \<noteq> None \<and> el_uri = None then None
      else
        let stored = (if el_uri = Some XML_NS_XHTML \<and> pfx \<noteq> None then local_of qname else qname);
            el = set_flags NS_NODE_NOT_PARSER_INSERTED (ns_node_new_element stored)
        in xml_set_attributes ns as (xml_apply_namespace qname el_uri el))"

definition XML_MAX_DEPTH :: nat where "XML_MAX_DEPTH = 256"

text \<open>An end tag: whether it closes the element of this name, and what follows.\<close>

definition xml_end_tag :: "string \<Rightarrow> string \<Rightarrow> string option" where
  "xml_end_tag qname s =
     (case xml_read_name s of
        None \<Rightarrow> None
      | Some (ename, p) \<Rightarrow>
          let p = xml_skip_space p in
          if \<not> xml_qname_valid ename \<or> p = [] \<or> hd p \<noteq> CHR ''>'' \<or> ename \<noteq> qname then None else Some (tl p))"

text \<open>Comments, CDATA sections and processing instructions; \<^const>\<open>None\<close> if the text is none of them, and
  \<^term>\<open>Some None\<close> if it does not end.\<close>

definition xml_leaf :: "string \<Rightarrow> (xml_tree \<times> string) option option" where
  "xml_leaf s =
     (if g_str_has_prefix s ''<!--'' then
        Some (map_option (\<lambda>(body, rest). (xml_comment_node body, rest)) (xml_until (drop 4 s) ''-->''))
      else if g_str_has_prefix s ''<![CDATA['' then
        Some (map_option (\<lambda>(body, rest). (xml_cdata_node body, rest)) (xml_until (drop 9 s) '']]>''))
      else if g_str_has_prefix s ''<?'' then
        Some (map_option (\<lambda>(body, rest). (xml_pi_node body, rest)) (xml_until (drop 2 s) ''?>''))
      else None)"

fun xml_parse_element :: "nat \<Rightarrow> nat \<Rightarrow> bindings \<Rightarrow> entities \<Rightarrow> string \<Rightarrow> (xml_tree \<times> string) xml_res"
  and xml_content :: "nat \<Rightarrow> nat \<Rightarrow> bindings \<Rightarrow> entities \<Rightarrow> string \<Rightarrow> xml_tree list \<Rightarrow> string \<Rightarrow> (xml_tree list \<times> string) xml_res" where
  "xml_parse_element 0 depth ns ents s = Fuel"
| "xml_parse_element (Suc f) depth ns ents s =
     (if depth > XML_MAX_DEPTH then Bad
      else case xml_read_name (tl s) of
        None \<Rightarrow> Bad
      | Some (qname, p) \<Rightarrow>
          if \<not> xml_qname_valid qname \<or> g_str_has_prefix qname ''xmlns:'' then Bad
          else (case xml_parse_attributes (Suc (length p)) ents [] ns p of
                  Fuel \<Rightarrow> Fuel
                | Bad \<Rightarrow> Bad
                | Good (as, ns, p) \<Rightarrow>
                    (case xml_element_node ns qname as of
                       None \<Rightarrow> Bad
                     | Some el \<Rightarrow>
                         let p = xml_skip_space p in
                         if p \<noteq> [] \<and> hd p = CHR ''/'' then
                           (if tl p \<noteq> [] \<and> hd (tl p) = CHR ''>'' then Good (Node el [], tl (tl p)) else Bad)
                         else if p = [] \<or> hd p \<noteq> CHR ''>'' then Bad
                         else (case xml_content f depth ns ents qname [] (tl p) of
                                 Fuel \<Rightarrow> Fuel
                               | Bad \<Rightarrow> Bad
                               | Good (kids, p) \<Rightarrow> Good (Node el kids, p)))))"
| "xml_content 0 depth ns ents qname kids s = Fuel"
| "xml_content (Suc f) depth ns ents qname kids s =
     (if s = [] then Bad
      else if hd s = CHR ''<'' then
        (if g_str_has_prefix s ''</'' then
           (case xml_end_tag qname (drop 2 s) of None \<Rightarrow> Bad | Some p \<Rightarrow> Good (kids, p))
         else (case xml_leaf s of
             Some None \<Rightarrow> Bad
           | Some (Some (t, rest)) \<Rightarrow> xml_content f depth ns ents qname (kids @ [t]) rest
           | None \<Rightarrow>
               (case xml_parse_element f (depth + 1) ns ents s of
                  Fuel \<Rightarrow> Fuel
                | Bad \<Rightarrow> Bad
                | Good (el, rest) \<Rightarrow> xml_content f depth ns ents qname (kids @ [el]) rest)))
      else
        (case xml_decode_text ents (takeWhile (\<lambda>c. c \<noteq> CHR ''<'') s) of
           None \<Rightarrow> Bad
         | Some txt \<Rightarrow> xml_content f depth ns ents qname (kids @ [xml_text_node txt]) (dropWhile (\<lambda>c. c \<noteq> CHR ''<'') s)))"

declare xml_parse_element.simps [simp del] xml_content.simps [simp del] xml_parse_attributes.simps [simp del]
  xml_skip_misc_and_doctype.simps [simp del] xml_parse_internal_entities.simps [simp del]

text \<open>The document: prolog, one element, and what may follow it.\<close>

definition xml_parse :: "string \<Rightarrow> xml_tree list xml_res" where
  "xml_parse input =
     (let s = (if take 3 input = [CHR 0xEF, CHR 0xBB, CHR 0xBF] then drop 3 input else input) in
      case xml_skip_misc_and_doctype (Suc (length s)) Map.empty [] s of
        Fuel \<Rightarrow> Fuel
      | Bad \<Rightarrow> Bad
      | Good (ents, doc, p) \<Rightarrow>
          if p = [] \<or> hd p \<noteq> CHR ''<'' then Bad
          else (case xml_parse_element (2 * length p + 2) 0 [] ents p of
                  Fuel \<Rightarrow> Fuel
                | Bad \<Rightarrow> Bad
                | Good (root, p) \<Rightarrow>
                    (case xml_skip_misc_and_doctype (Suc (length p)) ents (doc @ [root]) p of
                       Fuel \<Rightarrow> Fuel
                     | Bad \<Rightarrow> Bad
                     | Good (ents, doc, p) \<Rightarrow> if p = [] then Good doc else Bad)))"

definition ns_xml_parse :: "string \<Rightarrow> xml_tree option" where
  "ns_xml_parse input =
     (case xml_parse input of
        Good doc \<Rightarrow> Some (Node (set_flags NS_NODE_XML_DOC ns_node_new_document) doc)
      | _ \<Rightarrow> None)"

section \<open>The parser ends\<close>

lemma skip_space_length: "length (xml_skip_space s) \<le> length s"
  by (simp add: xml_skip_space_def length_dropWhile_le)

lemma read_name_append: "xml_read_name s = Some (n, r) \<Longrightarrow> s = n @ r \<and> n \<noteq> []"
  by (auto simp: xml_read_name_def split: list.splits if_splits)

lemma read_name_length: "xml_read_name s = Some (n, r) \<Longrightarrow> length r < length s"
  by (drule read_name_append) auto

lemma until_append: "xml_until s d = Some (b, r) \<Longrightarrow> s = b @ d @ r"
proof -
  assume "xml_until s d = Some (b, r)"
  then obtain t where t: "strstr s d = Some t" "b = take (length s - length t) s" "r = drop (length d) t"
    by (auto simp: xml_until_def split: option.splits)
  from strstr_Some [OF t(1)] obtain p where p: "s = p @ t" "prefix d t" by blast
  then have "b = p" "t = d @ r" using t(2,3) by (auto simp: prefix_def)
  with p(1) show ?thesis by simp
qed

lemma quoted_length: "xml_read_quoted_range s = Some (v, r) \<Longrightarrow> length v + length r + 2 = length s"
proof -
  assume a: "xml_read_quoted_range s = Some (v, r)"
  then obtain q t where s: "s = q # t" and v: "v = takeWhile (\<lambda>c. c \<noteq> q) t" and r: "r = tl (dropWhile (\<lambda>c. c \<noteq> q) t)"
    and ne: "dropWhile (\<lambda>c. c \<noteq> q) t \<noteq> []"
    by (auto simp: xml_read_quoted_range_def Let_def split: list.splits if_splits)
  have "length t = length v + length (dropWhile (\<lambda>c. c \<noteq> q) t)" unfolding v
    by (metis length_append takeWhile_dropWhile_id)
  moreover have "length (dropWhile (\<lambda>c. c \<noteq> q) t) = Suc (length r)" using ne r by (cases "dropWhile (\<lambda>c. c \<noteq> q) t") auto
  ultimately show ?thesis by (simp add: s)
qed

lemma attribute_length: "xml_parse_attribute ents as ns p = Some (a, ns', r) \<Longrightarrow> length r < length p"
proof -
  assume "xml_parse_attribute ents as ns p = Some (a, ns', r)"
  then obtain aname p1 v where n: "xml_read_name p = Some (aname, p1)"
    and v: "xml_read_quoted_range (xml_skip_space (tl (xml_skip_space p1))) = Some (v, r)"
    by (auto simp: xml_parse_attribute_def Let_def split: option.splits if_splits)
  show ?thesis
    using quoted_length [OF v] read_name_length [OF n] skip_space_length [of p1]
      skip_space_length [of "tl (xml_skip_space p1)"] by simp
qed

lemma attributes_rest:
  "xml_parse_attributes f ents as ns s = Good (as', ns', p) \<Longrightarrow> length p \<le> length s \<and> p \<noteq> [] \<and> \<not> xml_is_space (hd p)"
proof (induction f arbitrary: as ns s)
  case (Suc f)
  let ?p = "xml_skip_space s"
  show ?case
  proof (cases "?p = [] \<or> hd ?p = CHR ''>'' \<or> hd ?p = CHR ''/''")
    case True
    with Suc.prems have "?p \<noteq> [] \<and> p = ?p \<and> (hd ?p = CHR ''>'' \<or> hd ?p = CHR ''/'')"
      unfolding xml_parse_attributes.simps(2) Let_def by (simp split: if_splits)
    then show ?thesis using skip_space_length [of s] by (auto simp: xml_is_space_def)
  next
    case False
    with Suc.prems obtain a ns1 p1 where a: "xml_parse_attribute ents as ns ?p = Some (a, ns1, p1)"
      and "xml_parse_attributes f ents (as @ [a]) ns1 p1 = Good (as', ns', p)"
      unfolding xml_parse_attributes.simps(2) Let_def by (auto split: option.splits)
    from Suc.IH [OF this(2)] attribute_length [OF a] skip_space_length [of s] show ?thesis by linarith
  qed
qed (simp add: xml_parse_attributes.simps(1))

lemma attributes_fuel: "length s < f \<Longrightarrow> xml_parse_attributes f ents as ns s \<noteq> Fuel"
proof (induction f arbitrary: as ns s)
  case (Suc f)
  have step: "xml_parse_attributes f ents as1 ns1 p \<noteq> Fuel"
    if "xml_parse_attribute ents as ns (xml_skip_space s) = Some (a, ns2, p)" for a ns2 p as1 ns1
    using attribute_length [OF that] skip_space_length [of s] Suc.prems by (intro Suc.IH) linarith
  show ?case
    using step by (auto simp: xml_parse_attributes.simps(2) Let_def split: option.split)
qed simp

lemma until_length: "xml_until (drop n s) d = Some (b, r) \<Longrightarrow> 0 < n \<Longrightarrow> s \<noteq> [] \<Longrightarrow> length r < length s"
proof -
  assume u: "xml_until (drop n s) d = Some (b, r)" and n: "0 < n" "s \<noteq> []"
  have "length (drop n s) = length (b @ d @ r)" using until_append [OF u] by simp
  then have "length r \<le> length s - n" by simp
  moreover have "0 < length s" using n(2) by simp
  ultimately show ?thesis using n(1) by linarith
qed

lemma leaf_length: "xml_leaf s = Some (Some (t, r)) \<Longrightarrow> length r < length s"
  by (cases "s = []") (auto simp: xml_leaf_def split: if_splits elim!: until_length)

lemma end_tag_length: "xml_end_tag q s = Some r \<Longrightarrow> length r < length s"
proof -
  assume "xml_end_tag q s = Some r"
  then obtain n p where n: "xml_read_name s = Some (n, p)" and r: "r = tl (xml_skip_space p)"
    by (auto simp: xml_end_tag_def Let_def split: option.splits if_splits)
  from n r show ?thesis using read_name_length [OF n] skip_space_length [of p] by simp
qed

lemma xml_element_step:
  assumes "xml_parse_element (Suc f) depth ns ents s = Good (t, r)"
  obtains qname p as ns' p' el where "depth \<le> XML_MAX_DEPTH" and "xml_read_name (tl s) = Some (qname, p)"
    and "xml_qname_valid qname" and "xml_parse_attributes (Suc (length p)) ents [] ns p = Good (as, ns', p')"
    and "xml_element_node ns' qname as = Some el" and "p' \<noteq> []"
    and "t = Node el [] \<and> r = tl (tl p') \<and> tl p' \<noteq> [] \<or>
      (\<exists>kids. xml_content f depth ns' ents qname [] (tl p') = Good (kids, r) \<and> t = Node el kids)"
proof -
  from assms obtain qname p as ns' p' el where
    1: "depth \<le> XML_MAX_DEPTH" "xml_read_name (tl s) = Some (qname, p)" "xml_qname_valid qname"
    and 2: "xml_parse_attributes (Suc (length p)) ents [] ns p = Good (as, ns', p')" "xml_element_node ns' qname as = Some el"
    and 3: "(if xml_skip_space p' \<noteq> [] \<and> hd (xml_skip_space p') = CHR ''/'' then
          (if tl (xml_skip_space p') \<noteq> [] \<and> hd (tl (xml_skip_space p')) = CHR ''>'' then Good (Node el [], tl (tl (xml_skip_space p'))) else Bad)
        else if xml_skip_space p' = [] \<or> hd (xml_skip_space p') \<noteq> CHR ''>'' then Bad
        else (case xml_content f depth ns' ents qname [] (tl (xml_skip_space p')) of
                Fuel \<Rightarrow> Fuel | Bad \<Rightarrow> Bad | Good (kids, p) \<Rightarrow> Good (Node el kids, p))) = Good (t, r)"
    unfolding xml_parse_element.simps(2) Let_def not_less
    by (auto split: if_splits(2) option.splits xml_res.splits prod.splits)
  have p': "xml_skip_space p' = p'" "p' \<noteq> []"
    using attributes_rest [OF 2(1)] by (cases p'; simp add: xml_skip_space_def)+
  from 3 have "t = Node el [] \<and> r = tl (tl p') \<and> tl p' \<noteq> [] \<or>
      (\<exists>kids. xml_content f depth ns' ents qname [] (tl p') = Good (kids, r) \<and> t = Node el kids)"
    unfolding p' by (auto split: if_splits xml_res.splits)
  with that 1 2 p'(2) show ?thesis by blast
qed

lemma xml_content_step:
  assumes "xml_content (Suc f) depth ns ents qname kids s = Good (ks, r)"
  obtains (close) "xml_end_tag qname (drop 2 s) = Some r" "ks = kids" "s \<noteq> []"
  | (leaf) t rest where "xml_leaf s = Some (Some (t, rest))" "xml_content f depth ns ents qname (kids @ [t]) rest = Good (ks, r)"
  | (elem) t rest where "xml_parse_element f (depth + 1) ns ents s = Good (t, rest)"
      "xml_content f depth ns ents qname (kids @ [t]) rest = Good (ks, r)"
  | (chars) tx where "s \<noteq> []" "hd s \<noteq> CHR ''<''" "xml_decode_text ents (takeWhile (\<lambda>c. c \<noteq> CHR ''<'') s) = Some tx"
      "xml_content f depth ns ents qname (kids @ [xml_text_node tx]) (dropWhile (\<lambda>c. c \<noteq> CHR ''<'') s) = Good (ks, r)"
  using assms unfolding xml_content.simps(2)
  by (auto split: if_splits option.splits xml_res.splits prod.splits)

lemma drop_while_length: "s \<noteq> [] \<Longrightarrow> hd s \<noteq> c \<Longrightarrow> length (dropWhile (\<lambda>x. x \<noteq> c) s) < length s"
  by (cases s) (auto simp: length_dropWhile_le le_imp_less_Suc)

lemma parse_length:
  "(xml_parse_element f depth ns ents s = Good (t, r) \<longrightarrow> length r + 2 \<le> length s) \<and>
   (xml_content f depth ns ents qname kids s = Good (ks, r) \<longrightarrow> length r < length s)"
proof (induction f arbitrary: depth ns s t r qname kids ks)
  case 0
  then show ?case by (simp add: xml_parse_element.simps xml_content.simps)
next
  case (Suc f)
  have "length r + 2 \<le> length s" if "xml_parse_element (Suc f) depth ns ents s = Good (t, r)" for depth ns s t r
  proof (rule xml_element_step [OF that])
    fix qname p as ns' p' el
    assume n: "xml_read_name (tl s) = Some (qname, p)" and as: "xml_parse_attributes (Suc (length p)) ents [] ns p = Good (as, ns', p')"
      and p': "p' \<noteq> []" and c: "t = Node el [] \<and> r = tl (tl p') \<and> tl p' \<noteq> [] \<or>
        (\<exists>kids. xml_content f depth ns' ents qname [] (tl p') = Good (kids, r) \<and> t = Node el kids)"
    from c have "length r < length p'"
    proof
      assume "\<exists>kids. xml_content f depth ns' ents qname [] (tl p') = Good (kids, r) \<and> t = Node el kids"
      then have "length r < length (tl p')" using Suc.IH by blast
      then show ?thesis by simp
    qed (use p' in \<open>cases p'; simp\<close>)
    then show ?thesis using read_name_length [OF n] attributes_rest [OF as] by (simp, arith)
  qed
  moreover have "length r < length s" if "xml_content (Suc f) depth ns ents qname kids s = Good (ks, r)" for depth ns s r qname kids ks
    using that
  proof (cases rule: xml_content_step)
    case close
    then show ?thesis using end_tag_length [OF close(1)] by simp
  next
    case (leaf t rest)
    with Suc.IH leaf_length [OF leaf(1)] show ?thesis by (meson less_trans)
  next
    case (elem t rest)
    with Suc.IH have "length rest + 2 \<le> length s" "length r < length rest" by blast+
    then show ?thesis by simp
  next
    case (chars tx)
    with chars Suc.IH drop_while_length [OF chars(1,2)] show ?thesis by (meson less_trans)
  qed
  ultimately show ?case by blast
qed

lemma parse_fuel:
  "(2 * length s \<le> f \<longrightarrow> s \<noteq> [] \<longrightarrow> xml_parse_element f depth ns ents s \<noteq> Fuel) \<and>
   (2 * length s < f \<longrightarrow> xml_content f depth ns ents qname kids s \<noteq> Fuel)"
proof (induction f arbitrary: depth ns s qname kids)
  case 0
  then show ?case by simp
next
  case (Suc f)
  have "xml_parse_element (Suc f) depth ns ents s \<noteq> Fuel" if f: "2 * length s \<le> Suc f" "s \<noteq> []" for depth ns s
  proof -
    have as: "xml_parse_attributes (Suc (length p)) ents [] ns p \<noteq> Fuel" for p by (rule attributes_fuel) simp
    have "xml_content f depth ns' ents qname [] (tl (xml_skip_space p')) \<noteq> Fuel"
      if n: "xml_read_name (tl s) = Some (qname, p)" and as: "xml_parse_attributes (Suc (length p)) ents [] ns p = Good (as, ns', p')"
      for qname p as ns' p'
    proof -
      have "length (tl (xml_skip_space p')) + 2 \<le> length s"
        using read_name_length [OF n] attributes_rest [OF as] skip_space_length [of p'] f(2)
        by (cases "xml_skip_space p'"; cases s; simp)
      then show ?thesis using Suc.IH f by simp
    qed
    with as show ?thesis unfolding xml_parse_element.simps(2) Let_def
      by (auto split: option.split xml_res.split prod.split)
  qed
  moreover have "xml_content (Suc f) depth ns ents qname kids s \<noteq> Fuel" if f: "2 * length s < Suc f" for depth ns qname kids s
  proof -
    have rest: "xml_content f depth ns ents qname ks rest \<noteq> Fuel" if "length rest < length s" for rest ks
      using Suc.IH f that by simp
    have el: "s \<noteq> [] \<Longrightarrow> xml_parse_element f (depth + 1) ns ents s \<noteq> Fuel" using Suc.IH f by simp
    show ?thesis
      using rest [OF leaf_length] el rest [OF drop_while_length [of s "CHR ''<''"]]
        rest [OF add_lessD1 [of _ 1, unfolded Suc_eq_plus1 [symmetric]]]
      unfolding xml_content.simps(2)
      by (auto split: option.split xml_res.split prod.split dest: parse_length [THEN conjunct1, rule_format] intro: rest)
  qed
  ultimately show ?case by blast
qed

lemma cstring_length: "length (cstring s) \<le> length s"
  by (simp add: cstring_def length_takeWhile_le)

lemma entities_fuel: "length s < f \<Longrightarrow> xml_parse_internal_entities f ents s \<noteq> Fuel"
proof (induction f arbitrary: ents s)
  case (Suc f)
  have IH: "xml_parse_internal_entities f e r \<noteq> Fuel" if "length r < length s" for e r
    using Suc that by simp
  have skip: "length (xml_skip_space (drop (length (cstring s) - length t + 8) s)) < length s"
    if "strstr (cstring s) ''<!ENTITY'' = Some t" for t
  proof -
    have "8 \<le> length t" "length t \<le> length (cstring s)" using strstr_length [OF that] by simp_all
    then have "length s > 0" using cstring_length [of s] by linarith
    then have "length (drop (length (cstring s) - length t + 8) s) < length s" by simp
    then show ?thesis using skip_space_length le_less_trans by blast
  qed
  show ?case
  proof (cases "strstr (cstring s) ''<!ENTITY''")
    case None
    then show ?thesis by (simp add: xml_parse_internal_entities.simps(2))
  next
    case (Some t)
    let ?q = "xml_skip_space (drop (length (cstring s) - length t + 8) s)"
    have q: "length ?q < length s" using skip [OF Some] .
    have 1: "xml_parse_internal_entities f e (tl ?q) \<noteq> Fuel" for e using q by (intro IH) simp
    have 2: "xml_parse_internal_entities f e (xml_skip_space p) \<noteq> Fuel" if "xml_read_name ?q = Some (n, p)" for e n p
      using read_name_length [OF that] skip_space_length [of p] q by (intro IH) linarith
    have 3: "xml_parse_internal_entities f e r \<noteq> Fuel"
      if "xml_read_name ?q = Some (n, p)" "xml_read_quoted_range (xml_skip_space p) = Some (v, r)" for e n p v r
      using quoted_length [OF that(2)] read_name_length [OF that(1)] skip_space_length [of p] q by (intro IH) linarith
    show ?thesis unfolding xml_parse_internal_entities.simps(2) Let_def Some option.case
      using 1 2 3 by (auto split: option.split)
  qed
qed simp

lemma doctype_end_append: "doctype_end b s = Some (body, r) \<Longrightarrow> s = body @ r \<and> r \<noteq> []"
  by (induction b s arbitrary: body rule: doctype_end.induct) (fastforce split: if_splits)+

lemma internal_subset_length: "internal_subset body = Some sub \<Longrightarrow> length sub \<le> length body"
proof -
  assume "internal_subset body = Some sub"
  then obtain t where t: "strchr body (CHR ''['') = Some t" and sub: "sub = rev (tl (dropWhile (\<lambda>c. c \<noteq> CHR '']'') (rev (tl t))))"
    by (auto simp: internal_subset_def split: option.splits if_splits)
  have "length sub \<le> length (dropWhile (\<lambda>c. c \<noteq> CHR '']'') (rev (tl t)))" by (simp add: sub)
  also have "\<dots> \<le> length t" using length_dropWhile_le [of "\<lambda>c. c \<noteq> CHR '']''" "rev (tl t)"] by simp
  also have "\<dots> \<le> length body" using strchr_length [OF t] .
  finally show ?thesis .
qed

lemma misc_fuel:
  "length s < f \<Longrightarrow> xml_skip_misc_and_doctype f ents doc s \<noteq> Fuel"
proof (induction f arbitrary: ents doc s)
  case (Suc f)
  let ?p = "xml_skip_space s"
  have p: "length ?p \<le> f" using Suc.prems skip_space_length [of s] by simp
  have until: "xml_skip_misc_and_doctype f e d r \<noteq> Fuel"
    if "xml_until (drop n ?p) x = Some (b, r)" "0 < n" "2 \<le> length ?p" for e d r n x b
  proof (rule Suc.IH)
    have "?p \<noteq> []" using that(3) by auto
    then show "length r < f" using until_length [OF that(1,2)] p by linarith
  qed
  have dt: "xml_skip_misc_and_doctype f e d (tl r) \<noteq> Fuel" "internal_subset b = Some sub \<Longrightarrow> xml_parse_internal_entities f e sub \<noteq> Fuel"
    if "doctype_end 0 (drop 9 ?p) = Some (b, r)" "9 \<le> length ?p" for e d r b sub
  proof -
    have "length ?p = 9 + length (drop 9 ?p)" using that(2) by simp
    then have "length b + length r + 9 = length ?p" "r \<noteq> []"
      using doctype_end_append [OF that(1)] by simp_all
    then show "xml_skip_misc_and_doctype f e d (tl r) \<noteq> Fuel" "internal_subset b = Some sub \<Longrightarrow> xml_parse_internal_entities f e sub \<noteq> Fuel"
      using p internal_subset_length [of b sub] by (auto intro!: Suc.IH entities_fuel)
  qed
  show ?case
  proof (cases "length ?p < 2 \<or> hd ?p \<noteq> CHR ''<''")
    case True
    then show ?thesis by (simp add: xml_skip_misc_and_doctype.simps(2) Let_def)
  next
    case False
    then have two: "2 \<le> length ?p" by simp
    have u2: "xml_until (drop 2 ?p) ''?>'' = Some (b, r) \<Longrightarrow> xml_skip_misc_and_doctype f e d r \<noteq> Fuel"
      and u4: "xml_until (drop 4 ?p) ''-->'' = Some (b, r) \<Longrightarrow> xml_skip_misc_and_doctype f e d r \<noteq> Fuel" for b r e d
      using until two by simp_all
    consider "?p ! 1 = CHR ''?''" | "?p ! 1 \<noteq> CHR ''?''" "g_str_has_prefix ?p ''<!--''"
      | "?p ! 1 \<noteq> CHR ''?''" "\<not> g_str_has_prefix ?p ''<!--''" "length ?p \<ge> 9 \<and> strncaseeq 9 ?p ''<!DOCTYPE''"
      | "?p ! 1 \<noteq> CHR ''?''" "\<not> g_str_has_prefix ?p ''<!--''" "\<not> (length ?p \<ge> 9 \<and> strncaseeq 9 ?p ''<!DOCTYPE'')"
      by blast
    then show ?thesis
    proof cases
      case 3
      then show ?thesis
        unfolding xml_skip_misc_and_doctype.simps(2) Let_def if_not_P [OF False] if_not_P [OF 3(1)] if_not_P [OF 3(2)] if_P [OF 3(3)]
        using dt by (simp split: option.split prod.split xml_res.split) blast
    next
      case 4
      then show ?thesis
        unfolding xml_skip_misc_and_doctype.simps(2) Let_def if_not_P [OF False] if_not_P [OF 4(1)] if_not_P [OF 4(2)] if_not_P [OF 4(3)]
        by simp
    qed (use False u2 u4 in \<open>simp_all add: xml_skip_misc_and_doctype.simps(2) Let_def split: option.split\<close>)
  qed
qed simp

section \<open>Properties: the parser\<close>

text \<open>C32. The parser always ends: for every input the fuel it starts with suffices, and the answer is a document or
  that the input is not well-formed.\<close>

theorem xml_parse_total: "xml_parse input \<noteq> Fuel"
proof -
  define s where "s = (if take 3 input = [CHR 0xEF, CHR 0xBB, CHR 0xBF] then drop 3 input else input)"
  have "xml_skip_misc_and_doctype (Suc (length q)) e d q \<noteq> Fuel" for e d q by (rule misc_fuel) simp
  moreover have "xml_parse_element (2 * length p + 2) 0 [] e p \<noteq> Fuel" if "p \<noteq> []" for e p
    using parse_fuel [of p "2 * length p + 2" 0 "[]" e] that by simp
  ultimately show ?thesis
    unfolding xml_parse_def Let_def s_def [symmetric] by (auto split: xml_res.split prod.split)
qed

section \<open>Printing\<close>

text \<open>Documents without namespaces and references, and how they are written.\<close>

datatype xml_doc = Elem string "(string \<times> string) list" "xml_doc list" | Chars string | Remark string

definition escape_char :: "char \<Rightarrow> string" where
  "escape_char c =
     (if c = CHR ''&'' then ''&amp;'' else if c = CHR ''<'' then ''&lt;'' else if c = CHR ''>'' then ''&gt;''
      else if c = CHR 0x22 then ''&quot;'' else [c])"

definition escape :: "string \<Rightarrow> string" where
  "escape s = concat (map escape_char s)"

definition show_attr :: "string \<times> string \<Rightarrow> string" where
  "show_attr a = '' '' @ fst a @ ''='' @ [CHR 0x22] @ escape (snd a) @ [CHR 0x22]"

fun show_xml :: "xml_doc \<Rightarrow> string" where
  "show_xml (Elem n as ks) =
     ''<'' @ n @ concat (map show_attr as) @
     (if ks = [] then ''/>'' else ''>'' @ concat (map show_xml ks) @ ''</'' @ n @ ''>'')"
| "show_xml (Chars t) = escape t"
| "show_xml (Remark c) = ''<!--'' @ c @ ''-->''"

definition plain_xml_name :: "string \<Rightarrow> bool" where
  "plain_xml_name n \<longleftrightarrow> n \<noteq> [] \<and> xml_name_char (hd n) True \<and> list_all (\<lambda>c. xml_name_char c False) n \<and> CHR '':'' \<notin> set n"

definition no_nul :: "string \<Rightarrow> bool" where
  "no_nul s \<longleftrightarrow> CHR 0x00 \<notin> set s"

definition plain_attrs :: "(string \<times> string) list \<Rightarrow> bool" where
  "plain_attrs as \<longleftrightarrow> distinct (map fst as) \<and> list_all (\<lambda>a. plain_xml_name (fst a) \<and> fst a \<noteq> ''xmlns'' \<and> no_nul (snd a)) as"

fun is_chars :: "xml_doc \<Rightarrow> bool" where
  "is_chars (Chars t) = True" | "is_chars _ = False"

fun no_adjacent :: "xml_doc list \<Rightarrow> bool" where
  "no_adjacent (x # y # zs) = (\<not> (is_chars x \<and> is_chars y) \<and> no_adjacent (y # zs))"
| "no_adjacent _ = True"

fun doc_ok :: "nat \<Rightarrow> xml_doc \<Rightarrow> bool" where
  "doc_ok d (Elem n as ks) = (d \<le> XML_MAX_DEPTH \<and> plain_xml_name n \<and> plain_attrs as \<and> no_adjacent ks \<and> list_all (doc_ok (d + 1)) ks)"
| "doc_ok d (Chars t) = (t \<noteq> [] \<and> no_nul t)"
| "doc_ok d (Remark c) = (no_nul c \<and> CHR ''>'' \<notin> set c)"

text \<open>The tree of the DOM that stands for a document.\<close>

definition plain_attr :: "string \<times> string \<Rightarrow> ns_attr" where
  "plain_attr a = \<lparr>attr_name = fst a, attr_value = snd a, namespace_uri = None, attr_prefix = None, local_name = Some (fst a),
     attr_lower = ns_str_is_ascii_lower (fst a)\<rparr>"

fun represents :: "xml_tree \<Rightarrow> xml_doc \<Rightarrow> bool" and represents_all :: "xml_tree list \<Rightarrow> xml_doc list \<Rightarrow> bool" where
  "represents (Node el kids) (Elem n as ks) \<longleftrightarrow>
     kind el = NS_NODE_ELEMENT \<and> node_name el = Some n \<and> attrs el = map plain_attr as \<and> represents_all kids ks"
| "represents (Node el kids) (Chars t) \<longleftrightarrow> kind el = NS_NODE_TEXT \<and> node_text el = Some t \<and> kids = []"
| "represents (Node el kids) (Remark c) \<longleftrightarrow> kind el = NS_NODE_COMMENT \<and> node_text el = Some c \<and> kids = []"
| "represents_all [] [] \<longleftrightarrow> True"
| "represents_all (t # ts) (k # ks) \<longleftrightarrow> represents t k \<and> represents_all ts ks"
| "represents_all _ _ \<longleftrightarrow> False"

lemma represents_all_append: "represents_all ts ks \<Longrightarrow> represents t k \<Longrightarrow> represents_all (ts @ [t]) (ks @ [k])"
proof (induction ts arbitrary: ks)
  case Nil
  then show ?case by (cases ks) simp_all
next
  case (Cons u ts)
  then show ?case by (cases ks) simp_all
qed

lemma no_nul_cstring: "no_nul s \<Longrightarrow> cstring s = s"
  by (intro cstring_id) (auto simp: no_nul_def list_all_iff)

subsection \<open>Reading what was printed\<close>

lemma reference_named:
  "xml_reference ents ''amp'' = Some ''&''" "xml_reference ents ''lt'' = Some ''<''" "xml_reference ents ''gt'' = Some ''>''"
  "xml_reference ents ''quot'' = Some [CHR 0x22]"
  by (simp_all add: xml_reference_def)

lemma decode_plain: "c \<noteq> CHR ''&'' \<Longrightarrow> xml_decode_text ents (c # s) = map_option ((#) c) (xml_decode_text ents s)"
  by (simp add: xml_decode_text.simps)

lemma decode_ref:
  "CHR '';'' \<notin> set e \<Longrightarrow> xml_reference ents e = Some v \<Longrightarrow>
   xml_decode_text ents (CHR ''&'' # e @ CHR '';'' # s) = map_option (\<lambda>t. v @ t) (xml_decode_text ents s)"
proof -
  assume e: "CHR '';'' \<notin> set e" and v: "xml_reference ents e = Some v"
  have "takeWhile (\<lambda>x. x \<noteq> CHR '';'') (e @ CHR '';'' # s) = e" "dropWhile (\<lambda>x. x \<noteq> CHR '';'') (e @ CHR '';'' # s) = CHR '';'' # s"
    using e by (induction e) auto
  with v show ?thesis by (simp add: xml_decode_text.simps(2) Let_def)
qed

lemma decode_escape_char: "xml_decode_text ents (escape_char c @ s) = map_option ((#) c) (xml_decode_text ents s)"
  using decode_ref [of "''amp''" ents "''&''" s] decode_ref [of "''lt''" ents "''<''" s] decode_ref [of "''gt''" ents "''>''" s]
    decode_ref [of "''quot''" ents "[CHR 0x22]" s]
  by (simp add: escape_char_def reference_named decode_plain)

lemma decode_escape: "xml_decode_text ents (escape s) = Some s"
  by (induction s) (simp_all add: escape_def decode_escape_char xml_decode_text.simps(1))

lemma escape_set: "CHR 0x22 \<notin> set (escape s)" "CHR ''<'' \<notin> set (escape s)"
  by (auto simp: escape_def escape_char_def)

lemma read_quoted_escape: "xml_read_quoted_range (CHR 0x22 # escape v @ CHR 0x22 # s) = Some (escape v, s)"
proof -
  have "takeWhile (\<lambda>c. c \<noteq> CHR 0x22) (escape v @ CHR 0x22 # s) = escape v"
    "dropWhile (\<lambda>c. c \<noteq> CHR 0x22) (escape v @ CHR 0x22 # s) = CHR 0x22 # s"
    using escape_set(1) [of v] by (induction "escape v") (auto simp: takeWhile_append dropWhile_append3)
  then show ?thesis by (simp add: xml_read_quoted_range_def Let_def)
qed

lemma read_name_plain:
  assumes "plain_xml_name n" and "\<not> xml_name_char x False"
  shows "xml_read_name (n @ x # s) = Some (n, x # s)"
proof -
  obtain c t where n: "n = c # t" using assms(1) by (cases n) (auto simp: plain_xml_name_def)
  have "list_all (\<lambda>x. xml_name_char x False) t" using assms n by (simp add: plain_xml_name_def)
  then have "takeWhile (\<lambda>x. xml_name_char x False) (t @ x # s) = t" "dropWhile (\<lambda>x. xml_name_char x False) (t @ x # s) = x # s"
    using assms(2) by (induction t) auto
  with assms(1) show ?thesis by (simp add: xml_read_name_def n plain_xml_name_def)
qed

lemma plain_qname: "plain_xml_name n \<Longrightarrow> xml_qname_valid n \<and> \<not> g_str_has_prefix n ''xmlns:'' \<and> prefix_of n = None"
proof -
  assume n: "plain_xml_name n"
  then have "CHR '':'' \<notin> set n" by (simp add: plain_xml_name_def)
  moreover have "\<not> g_str_has_prefix n ''xmlns:''"
  proof
    assume "g_str_has_prefix n ''xmlns:''"
    then have "set ''xmlns:'' \<subseteq> set n" using has_prefixD [of n "''xmlns:''"] by (metis set_append Un_upper1)
    with \<open>CHR '':'' \<notin> set n\<close> show False by simp
  qed
  ultimately show ?thesis using strchr_None_iff [of n "CHR '':''"] by (simp add: xml_qname_valid_def prefix_of_def)
qed

lemma attribute_plain:
  assumes "plain_xml_name n" "n \<noteq> ''xmlns''" "no_nul v" "n \<notin> fst ` set as"
  shows "xml_parse_attribute ents as ns (n @ ''='' @ [CHR 0x22] @ escape v @ [CHR 0x22] @ s) = Some ((n, v), ns, s)"
proof -
  have eq: "\<not> xml_name_char (CHR ''='') False" by code_simp
  have name: "xml_read_name (n @ CHR ''='' # [CHR 0x22] @ escape v @ [CHR 0x22] @ s) = Some (n, CHR ''='' # [CHR 0x22] @ escape v @ [CHR 0x22] @ s)"
    by (rule read_name_plain [OF assms(1) eq])
  have sp: "xml_skip_space (c # t) = c # t" if "c = CHR ''='' \<or> c = CHR 0x22" for c t
    using that by (auto simp: xml_skip_space_def xml_is_space_def)
  have "\<not> invalid_decl n v" using plain_qname [OF assms(1)] assms(2) by (simp add: invalid_decl_def)
  then show ?thesis
    using assms plain_qname [OF assms(1)] name
    by (simp add: xml_parse_attribute_def sp read_quoted_escape decode_escape no_nul_cstring)
qed

lemma name_hd: "plain_xml_name n \<Longrightarrow> n \<noteq> [] \<and> \<not> xml_is_space (hd n) \<and> hd n \<noteq> CHR ''>'' \<and> hd n \<noteq> CHR ''/'' \<and> hd n \<noteq> CHR ''!'' \<and> hd n \<noteq> CHR ''?''"
proof -
  assume "plain_xml_name n"
  then have "n \<noteq> []" "xml_name_char (hd n) True" by (simp_all add: plain_xml_name_def)
  moreover have "\<not> xml_name_char (CHR '' '') True" "\<not> xml_name_char (CHR 0x09) True" "\<not> xml_name_char (CHR 0x0A) True"
    "\<not> xml_name_char (CHR 0x0D) True" "\<not> xml_name_char (CHR ''>'') True" "\<not> xml_name_char (CHR ''/'') True"
    "\<not> xml_name_char (CHR ''!'') True" "\<not> xml_name_char (CHR ''?'') True" by code_simp+
  ultimately show ?thesis by (auto simp: xml_is_space_def)
qed

lemma attributes_plain:
  assumes "plain_attrs (as0 @ as)" and "x = CHR ''>'' \<or> x = CHR ''/''" and "length as < f"
  shows "xml_parse_attributes f ents as0 ns (concat (map show_attr as) @ x # s) = Good (as0 @ as, ns, x # s)"
  using assms
proof (induction as arbitrary: as0 f)
  case Nil
  then obtain g where "f = Suc g" by (cases f) auto
  with Nil show ?case by (auto simp: xml_parse_attributes.simps(2) xml_skip_space_def xml_is_space_def)
next
  case (Cons a as)
  obtain n v where a: "a = (n, v)" by (cases a)
  from Cons.prems obtain g where f: "f = Suc g" by (cases f) auto
  from Cons.prems(1) have n: "plain_xml_name n" "n \<noteq> ''xmlns''" "no_nul v" "n \<notin> fst ` set as0"
    by (auto simp: plain_attrs_def a)
  let ?r = "concat (map show_attr as) @ x # s"
  let ?q = "n @ ''='' @ [CHR 0x22] @ escape v @ [CHR 0x22] @ ?r"
  have input: "concat (map show_attr (a # as)) @ x # s = CHR '' '' # ?q"
    by (simp add: show_attr_def a)
  have q: "?q \<noteq> []" "hd ?q \<noteq> CHR ''>''" "hd ?q \<noteq> CHR ''/''" "\<not> xml_is_space (hd ?q)" using name_hd [OF n(1)] by simp_all
  have skip: "xml_skip_space (CHR '' '' # ?q) = ?q"
    using q(1,4) by (cases ?q) (simp_all add: xml_skip_space_def xml_is_space_def)
  have "xml_parse_attributes g ents (as0 @ [a]) ns ?r = Good ((as0 @ [a]) @ as, ns, x # s)"
    using Cons.prems f by (intro Cons.IH) simp_all
  then show ?case
    unfolding f input xml_parse_attributes.simps(2) Let_def skip attribute_plain [OF n, of ents ns ?r]
    using q by (simp add: a)
qed

lemma plain_set_attributes:
  assumes "plain_attrs (as0 @ as)" and "kind el = NS_NODE_ELEMENT" and "attrs el = map plain_attr as0" and "class_set el = None"
  shows "\<exists>el'. xml_set_attributes ns as el = Some el' \<and> kind el' = NS_NODE_ELEMENT \<and> node_name el' = node_name el \<and>
    attrs el' = map plain_attr (as0 @ as)"
  using assms
proof (induction as arbitrary: as0 el)
  case Nil
  then show ?case by simp
next
  case (Cons a as)
  obtain n v where a: "a = (n, v)" by (cases a)
  have n: "plain_xml_name n" "n \<noteq> ''xmlns''" "\<forall>b \<in> set as0. fst b \<noteq> n" using Cons.prems(1) by (auto simp: plain_attrs_def a)
  have colon: "CHR '':'' \<notin> set n" "n \<noteq> []" using n(1) by (auto simp: plain_xml_name_def)
  let ?el = "ns_element_set_attr_ns None None n (Some n) (Some v) el"
  have "set_first (\<lambda>b. ns_attr_matches_ns b None n) v (plain_attr a) (map plain_attr as0) = map plain_attr (as0 @ [a])"
    using n(3) by (induction as0) (auto simp: ns_attr_matches_ns_def plain_attr_def ns_attr_local_name_def)
  moreover have "\<lparr>attr_name = n, attr_value = v, namespace_uri = None, attr_prefix = None, local_name = Some n,
      attr_lower = ns_str_is_ascii_lower n\<rparr> = plain_attr (n, v)" by (simp add: plain_attr_def)
  ultimately have "kind ?el = NS_NODE_ELEMENT \<and> node_name ?el = node_name el \<and> attrs ?el = map plain_attr (as0 @ [a]) \<and> class_set ?el = None"
    using Cons.prems(2-4) colon(2)
    by (simp add: ns_element_set_attr_ns_def Let_def bump_def a ns_attr_normalize_namespace_def)
  with Cons.IH [of "as0 @ [a]" ?el] Cons.prems(1)
  obtain el' where "xml_set_attributes ns as ?el = Some el'" "kind el' = NS_NODE_ELEMENT" "node_name el' = node_name el"
    "attrs el' = map plain_attr (as0 @ a # as)" by auto
  then show ?case using n(2) colon by (simp add: a)
qed

lemma plain_element_node:
  assumes "plain_xml_name n" and "plain_attrs as"
  shows "\<exists>el. xml_element_node [] n as = Some el \<and> kind el = NS_NODE_ELEMENT \<and> node_name el = Some n \<and> attrs el = map plain_attr as"
proof -
  have pfx: "prefix_of n = None" using plain_qname [OF assms(1)] by simp
  have uri: "xml_lookup_prefix [] None = None" by (simp add: xml_lookup_prefix_def)
  let ?el = "xml_apply_namespace n None (set_flags NS_NODE_NOT_PARSER_INSERTED (ns_node_new_element n))"
  have "kind ?el = NS_NODE_ELEMENT" "node_name ?el = Some n" "attrs ?el = []" "class_set ?el = None"
    by (simp_all add: xml_apply_namespace_def pfx Let_def set_flags_def ns_node_new_element_def ns_node_new_def)
  with plain_set_attributes [of "[]" as ?el "[]"] assms(2)
  show ?thesis by (simp add: xml_element_node_def pfx uri Let_def)
qed

lemma strstr_remark: "CHR ''>'' \<notin> set c \<Longrightarrow> strstr (c @ ''-->'' @ s) ''-->'' = Some (''-->'' @ s)"
proof (induction c)
  case (Cons x c)
  have "\<not> g_str_has_prefix (x # c @ ''-->'' @ s) ''-->''"
    using Cons.prems by (cases c; cases "tl c") auto
  with Cons show ?case by simp
qed simp

lemma until_remark: "CHR ''>'' \<notin> set c \<Longrightarrow> xml_until (c @ ''-->'' @ s) ''-->'' = Some (c, s)"
  using strstr_remark [of c s] by (simp add: xml_until_def)

lemma end_tag_plain: "plain_xml_name n \<Longrightarrow> xml_end_tag n (n @ ''>'' @ s) = Some s"
proof -
  assume n: "plain_xml_name n"
  have gt: "\<not> xml_name_char (CHR ''>'') False" by code_simp
  have "xml_skip_space (CHR ''>'' # s) = CHR ''>'' # s" by (simp add: xml_skip_space_def xml_is_space_def)
  with read_name_plain [OF n gt, of s] plain_qname [OF n] show ?thesis by (simp add: xml_end_tag_def)
qed

lemma escape_hd: "t \<noteq> [] \<Longrightarrow> escape t \<noteq> [] \<and> hd (escape t) \<noteq> CHR ''<''"
  by (cases t) (auto simp: escape_def escape_char_def)

text \<open>Whatever is printed starts with a tag, unless it is text.\<close>

lemma show_hd: "\<not> is_chars k \<Longrightarrow> show_xml k \<noteq> [] \<and> hd (show_xml k) = CHR ''<''"
  by (cases k) auto

lemma take_text:
  assumes "t \<noteq> []" and "s \<noteq> []" and "hd s = CHR ''<''"
  shows "takeWhile (\<lambda>c. c \<noteq> CHR ''<'') (escape t @ s) = escape t" and "dropWhile (\<lambda>c. c \<noteq> CHR ''<'') (escape t @ s) = s"
proof -
  have "\<forall>c \<in> set (escape t). c \<noteq> CHR ''<''" using escape_set(2) by auto
  then show "takeWhile (\<lambda>c. c \<noteq> CHR ''<'') (escape t @ s) = escape t" "dropWhile (\<lambda>c. c \<noteq> CHR ''<'') (escape t @ s) = s"
    using assms(2,3) by (cases s; simp add: takeWhile_append2 dropWhile_append2)+
qed

definition parses_back :: "entities \<Rightarrow> xml_doc \<Rightarrow> bool" where
  "parses_back ents k \<longleftrightarrow> (\<forall>d f s n as ks. k = Elem n as ks \<longrightarrow> doc_ok d k \<longrightarrow> 2 * length (show_xml k @ s) \<le> f \<longrightarrow>
     (\<exists>t. xml_parse_element f d [] ents (show_xml k @ s) = Good (t, s) \<and> represents t k))"

lemma parses_backD:
  assumes "parses_back ents k" and "k = Elem n as ks" and "doc_ok d k" and "2 * length (show_xml k @ s) \<le> f"
  obtains t where "xml_parse_element f d [] ents (show_xml k @ s) = Good (t, s)" and "represents t k"
  using assms unfolding parses_back_def by blast

lemma element_text:
  assumes "plain_xml_name n"
  shows "xml_leaf (show_xml (Elem n as ks) @ s) = None" and "\<not> g_str_has_prefix (show_xml (Elem n as ks) @ s) ''</''"
    and "show_xml (Elem n as ks) @ s \<noteq> []" and "hd (show_xml (Elem n as ks) @ s) = CHR ''<''"
proof -
  obtain c t where n: "n = c # t" "c \<noteq> CHR ''/''" "c \<noteq> CHR ''!''" "c \<noteq> CHR ''?''"
    using name_hd [OF assms] by (cases n) auto
  then show "xml_leaf (show_xml (Elem n as ks) @ s) = None" "\<not> g_str_has_prefix (show_xml (Elem n as ks) @ s) ''</''"
    by (simp_all add: xml_leaf_def)
qed simp_all

lemma content_plain:
  assumes "\<forall>k \<in> set ks. parses_back ents k" and "list_all (doc_ok (d + 1)) ks" and "no_adjacent ks" and "plain_xml_name n"
    and "2 * length (concat (map show_xml ks) @ ''</'' @ n @ ''>'' @ s) < f" and "represents_all kids0 ks0"
  shows "\<exists>kids. xml_content f d [] ents n kids0 (concat (map show_xml ks) @ ''</'' @ n @ ''>'' @ s) = Good (kids, s) \<and>
    represents_all kids (ks0 @ ks)"
  using assms
proof (induction ks arbitrary: f kids0 ks0)
  case Nil
  from Nil.prems(5) obtain g where "f = Suc g" by (cases f) auto
  with Nil.prems end_tag_plain [OF Nil.prems(4)] show ?case by (simp add: xml_content.simps(2))
next
  case (Cons k ks)
  let ?s = "concat (map show_xml ks) @ ''</'' @ n @ ''>'' @ s"
  from Cons.prems(5) obtain g where f: "f = Suc g" by (cases f) auto
  have IH: "\<exists>kids. xml_content g d [] ents n (kids0 @ [t]) ?s = Good (kids, s) \<and> represents_all kids (ks0 @ k # ks)"
    if "represents t k" for t
  proof -
    have ne: "show_xml k \<noteq> []" using Cons.prems(2) escape_hd by (cases k) auto
    have "no_adjacent ks" using Cons.prems(3) by (cases ks) simp_all
    moreover have "2 * length ?s < g" using Cons.prems(5) ne by (cases "show_xml k") (simp_all add: f)
    ultimately have "\<exists>kids. xml_content g d [] ents n (kids0 @ [t]) ?s = Good (kids, s) \<and> represents_all kids ((ks0 @ [k]) @ ks)"
      using Cons.prems represents_all_append [OF Cons.prems(6) that] by (intro Cons.IH) simp_all
    then show ?thesis by simp
  qed
  show ?case
  proof (cases k)
    case (Elem m as us)
    have doc: "doc_ok (d + 1) k" and name: "plain_xml_name m" using Cons.prems(2) Elem by simp_all
    have "2 * length (show_xml k @ ?s) \<le> g" using Cons.prems(5) by (simp add: f)
    then obtain t where t: "xml_parse_element g (d + 1) [] ents (show_xml k @ ?s) = Good (t, ?s)" "represents t k"
      using parses_backD [OF _ Elem doc] Cons.prems(1) by (metis list.set_intros(1))
    note el = element_text [OF name, of as us ?s, folded Elem]
    have "xml_content f d [] ents n kids0 (show_xml k @ ?s) = xml_content g d [] ents n (kids0 @ [t]) ?s"
      unfolding f xml_content.simps(2) el(1) using el(2,3,4) t(1) by simp
    then show ?thesis using IH [OF t(2)] Elem by simp
  next
    case (Chars t)
    have doc: "t \<noteq> []" "no_nul t" using Cons.prems(2) Chars by simp_all
    have s: "?s \<noteq> []" "hd ?s = CHR ''<''"
    proof -
      have "?s \<noteq> [] \<and> hd ?s = CHR ''<''"
      proof (cases ks)
        case (Cons u us)
        then have "\<not> is_chars u" using Cons.prems(3) Chars by simp
        from show_hd [OF this] Cons show ?thesis by simp
      qed simp
      then show "?s \<noteq> []" "hd ?s = CHR ''<''" by blast+
    qed
    have e: "show_xml k @ ?s \<noteq> []" "hd (show_xml k @ ?s) \<noteq> CHR ''<''" using escape_hd [OF doc(1)] Chars by simp_all
    have "xml_content f d [] ents n kids0 (show_xml k @ ?s) = xml_content g d [] ents n (kids0 @ [xml_text_node t]) ?s"
      unfolding f xml_content.simps(2) using e take_text [OF doc(1) s] by (simp add: Chars decode_escape)
    moreover have "represents (xml_text_node t) k"
      using doc(2) by (simp add: Chars xml_text_node_def ns_node_new_text_def ns_node_new_def no_nul_cstring)
    ultimately show ?thesis using IH [of "xml_text_node t"] e(1) escape_hd [OF doc(1)] Chars by simp
  next
    case (Remark c)
    have doc: "no_nul c" "CHR ''>'' \<notin> set c" using Cons.prems(2) Remark by simp_all
    have "show_xml k @ ?s = ''<!--'' @ c @ ''-->'' @ ?s" by (simp add: Remark)
    then have "xml_content f d [] ents n kids0 (show_xml k @ ?s) = xml_content g d [] ents n (kids0 @ [xml_comment_node c]) ?s"
      using until_remark [OF doc(2), of ?s] by (simp add: f xml_content.simps(2) xml_leaf_def)
    moreover have "represents (xml_comment_node c) k"
      using doc(1) by (simp add: Remark xml_comment_node_def ns_node_new_comment_def ns_node_new_def no_nul_cstring)
    ultimately show ?thesis using IH [of "xml_comment_node c"] Remark by simp
  qed
qed

lemma show_attrs_length: "length as \<le> length (concat (map show_attr as))"
  by (induction as) (auto simp: show_attr_def)

lemma tag_plain:
  fixes s :: string
  assumes n: "plain_xml_name n" and as: "plain_attrs as" and x: "x = CHR ''>'' \<or> x = CHR ''/''"
  defines "p \<equiv> concat (map show_attr as) @ x # s"
  shows "xml_read_name (n @ p) = Some (n, p)" and "xml_parse_attributes (Suc (length p)) ents [] ns p = Good (as, ns, x # s)"
proof -
  have stop: "\<not> xml_name_char (CHR '' '') False" "\<not> xml_name_char (CHR ''>'') False" "\<not> xml_name_char (CHR ''/'') False"
    by code_simp+
  have "p \<noteq> []" "hd p = CHR '' '' \<or> hd p = x" unfolding p_def by (cases as; simp add: show_attr_def)+
  then obtain c q where c: "p = c # q" "\<not> xml_name_char c False" using x stop by (cases p) auto
  show "xml_read_name (n @ p) = Some (n, p)" unfolding c(1) by (rule read_name_plain [OF n c(2)])
  have "length as < Suc (length p)" using show_attrs_length [of as] by (simp add: p_def)
  with attributes_plain [of "[]" as x "Suc (length p)" ents ns s] as x
  show "xml_parse_attributes (Suc (length p)) ents [] ns p = Good (as, ns, x # s)" by (simp add: p_def)
qed

lemma element_plain:
  assumes n: "plain_xml_name n" and as: "plain_attrs as" and d: "d \<le> XML_MAX_DEPTH" and x: "x = CHR ''>'' \<or> x = CHR ''/''"
    and el: "xml_element_node [] n as = Some el"
  shows "xml_parse_element (Suc g) d [] ents (CHR ''<'' # n @ concat (map show_attr as) @ x # s) =
    (if x = CHR ''/'' then (if s \<noteq> [] \<and> hd s = CHR ''>'' then Good (Node el [], tl s) else Bad)
     else case xml_content g d [] ents n [] s of Fuel \<Rightarrow> Fuel | Bad \<Rightarrow> Bad | Good (kids, p) \<Rightarrow> Good (Node el kids, p))"
proof -
  have "xml_skip_space (x # s) = x # s" using x by (auto simp: xml_skip_space_def xml_is_space_def)
  then show ?thesis
    using x d plain_qname [OF n]
    unfolding xml_parse_element.simps(2) list.sel tag_plain(1) [OF n as x, of s] option.case prod.case
      tag_plain(2) [OF n as x, of s] xml_res.case el Let_def by auto
qed

lemma all_parse_back: "parses_back ents k"
proof (induction k)
  case (Elem n as ks)
  show ?case
    unfolding parses_back_def
  proof (intro allI impI)
    fix d f s n' as' ks'
    assume eq: "Elem n as ks = Elem n' as' ks'" and ok: "doc_ok d (Elem n as ks)" and f: "2 * length (show_xml (Elem n as ks) @ s) \<le> f"
    have n: "plain_xml_name n" and as: "plain_attrs as" and d: "d \<le> XML_MAX_DEPTH" and ks: "no_adjacent ks" "list_all (doc_ok (d + 1)) ks"
      using ok by simp_all
    obtain el where el: "xml_element_node [] n as = Some el" "kind el = NS_NODE_ELEMENT" "node_name el = Some n" "attrs el = map plain_attr as"
      using plain_element_node [OF n as] by blast
    obtain g where g: "f = Suc g" using f by (cases f) auto
    show "\<exists>t. xml_parse_element f d [] ents (show_xml (Elem n as ks) @ s) = Good (t, s) \<and> represents t (Elem n as ks)"
    proof (cases "ks = []")
      case True
      have "show_xml (Elem n as ks) @ s = CHR ''<'' # n @ concat (map show_attr as) @ CHR ''/'' # CHR ''>'' # s" by (simp add: True)
      then show ?thesis using element_plain [OF n as d disjI2 [OF refl] el(1), of g ents "CHR ''>'' # s"] el True g by simp
    next
      case False
      let ?body = "concat (map show_xml ks) @ ''</'' @ n @ ''>'' @ s"
      have shown: "show_xml (Elem n as ks) @ s = CHR ''<'' # n @ concat (map show_attr as) @ CHR ''>'' # ?body" using False by simp
      have "2 * length ?body < g" using f g unfolding shown by simp
      with content_plain [OF _ ks(2,1) n, of ents s g "[]" "[]"] Elem.IH
      obtain kids where kids: "xml_content g d [] ents n [] ?body = Good (kids, s)" "represents_all kids ks" by auto
      have "xml_parse_element f d [] ents (show_xml (Elem n as ks) @ s) = Good (Node el kids, s)"
        unfolding shown g element_plain [OF n as d disjI1 [OF refl] el(1), of g ents ?body] kids(1) by simp
      with el kids(2) show ?thesis by simp
    qed
  qed
qed (simp_all add: parses_back_def)

text \<open>C33. Reading is inverse to writing: a document without namespaces and references, nested at most 256 deep, whose
  names are names and whose texts are neither empty nor adjacent, is parsed back from its text: the tree has its
  elements, each with its attributes in order and their values unescaped, its texts and its comments.\<close>

theorem xml_print_parse:
  assumes "doc_ok 0 (Elem n as ks)"
  shows "\<exists>t. ns_xml_parse (show_xml (Elem n as ks)) = Some (Node (set_flags NS_NODE_XML_DOC ns_node_new_document) [t]) \<and>
    represents t (Elem n as ks)"
proof -
  let ?s = "show_xml (Elem n as ks)"
  have n: "plain_xml_name n" using assms by simp
  obtain c q where c: "?s = CHR ''<'' # c # q" "c \<noteq> CHR ''!''" "c \<noteq> CHR ''?''"
    using name_hd [OF n] by (cases n) auto
  have "xml_skip_space ?s = ?s" unfolding c(1) by (simp add: xml_skip_space_def xml_is_space_def)
  moreover have "\<not> strncaseeq 9 ?s ''<!DOCTYPE''"
  proof
    assume "strncaseeq 9 ?s ''<!DOCTYPE''"
    then have "g_ascii_tolower c = g_ascii_tolower (CHR ''!'')"
      unfolding c(1) strncaseeq_def by (simp add: strdown_Cons eval_nat_numeral)
    moreover have "g_ascii_tolower (CHR ''!'') = CHR ''!''" "ord (CHR ''!'') < 65" by code_simp+
    ultimately show False using c(2) tolower_eq_nonalpha [of "CHR ''!''" c] by simp
  qed
  ultimately have misc: "xml_skip_misc_and_doctype (Suc k) e d ?s = Good (e, d, ?s)" for k e d
    using c by (simp add: xml_skip_misc_and_doctype.simps(2) Let_def)
  obtain t where t: "xml_parse_element (2 * length ?s + 2) 0 [] Map.empty (?s @ []) = Good (t, [])" "represents t (Elem n as ks)"
    using parses_backD [OF all_parse_back refl assms, of "[]" "2 * length ?s + 2"] by auto
  have "xml_skip_misc_and_doctype (Suc (length ([] :: string))) e d [] = Good (e, d, [])" for e d
    by (simp add: xml_skip_misc_and_doctype.simps(2) xml_skip_space_def)
  then have "xml_parse ?s = Good [t]"
    using misc t(1) c(1) by (simp add: xml_parse_def Let_def del: show_xml.simps)
  with t(2) show ?thesis by (simp add: ns_xml_parse_def del: show_xml.simps)
qed

theorem xml_print_parse_witness:
  "\<exists>t. ns_xml_parse (show_xml (Elem ''a'' [(''k'', ''1<2'')] [Chars ''x&y'', Elem ''b'' [] [], Remark '' r ''])) =
      Some (Node (set_flags NS_NODE_XML_DOC ns_node_new_document) [t]) \<and>
     represents t (Elem ''a'' [(''k'', ''1<2'')] [Chars ''x&y'', Elem ''b'' [] [], Remark '' r ''])"
proof (rule xml_print_parse)
  show "doc_ok 0 (Elem ''a'' [(''k'', ''1<2'')] [Chars ''x&y'', Elem ''b'' [] [], Remark '' r ''])" by code_simp
qed

end
