(* ===== verification/NS_Xml_Doc.thy ===== *)
theory NS_Xml_Doc
  imports NS_Xml
begin

text \<open>
  What the XML parser (\<^verbatim>\<open>src/xml.c\<close>, \<^verbatim>\<open>NS_Xml\<close>) guarantees of the document it returns, and what it lets through.
\<close>

section \<open>The shape of a parsed document\<close>

definition attr_key :: "ns_attr \<Rightarrow> string option \<times> string" where
  "attr_key a = (ns_attr_normalize_namespace (namespace_uri a), ns_attr_local_name a)"

definition element_ok :: "ns_node \<Rightarrow> bool" where
  "element_ok n \<longleftrightarrow> kind n = NS_NODE_ELEMENT \<and> distinct (map attr_key (attrs n))"

text \<open>Elements are nested at most 256 deep below the root, no two attributes of an element have the same namespace and
  local name, and everything else is a text or a comment (or processing instruction) without children.\<close>

fun tree_ok :: "nat \<Rightarrow> xml_tree \<Rightarrow> bool" where
  "tree_ok d (Node n ks) =
     (if kind n = NS_NODE_ELEMENT then d \<le> XML_MAX_DEPTH \<and> element_ok n \<and> list_all (tree_ok (d + 1)) ks
      else (kind n = NS_NODE_TEXT \<or> kind n = NS_NODE_COMMENT) \<and> ks = [])"

fun is_element :: "xml_tree \<Rightarrow> bool" where
  "is_element (Node n ks) = (kind n = NS_NODE_ELEMENT)"

text \<open>What stands beside the root element.\<close>

fun misc_ok :: "xml_tree \<Rightarrow> bool" where
  "misc_ok (Node n ks) = ((kind n = NS_NODE_COMMENT \<or> kind n = NS_NODE_DOCTYPE) \<and> ks = [])"

lemma leaf_nodes:
  "kind (xml_node (xml_comment_node b)) = NS_NODE_COMMENT \<and> xml_kids (xml_comment_node b) = []"
  "kind (xml_node (xml_pi_node b)) = NS_NODE_COMMENT \<and> xml_kids (xml_pi_node b) = []"
  "kind (xml_node (xml_cdata_node b)) = NS_NODE_TEXT \<and> xml_kids (xml_cdata_node b) = []"
  "kind (xml_node (xml_text_node b)) = NS_NODE_TEXT \<and> xml_kids (xml_text_node b) = []"
  by (simp_all add: xml_comment_node_def xml_pi_node_def xml_cdata_node_def xml_text_node_def Let_def set_flags_def
      ns_node_new_comment_def ns_node_new_text_def ns_node_new_def)

lemma tree_ok_leaf: "xml_kids t = [] \<Longrightarrow> kind (xml_node t) = NS_NODE_TEXT \<or> kind (xml_node t) = NS_NODE_COMMENT \<Longrightarrow> tree_ok d t"
  by (cases t) auto

lemma leaf_ok: "xml_leaf s = Some (Some (t, r)) \<Longrightarrow> tree_ok d t"
  using leaf_nodes by (auto simp: xml_leaf_def intro!: tree_ok_leaf split: if_splits)

lemma set_first_keys:
  assumes "\<And>a v. attr_key (a\<lparr>attr_value := v\<rparr>) = attr_key a" and "\<And>a. \<not> hit a \<Longrightarrow> attr_key a \<noteq> attr_key new"
    and "distinct (map attr_key as)"
  shows "distinct (map attr_key (set_first hit v new as))"
proof -
  have keys: "set (map attr_key (set_first hit v new as)) \<subseteq> insert (attr_key new) (set (map attr_key as))" for as
    using assms(1) by (induction as) auto
  have old: "\<exists>a \<in> set as. hit a \<Longrightarrow> map attr_key (set_first hit v new as) = map attr_key as" for as
    using assms(1) by (induction as) auto
  have fresh: "\<forall>a \<in> set as. \<not> hit a \<Longrightarrow> set_first hit v new as = as @ [new]" for as by (induction as) auto
  show ?thesis
  proof (cases "\<exists>a \<in> set as. hit a")
    case True
    from old [OF this] assms(3) show ?thesis by simp
  next
    case False
    then have f: "set_first hit v new as = as @ [new]" using fresh by blast
    have "attr_key new \<notin> set (map attr_key as)"
    proof
      assume "attr_key new \<in> set (map attr_key as)"
      then obtain a where "a \<in> set as" "attr_key a = attr_key new" by auto
      with False assms(2) show False by metis
    qed
    with assms(3) show ?thesis unfolding f by simp
  qed
qed

lemma attr_key_value: "attr_key (a\<lparr>attr_value := v\<rparr>) = attr_key a"
  by (cases a) (simp add: attr_key_def ns_attr_local_name_def split: option.split)

lemma set_attr_ns_ok: "element_ok el \<Longrightarrow> element_ok (ns_element_set_attr_ns uri pfx local name val el)"
proof -
  assume el: "element_ok el"
  define ns where "ns = ns_attr_normalize_namespace uri"
  have ns: "ns_attr_normalize_namespace ns = ns" by (simp add: ns_def ns_attr_normalize_namespace_def)
  define nm where "nm = (case name of Some q \<Rightarrow> if q \<noteq> [] then q else local | None \<Rightarrow> local)"
  define new where "new = \<lparr>attr_name = nm, attr_value = (case val of Some v \<Rightarrow> v | None \<Rightarrow> []), namespace_uri = ns,
    attr_prefix = (if pfx = Some [] then None else pfx), local_name = Some local, attr_lower = ns_str_is_ascii_lower nm\<rparr>"
  define v where "v = (case val of Some v \<Rightarrow> v | None \<Rightarrow> [])"
  have new: "namespace_uri new = ns" "local_name new = Some local" by (simp_all add: new_def)
  have same: "attrs (if b then ns_class_set_clear el else el) = attrs el" "kind (if b then ns_class_set_clear el else el) = kind el"
    for b by (simp_all add: ns_class_set_clear_def)
  have attrs: "attrs (ns_element_set_attr_ns uri pfx local name val el) = set_first (\<lambda>a. ns_attr_matches_ns a ns local) v new (attrs el)"
    and kind: "kind (ns_element_set_attr_ns uri pfx local name val el) = NS_NODE_ELEMENT"
    using el unfolding element_ok_def ns_element_set_attr_ns_def Let_def ns_def [symmetric] new_def v_def nm_def
    by (simp_all add: bump_def same)
  have "ns_attr_matches_ns a ns local" if "attr_key a = attr_key new" for a
    using that new ns by (simp add: attr_key_def ns_attr_matches_ns_def ns_attr_namespace_equal_def ns_attr_local_name_def)
  then have "distinct (map attr_key (attrs (ns_element_set_attr_ns uri pfx local name val el)))"
    using el unfolding attrs element_ok_def by (intro set_first_keys) (auto simp: attr_key_value)
  with kind show ?thesis by (simp add: element_ok_def)
qed

lemma set_flags_ok: "element_ok (set_flags f el) = element_ok el"
  by (simp add: element_ok_def set_flags_def)

lemma set_attributes_ok: "xml_set_attributes ns as el = Some el' \<Longrightarrow> element_ok el \<Longrightarrow> element_ok el'"
  by (induction ns as el rule: xml_set_attributes.induct) (auto simp: set_attr_ns_ok split: if_splits option.splits)

lemma apply_namespace_ok:
  "kind el = NS_NODE_ELEMENT \<Longrightarrow> attrs el = [] \<Longrightarrow> element_ok (xml_apply_namespace qname uri el)"
proof -
  assume el: "kind el = NS_NODE_ELEMENT" "attrs el = []"
  have ne: "\<not> strcaseeq ''data-nd-ns-prefix'' ''data-nd-ns-uri''" by code_simp
  show ?thesis
    using el ne by (auto simp: xml_apply_namespace_def Let_def set_flags_ok ns_element_set_attr_def ns_element_set_attr_len_def
        element_ok_def set_flags_def bump_def ns_class_set_clear_def attr_key_def ns_attr_local_name_def split: option.split)
qed

lemma element_node_ok: "xml_element_node ns qname as = Some el \<Longrightarrow> element_ok el"
proof -
  assume "xml_element_node ns qname as = Some el"
  then obtain nm where "xml_set_attributes ns as (xml_apply_namespace qname (xml_lookup_prefix ns (prefix_of qname))
      (set_flags NS_NODE_NOT_PARSER_INSERTED (ns_node_new_element nm))) = Some el"
    by (auto simp: xml_element_node_def Let_def split: if_splits)
  then show ?thesis
    by (rule set_attributes_ok) (simp add: apply_namespace_ok set_flags_def ns_node_new_element_def ns_node_new_def)
qed

lemma list_all_nil: "list_all P []" by simp
lemma list_all_snoc: "list_all P xs \<Longrightarrow> P x \<Longrightarrow> list_all P (xs @ [x])" by simp

lemma parse_ok:
  "(xml_parse_element f d ns ents s = Good (t, r) \<longrightarrow> tree_ok d t \<and> is_element t) \<and>
   (xml_content f d ns ents qname kids s = Good (ks, r) \<longrightarrow> list_all (tree_ok (d + 1)) kids \<longrightarrow> list_all (tree_ok (d + 1)) ks)"
proof (induction f arbitrary: d ns s t r qname kids ks)
  case 0
  then show ?case by (simp add: xml_parse_element.simps xml_content.simps)
next
  case (Suc f)
  have "tree_ok d t \<and> is_element t" if e: "xml_parse_element (Suc f) d ns ents s = Good (t, r)" for d ns s t r
  proof (rule xml_element_step [OF e])
    fix qname p as ns' p' el
    assume d: "d \<le> XML_MAX_DEPTH" and el: "xml_element_node ns' qname as = Some el"
      and c: "t = Node el [] \<and> r = tl (tl p') \<and> tl p' \<noteq> [] \<or>
        (\<exists>kids. xml_content f d ns' ents qname [] (tl p') = Good (kids, r) \<and> t = Node el kids)"
    from c obtain kids where "t = Node el kids" "list_all (tree_ok (d + 1)) kids"
      using Suc.IH by (metis list_all_nil)
    with element_node_ok [OF el] d show ?thesis by (simp add: element_ok_def)
  qed
  moreover have "list_all (tree_ok (d + 1)) ks"
    if "xml_content (Suc f) d ns ents qname kids s = Good (ks, r)" "list_all (tree_ok (d + 1)) kids" for d ns s r qname kids ks
    using that(1)
  proof (cases rule: xml_content_step)
    case close
    with that show ?thesis by simp
  next
    case (leaf t rest)
    with Suc.IH leaf_ok [OF leaf(1), of "d + 1"] that(2) show ?thesis by (metis list_all_snoc)
  next
    case (elem t rest)
    with Suc.IH that(2) have "tree_ok (d + 1) t" by blast
    with Suc.IH elem(2) that(2) show ?thesis by (metis list_all_snoc)
  next
    case (chars tx)
    have "tree_ok (d + 1) (xml_text_node tx)" using leaf_nodes(4) by (intro tree_ok_leaf) simp_all
    with Suc.IH chars(4) that(2) show ?thesis by (metis list_all_snoc)
  qed
  ultimately show ?case by blast
qed


lemma doctype_node_ok: "xml_doctype_node b = Some t \<Longrightarrow> misc_ok t"
  by (auto simp: xml_doctype_node_def Let_def ns_node_new_doctype_def ns_node_new_def split: if_splits option.splits)

lemma misc_leaf: "misc_ok (xml_pi_node b)" "misc_ok (xml_comment_node b)"
  using leaf_nodes [of b] by (cases "xml_pi_node b"; cases "xml_comment_node b"; simp)+

text \<open>The prolog and what follows the root element only add nodes without children.\<close>

lemma misc_appends:
  "xml_skip_misc_and_doctype f ents doc s = Good (ents', doc', r) \<Longrightarrow> \<exists>ms. doc' = doc @ ms \<and> list_all misc_ok ms"
proof (induction f arbitrary: ents doc s)
  case 0
  then show ?case by (simp add: xml_skip_misc_and_doctype.simps)
next
  case (Suc f)
  have more: "\<exists>ms. doc' = doc @ ms \<and> list_all misc_ok ms"
    if "xml_skip_misc_and_doctype f e (doc @ [t]) p = Good (ents', doc', r)" "misc_ok t" for e t p
  proof -
    from Suc.IH [OF that(1)] obtain ms where "doc' = (doc @ [t]) @ ms" "list_all misc_ok ms" by blast
    with that(2) show ?thesis by (intro exI [of _ "t # ms"]) simp
  qed
  have same: "\<exists>ms. doc' = doc @ ms \<and> list_all misc_ok ms"
    if "xml_skip_misc_and_doctype f e doc p = Good (ents', doc', r)" for e p by (rule Suc.IH [OF that])
  have stop: "\<exists>ms. doc' = doc @ ms \<and> list_all misc_ok ms" if "doc = doc'" using that by (intro exI [of _ "[]"]) simp
  from Suc.prems show ?case
    unfolding xml_skip_misc_and_doctype.simps(2) Let_def
    by (auto simp: misc_leaf doctype_node_ok split: if_splits option.splits xml_res.splits prod.splits
        intro: more same stop elim: more)
qed

text \<open>C34. An accepted document is a document node with exactly one root element; beside it stand only comments, processing
  instructions and document types; elements are nested at most 256 deep below the root, no element has two attributes
  with the same namespace and local name, and texts and comments have no children.\<close>

theorem xml_document_shape:
  assumes "ns_xml_parse s = Some t"
  shows "\<exists>before root after. xml_kids t = before @ [root] @ after \<and> kind (xml_node t) = NS_NODE_DOCUMENT \<and>
    list_all misc_ok before \<and> is_element root \<and> tree_ok 0 root \<and> list_all misc_ok after"
proof -
  from assms obtain doc where doc: "xml_parse s = Good doc" and t: "t = Node (set_flags NS_NODE_XML_DOC ns_node_new_document) doc"
    by (auto simp: ns_xml_parse_def split: xml_res.splits)
  from doc obtain f g h e1 d1 p1 e2 s1 root p2 p3 where
    m1: "xml_skip_misc_and_doctype f Map.empty [] s1 = Good (e1, d1, p1)" and
    el: "xml_parse_element g 0 [] e1 p1 = Good (root, p2)" and
    m2: "xml_skip_misc_and_doctype h e1 (d1 @ [root]) p2 = Good (e2, doc, p3)"
    unfolding xml_parse_def Let_def by (auto split: if_splits xml_res.splits prod.splits)
  from misc_appends [OF m1] have "list_all misc_ok d1" by auto
  moreover from misc_appends [OF m2] obtain after where "doc = d1 @ [root] @ after" "list_all misc_ok after" by auto
  moreover have "tree_ok 0 root \<and> is_element root" using parse_ok el by blast
  ultimately show ?thesis
    by (intro exI [of _ d1] exI [of _ root] exI [of _ after])
      (simp add: t set_flags_def ns_node_new_document_def ns_node_new_def)
qed

theorem xml_document_shape_witness:
  "\<exists>t. ns_xml_parse ''<!-- c --><a k='1'><b/>x</a><?p q?>'' = Some t \<and>
    (\<exists>before root after. xml_kids t = before @ [root] @ after \<and> kind (xml_node t) = NS_NODE_DOCUMENT \<and>
      list_all misc_ok before \<and> is_element root \<and> tree_ok 0 root \<and> list_all misc_ok after)"
proof -
  have "ns_xml_parse ''<!-- c --><a k='1'><b/>x</a><?p q?>'' \<noteq> None" by code_simp
  then obtain t where "ns_xml_parse ''<!-- c --><a k='1'><b/>x</a><?p q?>'' = Some t" by blast
  with xml_document_shape [OF this] show ?thesis by blast
qed


section \<open>Entities that double\<close>

text \<open>An entity is replaced by a later declaration of the same name, and the value of a declaration is expanded when
  it is read, with no limit on its length: each redeclaration of \<^verbatim>\<open>a\<close> as \<^verbatim>\<open>&a;&a;\<close> doubles it.\<close>

definition again :: string where "again = ''<!ENTITY a '&a;&a;'>''"
definition subset_decls :: "nat \<Rightarrow> string" where "subset_decls n = ''<!ENTITY a 'x'>'' @ concat (replicate n again)"
definition doubling :: "nat \<Rightarrow> string" where "doubling n = ''<!DOCTYPE r ['' @ subset_decls n @ '']><r>&a;</r>''"

definition xs :: "nat \<Rightarrow> string" where "xs n = replicate n CHR ''x''"

lemma xs_cstring: "cstring (xs n) = xs n"
  by (rule no_nul_cstring) (simp add: xs_def no_nul_def)

lemma subset_letters: "CHR 0x00 \<notin> set (concat (replicate n again))" "CHR ''['' \<notin> set (concat (replicate n again))"
  "CHR '']'' \<notin> set (concat (replicate n again))"
  by (auto simp: again_def)

lemma decode_twice: "ents ''a'' = Some v \<Longrightarrow> xml_decode_text ents ''&a;&a;'' = Some (v @ v)"
proof -
  assume a: "ents ''a'' = Some v"
  have "xml_reference ents ''a'' = Some v" using a by (simp add: xml_reference_def cstring_def)
  then show ?thesis by (simp add: xml_decode_text.simps)
qed

lemma entity_step:
  assumes "pre \<in> {[], ''>''}" and "CHR 0x27 \<notin> set v" and "CHR 0x00 \<notin> set v" and "CHR 0x00 \<notin> set r"
    and "xml_decode_text ents v = Some w"
  shows "xml_parse_internal_entities (Suc f) ents (pre @ ''<!ENTITY a '' @ CHR 0x27 # v @ CHR 0x27 # r) =
    xml_parse_internal_entities f (ents(''a'' \<mapsto> cstring w)) r"
proof -
  define s where "s = ''<!ENTITY a '' @ CHR 0x27 # v @ CHR 0x27 # r"
  have c: "cstring (pre @ s) = pre @ s" using assms(1,3,4) by (intro no_nul_cstring) (auto simp: no_nul_def s_def)
  have t: "strstr (pre @ s) ''<!ENTITY'' = Some s" using assms(1) by (auto simp: s_def g_str_has_prefix_def)
  have p: "xml_skip_space (drop (length (pre @ s) - length s + 8) (pre @ s)) = CHR ''a'' # CHR '' '' # CHR 0x27 # v @ CHR 0x27 # r"
    using assms(1) by (auto simp: s_def xml_skip_space_def xml_is_space_def)
  have n: "xml_read_name (CHR ''a'' # CHR '' '' # CHR 0x27 # v @ CHR 0x27 # r) = Some (''a'', CHR '' '' # CHR 0x27 # v @ CHR 0x27 # r)"
    by (simp add: xml_read_name_def xml_name_char_def g_ascii_isalpha_def g_ascii_isdigit_def g_ascii_isupper_def g_ascii_islower_def)
  have sp: "xml_skip_space (CHR '' '' # CHR 0x27 # v @ CHR 0x27 # r) = CHR 0x27 # v @ CHR 0x27 # r"
    by (simp add: xml_skip_space_def xml_is_space_def)
  have q: "xml_read_quoted_range (CHR 0x27 # v @ CHR 0x27 # r) = Some (v, r)"
  proof -
    have "takeWhile (\<lambda>c. c \<noteq> CHR 0x27) (v @ CHR 0x27 # r) = v" "dropWhile (\<lambda>c. c \<noteq> CHR 0x27) (v @ CHR 0x27 # r) = CHR 0x27 # r"
      using assms(2) by (induction v) auto
    then show ?thesis by (simp add: xml_read_quoted_range_def Let_def)
  qed
  show ?thesis
    unfolding xml_parse_internal_entities.simps(2) s_def [symmetric] c t option.case Let_def p n prod.case sp q assms(5)
    by simp
qed

lemma entities_again:
  "n < f \<Longrightarrow> ents ''a'' = Some (xs k) \<Longrightarrow>
   \<exists>ents'. xml_parse_internal_entities f ents (CHR ''>'' # concat (replicate n again)) = Good ents' \<and> ents' ''a'' = Some (xs (2 ^ n * k))"
proof (induction n arbitrary: f ents k)
  case 0
  then obtain g where "f = Suc g" by (cases f) auto
  with 0 show ?case by (simp add: xml_parse_internal_entities.simps(2) cstring_def g_str_has_prefix_def)
next
  case (Suc n)
  then obtain g where f: "f = Suc g" "n < g" by (cases f) auto
  let ?r = "CHR ''>'' # concat (replicate n again)"
  have ag: "CHR ''>'' # concat (replicate (Suc n) again) = ''>'' @ ''<!ENTITY a '' @ CHR 0x27 # ''&a;&a;'' @ CHR 0x27 # ?r"
    by (simp add: again_def)
  have "xml_parse_internal_entities f ents (CHR ''>'' # concat (replicate (Suc n) again)) =
      xml_parse_internal_entities g (ents(''a'' \<mapsto> cstring (xs k @ xs k))) ?r"
    unfolding ag f(1) by (rule entity_step) (use subset_letters(1) [of n] decode_twice [of ents "xs k"] Suc.prems(2) in auto)
  moreover have "xs k @ xs k = xs (2 * k)" by (simp add: xs_def replicate_add mult_2)
  then have "cstring (xs k @ xs k) = xs (2 * k)" by (simp add: xs_cstring)
  ultimately show ?case
    using Suc.IH [OF f(2), of "ents(''a'' \<mapsto> xs (2 * k))" "2 * k", OF fun_upd_same] by (simp only: power_Suc mult.assoc mult.left_commute [of 2])
qed

lemma entities_subset:
  assumes "length (subset_decls n) < f"
  shows "\<exists>ents. xml_parse_internal_entities f Map.empty (subset_decls n) = Good ents \<and> ents ''a'' = Some (xs (2 ^ n))"
proof -
  obtain g where f: "f = Suc g" using assms by (cases f) auto
  have "length (concat (replicate n again)) = 20 * n" by (induction n) (simp_all add: again_def)
  then have g: "n < g" using assms f by (simp add: subset_decls_def)
  have s: "subset_decls n = [] @ ''<!ENTITY a '' @ CHR 0x27 # ''x'' @ CHR 0x27 # CHR ''>'' # concat (replicate n again)"
    by (simp add: subset_decls_def)
  have "xml_parse_internal_entities f Map.empty (subset_decls n) =
      xml_parse_internal_entities g (Map.empty(''a'' \<mapsto> cstring ''x'')) (CHR ''>'' # concat (replicate n again))"
    unfolding s f by (rule entity_step) (use subset_letters(1) [of n] in \<open>auto simp: xml_decode_text.simps\<close>)
  moreover have "cstring ''x'' = xs 1" by (simp add: xs_def cstring_def)
  ultimately show ?thesis using entities_again [OF g, of "Map.empty(''a'' \<mapsto> xs 1)" 1] by simp
qed


lemma doctype_end_subset: "CHR ''['' \<notin> set b \<Longrightarrow> CHR '']'' \<notin> set b \<Longrightarrow>
    doctype_end 1 (b @ '']>'' @ r) = Some (b @ '']'', CHR ''>'' # r)"
  by (induction b) auto

lemma internal_subset_brackets: "CHR '']'' \<notin> set b \<Longrightarrow> internal_subset ('' r ['' @ b @ '']'') = Some b"
  by (simp add: internal_subset_def)

lemma doctype_r: "xml_doctype_node ('' r ['' @ b) = Some (Node (ns_node_new_doctype ''r'' [] []) [])"
  by (simp add: xml_doctype_node_def Let_def xml_skip_space_def xml_is_space_def cstring_def xml_qname_valid_def
      xml_doctype_tail_parse_def)

text \<open>The root element, with the entity of any value.\<close>

lemma element_r:
  assumes "ents ''a'' = Some v" and "cstring v = v"
  shows "\<exists>el. xml_parse_element 22 0 [] ents ''<r>&a;</r>'' = Good (Node el [xml_text_node v], [])"
proof -
  have n: "xml_read_name ''r>&a;</r>'' = Some (''r'', ''>&a;</r>'')" "xml_qname_valid ''r''" "\<not> g_str_has_prefix ''r'' ''xmlns:''"
    "xml_end_tag ''r'' ''r>'' = Some []" by code_simp+
  have a: "xml_parse_attributes (Suc (length ''>&a;</r>'')) ents [] [] ''>&a;</r>'' = Good ([], [], ''>&a;</r>'')"
    by (simp add: xml_parse_attributes.simps(2) xml_skip_space_def xml_is_space_def)
  have el: "xml_element_node [] ''r'' [] \<noteq> None" by code_simp
  then obtain el where el: "xml_element_node [] ''r'' [] = Some el" by blast
  have r: "xml_reference ents ''a'' = Some v" using assms by (simp add: xml_reference_def cstring_def)
  then have d: "xml_decode_text ents ''&a;'' = Some v" by (simp add: xml_decode_text.simps)
  have last: "xml_content (Suc f) 0 [] ents ''r'' ks ''</r>'' = Good (ks, [])" for f ks
    using n(4) by (simp add: xml_content.simps(2) g_str_has_prefix_def)
  have parts: "takeWhile (\<lambda>c. c \<noteq> CHR ''<'') ''&a;</r>'' = ''&a;''" "dropWhile (\<lambda>c. c \<noteq> CHR ''<'') ''&a;</r>'' = ''</r>''" by simp_all
  have last': "xml_content 20 0 [] ents ''r'' ks ''</r>'' = Good (ks, [])" for ks
    using last [of 19] by (simp only: eval_nat_numeral BitM.simps)
  have "xml_content (Suc 20) 0 [] ents ''r'' [] ''&a;</r>'' = Good ([xml_text_node v], [])"
    unfolding xml_content.simps(2) parts d option.case last' by simp
  then have "xml_parse_element (Suc 21) 0 [] ents ''<r>&a;</r>'' = Good (Node el [xml_text_node v], [])"
    unfolding xml_parse_element.simps(2) using n a el by (simp add: XML_MAX_DEPTH_def Let_def xml_skip_space_def xml_is_space_def)
  then show ?thesis by simp
qed

text \<open>C35. Nothing limits the expansion of entities: for every n a document of 20 n + 40 bytes is accepted and has a text of
  2 to the n bytes.\<close>

theorem xml_entities_double:
  "\<exists>el. ns_xml_parse (doubling n) =
      Some (Node (set_flags NS_NODE_XML_DOC ns_node_new_document)
        [Node (ns_node_new_doctype ''r'' [] []) [], Node el [Node (ns_node_new_text (replicate (2 ^ n) CHR ''x'')) []]]) \<and>
    length (doubling n) = 20 * n + 40"
proof -
  let ?d = "Node (ns_node_new_doctype ''r'' [] []) []"
  have len: "length (doubling n) = 20 * n + 40" "length (subset_decls n) = 20 * n + 15"
    by (induction n) (simp_all add: doubling_def subset_decls_def again_def)
  have sets: "CHR ''['' \<notin> set (subset_decls n)" "CHR '']'' \<notin> set (subset_decls n)"
    using subset_letters [of n] by (auto simp: subset_decls_def)
  obtain ents where e: "xml_parse_internal_entities (length (doubling n)) Map.empty (subset_decls n) = Good ents" "ents ''a'' = Some (xs (2 ^ n))"
    using entities_subset [of n "length (doubling n)"] len by auto
  have dt: "doctype_end 0 ('' r ['' @ subset_decls n @ '']><r>&a;</r>'') = Some ('' r ['' @ subset_decls n @ '']'', ''><r>&a;</r>'')"
    using doctype_end_subset [OF sets, of "''<r>&a;</r>''"] by simp
  have head: "xml_skip_space (doubling n) = doubling n" "2 \<le> length (doubling n)" "hd (doubling n) = CHR ''<''"
    "doubling n ! 1 = CHR ''!''" "\<not> g_str_has_prefix (doubling n) ''<!--''" "strncaseeq 9 (doubling n) ''<!DOCTYPE''"
    "9 \<le> length (doubling n)"
    by (simp_all add: doubling_def xml_skip_space_def xml_is_space_def g_str_has_prefix_def strncaseeq_def strdown_Cons)
  have body: "drop 9 (doubling n) = '' r ['' @ subset_decls n @ '']><r>&a;</r>''" by (simp add: doubling_def)
  have stop: "xml_skip_misc_and_doctype (length (doubling n)) e d ''<r>&a;</r>'' = Good (e, d, ''<r>&a;</r>'')" for e d
  proof -
    have no: "\<not> strncaseeq 9 ''<r>&a;</r>'' ''<!DOCTYPE''" by code_simp
    obtain g where "length (doubling n) = Suc g" using len(1) by (cases "length (doubling n)") auto
    then show ?thesis
      using no by (simp add: xml_skip_misc_and_doctype.simps(2) xml_skip_space_def xml_is_space_def g_str_has_prefix_def)
  qed
  have "xml_skip_misc_and_doctype (Suc (length (doubling n))) Map.empty [] (doubling n) = Good (ents, [?d], ''<r>&a;</r>'')"
    unfolding xml_skip_misc_and_doctype.simps(2) Let_def head(1) body dt option.case prod.case internal_subset_brackets [OF sets(2)]
      e(1) xml_res.case doctype_r list.sel append_Nil stop
    using head by simp
  moreover obtain el where "xml_parse_element 22 0 [] ents ''<r>&a;</r>'' = Good (Node el [xml_text_node (xs (2 ^ n))], [])"
    using element_r [of ents "xs (2 ^ n)"] e(2) xs_cstring by blast
  moreover have "xml_skip_misc_and_doctype (Suc 0) ents d [] = Good (ents, d, [])" for d
    by (simp add: xml_skip_misc_and_doctype.simps(2) xml_skip_space_def)
  moreover have "take 3 (doubling n) \<noteq> [CHR 0xEF, CHR 0xBB, CHR 0xBF]" by (simp add: doubling_def)
  ultimately have "xml_parse (doubling n) = Good [?d, Node el [xml_text_node (xs (2 ^ n))]]"
    by (simp add: xml_parse_def)
  then show ?thesis
    using len(1) by (simp add: ns_xml_parse_def xml_text_node_def xs_cstring flip: xs_def)
qed


section \<open>What the parser lets through\<close>

definition root_attrs :: "string \<Rightarrow> (string \<times> string) list option" where
  "root_attrs s = map_option (\<lambda>t. map (\<lambda>a. (attr_name a, attr_value a)) (attrs (xml_node (hd (xml_kids t))))) (ns_xml_parse s)"

text \<open>The namespace of an element is kept in an attribute of its own, and a document can write that attribute.\<close>

lemma xml_namespace_overwritten:
  "root_attrs ''<p:a xmlns:p='u' data-nd-ns-uri='http://www.w3.org/2000/svg'/>'' =
     Some [(''data-nd-ns-prefix'', ''p''), (''data-nd-ns-uri'', ''http://www.w3.org/2000/svg''), (''xmlns:p'', ''u'')]"
  by code_simp

text \<open>Two attributes whose prefixes stand for the same namespace are one attribute with the later value.\<close>

lemma xml_duplicate_expanded_name:
  "root_attrs ''<r xmlns:a='u' xmlns:b='u' a:x='1' b:x='2'/>'' = Some [(''xmlns:a'', ''u''), (''xmlns:b'', ''u''), (''a:x'', ''2'')]"
  by code_simp

text \<open>Character references are read by \<^verbatim>\<open>g_ascii_strtoull\<close>, with its leading space, sign and second \<^verbatim>\<open>0x\<close>.\<close>

lemma xml_lenient_references:
  "xml_decode_text Map.empty ''&# 65;&#+65;&#x0x41;&#65;'' = Some ''AAAA''"
  by code_simp

lemma xml_doctype_after_root: "ns_xml_parse ''<a/><!DOCTYPE b>'' \<noteq> None" "ns_xml_parse ''<!DOCTYPE a><!DOCTYPE b><a/>'' \<noteq> None"
  by code_simp+

end
