(* ===== verification/NS_Form_Controls.thy ===== *)
theory NS_Form_Controls
  imports NS_Dom_Index NS_Datetime
begin

text \<open>
  Form controls (\<^verbatim>\<open>src/dom.c\<close>): which constraints apply to a control, the numbers that dates and times stand for,
  ranges and steps, e-mail addresses, the value and the state of a control, the options of a select, the form a control
  belongs to, what disables it, and resetting a form.  The state of a control is in attributes of its element:
  \<^verbatim>\<open>data-nd-value\<close> and \<^verbatim>\<open>data-nd-checked\<close> once the user or a script changed it, \<^verbatim>\<open>value\<close> and \<^verbatim>\<open>checked\<close> before that.
  Finding the owner of a control by its id may repair the index of the document, so that it returns the new store.
  The arithmetic on \<^verbatim>\<open>double\<close> is that of the machine and a parameter.
\<close>

abbreviation attr_of :: "dom \<Rightarrow> ref \<Rightarrow> string \<Rightarrow> string option" where
  "attr_of d n name \<equiv> ns_element_get_attr (nodes d n) name"

abbreviation el_named :: "dom \<Rightarrow> ref \<Rightarrow> string \<Rightarrow> bool" where
  "el_named d n tag \<equiv> ns_node_is_element_named (nodes d) n tag"

abbreviation is_element_with :: "dom \<Rightarrow> ref \<Rightarrow> string \<Rightarrow> bool" where
  "is_element_with d n tag \<equiv> kind (nodes d n) = NS_NODE_ELEMENT \<and> node_name (nodes d n) = Some tag"

definition type_among :: "string list \<Rightarrow> string option \<Rightarrow> bool" where
  "type_among names t = (case t of None \<Rightarrow> False | Some t \<Rightarrow> list_ex (\<lambda>n. strcaseeq t n) names)"

section \<open>Types of inputs\<close>

definition ns_parse_int :: "string option \<Rightarrow> int \<Rightarrow> int \<Rightarrow> int \<Rightarrow> int" where
  "ns_parse_int s dflt min_v max_v =
     (case s of
        None \<Rightarrow> dflt
      | Some s \<Rightarrow>
          let (v, number) = g_ascii_strtoll (dropWhile (\<lambda>c. c = CHR '' '' \<or> c = CHR 0x09) s) in
          if \<not> number then dflt
          else let v = (if v < min_v then min_v else v) in if v > max_v then max_v else v)"

datatype ns_form_input_kind =
  NS_FORM_INPUT_OTHER | NS_FORM_INPUT_NUMBER | NS_FORM_INPUT_RANGE | NS_FORM_INPUT_DATE | NS_FORM_INPUT_MONTH
  | NS_FORM_INPUT_WEEK | NS_FORM_INPUT_TIME | NS_FORM_INPUT_DATETIME

definition ns_form_input_kind_of_type :: "string option \<Rightarrow> ns_form_input_kind" where
  "ns_form_input_kind_of_type t =
     (case t of
        None \<Rightarrow> NS_FORM_INPUT_OTHER
      | Some t \<Rightarrow>
          if strcaseeq t ''number'' then NS_FORM_INPUT_NUMBER
          else if strcaseeq t ''range'' then NS_FORM_INPUT_RANGE
          else if strcaseeq t ''date'' then NS_FORM_INPUT_DATE
          else if strcaseeq t ''month'' then NS_FORM_INPUT_MONTH
          else if strcaseeq t ''week'' then NS_FORM_INPUT_WEEK
          else if strcaseeq t ''time'' then NS_FORM_INPUT_TIME
          else if strcaseeq t ''datetime-local'' then NS_FORM_INPUT_DATETIME
          else NS_FORM_INPUT_OTHER)"

definition ns_input_type_has_number_value :: "string option \<Rightarrow> bool" where
  "ns_input_type_has_number_value t \<longleftrightarrow> ns_form_input_kind_of_type t \<noteq> NS_FORM_INPUT_OTHER"

definition ns_input_type_supports_readonly :: "string option \<Rightarrow> bool" where
  "ns_input_type_supports_readonly t \<longleftrightarrow> t = None \<or> t = Some [] \<or>
     type_among [''text'', ''search'', ''url'', ''tel'', ''email'', ''password'', ''date'', ''month'', ''week'', ''time'',
       ''datetime-local'', ''number''] t"

definition ns_input_type_supports_text_constraints :: "string option \<Rightarrow> bool" where
  "ns_input_type_supports_text_constraints t \<longleftrightarrow> t = None \<or> t = Some [] \<or>
     type_among [''text'', ''search'', ''url'', ''tel'', ''email'', ''password''] t"

definition ns_form_control_readonly_bars_validation :: "dom \<Rightarrow> ref \<Rightarrow> bool" where
  "ns_form_control_readonly_bars_validation d c \<longleftrightarrow>
     kind (nodes d c) = NS_NODE_ELEMENT \<and> attr_of d c ''readonly'' \<noteq> None \<and>
     (el_named d c ''textarea'' \<or> (el_named d c ''input'' \<and> ns_input_type_supports_readonly (attr_of d c ''type'')))"

definition ns_form_control_length_limits_apply :: "dom \<Rightarrow> ref \<Rightarrow> bool" where
  "ns_form_control_length_limits_apply d c \<longleftrightarrow>
     el_named d c ''textarea'' \<or> (el_named d c ''input'' \<and> ns_input_type_supports_text_constraints (attr_of d c ''type''))"

definition ns_form_control_supports_required :: "dom \<Rightarrow> ref \<Rightarrow> bool" where
  "ns_form_control_supports_required d c \<longleftrightarrow>
     el_named d c ''textarea'' \<or> el_named d c ''select'' \<or>
     (el_named d c ''input'' \<and>
       (attr_of d c ''type'' = None \<or> attr_of d c ''type'' = Some [] \<or>
        \<not> type_among [''hidden'', ''range'', ''color'', ''submit'', ''image'', ''reset'', ''button''] (attr_of d c ''type'')))"

section \<open>Numbers\<close>

text \<open>What C provides for \<^verbatim>\<open>double\<close>, and \<^verbatim>\<open>g_ascii_strtod\<close>, which is \<^const>\<open>None\<close> where it leaves \<^verbatim>\<open>end\<close> at the start.\<close>

record 'f floating =
  f_int :: "int \<Rightarrow> 'f"
  f_less :: "'f \<Rightarrow> 'f \<Rightarrow> bool"
  f_add :: "'f \<Rightarrow> 'f \<Rightarrow> 'f"
  f_sub :: "'f \<Rightarrow> 'f \<Rightarrow> 'f"
  f_mul :: "'f \<Rightarrow> 'f \<Rightarrow> 'f"
  f_div :: "'f \<Rightarrow> 'f \<Rightarrow> 'f"
  f_abs :: "'f \<Rightarrow> 'f"
  f_round :: "'f \<Rightarrow> 'f"
  f_finite :: "'f \<Rightarrow> bool"
  f_tolerance :: 'f
  f_strtod :: "string \<Rightarrow> ('f \<times> string) option"

definition ns_form_parse_finite_double :: "'f floating \<Rightarrow> string option \<Rightarrow> 'f option" where
  "ns_form_parse_finite_double F v =
     (case v of
        None \<Rightarrow> None
      | Some s \<Rightarrow>
          if s = [] then None
          else case f_strtod F s of
            None \<Rightarrow> None
          | Some (x, e) \<Rightarrow>
              if dropWhile (\<lambda>c. c = CHR '' '' \<or> c = CHR 0x09) e \<noteq> [] \<or> \<not> f_finite F x then None else Some x)"

definition ns_input_value_to_number :: "'f floating \<Rightarrow> string option \<Rightarrow> string option \<Rightarrow> 'f option" where
  "ns_input_value_to_number F t v =
     (case v of
        None \<Rightarrow> None
      | Some s \<Rightarrow>
          if s = [] then None
          else case ns_form_input_kind_of_type t of
            NS_FORM_INPUT_NUMBER \<Rightarrow> ns_form_parse_finite_double F v
          | NS_FORM_INPUT_RANGE \<Rightarrow> ns_form_parse_finite_double F v
          | NS_FORM_INPUT_DATE \<Rightarrow>
              (case ns_dt_rd_date s of
                 Some (y, m, dd, p) \<Rightarrow>
                   if p = [] then Some (f_mul F (f_int F (ns_dt_days_from_civil y m dd)) (f_int F 86400000)) else None
               | None \<Rightarrow> None)
          | NS_FORM_INPUT_MONTH \<Rightarrow>
              (case ns_dt_rd_digits s 4 9 of
                 None \<Rightarrow> None
               | Some (y, p) \<Rightarrow>
                   (case expect CHR ''-'' p of
                      None \<Rightarrow> None
                    | Some p \<Rightarrow>
                        (case ns_dt_rd_digits p 2 2 of
                           None \<Rightarrow> None
                         | Some (m, p) \<Rightarrow>
                             if p \<noteq> [] \<or> y < 1 \<or> y > NS_DT_MAX_YEAR \<or> m < 1 \<or> m > 12 then None
                             else Some (f_int F ((y - 1970) * 12 + (m - 1))))))
          | NS_FORM_INPUT_WEEK \<Rightarrow>
              (case ns_dt_rd_digits s 4 9 of
                 None \<Rightarrow> None
               | Some (y, p) \<Rightarrow>
                   (case Option.bind (expect CHR ''-'' p) (expect CHR ''W'') of
                      None \<Rightarrow> None
                    | Some p \<Rightarrow>
                        (case ns_dt_rd_digits p 2 2 of
                           None \<Rightarrow> None
                         | Some (w, p) \<Rightarrow>
                             if p \<noteq> [] \<or> y < 1 \<or> y > NS_DT_MAX_YEAR \<or> w < 1 \<or> w > ns_dt_iso_weeks_in_year y then None
                             else Some (f_mul F (f_int F (ns_dt_iso_week1_monday y + (w - 1) * 7)) (f_int F 86400000)))))
          | NS_FORM_INPUT_TIME \<Rightarrow>
              (case ns_dt_rd_time s of Some (ms, p) \<Rightarrow> if p = [] then Some (f_int F ms) else None | None \<Rightarrow> None)
          | NS_FORM_INPUT_DATETIME \<Rightarrow>
              (case ns_dt_rd_date s of
                 None \<Rightarrow> None
               | Some (y, m, dd, p) \<Rightarrow>
                   if p = [] \<or> (hd p \<noteq> CHR ''T'' \<and> hd p \<noteq> CHR '' '') then None
                   else (case ns_dt_rd_time (tl p) of
                           None \<Rightarrow> None
                         | Some (ms, p) \<Rightarrow>
                             if p \<noteq> [] then None
                             else Some (f_add F (f_mul F (f_int F (ns_dt_days_from_civil y m dd)) (f_int F 86400000)) (f_int F ms))))
          | NS_FORM_INPUT_OTHER \<Rightarrow> None)"

text \<open>Below the minimum and above the maximum; \<^const>\<open>None\<close> if the value is not a number.\<close>

definition ns_input_value_range_state :: "'f floating \<Rightarrow> dom \<Rightarrow> ref \<Rightarrow> string \<Rightarrow> (bool \<times> bool) option" where
  "ns_input_value_range_state F d input value =
     (if \<not> el_named d input ''input'' then None
      else
        let t = attr_of d input ''type'' in
        case ns_input_value_to_number F t (Some value) of
          None \<Rightarrow> None
        | Some v \<Rightarrow> Some
            (case ns_input_value_to_number F t (attr_of d input ''min'') of Some b \<Rightarrow> f_less F v b | None \<Rightarrow> False,
             case ns_input_value_to_number F t (attr_of d input ''max'') of Some b \<Rightarrow> f_less F b v | None \<Rightarrow> False))"

definition ns_form_step_scale :: "'f floating \<Rightarrow> ns_form_input_kind \<Rightarrow> 'f" where
  "ns_form_step_scale F k = f_int F
     (case k of NS_FORM_INPUT_DATE \<Rightarrow> 86400000 | NS_FORM_INPUT_WEEK \<Rightarrow> 604800000
      | NS_FORM_INPUT_TIME \<Rightarrow> 1000 | NS_FORM_INPUT_DATETIME \<Rightarrow> 1000 | _ \<Rightarrow> 1)"

definition ns_form_default_step :: "'f floating \<Rightarrow> ns_form_input_kind \<Rightarrow> 'f" where
  "ns_form_default_step F k = f_int F (case k of NS_FORM_INPUT_TIME \<Rightarrow> 60 | NS_FORM_INPUT_DATETIME \<Rightarrow> 60 | _ \<Rightarrow> 1)"

definition ns_input_value_step_mismatch :: "'f floating \<Rightarrow> dom \<Rightarrow> ref \<Rightarrow> string \<Rightarrow> bool" where
  "ns_input_value_step_mismatch F d input value =
     (let t = attr_of d input ''type''; k = ns_form_input_kind_of_type t; step_attr = attr_of d input ''step'' in
      if \<not> el_named d input ''input'' \<or> k = NS_FORM_INPUT_OTHER then False
      else if (case step_attr of Some s \<Rightarrow> strcaseeq s ''any'' | None \<Rightarrow> False) then False
      else case ns_input_value_to_number F t (Some value) of
        None \<Rightarrow> False
      | Some v \<Rightarrow>
          let step_value = (case ns_form_parse_finite_double F step_attr of
                Some parsed \<Rightarrow> if f_less F (f_int F 0) parsed then parsed else ns_form_default_step F k
              | None \<Rightarrow> ns_form_default_step F k);
              step = f_mul F step_value (ns_form_step_scale F k)
          in if \<not> f_less F (f_int F 0) step \<or> \<not> f_finite F step then False
             else
               let base = (case ns_input_value_to_number F t (attr_of d input ''min'') of
                     Some parsed \<Rightarrow> parsed | None \<Rightarrow> f_int F (if k = NS_FORM_INPUT_WEEK then - 259200000 else 0));
                   q = f_div F (f_sub F v base) step; nearest = f_round F q;
                   scale = (if f_less F (f_int F 1) (f_abs F q) then f_abs F q else f_int F 1)
               in f_less F (f_mul F (f_tolerance F) scale) (f_abs F (f_sub F q nearest)))"


section \<open>Radio buttons and checkboxes\<close>

definition ns_input_is_checked :: "dom \<Rightarrow> ref \<Rightarrow> bool" where
  "ns_input_is_checked d n =
     (case attr_of d n ''data-nd-checked'' of Some dirty \<Rightarrow> dirty = ''1'' | None \<Rightarrow> attr_of d n ''checked'' \<noteq> None)"

definition ns_input_type_is :: "dom \<Rightarrow> ref \<Rightarrow> string \<Rightarrow> bool" where
  "ns_input_type_is d n want \<longleftrightarrow> el_named d n ''input'' \<and> type_among [want] (attr_of d n ''type'')"

text \<open>The form a control belongs to: by the attribute \<^verbatim>\<open>form\<close>, or the next form around it.\<close>

definition ns_form_owner :: "ref \<Rightarrow> ref option \<Rightarrow> dom \<Rightarrow> dom \<times> ref option" where
  "ns_form_owner control doc d =
     (if kind (nodes d control) \<noteq> NS_NODE_ELEMENT then (d, None)
      else
        let doc = (case doc of Some r \<Rightarrow> r | None \<Rightarrow> ns_node_root d control) in
        case attr_of d control ''form'' of
          Some form_id \<Rightarrow>
            if form_id = [] then (d, None)
            else (case ns_node_find_by_id doc form_id d of
                    (d, Some ow) \<Rightarrow> (d, if el_named d ow ''form'' then Some ow else None)
                  | (d, None) \<Rightarrow> (d, None))
        | None \<Rightarrow> (d, List.find (\<lambda>p. el_named d p ''form'') (tl (ancestors_or_self d control))))"

fun any_child :: "(ref \<Rightarrow> dom \<Rightarrow> dom \<times> bool) \<Rightarrow> ref list \<Rightarrow> dom \<Rightarrow> dom \<times> bool" where
  "any_child f [] d = (d, False)"
| "any_child f (c # cs) d = (case f c d of (d, True) \<Rightarrow> (d, True) | (d, False) \<Rightarrow> any_child f cs d)"

primrec ns_radio_group_has_checked :: "nat \<Rightarrow> ref \<Rightarrow> ref option \<Rightarrow> ref option \<Rightarrow> string \<Rightarrow> dom \<Rightarrow> dom \<times> bool" where
  "ns_radio_group_has_checked 0 scan doc ow name d = (d, False)"
| "ns_radio_group_has_checked (Suc k) scan doc ow name d =
     (let (d, hit) =
        (if ns_input_type_is d scan ''radio'' \<and> (case attr_of d scan ''name'' of Some n \<Rightarrow> n | None \<Rightarrow> []) = name then
           (case ns_form_owner scan doc d of (d, o') \<Rightarrow> (d, o' = ow \<and> ns_input_is_checked d scan))
         else (d, False))
      in if hit then (d, True)
         else any_child (\<lambda>c. ns_radio_group_has_checked k c doc ow name) (children d scan) d)"

definition ns_form_control_value_missing :: "ref \<Rightarrow> string \<Rightarrow> ref option \<Rightarrow> dom \<Rightarrow> dom \<times> bool" where
  "ns_form_control_value_missing control value doc d =
     (if kind (nodes d control) \<noteq> NS_NODE_ELEMENT \<or> node_name (nodes d control) = None then (d, False)
      else if ns_input_type_is d control ''checkbox'' then (d, \<not> ns_input_is_checked d control)
      else if ns_input_type_is d control ''radio'' then
        (let name = (case attr_of d control ''name'' of Some n \<Rightarrow> n | None \<Rightarrow> []);
             root = (case doc of Some r \<Rightarrow> r | None \<Rightarrow> ns_node_root d control)
         in case ns_form_owner control (Some root) d of
              (d, ow) \<Rightarrow> (case ns_radio_group_has_checked 512 root (Some root) ow name d of (d, found) \<Rightarrow> (d, \<not> found)))
      else (d, value = []))"

section \<open>E-mail addresses\<close>

definition ns_email_local_char :: "char \<Rightarrow> bool" where
  "ns_email_local_char c \<longleftrightarrow> g_ascii_isalnum c \<or> c \<in> set ''.!#$%&*+/=?^_{|}~-'' \<or> c = CHR 0x27 \<or> c = CHR 0x60"

definition email_label_ok :: "string \<Rightarrow> bool" where
  "email_label_ok l \<longleftrightarrow> l \<noteq> [] \<and> length l \<le> 63 \<and> g_ascii_isalnum (hd l) \<and> g_ascii_isalnum (last l) \<and>
     list_all (\<lambda>c. g_ascii_isalnum c \<or> c = CHR ''-'') (butlast (tl l))"

function ns_email_domain_valid :: "string \<Rightarrow> bool" where
  "ns_email_domain_valid label =
     (if label = [] then False
      else
        let l = takeWhile (\<lambda>c. c \<noteq> CHR ''.'') label; dot = dropWhile (\<lambda>c. c \<noteq> CHR ''.'') label in
        if \<not> email_label_ok l then False
        else if dot = [] then True
        else ns_email_domain_valid (tl dot))"
  by pat_completeness auto
termination
proof (relation "measure length")
  fix label l dot
  assume "label \<noteq> []" "dot = dropWhile (\<lambda>c. c \<noteq> CHR ''.'') (label :: string)" "dot \<noteq> []"
  then have "length (tl dot) < length dot" "length dot \<le> length label" by (simp_all add: length_dropWhile_le)
  then show "(tl dot, label) \<in> measure length" by simp
qed simp

declare ns_email_domain_valid.simps [simp del]

definition ns_email_token_valid :: "string \<Rightarrow> bool" where
  "ns_email_token_valid token =
     (let trimmed = g_strstrip token in
      case strchr trimmed (CHR ''@'') of
        None \<Rightarrow> False
      | Some at \<Rightarrow>
          at \<noteq> trimmed \<and> tl at \<noteq> [] \<and> CHR ''@'' \<notin> set (tl at) \<and>
          list_all ns_email_local_char (takeWhile (\<lambda>c. c \<noteq> CHR ''@'') trimmed) \<and> ns_email_domain_valid (tl at))"

definition ns_input_email_value_valid :: "dom \<Rightarrow> ref \<Rightarrow> string \<Rightarrow> bool" where
  "ns_input_email_value_valid d input value \<longleftrightarrow>
     value = [] \<or>
     (if attr_of d input ''multiple'' = None then ns_email_token_valid value
      else list_all ns_email_token_valid (split_pieces '','' value))"

section \<open>Values\<close>

definition ns_input_value_is_dirty_mode :: "dom \<Rightarrow> ref \<Rightarrow> bool" where
  "ns_input_value_is_dirty_mode d n \<longleftrightarrow> node_name (nodes d n) = Some ''input'' \<and>
     \<not> type_among [''checkbox'', ''radio'', ''submit'', ''reset'', ''button'', ''image'', ''file'', ''hidden''] (attr_of d n ''type'')"

definition text_child :: "dom \<Rightarrow> ref \<Rightarrow> string option" where
  "text_child d c = (if kind (nodes d c) = NS_NODE_TEXT then node_text (nodes d c) else None)"

definition ns_input_used_value :: "dom \<Rightarrow> ref \<Rightarrow> string option" where
  "ns_input_used_value d n =
     (if node_name (nodes d n) = Some ''textarea'' then
        (if attr_of d n ''data-nd-vdirty'' \<noteq> None then
           Some (case attr_of d n ''data-nd-value'' of Some v \<Rightarrow> v | None \<Rightarrow> [])
         else Some (case first_some (text_child d) (children d n) of Some v \<Rightarrow> v | None \<Rightarrow> []))
      else if ns_input_value_is_dirty_mode d n \<and> attr_of d n ''data-nd-value'' \<noteq> None then attr_of d n ''data-nd-value''
      else attr_of d n ''value'')"

definition ns_textarea_default_value_dup :: "dom \<Rightarrow> ref \<Rightarrow> string" where
  "ns_textarea_default_value_dup d n =
     (if node_name (nodes d n) = Some ''textarea'' then concat (List.map_filter (text_child d) (children d n)) else [])"

fun ns_textarea_normalized_value_dup :: "string \<Rightarrow> string" where
  "ns_textarea_normalized_value_dup [] = []"
| "ns_textarea_normalized_value_dup [c] = [if c = CHR 0x0D then CHR 0x0A else c]"
| "ns_textarea_normalized_value_dup (c # x # s) =
     (if c = CHR 0x0D then CHR 0x0A # ns_textarea_normalized_value_dup (if x = CHR 0x0A then s else x # s)
      else c # ns_textarea_normalized_value_dup (x # s))"

definition ns_textarea_value_dup :: "dom \<Rightarrow> ref \<Rightarrow> string" where
  "ns_textarea_value_dup d n =
     (if attr_of d n ''data-nd-vdirty'' \<noteq> None then
        ns_textarea_normalized_value_dup (case attr_of d n ''data-nd-value'' of Some v \<Rightarrow> v | None \<Rightarrow> [])
      else ns_textarea_normalized_value_dup (ns_textarea_default_value_dup d n))"


section \<open>Options\<close>

definition utf8_skip :: "char \<Rightarrow> nat" where
  "utf8_skip c = (let i = ord c in if i < 0xC0 then 1 else if i < 0xE0 then 2 else if i < 0xF0 then 3 else if i < 0xF8 then 4
     else if i < 0xFC then 5 else if i < 0xFE then 6 else 1)"

text \<open>\<^verbatim>\<open>g_utf8_get_char\<close>; -1 if the bytes are no character.\<close>

definition g_utf8_get_char :: "string \<Rightarrow> int" where
  "g_utf8_get_char s =
     (let c = int (ord (hd s)); n = utf8_skip (hd s); rest = take (n - 1) (tl s) in
      if c < 0x80 then c
      else if c < 0xC0 \<or> c \<ge> 0xFE then - 1
      else if length rest < n - 1 \<or> \<not> list_all (\<lambda>x. ord x div 0x40 = 2) rest then - 1
      else foldl (\<lambda>r x. r * 64 + int (ord x mod 64)) (c mod 2 ^ (7 - n)) rest)"

primrec collect_descendant_text_skip_script :: "nat \<Rightarrow> dom \<Rightarrow> ref \<Rightarrow> string" where
  "collect_descendant_text_skip_script 0 d n = []"
| "collect_descendant_text_skip_script (Suc k) d n =
     concat (map (\<lambda>c.
       if kind (nodes d c) = NS_NODE_TEXT then (case node_text (nodes d c) of Some t \<Rightarrow> t | None \<Rightarrow> [])
       else if kind (nodes d c) = NS_NODE_ELEMENT \<and> type_among [''script''] (node_name (nodes d c)) then []
       else collect_descendant_text_skip_script k d c) (children d n))"

function collapse_ws :: "bool \<Rightarrow> string \<Rightarrow> string" where
  "collapse_ws in_ws p =
     (if p = [] then []
      else
        let nxt = drop (utf8_skip (hd p)) p in
        if g_utf8_get_char p \<in> {0x09, 0x0A, 0x0C, 0x0D, 0x20} then
          (if in_ws then collapse_ws True nxt else CHR '' '' # collapse_ws True nxt)
        else take (utf8_skip (hd p)) p @ collapse_ws False nxt)"
  by pat_completeness auto
termination
proof (relation "measure (length \<circ> snd)")
  have "0 < utf8_skip c" for c by (simp add: utf8_skip_def Let_def)
  then have shrink: "p \<noteq> [] \<Longrightarrow> length (drop (utf8_skip (hd p)) p) < length p" for p by (cases p) simp_all
  fix in_ws :: bool and p nxt :: string
  assume "p \<noteq> []" "nxt = drop (utf8_skip (hd p)) p"
  then show "((True, nxt), in_ws, p) \<in> measure (length \<circ> snd)" "((True, nxt), in_ws, p) \<in> measure (length \<circ> snd)"
    "((False, nxt), in_ws, p) \<in> measure (length \<circ> snd)" using shrink by simp_all
qed simp

declare collapse_ws.simps [simp del]

definition ns_strip_and_collapse_ascii_ws :: "string \<Rightarrow> string" where
  "ns_strip_and_collapse_ascii_ws s =
     (let out = collapse_ws True s in if out \<noteq> [] \<and> last out = CHR '' '' then butlast out else out)"

definition ns_option_text_dup :: "dom \<Rightarrow> ref \<Rightarrow> string" where
  "ns_option_text_dup d opt = ns_strip_and_collapse_ascii_ws (collect_descendant_text_skip_script NS_DOM_MAX_DEPTH d opt)"

definition ns_option_label_dup :: "dom \<Rightarrow> ref \<Rightarrow> string" where
  "ns_option_label_dup d opt = (case attr_of d opt ''label'' of Some l \<Rightarrow> l | None \<Rightarrow> ns_option_text_dup d opt)"

definition ns_option_value_dup :: "dom \<Rightarrow> ref \<Rightarrow> string" where
  "ns_option_value_dup d opt = (case attr_of d opt ''value'' of Some v \<Rightarrow> v | None \<Rightarrow> ns_option_text_dup d opt)"

definition ns_select_first_selected_option :: "dom \<Rightarrow> ref \<Rightarrow> ref option" where
  "ns_select_first_selected_option d sel =
     first_some (\<lambda>c.
       if el_named d c ''optgroup'' then
         List.find (\<lambda>cc. el_named d cc ''option'' \<and> attr_of d cc ''selected'' \<noteq> None) (children d c)
       else if el_named d c ''option'' \<and> attr_of d c ''selected'' \<noteq> None then Some c else None) (children d sel)"

definition ns_select_chosen_option :: "dom \<Rightarrow> ref \<Rightarrow> ref option" where
  "ns_select_chosen_option d sel =
     (case ns_select_first_selected_option d sel of
        Some opt \<Rightarrow> Some opt
      | None \<Rightarrow>
          if attr_of d sel ''data-nd-noselect'' \<noteq> None \<or> attr_of d sel ''multiple'' \<noteq> None then None
          else if (case attr_of d sel ''size'' of
                     Some sz \<Rightarrow> (case g_ascii_strtoll sz of (v, number) \<Rightarrow> number \<and> v > 1) | None \<Rightarrow> False) then None
          else first_some (\<lambda>c.
            if el_named d c ''optgroup'' then
              (if attr_of d c ''disabled'' \<noteq> None then None
               else List.find (\<lambda>cc. el_named d cc ''option'' \<and> attr_of d cc ''disabled'' = None) (children d c))
            else if el_named d c ''option'' \<and> attr_of d c ''disabled'' = None then Some c else None) (children d sel))"

section \<open>Disabled controls\<close>

definition ns_fieldset_first_legend :: "dom \<Rightarrow> ref \<Rightarrow> ref option" where
  "ns_fieldset_first_legend d fieldset = List.find (\<lambda>c. el_named d c ''legend'') (children d fieldset)"

definition ns_element_supports_disabled :: "dom \<Rightarrow> ref \<Rightarrow> bool" where
  "ns_element_supports_disabled d el \<longleftrightarrow>
     list_ex (el_named d el) [''button'', ''fieldset'', ''input'', ''optgroup'', ''option'', ''select'', ''textarea'']"

definition disables :: "dom \<Rightarrow> ref \<Rightarrow> ref \<Rightarrow> bool" where
  "disables d el p \<longleftrightarrow>
     (el_named d el ''option'' \<and> el_named d p ''optgroup'' \<and> attr_of d p ''disabled'' \<noteq> None) \<or>
     (el_named d p ''fieldset'' \<and> attr_of d p ''disabled'' \<noteq> None \<and>
      \<not> (case ns_fieldset_first_legend d p of Some legend \<Rightarrow> ns_node_contains d legend el | None \<Rightarrow> False))"

definition ns_element_effectively_disabled :: "dom \<Rightarrow> ref \<Rightarrow> bool" where
  "ns_element_effectively_disabled d el \<longleftrightarrow>
     ns_element_supports_disabled d el \<and>
     (attr_of d el ''disabled'' \<noteq> None \<or> list_ex (disables d el) (tl (ancestors_or_self d el)))"

section \<open>Resetting a form\<close>

definition remove_attr :: "string \<Rightarrow> ref \<Rightarrow> dom \<Rightarrow> dom" where
  "remove_attr name n d = set_node n (ns_element_remove_attr name) d"

definition ns_form_reset_control :: "ref \<Rightarrow> dom \<Rightarrow> dom" where
  "ns_form_reset_control n d =
     (if kind (nodes d n) \<noteq> NS_NODE_ELEMENT \<or> node_name (nodes d n) = None then d
      else if node_name (nodes d n) = Some ''input'' \<or> node_name (nodes d n) = Some ''textarea'' then
        (let d = (if type_among [''checkbox'', ''radio''] (attr_of d n ''type'') then remove_attr ''data-nd-checked'' n d else d)
         in remove_attr ''data-nd-vdirty'' n (remove_attr ''data-nd-value'' n d))
      else if node_name (nodes d n) = Some ''select'' then
        (let d = remove_attr ''data-nd-noselect'' n d
         in fold (\<lambda>o' d. if el_named d o' ''option'' then remove_attr ''selected'' o' d else d) (children d n) d)
      else d)"

primrec ns_form_reset_walk :: "nat \<Rightarrow> ref \<Rightarrow> ref option \<Rightarrow> ref \<Rightarrow> dom \<Rightarrow> dom" where
  "ns_form_reset_walk 0 form doc scan d = d"
| "ns_form_reset_walk (Suc k) form doc scan d =
     (let d = (if kind (nodes d scan) = NS_NODE_ELEMENT \<and> node_name (nodes d scan) \<noteq> None then
                 (case ns_form_owner scan doc d of
                    (d, ow) \<Rightarrow> if ow = Some form then ns_form_reset_control scan d else d)
               else d)
      in fold (ns_form_reset_walk k form doc) (children d scan) d)"

definition ns_form_reset_owned_controls :: "ref \<Rightarrow> ref option \<Rightarrow> ref option \<Rightarrow> dom \<Rightarrow> dom" where
  "ns_form_reset_owned_controls form root doc d =
     ns_form_reset_walk 512 form (Some (case doc of Some x \<Rightarrow> x | None \<Rightarrow> form)) (case root of Some r \<Rightarrow> r | None \<Rightarrow> form) d"


section \<open>What the owner of a control depends on\<close>

definition index_exact :: "dom \<Rightarrow> ref \<Rightarrow> bool" where
  "index_exact d doc \<longleftrightarrow>
     (\<forall>i. i \<noteq> [] \<longrightarrow> snd (ns_node_find_by_id doc i d) = List.find (has_id (nodes d) i) (visited NS_DOM_MAX_DEPTH d doc))"

text \<open>A document whose lookups by id find what a search finds: one without an index, or with one that was just built.\<close>

definition doc_ok :: "ref \<Rightarrow> dom \<Rightarrow> bool" where
  "doc_ok doc d \<longleftrightarrow> (\<exists>K. dom_tree d K) \<and> doc < n_nodes d \<and> index_exact d doc"

lemma same_dom_tree:
  assumes "same_tree d d'" "dom_tree d K"
  shows "dom_tree d' K"
proof -
  have eqs: "n_nodes d' = n_nodes d" "parent (nodes d' r) = parent (nodes d r)" "first_child (nodes d' r) = first_child (nodes d r)"
    "last_child (nodes d' r) = last_child (nodes d r)" "prev_sibling (nodes d' r) = prev_sibling (nodes d r)"
    "next_sibling (nodes d' r) = next_sibling (nodes d r)" for r
    using assms(1) unfolding same_tree_def by blast+
  show ?thesis using assms(2) unfolding dom_tree_def forest_def siblings_ok_def eqs .
qed

lemma same_sym: "same_tree d d' \<Longrightarrow> same_tree d' d"
  by (simp add: same_tree_def)

lemma no_index_exact: "id_index (nodes d doc) = None \<Longrightarrow> index_exact d doc"
  by (simp add: index_exact_def ns_node_find_by_id_def find_by_id_visited)

lemma built_index_exact:
  assumes "dom_tree d K" "doc < n_nodes d" "parent (nodes d doc) = None"
  shows "index_exact (ns_doc_id_index_build doc d) doc"
proof -
  define d' where "d' = ns_doc_id_index_build doc d"
  have "snd (ns_node_find_by_id doc i d') = List.find (has_id (nodes d') i) (visited NS_DOM_MAX_DEPTH d' doc)" if i: "i \<noteq> []" for i
  proof -
    have same: "same_tree d d'" unfolding d'_def by (rule built_index(3) [OF assms(3) i])
    have "has_id (nodes d') i = has_id (nodes d) i" by (intro ext) (rule same_has_id [OF same])
    moreover have "visited NS_DOM_MAX_DEPTH d' doc = visited NS_DOM_MAX_DEPTH d doc" by (rule same_visited [OF same])
    moreover have "snd (ns_node_find_by_id doc i d') = List.find (has_id (nodes d) i) (visited NS_DOM_MAX_DEPTH d doc)"
      using lookup_after_build [OF assms i] unfolding d'_def by (metis (no_types))
    ultimately show ?thesis by (simp only:)
  qed
  then show ?thesis unfolding index_exact_def d'_def by blast
qed

lemma lookup_result:
  assumes "id_index (nodes d doc) = Some m" "i \<noteq> []"
  shows "snd (ns_node_find_by_id doc i d) =
    (let find = List.find (has_id (nodes d) i) (visited NS_DOM_MAX_DEPTH d doc) in
     case m i of
       Some hit \<Rightarrow> if attr_of d hit ''id'' = Some i \<and> ns_node_contains d doc hit then Some hit else find
     | None \<Rightarrow> if id_counts (nodes d doc) \<noteq> None \<and> the (id_counts (nodes d doc)) i = None then None else find)"
  using assms by (auto simp: ns_node_find_by_id_def Let_def find_by_id_visited split: option.split)

text \<open>A lookup leaves such a document as it is, but for the index.\<close>

lemma find_by_id_exact:
  assumes "doc_ok doc d" and i: "i \<noteq> []" and r: "ns_node_find_by_id doc i d = (d', res)"
  shows "same_tree d d' \<and> doc_ok doc d' \<and> res = List.find (has_id (nodes d) i) (visited NS_DOM_MAX_DEPTH d doc)"
proof -
  obtain K where K: "dom_tree d K" and doc: "doc < n_nodes d" and ex: "index_exact d doc" using assms(1) by (auto simp: doc_ok_def)
  let ?find = "\<lambda>j. List.find (has_id (nodes d) j) (visited NS_DOM_MAX_DEPTH d doc)"
  have res: "res = ?find i" using ex i r unfolding index_exact_def by (metis snd_conv)
  have same: "same_tree d d'" using dom_get_by_id_sound [OF K doc, of i] r by (simp add: Let_def)
  have find': "List.find (has_id (nodes d') j) (visited NS_DOM_MAX_DEPTH d' doc) = ?find j" for j
  proof -
    have "has_id (nodes d') j = has_id (nodes d) j" by (intro ext) (rule same_has_id [OF same])
    then show ?thesis by (simp add: same_visited [OF same])
  qed
  have "snd (ns_node_find_by_id doc j d') = ?find j" if j: "j \<noteq> []" for j
  proof (cases "d' = d")
    case True
    with ex j show ?thesis by (simp add: index_exact_def)
  next
    case False
    obtain m where m: "id_index (nodes d doc) = Some m" using r i False by (auto simp: ns_node_find_by_id_def split: option.splits)
    have d': "d' = set_node doc (\<lambda>x. x\<lparr>id_index := Some (m(i := ?find i))\<rparr>) d"
      using r i False m by (auto simp: ns_node_find_by_id_def Let_def find_by_id_visited split: option.splits if_splits)
    then have m': "id_index (nodes d' doc) = Some (m(i := ?find i))" and c': "id_counts (nodes d' doc) = id_counts (nodes d doc)"
      by (simp_all add: set_node_def)
    show ?thesis
    proof (cases "j = i")
      case True
      have "attr_of d hit ''id'' = Some i \<and> ns_node_contains d doc hit" if "?find i = Some hit" for hit
      proof -
        have hit: "has_id (nodes d) i hit" "hit \<in> set (visited NS_DOM_MAX_DEPTH d doc)"
          using find_by_id_sound [of NS_DOM_MAX_DEPTH d doc i hit] that by (auto simp: find_by_id_visited)
        then have "(doc, hit) \<in> (edges K)\<^sup>*" by (simp add: visited_below [OF K])
        then show ?thesis using hit(1) tree_contains [OF K] below_allocated [OF K doc] by (auto simp: has_id_def)
      qed
      then show ?thesis
        unfolding True lookup_result [OF m' i] Let_def
        by (cases "?find i") (simp_all add: find' same_get_attr [OF same] same_contains [OF same])
    next
      case False
      have "snd (ns_node_find_by_id doc j d') = snd (ns_node_find_by_id doc j d)"
        unfolding lookup_result [OF m' j] lookup_result [OF m j] Let_def c' find'
        using False by (cases "m j") (simp_all add: same_get_attr [OF same] same_contains [OF same])
      with ex j show ?thesis by (simp add: index_exact_def)
    qed
  qed
  then have "index_exact d' doc" by (simp add: index_exact_def find')
  moreover have "dom_tree d' K" by (rule same_dom_tree [OF same K])
  moreover have "doc < n_nodes d'" using doc same by (simp add: same_tree_def)
  ultimately show ?thesis using same res by (auto simp: doc_ok_def)
qed


definition owner_of :: "dom \<Rightarrow> ref \<Rightarrow> ref \<Rightarrow> ref option" where
  "owner_of d doc n =
     (if kind (nodes d n) \<noteq> NS_NODE_ELEMENT then None
      else case attr_of d n ''form'' of
        Some i \<Rightarrow>
          if i = [] then None
          else (case List.find (has_id (nodes d) i) (visited NS_DOM_MAX_DEPTH d doc) of
                  Some ow \<Rightarrow> if el_named d ow ''form'' then Some ow else None
                | None \<Rightarrow> None)
      | None \<Rightarrow> List.find (\<lambda>p. el_named d p ''form'') (tl (ancestors_or_self d n)))"

text \<open>Everything that is asked about controls depends on links, names, texts and attributes only.\<close>

lemma same_view:
  assumes "same_tree d d'"
  shows "kind (nodes d' r) = kind (nodes d r)" "node_name (nodes d' r) = node_name (nodes d r)"
    "node_text (nodes d' r) = node_text (nodes d r)"
    "ns_element_get_attr (nodes d' r) = ns_element_get_attr (nodes d r)"
    "ns_node_is_element_named (nodes d') = ns_node_is_element_named (nodes d)"
    "children d' = children d" "ancestors_or_self d' = ancestors_or_self d" "ns_node_contains d' = ns_node_contains d"
    "visited k d' = visited k d" "has_id (nodes d') = has_id (nodes d)"
proof -
  show "kind (nodes d' r) = kind (nodes d r)" "node_name (nodes d' r) = node_name (nodes d r)"
    "node_text (nodes d' r) = node_text (nodes d r)" using assms unfolding same_tree_def by blast+
  have n: "n_nodes d' = n_nodes d" using assms unfolding same_tree_def by blast
  show "ancestors_or_self d' = ancestors_or_self d"
    by (rule ext) (simp only: ancestors_or_self_def n same_chain [OF assms])
  show "ns_element_get_attr (nodes d' r) = ns_element_get_attr (nodes d r)"
    "ns_node_is_element_named (nodes d') = ns_node_is_element_named (nodes d)"
    "children d' = children d" "ns_node_contains d' = ns_node_contains d" "visited k d' = visited k d"
    "has_id (nodes d') = has_id (nodes d)"
    by (intro ext same_get_attr [OF assms] same_named [OF assms] same_children [OF assms] same_contains [OF assms]
        same_visited [OF assms] same_has_id [OF assms])+
qed

lemma same_owner_of: "same_tree d d' \<Longrightarrow> owner_of d' = owner_of d"
  by (intro ext) (unfold owner_of_def same_view, rule refl)

lemma owner_exact:
  assumes "doc_ok doc d" and "ns_form_owner n (Some doc) d = (d', ow)"
  shows "same_tree d d' \<and> doc_ok doc d' \<and> ow = owner_of d doc n"
proof (cases "kind (nodes d n) = NS_NODE_ELEMENT \<and> (\<exists>i. attr_of d n ''form'' = Some i \<and> i \<noteq> [])")
  case False
  with assms show ?thesis by (auto simp: ns_form_owner_def owner_of_def Let_def split: option.splits if_splits)
next
  case True
  then obtain i where i: "kind (nodes d n) = NS_NODE_ELEMENT" "attr_of d n ''form'' = Some i" "i \<noteq> []" by blast
  obtain d1 r where r: "ns_node_find_by_id doc i d = (d1, r)" by fastforce
  note ex = find_by_id_exact [OF assms(1) i(3) r]
  have same: "same_tree d d1" using ex by blast
  have "ns_form_owner n (Some doc) d = (d1, case r of Some w \<Rightarrow> if el_named d w ''form'' then Some w else None | None \<Rightarrow> None)"
    using i r by (simp add: ns_form_owner_def same_view(5) [OF same] split: option.split)
  moreover have "owner_of d doc n = (case r of Some w \<Rightarrow> if el_named d w ''form'' then Some w else None | None \<Rightarrow> None)"
    using i ex by (simp add: owner_of_def)
  ultimately show ?thesis using assms(2) ex by simp
qed

lemma same_option_text:
  assumes "same_tree d d'"
  shows "collect_descendant_text_skip_script k d' n = collect_descendant_text_skip_script k d n"
proof (induction k arbitrary: n)
  case (Suc k)
  then have ih: "collect_descendant_text_skip_script k d' = collect_descendant_text_skip_script k d" by (rule ext)
  show ?case by (unfold collect_descendant_text_skip_script.simps same_view [OF assms] ih, rule refl)
qed simp

lemma same_controls:
  assumes "same_tree d d'"
  shows "ns_input_is_checked d' = ns_input_is_checked d" "ns_input_type_is d' = ns_input_type_is d"
    "ns_input_used_value d' = ns_input_used_value d" "ns_textarea_value_dup d' = ns_textarea_value_dup d"
    "ns_option_value_dup d' = ns_option_value_dup d" "ns_select_chosen_option d' = ns_select_chosen_option d"
    "ns_element_effectively_disabled d' = ns_element_effectively_disabled d"
    "ns_input_email_value_valid d' = ns_input_email_value_valid d"
    "ns_form_control_readonly_bars_validation d' = ns_form_control_readonly_bars_validation d"
    "ns_form_control_length_limits_apply d' = ns_form_control_length_limits_apply d"
    "ns_form_control_supports_required d' = ns_form_control_supports_required d"
    "ns_input_value_range_state F d' = ns_input_value_range_state F d"
    "ns_input_value_step_mismatch F d' = ns_input_value_step_mismatch F d"
proof -
  note v = same_view [OF assms] same_option_text [OF assms]
  have t: "text_child d' = text_child d" by (intro ext) (unfold text_child_def v, rule refl)
  have dis: "disables d' = disables d" by (intro ext) (unfold disables_def ns_fieldset_first_legend_def v, rule refl)
  show "ns_input_is_checked d' = ns_input_is_checked d" by (intro ext) (unfold ns_input_is_checked_def v, rule refl)
  show "ns_input_type_is d' = ns_input_type_is d" by (intro ext) (unfold ns_input_type_is_def v, rule refl)
  show "ns_input_used_value d' = ns_input_used_value d"
    by (intro ext) (unfold ns_input_used_value_def ns_input_value_is_dirty_mode_def v t, rule refl)
  show "ns_textarea_value_dup d' = ns_textarea_value_dup d"
    by (intro ext) (unfold ns_textarea_value_dup_def ns_textarea_default_value_dup_def v t, rule refl)
  show "ns_option_value_dup d' = ns_option_value_dup d"
    by (intro ext) (unfold ns_option_value_dup_def ns_option_text_dup_def v, rule refl)
  show "ns_select_chosen_option d' = ns_select_chosen_option d"
    by (intro ext) (unfold ns_select_chosen_option_def ns_select_first_selected_option_def v, rule refl)
  show "ns_element_effectively_disabled d' = ns_element_effectively_disabled d"
    by (intro ext) (unfold ns_element_effectively_disabled_def ns_element_supports_disabled_def v dis, rule refl)
  show "ns_input_email_value_valid d' = ns_input_email_value_valid d"
    by (intro ext) (unfold ns_input_email_value_valid_def v, rule refl)
  show "ns_form_control_readonly_bars_validation d' = ns_form_control_readonly_bars_validation d"
    by (intro ext) (unfold ns_form_control_readonly_bars_validation_def v, rule refl)
  show "ns_form_control_length_limits_apply d' = ns_form_control_length_limits_apply d"
    by (intro ext) (unfold ns_form_control_length_limits_apply_def v, rule refl)
  show "ns_form_control_supports_required d' = ns_form_control_supports_required d"
    by (intro ext) (unfold ns_form_control_supports_required_def v, rule refl)
  show "ns_input_value_range_state F d' = ns_input_value_range_state F d"
    by (intro ext) (unfold ns_input_value_range_state_def v, rule refl)
  show "ns_input_value_step_mismatch F d' = ns_input_value_step_mismatch F d"
    by (intro ext) (unfold ns_input_value_step_mismatch_def v, rule refl)
qed


section \<open>Operations that only look\<close>

text \<open>\<^verbatim>\<open>reads doc d f x\<close>: whatever lookups were made in \<^verbatim>\<open>d\<close> before, \<^verbatim>\<open>f\<close> gives \<^verbatim>\<open>x\<close> and changes nothing but the index.\<close>

definition reads :: "ref \<Rightarrow> dom \<Rightarrow> (dom \<Rightarrow> dom \<times> 'a) \<Rightarrow> 'a \<Rightarrow> bool" where
  "reads doc d f x \<longleftrightarrow>
     (\<forall>e. same_tree d e \<and> doc_ok doc e \<longrightarrow> (case f e of (e', y) \<Rightarrow> same_tree d e' \<and> doc_ok doc e' \<and> y = x))"

lemma readsD:
  assumes "reads doc d f x" "same_tree d e" "doc_ok doc e"
  shows "\<exists>e'. f e = (e', x) \<and> same_tree d e' \<and> doc_ok doc e'"
proof -
  have "case f e of (e', y) \<Rightarrow> same_tree d e' \<and> doc_ok doc e' \<and> y = x"
    using assms(1) [unfolded reads_def, rule_format, OF conjI [OF assms(2,3)]] .
  then show ?thesis by (cases "f e") (simp only: prod.case, blast)
qed

lemma readsI:
  assumes "\<And>e. same_tree d e \<Longrightarrow> doc_ok doc e \<Longrightarrow> \<exists>e'. f e = (e', x) \<and> same_tree d e' \<and> doc_ok doc e'"
  shows "reads doc d f x"
  unfolding reads_def
proof (intro allI impI)
  fix e assume "same_tree d e \<and> doc_ok doc e"
  with assms obtain e' where "f e = (e', x)" "same_tree d e'" "doc_ok doc e'" by blast
  then show "case f e of (e', y) \<Rightarrow> same_tree d e' \<and> doc_ok doc e' \<and> y = x" by simp
qed

lemma reads_ret: "reads doc d (\<lambda>e. (e, x)) x"
  by (simp add: reads_def)

lemma reads_owner: "reads doc d (ns_form_owner n (Some doc)) (owner_of d doc n)"
proof (rule readsI)
  fix e assume e: "same_tree d e" "doc_ok doc e"
  obtain e' ow where o: "ns_form_owner n (Some doc) e = (e', ow)" by fastforce
  from owner_exact [OF e(2) o] same_owner_of [OF e(1)] same_tree_trans [OF e(1)]
  show "\<exists>e'. ns_form_owner n (Some doc) e = (e', owner_of d doc n) \<and> same_tree d e' \<and> doc_ok doc e'" using o by auto
qed

lemma reads_any_child: "(\<And>c. c \<in> set cs \<Longrightarrow> reads doc d (f c) (v c)) \<Longrightarrow> reads doc d (any_child f cs) (list_ex v cs)"
proof (induction cs)
  case Nil
  then show ?case using reads_ret [of doc d False] by (simp add: reads_def)
next
  case (Cons c cs)
  have c: "reads doc d (f c) (v c)" and cs: "reads doc d (any_child f cs) (list_ex v cs)" using Cons by simp_all
  show ?case
  proof (rule readsI)
    fix e assume e: "same_tree d e" "doc_ok doc e"
    from readsD [OF c e] obtain e1 where e1: "f c e = (e1, v c)" "same_tree d e1" "doc_ok doc e1" by blast
    from readsD [OF cs e1(2,3)] obtain e2 where e2: "any_child f cs e1 = (e2, list_ex v cs)" "same_tree d e2" "doc_ok doc e2" by blast
    show "\<exists>e'. any_child f (c # cs) e = (e', list_ex v (c # cs)) \<and> same_tree d e' \<and> doc_ok doc e'"
      using e1 e2 by (cases "v c") simp_all
  qed
qed

text \<open>The nodes below a node in document order, down to a depth.\<close>

primrec walk :: "nat \<Rightarrow> dom \<Rightarrow> ref \<Rightarrow> ref list" where
  "walk 0 d n = []"
| "walk (Suc k) d n = n # concat (map (walk k d) (children d n))"

definition radio_hit :: "dom \<Rightarrow> ref \<Rightarrow> ref option \<Rightarrow> string \<Rightarrow> ref \<Rightarrow> bool" where
  "radio_hit d doc ow name m \<longleftrightarrow>
     ns_input_type_is d m ''radio'' \<and> (case attr_of d m ''name'' of Some n \<Rightarrow> n | None \<Rightarrow> []) = name \<and>
     owner_of d doc m = ow \<and> ns_input_is_checked d m"

lemma list_ex_concat_map: "list_ex P (concat (map f xs)) \<longleftrightarrow> list_ex (\<lambda>x. list_ex P (f x)) xs"
  by (induction xs) auto

lemma reads_radio:
  "reads doc d (ns_radio_group_has_checked k scan (Some doc) ow name) (list_ex (radio_hit d doc ow name) (walk k d scan))"
proof (induction k arbitrary: scan)
  case 0
  then show ?case using reads_ret [of doc d False] by (simp add: reads_def)
next
  case (Suc k)
  show ?case
  proof (rule readsI)
    fix e assume e: "same_tree d e" "doc_ok doc e"
    note v = same_view [OF e(1)] same_controls [OF e(1)]
    from readsD [OF reads_owner e] obtain e1 where e1: "ns_form_owner scan (Some doc) e = (e1, owner_of d doc scan)"
      "same_tree d e1" "doc_ok doc e1" by blast
    have kids: "reads doc d (any_child (\<lambda>c. ns_radio_group_has_checked k c (Some doc) ow name) (children d scan))
        (list_ex (\<lambda>c. list_ex (radio_hit d doc ow name) (walk k d c)) (children d scan))"
      by (rule reads_any_child) (rule Suc.IH)
    from readsD [OF kids e] obtain e2 where e2: "any_child (\<lambda>c. ns_radio_group_has_checked k c (Some doc) ow name) (children d scan) e =
        (e2, list_ex (\<lambda>c. list_ex (radio_hit d doc ow name) (walk k d c)) (children d scan))" "same_tree d e2" "doc_ok doc e2" by blast
    from readsD [OF kids e1(2,3)] obtain e3 where e3: "any_child (\<lambda>c. ns_radio_group_has_checked k c (Some doc) ow name) (children d scan) e1 =
        (e3, list_ex (\<lambda>c. list_ex (radio_hit d doc ow name) (walk k d c)) (children d scan))" "same_tree d e3" "doc_ok doc e3" by blast
    define hit where "hit \<longleftrightarrow> ns_input_type_is d scan ''radio'' \<and> (case attr_of d scan ''name'' of Some n \<Rightarrow> n | None \<Rightarrow> []) = name"
    have step: "ns_radio_group_has_checked (Suc k) scan (Some doc) ow name e =
        (if hit then (if owner_of d doc scan = ow \<and> ns_input_is_checked d scan then (e1, True)
                      else any_child (\<lambda>c. ns_radio_group_has_checked k c (Some doc) ow name) (children d scan) e1)
         else any_child (\<lambda>c. ns_radio_group_has_checked k c (Some doc) ow name) (children d scan) e)"
      unfolding ns_radio_group_has_checked.simps(2) v e1(1) hit_def [symmetric]
      by (simp add: same_view(6) [OF e1(2)] same_controls(1) [OF e1(2)] v(6))
    have val: "list_ex (radio_hit d doc ow name) (walk (Suc k) d scan) \<longleftrightarrow>
        (hit \<and> owner_of d doc scan = ow \<and> ns_input_is_checked d scan) \<or>
        list_ex (\<lambda>c. list_ex (radio_hit d doc ow name) (walk k d c)) (children d scan)"
      by (simp add: list_ex_concat_map) (auto simp: radio_hit_def hit_def)
    show "\<exists>e'. ns_radio_group_has_checked (Suc k) scan (Some doc) ow name e =
        (e', list_ex (radio_hit d doc ow name) (walk (Suc k) d scan)) \<and> same_tree d e' \<and> doc_ok doc e'"
      unfolding step val using e1(2,3) e2 e3 by (cases hit; cases "owner_of d doc scan = ow"; cases "ns_input_is_checked d scan") simp_all
  qed
qed

definition value_missing :: "dom \<Rightarrow> ref \<Rightarrow> string \<Rightarrow> ref \<Rightarrow> bool" where
  "value_missing d doc value n \<longleftrightarrow>
     kind (nodes d n) = NS_NODE_ELEMENT \<and> node_name (nodes d n) \<noteq> None \<and>
     (if ns_input_type_is d n ''checkbox'' then \<not> ns_input_is_checked d n
      else if ns_input_type_is d n ''radio'' then
        \<not> list_ex (radio_hit d doc (owner_of d doc n) (case attr_of d n ''name'' of Some n \<Rightarrow> n | None \<Rightarrow> [])) (walk 512 d doc)
      else value = [])"

lemma reads_missing: "reads doc d (ns_form_control_value_missing n value (Some doc)) (value_missing d doc value n)"
proof (rule readsI)
  fix e assume e: "same_tree d e" "doc_ok doc e"
  note v = same_view [OF e(1)] same_controls [OF e(1)]
  from readsD [OF reads_owner e] obtain e1 where e1: "ns_form_owner n (Some doc) e = (e1, owner_of d doc n)"
    "same_tree d e1" "doc_ok doc e1" by blast
  define name where "name = (case attr_of d n ''name'' of Some n \<Rightarrow> n | None \<Rightarrow> [])"
  from readsD [OF reads_radio e1(2,3)] obtain e2 where e2:
    "ns_radio_group_has_checked 512 doc (Some doc) (owner_of d doc n) name e1 =
       (e2, list_ex (radio_hit d doc (owner_of d doc n) name) (walk 512 d doc))"
    "same_tree d e2" "doc_ok doc e2" by blast
  show "\<exists>e'. ns_form_control_value_missing n value (Some doc) e = (e', value_missing d doc value n) \<and> same_tree d e' \<and> doc_ok doc e'"
    using e e1(2,3) e2 unfolding ns_form_control_value_missing_def value_missing_def Let_def name_def [symmetric] v option.case e1(1) prod.case
    by (auto simp del: walk.simps ns_radio_group_has_checked.simps)
qed

end
