(* ===== verification/NS_Forms.thy ===== *)
theory NS_Forms
  imports NS_Form_Controls NS_Url
begin

text \<open>
  Forms (\<^verbatim>\<open>src/forms.c\<close>, with the encoding of \<^verbatim>\<open>src/net.c\<close>): what a form sends, and the first control that keeps
  it from being sent.  Parameters are the conversion to the character set of a form (\<^verbatim>\<open>g_convert\<close>), the regular
  expressions of \<^verbatim>\<open>GRegex\<close>, the URL parser and the arithmetic on \<^verbatim>\<open>double\<close>.  What is sent is shown to be the encoding
  of the data set of the form, in document order, and the encoding to be reversible.
\<close>

definition NS_FORM_MAX_DEPTH :: nat where "NS_FORM_MAX_DEPTH = 512"
definition NS_PATTERN_MAX_LEN :: nat where "NS_PATTERN_MAX_LEN = 2048"
definition NS_PATTERN_VALUE_MAX_LEN :: nat where "NS_PATTERN_VALUE_MAX_LEN = 10000"
definition NS_CUSTOM_VALIDITY_ATTR :: string where "NS_CUSTOM_VALIDITY_ATTR = ''data-nd-custom-validity''"

section \<open>The encoding\<close>

text \<open>The character set a form asks for; \<^const>\<open>None\<close> for UTF-8.\<close>

definition ns_form_set_submission_charset :: "string option \<Rightarrow> string option" where
  "ns_form_set_submission_charset charset =
     (case charset of
        None \<Rightarrow> None
      | Some s \<Rightarrow>
          let first = takeWhile (\<lambda>c. c \<notin> {CHR '' '', CHR '','', CHR 0x09}) (g_strstrip s) in
          if s = [] \<or> first = [] \<or> type_among [''UTF-8'', ''UTF8'', ''UTF-16LE'', ''UTF-16BE''] (Some first) then None
          else Some first)"

definition upper_hex :: "nat \<Rightarrow> char" where
  "upper_hex n = (if n < 10 then char_of (48 + n) else char_of (55 + n))"

definition urlencoded_char :: "char \<Rightarrow> string" where
  "urlencoded_char c =
     (if g_ascii_isalnum c \<or> c = CHR ''*'' \<or> c = CHR ''-'' \<or> c = CHR ''.'' \<or> c = CHR ''_'' then [c]
      else if c = CHR '' '' then ''+''
      else [CHR ''%'', upper_hex (ord c div 16), upper_hex (ord c mod 16)])"

text \<open>The conversion gives \<^const>\<open>None\<close> where it fails; then the text stays as it is.\<close>

type_synonym converter = "string \<Rightarrow> string option"

definition ns_form_urlencoded_append :: "converter option \<Rightarrow> string option \<Rightarrow> string \<Rightarrow> string" where
  "ns_form_urlencoded_append conv s out =
     (case s of
        None \<Rightarrow> out
      | Some s \<Rightarrow>
          let s = (case conv of Some f \<Rightarrow> (case f s of Some t \<Rightarrow> t | None \<Rightarrow> s) | None \<Rightarrow> s)
          in out @ concat (map urlencoded_char s))"

type_synonym query = "string \<times> bool"

definition ns_form_urlencoded_append_pair :: "converter option \<Rightarrow> string \<times> string option \<Rightarrow> query \<Rightarrow> query" where
  "ns_form_urlencoded_append_pair conv nv q =
     (let out = (if snd q then fst q else fst q @ ''&'');
          out = ns_form_urlencoded_append conv (Some (fst nv)) out
      in (ns_form_urlencoded_append conv (snd nv) (out @ ''=''), False))"

section \<open>What a form sends\<close>

definition ns_form_is_submit_trigger :: "dom \<Rightarrow> ref \<Rightarrow> bool" where
  "ns_form_is_submit_trigger d n \<longleftrightarrow>
     (if el_named d n ''button'' then attr_of d n ''type'' = None \<or> type_among [''submit''] (attr_of d n ''type'')
      else el_named d n ''input'' \<and> type_among [''submit'', ''image''] (attr_of d n ''type''))"

definition ns_form_is_reset_trigger :: "dom \<Rightarrow> ref \<Rightarrow> bool" where
  "ns_form_is_reset_trigger d n \<longleftrightarrow>
     type_among [''reset''] (attr_of d n ''type'') \<and> (el_named d n ''button'' \<or> el_named d n ''input'')"

definition form_control_belongs_to :: "ref \<Rightarrow> ref \<Rightarrow> ref option \<Rightarrow> dom \<Rightarrow> dom \<times> bool" where
  "form_control_belongs_to form control doc d = (case ns_form_owner control doc d of (d, ow) \<Rightarrow> (d, ow = Some form))"

definition form_option_disabled :: "dom \<Rightarrow> ref \<Rightarrow> bool" where
  "form_option_disabled d opt \<longleftrightarrow>
     ns_element_effectively_disabled d opt \<or>
     list_ex (\<lambda>p. el_named d p ''optgroup'' \<and> attr_of d p ''disabled'' \<noteq> None)
       (takeWhile (\<lambda>p. \<not> el_named d p ''select'') (tl (ancestors_or_self d opt)))"

definition form_selected_options :: "dom \<Rightarrow> ref \<Rightarrow> ref list" where
  "form_selected_options d sel =
     (if attr_of d sel ''multiple'' = None then
        (case ns_select_chosen_option d sel of
           Some opt \<Rightarrow> if form_option_disabled d opt then [] else [opt] | None \<Rightarrow> [])
      else concat (map (\<lambda>c.
        if el_named d c ''optgroup'' then
          (if ns_element_effectively_disabled d c \<or> attr_of d c ''disabled'' \<noteq> None then []
           else filter (\<lambda>cc. el_named d cc ''option'' \<and> attr_of d cc ''selected'' \<noteq> None \<and> \<not> form_option_disabled d cc) (children d c))
        else if el_named d c ''option'' \<and> attr_of d c ''selected'' \<noteq> None \<and> \<not> form_option_disabled d c then [c]
        else []) (children d sel)))"

text \<open>The names and values of one control that has a name and is not disabled.\<close>

definition input_entries :: "dom \<Rightarrow> ref option \<Rightarrow> string \<Rightarrow> ref \<Rightarrow> (string \<times> string option) list" where
  "input_entries d submitter name n =
     (let t = attr_of d n ''type'' in
      if type_among [''checkbox'', ''radio''] t \<and> \<not> ns_input_is_checked d n then []
      else if type_among [''submit''] t then
        (if submitter = Some n then [(name, Some (case attr_of d n ''value'' of Some v \<Rightarrow> v | None \<Rightarrow> []))] else [])
      else if type_among [''image''] t then
        (if submitter = Some n then [(name @ ''.x'', Some ''0''), (name @ ''.y'', Some ''0'')] else [])
      else if type_among [''button'', ''reset'', ''file''] t then []
      else [(name, case ns_input_used_value d n of
                     Some v \<Rightarrow> Some v
                   | None \<Rightarrow> if type_among [''checkbox'', ''radio''] t then Some ''on'' else None)])"

definition control_entries :: "dom \<Rightarrow> ref option \<Rightarrow> string \<Rightarrow> ref \<Rightarrow> (string \<times> string option) list" where
  "control_entries d submitter name n =
     (if el_named d n ''input'' then input_entries d submitter name n
      else if el_named d n ''textarea'' then [(name, Some (ns_textarea_value_dup d n))]
      else if el_named d n ''select'' then map (\<lambda>opt. (name, Some (ns_option_value_dup d opt))) (form_selected_options d n)
      else if (attr_of d n ''type'' = None \<or> type_among [''submit''] (attr_of d n ''type'')) \<and> submitter = Some n then
        [(name, Some (case attr_of d n ''value'' of Some v \<Rightarrow> v | None \<Rightarrow> []))]
      else [])"

definition is_form_control :: "dom \<Rightarrow> ref \<Rightarrow> bool" where
  "is_form_control d n \<longleftrightarrow> el_named d n ''input'' \<or> el_named d n ''textarea'' \<or> el_named d n ''select'' \<or> el_named d n ''button''"

definition collect_control ::
    "converter option \<Rightarrow> ref \<Rightarrow> ref option \<Rightarrow> ref option \<Rightarrow> ref \<Rightarrow> dom \<times> query \<Rightarrow> dom \<times> query" where
  "collect_control conv form doc submitter n dq =
     (let (d, q) = dq in
      if \<not> is_form_control d n then (d, q)
      else case form_control_belongs_to form n doc d of
        (d, False) \<Rightarrow> (d, q)
      | (d, True) \<Rightarrow>
          (case attr_of d n ''name'' of
             None \<Rightarrow> (d, q)
           | Some name \<Rightarrow>
               if name = [] \<or> ns_element_effectively_disabled d n then (d, q)
               else (d, fold (ns_form_urlencoded_append_pair conv) (control_entries d submitter name n) q)))"

primrec ns_form_collect_inputs_depth ::
    "nat \<Rightarrow> converter option \<Rightarrow> ref \<Rightarrow> ref option \<Rightarrow> ref option \<Rightarrow> ref \<Rightarrow> dom \<times> query \<Rightarrow> dom \<times> query" where
  "ns_form_collect_inputs_depth 0 conv form doc submitter n dq = dq"
| "ns_form_collect_inputs_depth (Suc k) conv form doc submitter n dq =
     (let dq = collect_control conv form doc submitter n dq
      in fold (ns_form_collect_inputs_depth k conv form doc submitter) (children (fst dq) n) dq)"

definition ns_form_collect_inputs ::
    "converter option \<Rightarrow> ref \<Rightarrow> ref \<Rightarrow> ref option \<Rightarrow> ref option \<Rightarrow> dom \<times> query \<Rightarrow> dom \<times> query" where
  "ns_form_collect_inputs conv form n doc submitter dq =
     ns_form_collect_inputs_depth NS_FORM_MAX_DEPTH conv form doc submitter n dq"

section \<open>Validity\<close>

text \<open>\<^verbatim>\<open>GRegex\<close>: whether an expression can be compiled, and then which texts it matches.\<close>

type_synonym regex = "string \<Rightarrow> (string \<Rightarrow> bool) option"

definition ns_value_matches_pattern :: "regex \<Rightarrow> string \<Rightarrow> string option \<Rightarrow> bool" where
  "ns_value_matches_pattern re value pat =
     (case pat of
        None \<Rightarrow> True
      | Some p \<Rightarrow>
          if p = [] then True
          else if length p > NS_PATTERN_MAX_LEN then False
          else if length value > NS_PATTERN_VALUE_MAX_LEN then False
          else case re (''^(?:'' @ p @ '')$'') of None \<Rightarrow> True | Some m \<Rightarrow> m value)"

definition ns_value_matches_type :: "'f floating \<Rightarrow> url_parser \<Rightarrow> dom \<Rightarrow> ref \<Rightarrow> string \<Rightarrow> string option \<Rightarrow> bool" where
  "ns_value_matches_type F lxb d n value t =
     (if value = [] \<or> t = None then True
      else if type_among [''email''] t then ns_input_email_value_valid d n value
      else if type_among [''url''] t then ns_url_is_valid_absolute lxb value
      else if ns_input_type_has_number_value t then ns_input_value_to_number F t (Some value) \<noteq> None
      else True)"

definition ns_value_matches_range :: "'f floating \<Rightarrow> dom \<Rightarrow> ref \<Rightarrow> string \<Rightarrow> bool" where
  "ns_value_matches_range F d n value =
     (case ns_input_value_range_state F d n value of None \<Rightarrow> True | Some (lo, hi) \<Rightarrow> \<not> lo \<and> \<not> hi)"

definition ns_value_matches_step :: "'f floating \<Rightarrow> dom \<Rightarrow> ref \<Rightarrow> string \<Rightarrow> bool" where
  "ns_value_matches_step F d n value \<longleftrightarrow> \<not> ns_input_value_step_mismatch F d n value"

function g_utf8_strlen :: "string \<Rightarrow> nat" where
  "g_utf8_strlen s = (if s = [] then 0 else Suc (g_utf8_strlen (drop (utf8_skip (hd s)) s)))"
  by pat_completeness auto
termination
proof (relation "measure length")
  fix s :: string
  assume "s \<noteq> []"
  moreover have "0 < utf8_skip (hd s)" by (simp add: utf8_skip_def Let_def)
  ultimately show "(drop (utf8_skip (hd s)) s, s) \<in> measure length" by (cases s) simp_all
qed simp

declare g_utf8_strlen.simps [simp del]

definition control_value :: "dom \<Rightarrow> ref \<Rightarrow> string" where
  "control_value d n =
     (if el_named d n ''textarea'' then ns_textarea_value_dup d n
      else if el_named d n ''select'' then
        (case form_selected_options d n of opt # _ \<Rightarrow> ns_option_value_dup d opt | [] \<Rightarrow> [])
      else case ns_input_used_value d n of Some v \<Rightarrow> v | None \<Rightarrow> [])"

definition length_ok :: "dom \<Rightarrow> ref \<Rightarrow> string \<Rightarrow> bool" where
  "length_ok d n value \<longleftrightarrow>
     ns_form_control_length_limits_apply d n \<longrightarrow>
     (let vlen = int (g_utf8_strlen value); minlen = attr_of d n ''minlength''; maxlen = attr_of d n ''maxlength'' in
      \<not> (minlen \<noteq> None \<and> vlen < ns_parse_int minlen 0 0 1000000) \<and>
      \<not> (maxlen \<noteq> None \<and> vlen > ns_parse_int maxlen 0 0 1000000))"

record 'f validity_env =
  env_floating :: "'f floating"
  env_lxb :: url_parser
  env_regex :: regex

text \<open>Whether a control that is to be checked is invalid, given whether its value is missing.\<close>

definition constraints_violated :: "'f validity_env \<Rightarrow> dom \<Rightarrow> ref \<Rightarrow> string \<Rightarrow> bool" where
  "constraints_violated env d n value \<longleftrightarrow>
     (let is_input = el_named d n ''input''; t = (if is_input then attr_of d n ''type'' else None) in
      value \<noteq> [] \<and>
      ((is_input \<and> ns_input_type_supports_text_constraints t \<and>
          \<not> ns_value_matches_pattern (env_regex env) value (attr_of d n ''pattern'')) \<or>
       (is_input \<and> \<not> ns_value_matches_type (env_floating env) (env_lxb env) d n value t) \<or>
       (is_input \<and> \<not> ns_value_matches_range (env_floating env) d n value) \<or>
       (is_input \<and> \<not> ns_value_matches_step (env_floating env) d n value) \<or>
       \<not> length_ok d n value))"

definition control_invalid :: "'f validity_env \<Rightarrow> ref \<Rightarrow> ref option \<Rightarrow> ref \<Rightarrow> dom \<Rightarrow> dom \<times> bool" where
  "control_invalid env form doc n d =
     (if \<not> (el_named d n ''input'' \<or> el_named d n ''textarea'' \<or> el_named d n ''select'') then (d, False)
      else case form_control_belongs_to form n doc d of
        (d, False) \<Rightarrow> (d, False)
      | (d, True) \<Rightarrow>
          if ns_element_effectively_disabled d n \<or> ns_form_control_readonly_bars_validation d n then (d, False)
          else if el_named d n ''input'' \<and>
              type_among [''submit'', ''button'', ''reset'', ''image'', ''hidden''] (attr_of d n ''type'') then (d, False)
          else if (case attr_of d n NS_CUSTOM_VALIDITY_ATTR of Some c \<Rightarrow> c \<noteq> [] | None \<Rightarrow> False) then (d, True)
          else
            let value = control_value d n;
                (d, missing) = (if ns_form_control_supports_required d n \<and> attr_of d n ''required'' \<noteq> None
                                then ns_form_control_value_missing n value doc d else (d, False))
            in (d, missing \<or> constraints_violated env d n value))"

fun first_child_that :: "(ref \<Rightarrow> dom \<Rightarrow> dom \<times> ref option) \<Rightarrow> ref list \<Rightarrow> dom \<Rightarrow> dom \<times> ref option" where
  "first_child_that f [] d = (d, None)"
| "first_child_that f (c # cs) d = (case f c d of (d, Some m) \<Rightarrow> (d, Some m) | (d, None) \<Rightarrow> first_child_that f cs d)"

primrec ns_form_first_invalid_depth ::
    "nat \<Rightarrow> 'f validity_env \<Rightarrow> ref \<Rightarrow> ref option \<Rightarrow> ref \<Rightarrow> dom \<Rightarrow> dom \<times> ref option" where
  "ns_form_first_invalid_depth 0 env form doc n d = (d, None)"
| "ns_form_first_invalid_depth (Suc k) env form doc n d =
     (case control_invalid env form doc n d of
        (d, True) \<Rightarrow> (d, Some n)
      | (d, False) \<Rightarrow> first_child_that (ns_form_first_invalid_depth k env form doc) (children d n) d)"

definition ns_form_first_invalid :: "'f validity_env \<Rightarrow> ref \<Rightarrow> ref \<Rightarrow> ref option \<Rightarrow> dom \<Rightarrow> dom \<times> ref option" where
  "ns_form_first_invalid env form n doc d = ns_form_first_invalid_depth NS_FORM_MAX_DEPTH env form doc n d"

text \<open>The address a form with \<^verbatim>\<open>method=get\<close> leads to (\<^verbatim>\<open>browser_perform_form_navigation\<close> in \<^verbatim>\<open>src/libnorthstar.c\<close>).\<close>

definition form_get_address :: "string \<Rightarrow> string \<Rightarrow> string" where
  "form_get_address abs_action q =
     (let base = takeWhile (\<lambda>c. c \<noteq> CHR ''#'') abs_action in
      if q = [] then base
      else if CHR ''?'' \<in> set base then base @ ''&'' @ q
      else base @ ''?'' @ q)"


section \<open>What is sent\<close>

text \<open>The data set of a form: the entries of its controls in document order.\<close>

definition form_entries :: "dom \<Rightarrow> ref \<Rightarrow> ref \<Rightarrow> ref option \<Rightarrow> ref \<Rightarrow> (string \<times> string option) list" where
  "form_entries d doc form submitter n =
     (if is_form_control d n \<and> owner_of d doc n = Some form \<and> \<not> ns_element_effectively_disabled d n then
        (case attr_of d n ''name'' of
           Some name \<Rightarrow> if name = [] then [] else control_entries d submitter name n | None \<Rightarrow> [])
      else [])"

definition form_data_set :: "dom \<Rightarrow> ref \<Rightarrow> ref \<Rightarrow> ref option \<Rightarrow> ref \<Rightarrow> (string \<times> string option) list" where
  "form_data_set d doc form submitter n = concat (map (form_entries d doc form submitter) (walk NS_FORM_MAX_DEPTH d n))"

lemma same_forms:
  assumes "same_tree d d'"
  shows "form_selected_options d' = form_selected_options d" "control_entries d' = control_entries d"
    "is_form_control d' = is_form_control d" "control_value d' = control_value d"
    "constraints_violated env d' = constraints_violated env d"
proof -
  note v = same_view [OF assms] same_controls [OF assms]
  have o1: "form_option_disabled d' = form_option_disabled d" by (intro ext) (unfold form_option_disabled_def v, rule refl)
  show o2: "form_selected_options d' = form_selected_options d" by (intro ext) (unfold form_selected_options_def v o1, rule refl)
  show "control_entries d' = control_entries d"
    by (intro ext) (unfold control_entries_def input_entries_def v o2, rule refl)
  show "is_form_control d' = is_form_control d" by (intro ext) (unfold is_form_control_def v, rule refl)
  show "control_value d' = control_value d" by (intro ext) (unfold control_value_def v o2, rule refl)
  have l: "length_ok d' = length_ok d" by (intro ext) (unfold length_ok_def v, rule refl)
  show "constraints_violated env d' = constraints_violated env d"
    by (intro ext) (unfold constraints_violated_def ns_value_matches_type_def ns_value_matches_range_def
        ns_value_matches_step_def v l, rule refl)
qed

lemma reads_belongs: "reads doc d (form_control_belongs_to form n (Some doc)) (owner_of d doc n = Some form)"
proof (rule readsI)
  fix e assume e: "same_tree d e" "doc_ok doc e"
  from readsD [OF reads_owner e] obtain e1 where "ns_form_owner n (Some doc) e = (e1, owner_of d doc n)"
    "same_tree d e1" "doc_ok doc e1" by blast
  then show "\<exists>e'. form_control_belongs_to form n (Some doc) e = (e', owner_of d doc n = Some form) \<and> same_tree d e' \<and> doc_ok doc e'"
    by (auto simp: form_control_belongs_to_def)
qed

lemma collect_step:
  assumes e: "same_tree d e" "doc_ok doc e"
  shows "\<exists>e'. collect_control conv form (Some doc) submitter n (e, q) =
      (e', fold (ns_form_urlencoded_append_pair conv) (form_entries d doc form submitter n) q) \<and> same_tree d e' \<and> doc_ok doc e'"
proof -
  from readsD [OF reads_belongs e] obtain e1 where e1: "form_control_belongs_to form n (Some doc) e = (e1, owner_of d doc n = Some form)"
    "same_tree d e1" "doc_ok doc e1" by blast
  note v = same_view [OF e1(2)] same_controls [OF e1(2)] same_forms [OF e1(2)]
  have "collect_control conv form (Some doc) submitter n (e, q) =
      (if is_form_control d n then (e1, fold (ns_form_urlencoded_append_pair conv) (form_entries d doc form submitter n) q) else (e, q))"
    unfolding collect_control_def Let_def prod.case same_forms(3) [OF e(1)] e1(1) v form_entries_def
    by (cases "owner_of d doc n = Some form") (auto split: option.split)
  moreover have "\<not> is_form_control d n \<Longrightarrow> form_entries d doc form submitter n = []" by (simp add: form_entries_def)
  ultimately show ?thesis using e e1(2,3) by (cases "is_form_control d n") auto
qed

lemma collect_walk:
  assumes "same_tree d e" "doc_ok doc e"
  shows "\<exists>e'. ns_form_collect_inputs_depth k conv form (Some doc) submitter n (e, q) =
      (e', fold (ns_form_urlencoded_append_pair conv) (concat (map (form_entries d doc form submitter) (walk k d n))) q) \<and>
    same_tree d e' \<and> doc_ok doc e'"
  using assms
proof (induction k arbitrary: n e q)
  case (Suc k)
  have kids: "\<exists>e'. fold (ns_form_collect_inputs_depth k conv form (Some doc) submitter) cs (e, q) =
      (e', fold (ns_form_urlencoded_append_pair conv) (concat (map (form_entries d doc form submitter) (concat (map (walk k d) cs)))) q) \<and>
      same_tree d e' \<and> doc_ok doc e'" if "same_tree d e" "doc_ok doc e" for cs e q
    using that
  proof (induction cs arbitrary: e q)
    case (Cons c cs)
    from Suc.IH [OF Cons.prems] obtain e1 where e1: "ns_form_collect_inputs_depth k conv form (Some doc) submitter c (e, q) =
      (e1, fold (ns_form_urlencoded_append_pair conv) (concat (map (form_entries d doc form submitter) (walk k d c))) q)"
      "same_tree d e1" "doc_ok doc e1" by blast
    from Cons.IH [OF e1(2,3)] e1(1) show ?case by simp
  qed simp
  from collect_step [OF Suc.prems] obtain e1 where e1: "collect_control conv form (Some doc) submitter n (e, q) =
      (e1, fold (ns_form_urlencoded_append_pair conv) (form_entries d doc form submitter n) q)" "same_tree d e1" "doc_ok doc e1" by blast
  from kids [OF e1(2,3)] show ?case
    unfolding ns_form_collect_inputs_depth.simps walk.simps e1(1) Let_def fst_conv same_view(6) [OF e1(2)] by simp
qed simp

section \<open>Reading the encoding back\<close>

text \<open>The parser of \<^verbatim>\<open>application/x-www-form-urlencoded\<close>, as a server applies it.\<close>

definition hex_value :: "char \<Rightarrow> nat" where
  "hex_value c = (if ord c < 58 then ord c - 48 else ord c - 55)"

fun percent_decode :: "string \<Rightarrow> string" where
  "percent_decode [] = []"
| "percent_decode (c # s) =
     (if c = CHR ''+'' then CHR '' '' # percent_decode s
      else if c = CHR ''%'' then
        (case s of x # y # r \<Rightarrow> char_of (16 * hex_value x + hex_value y) # percent_decode r | _ \<Rightarrow> c # percent_decode s)
      else c # percent_decode s)"

definition decode_entry :: "string \<Rightarrow> string \<times> string" where
  "decode_entry p = (percent_decode (takeWhile (\<lambda>c. c \<noteq> CHR ''='') p), percent_decode (tl (dropWhile (\<lambda>c. c \<noteq> CHR ''='') p)))"

definition decode_form :: "string \<Rightarrow> (string \<times> string) list" where
  "decode_form q = (if q = [] then [] else map decode_entry (split_pieces ''&'' q))"

lemma ord_char_of: "n < 256 \<Longrightarrow> ord (char_of n) = n"
  by (simp add: of_char_of)

lemma ord_bound: "ord c < 256"
  by (metis mod_less_divisor of_char_mod_256 zero_less_numeral)

lemma hex_value_upper:
  assumes "n < 16"
  shows "hex_value (upper_hex n) = n \<and> upper_hex n \<noteq> CHR ''&'' \<and> upper_hex n \<noteq> CHR ''=''"
proof -
  have o': "ord (upper_hex n) = (if n < 10 then 48 + n else 55 + n)" using assms by (simp add: upper_hex_def ord_char_of)
  then have "ord (upper_hex n) \<noteq> ord (CHR ''&'')" "ord (upper_hex n) \<noteq> ord (CHR ''='')" using assms by auto
  then show ?thesis using assms o' by (auto simp: hex_value_def)
qed

lemma urlencoded_plain: "CHR ''&'' \<notin> set (urlencoded_char c)" "CHR ''='' \<notin> set (urlencoded_char c)"
proof -
  have al: "\<not> g_ascii_isalnum (CHR ''&'')" "\<not> g_ascii_isalnum (CHR ''='')" by code_simp+
  have lt: "ord c div 16 < 16" "ord c mod 16 < 16" using ord_bound [of c] by (simp_all add: less_mult_imp_div_less)
  note h = hex_value_upper [OF lt(1)] hex_value_upper [OF lt(2)]
  have "upper_hex (ord c div 16) \<noteq> CHR ''&'' \<and> upper_hex (ord c mod 16) \<noteq> CHR ''&''"
    "upper_hex (ord c div 16) \<noteq> CHR ''='' \<and> upper_hex (ord c mod 16) \<noteq> CHR ''=''" using h by blast+
  then show "CHR ''&'' \<notin> set (urlencoded_char c)" "CHR ''='' \<notin> set (urlencoded_char c)"
    using al by (auto simp: urlencoded_char_def)
qed

lemma decode_char: "percent_decode (urlencoded_char c @ r) = c # percent_decode r"
proof -
  have al: "\<not> g_ascii_isalnum (CHR ''+'')" "\<not> g_ascii_isalnum (CHR ''%'')" by code_simp+
  have lt: "ord c div 16 < 16" "ord c mod 16 < 16" using ord_bound [of c] by (simp_all add: less_mult_imp_div_less)
  have "char_of (16 * hex_value (upper_hex (ord c div 16)) + hex_value (upper_hex (ord c mod 16))) = c"
    using hex_value_upper [OF lt(1)] hex_value_upper [OF lt(2)] by simp
  then show ?thesis using al by (auto simp: urlencoded_char_def)
qed

lemma decode_text: "percent_decode (concat (map urlencoded_char s)) = s"
  by (induction s) (simp_all add: decode_char)


definition encoded_pair :: "string \<times> string option \<Rightarrow> string" where
  "encoded_pair nv = concat (map urlencoded_char (fst nv)) @ CHR ''='' #
     concat (map urlencoded_char (case snd nv of Some v \<Rightarrow> v | None \<Rightarrow> []))"

fun ampersands :: "string list \<Rightarrow> string" where
  "ampersands [] = []"
| "ampersands [p] = p"
| "ampersands (p # q # ps) = p @ CHR ''&'' # ampersands (q # ps)"

lemma append_pair_step:
  "ns_form_urlencoded_append_pair None nv (s, first) = (s @ (if first then [] else ''&'') @ encoded_pair nv, False)"
  by (cases "snd nv") (simp_all add: ns_form_urlencoded_append_pair_def ns_form_urlencoded_append_def encoded_pair_def Let_def)

lemma append_pairs_more:
  "fold (ns_form_urlencoded_append_pair None) ps (s, False) = (s @ concat (map (\<lambda>p. CHR ''&'' # encoded_pair p) ps), False)"
  by (induction ps arbitrary: s) (simp_all add: append_pair_step)

lemma ampersands_Cons: "ampersands (p # ps) = p @ concat (map (\<lambda>q. CHR ''&'' # q) ps)"
  by (induction ps arbitrary: p) simp_all

lemma append_pairs:
  "fold (ns_form_urlencoded_append_pair None) ps ([], True) = (ampersands (map encoded_pair ps), ps = [])"
  by (cases ps) (simp_all add: append_pair_step append_pairs_more ampersands_Cons comp_def)

lemma split_ampersands:
  "ps \<noteq> [] \<Longrightarrow> list_all (\<lambda>p. CHR ''&'' \<notin> set p) ps \<Longrightarrow> split_pieces ''&'' (ampersands ps) = ps"
  by (induction ps rule: ampersands.induct) (simp_all add: split_pieces_append split_pieces_piece)

lemma decode_pair: "decode_entry (encoded_pair nv) = (fst nv, case snd nv of Some v \<Rightarrow> v | None \<Rightarrow> [])"
proof -
  have no: "\<And>c. c \<in> set (concat (map urlencoded_char s)) \<Longrightarrow> c \<noteq> CHR ''=''" for s using urlencoded_plain(2) by auto
  have "takeWhile (\<lambda>c. c \<noteq> CHR ''='') (concat (map urlencoded_char s) @ CHR ''='' # r) = concat (map urlencoded_char s)"
    "dropWhile (\<lambda>c. c \<noteq> CHR ''='') (concat (map urlencoded_char s) @ CHR ''='' # r) = CHR ''='' # r" for s r
    by (subst takeWhile_append2 dropWhile_append2, erule no, simp)+
  then show ?thesis by (simp add: decode_entry_def encoded_pair_def decode_text)
qed

lemma decode_pairs:
  "decode_form (ampersands (map encoded_pair ps)) = map (\<lambda>nv. (fst nv, case snd nv of Some v \<Rightarrow> v | None \<Rightarrow> [])) ps"
proof (cases "ps = []")
  case False
  have "list_all (\<lambda>p. CHR ''&'' \<notin> set p) (map encoded_pair ps)"
    using urlencoded_plain(1) by (auto simp: list_all_iff encoded_pair_def)
  moreover have "ampersands (map encoded_pair ps) \<noteq> []" using False by (cases ps) (simp_all add: ampersands_Cons encoded_pair_def)
  ultimately show ?thesis using False by (simp add: decode_form_def split_ampersands decode_pair)
qed (simp add: decode_form_def)



text \<open>A form with a text field, an unchecked and a checked box, a text area and a button.\<close>

definition el_with :: "string \<Rightarrow> (string \<times> string) list \<Rightarrow> ns_node" where
  "el_with tag as = fold (\<lambda>(n, v). ns_element_set_attr_len n v) as (ns_node_new_element tag)"

definition sample_nodes :: "ns_node list" where
  "sample_nodes = [ns_node_new_document, el_with ''form'' [], el_with ''input'' [(''name'', ''q''), (''value'', ''a b&c'')],
     el_with ''input'' [(''type'', ''checkbox''), (''name'', ''u'')],
     el_with ''input'' [(''type'', ''radio''), (''name'', ''r''), (''checked'', [])],
     el_with ''textarea'' [(''name'', ''t''), (''required'', [])], ns_node_new_text (''x'' @ [CHR 0x0D, CHR 0x0A] @ ''y''),
     el_with ''button'' [(''name'', ''go''), (''value'', ''1'')],
     el_with ''input'' [(''name'', ''e''), (''type'', ''email''), (''value'', ''nobody'')],
     el_with ''input'' [(''type'', ''radio''), (''name'', ''r''), (''checked'', []), (''value'', ''two'')]]"

definition sample_form :: dom where
  "sample_form = foldl link_step (store sample_nodes)
     [Append_child 0 1, Append_child 1 2, Append_child 1 3, Append_child 1 4, Append_child 1 5, Append_child 5 6,
      Append_child 1 7, Append_child 1 8, Append_child 1 9]"

lemma sample_form_ok: "doc_ok 0 sample_form"
proof -
  have "list_all unlinked sample_nodes" by code_simp
  from dom_links.run_refines [OF store_represents [OF this]] have "\<exists>K. dom_tree sample_form K"
    unfolding sample_form_def dom_represents_def by blast
  moreover have "0 < n_nodes sample_form" "id_index (nodes sample_form 0) = None" by code_simp+
  ultimately show ?thesis by (auto simp: doc_ok_def intro: no_index_exact)
qed


section \<open>The first invalid control\<close>

definition invalid :: "'f validity_env \<Rightarrow> dom \<Rightarrow> ref \<Rightarrow> ref \<Rightarrow> ref \<Rightarrow> bool" where
  "invalid env d doc form n \<longleftrightarrow>
     (el_named d n ''input'' \<or> el_named d n ''textarea'' \<or> el_named d n ''select'') \<and> owner_of d doc n = Some form \<and>
     \<not> ns_element_effectively_disabled d n \<and> \<not> ns_form_control_readonly_bars_validation d n \<and>
     \<not> (el_named d n ''input'' \<and> type_among [''submit'', ''button'', ''reset'', ''image'', ''hidden''] (attr_of d n ''type'')) \<and>
     ((case attr_of d n NS_CUSTOM_VALIDITY_ATTR of Some c \<Rightarrow> c \<noteq> [] | None \<Rightarrow> False) \<or>
      (ns_form_control_supports_required d n \<and> attr_of d n ''required'' \<noteq> None \<and> value_missing d doc (control_value d n) n) \<or>
      constraints_violated env d n (control_value d n))"

lemma reads_first_child:
  "(\<And>c. c \<in> set cs \<Longrightarrow> reads doc d (f c) (v c)) \<Longrightarrow> reads doc d (first_child_that f cs) (first_some v cs)"
proof (induction cs)
  case Nil
  then show ?case using reads_ret [of doc d None] by (simp add: reads_def)
next
  case (Cons c cs)
  have c: "reads doc d (f c) (v c)" and cs: "reads doc d (first_child_that f cs) (first_some v cs)" using Cons by simp_all
  show ?case
  proof (rule readsI)
    fix e assume e: "same_tree d e" "doc_ok doc e"
    from readsD [OF c e] obtain e1 where e1: "f c e = (e1, v c)" "same_tree d e1" "doc_ok doc e1" by blast
    from readsD [OF cs e1(2,3)] obtain e2 where e2: "first_child_that f cs e1 = (e2, first_some v cs)" "same_tree d e2" "doc_ok doc e2"
      by blast
    show "\<exists>e'. first_child_that f (c # cs) e = (e', first_some v (c # cs)) \<and> same_tree d e' \<and> doc_ok doc e'"
      using e1 e2 by (cases "v c") simp_all
  qed
qed

lemma reads_invalid: "reads doc d (control_invalid env form (Some doc) n) (invalid env d doc form n)"
proof (rule readsI)
  fix e assume e: "same_tree d e" "doc_ok doc e"
  note ve = same_view [OF e(1)]
  from readsD [OF reads_belongs e] obtain e1 where e1: "form_control_belongs_to form n (Some doc) e = (e1, owner_of d doc n = Some form)"
    "same_tree d e1" "doc_ok doc e1" by blast
  note v1 = same_view [OF e1(2)] same_controls [OF e1(2)] same_forms [OF e1(2)]
  from readsD [OF reads_missing e1(2,3)] obtain e2 where e2:
    "ns_form_control_value_missing n (control_value d n) (Some doc) e1 = (e2, value_missing d doc (control_value d n) n)"
    "same_tree d e2" "doc_ok doc e2" by blast
  note v2 = same_forms(5) [OF e2(2)]
  let ?control = "el_named d n ''input'' \<or> el_named d n ''textarea'' \<or> el_named d n ''select''"
  let ?barred = "ns_element_effectively_disabled d n \<or> ns_form_control_readonly_bars_validation d n"
  let ?skip = "el_named d n ''input'' \<and> type_among [''submit'', ''button'', ''reset'', ''image'', ''hidden''] (attr_of d n ''type'')"
  let ?custom = "case attr_of d n NS_CUSTOM_VALIDITY_ATTR of Some c \<Rightarrow> c \<noteq> [] | None \<Rightarrow> False"
  let ?required = "ns_form_control_supports_required d n \<and> attr_of d n ''required'' \<noteq> None"
  have step: "control_invalid env form (Some doc) n e =
      (if \<not> ?control then (e, False)
       else if owner_of d doc n \<noteq> Some form then (e1, False)
       else if ?barred then (e1, False)
       else if ?skip then (e1, False)
       else if ?custom then (e1, True)
       else if ?required then (e2, value_missing d doc (control_value d n) n \<or> constraints_violated env d n (control_value d n))
       else (e1, constraints_violated env d n (control_value d n)))"
    unfolding control_invalid_def ve(5) e1(1) Let_def
    by (cases "owner_of d doc n = Some form"; cases ?required) (simp_all only: v1 e2(1) v2 prod.case bool.case if_True if_False simp_thms)
  show "\<exists>e'. control_invalid env form (Some doc) n e = (e', invalid env d doc form n) \<and> same_tree d e' \<and> doc_ok doc e'"
    unfolding step invalid_def using e e1(2,3) e2(2,3)
    by (cases "attr_of d n ''required''"; cases "ns_form_control_supports_required d n") simp_all
qed

lemma reads_first_invalid:
  "reads doc d (ns_form_first_invalid_depth k env form (Some doc) n) (List.find (invalid env d doc form) (walk k d n))"
proof (induction k arbitrary: n)
  case 0
  then show ?case using reads_ret [of doc d None] by (simp add: reads_def)
next
  case (Suc k)
  show ?case
  proof (rule readsI)
    fix e assume e: "same_tree d e" "doc_ok doc e"
    from readsD [OF reads_invalid e] obtain e1 where e1: "control_invalid env form (Some doc) n e = (e1, invalid env d doc form n)"
      "same_tree d e1" "doc_ok doc e1" by blast
    have "reads doc d (first_child_that (ns_form_first_invalid_depth k env form (Some doc)) (children d n))
        (first_some (\<lambda>c. List.find (invalid env d doc form) (walk k d c)) (children d n))"
      by (rule reads_first_child) (rule Suc.IH)
    from readsD [OF this e1(2,3)] obtain e2 where e2: "first_child_that (ns_form_first_invalid_depth k env form (Some doc)) (children d n) e1 =
        (e2, first_some (\<lambda>c. List.find (invalid env d doc form) (walk k d c)) (children d n))" "same_tree d e2" "doc_ok doc e2" by blast
    have kids: "first_some (\<lambda>c. List.find (invalid env d doc form) (walk k d c)) (children d n) =
        List.find (invalid env d doc form) (concat (map (walk k d) (children d n)))"
      by (rule first_some_find) simp
    show "\<exists>e'. ns_form_first_invalid_depth (Suc k) env form (Some doc) n e = (e', List.find (invalid env d doc form) (walk (Suc k) d n)) \<and>
        same_tree d e' \<and> doc_ok doc e'"
      using e1 e2 by (cases "invalid env d doc form n") (simp_all add: kids same_view(6) [OF e1(2)])
  qed
qed



text \<open>Integers in place of the numbers of the machine.\<close>

definition int_floating :: "int floating" where
  "int_floating = \<lparr>f_int = id, f_less = (<), f_add = (+), f_sub = (-), f_mul = (*), f_div = (div), f_abs = abs, f_round = id,
     f_finite = (\<lambda>_. True), f_tolerance = 0,
     f_strtod = (\<lambda>s. case g_ascii_strtoll s of (v, number) \<Rightarrow> if number then Some (v, dropWhile g_ascii_isdigit s) else None)\<rparr>"

definition sample_env :: "int validity_env" where
  "sample_env = \<lparr>env_floating = int_floating, env_lxb = (\<lambda>_. None), env_regex = (\<lambda>_. None)\<rparr>"


section \<open>E-mail addresses\<close>

lemma email_domain_labels: "ns_email_domain_valid s \<longleftrightarrow> list_all email_label_ok (split_pieces ''.'' s)"
proof (induction s rule: ns_email_domain_valid.induct)
  case (1 s)
  let ?l = "takeWhile (\<lambda>c. c \<noteq> CHR ''.'') s" and ?r = "dropWhile (\<lambda>c. c \<noteq> CHR ''.'') s"
  have l: "set ?l \<inter> set ''.'' = {}" using set_takeWhileD by fastforce
  show ?case
  proof (cases "s = []")
    case True
    then show ?thesis by (simp add: ns_email_domain_valid.simps email_label_ok_def)
  next
    case s: False
    show ?thesis
    proof (cases "?r = []")
      case True
      then have "?l = s" using takeWhile_dropWhile_id [of "\<lambda>c. c \<noteq> CHR ''.''" s] by simp
      moreover have "split_pieces ''.'' s = [s]" using l unfolding \<open>?l = s\<close> by (rule split_pieces_piece)
      ultimately show ?thesis using s True \<open>?l = s\<close> by (simp only: ns_email_domain_valid.simps [of s] Let_def) simp
    next
      case False
      then have "hd ?r = CHR ''.''" using hd_dropWhile [of "\<lambda>c. c \<noteq> CHR ''.''" s] by simp
      then have "?l @ CHR ''.'' # tl ?r = s" using False takeWhile_dropWhile_id [of "\<lambda>c. c \<noteq> CHR ''.''" s]
        by (metis list.collapse)
      then have "split_pieces ''.'' s = ?l # split_pieces ''.'' (tl ?r)"
        using split_pieces_append [OF l, of "CHR ''.''" "tl ?r"] by simp
      moreover have "email_label_ok ?l \<Longrightarrow> ns_email_domain_valid (tl ?r) \<longleftrightarrow> list_all email_label_ok (split_pieces ''.'' (tl ?r))"
        using 1 s False by simp
      ultimately show ?thesis using s False by (auto simp: ns_email_domain_valid.simps [of s] Let_def)
    qed
  qed
qed

lemma split_covers: "c \<in> set t \<Longrightarrow> c \<notin> set delims \<Longrightarrow> \<exists>p \<in> set (split_pieces delims t). c \<in> set p"
proof (induction t)
  case (Cons x t)
  then show ?case by (cases "split_pieces delims t") (auto split: if_splits)
qed simp

lemma label_chars:
  assumes "email_label_ok l" "c \<in> set l"
  shows "g_ascii_isalnum c \<or> c = CHR ''-''"
proof -
  obtain x t where l: "l = x # t" using assms(1) by (cases l) (auto simp: email_label_ok_def)
  show ?thesis
  proof (cases "t = []")
    case False
    then have "set t = insert (last t) (set (butlast t))" by (metis append_butlast_last_id list.simps(15) rotate1.simps(2) set_rotate1)
    with assms l False show ?thesis by (auto simp: email_label_ok_def list_all_iff)
  qed (use assms l in \<open>auto simp: email_label_ok_def\<close>)
qed

text \<open>An e-mail address is accepted exactly if, without surrounding space, it is a nonempty local part of the
  allowed characters, an at sign, and labels separated by dots, each of 1 to 63 letters, digits and inner hyphens.\<close>

theorem form_email_exact:
  "ns_email_token_valid s =
     (\<exists>l labels. g_strstrip s = l @ CHR ''@'' # labels \<and> l \<noteq> [] \<and> list_all ns_email_local_char l \<and>
        list_all email_label_ok (split_pieces ''.'' labels))"
proof
  have at: "\<not> ns_email_local_char (CHR ''@'')" "\<not> g_ascii_isalnum (CHR ''@'')" by code_simp+
  assume "\<exists>l labels. g_strstrip s = l @ CHR ''@'' # labels \<and> l \<noteq> [] \<and> list_all ns_email_local_char l \<and>
      list_all email_label_ok (split_pieces ''.'' labels)"
  then obtain l labels where p: "g_strstrip s = l @ CHR ''@'' # labels" "l \<noteq> []" "list_all ns_email_local_char l"
    "list_all email_label_ok (split_pieces ''.'' labels)" by blast
  have l: "CHR ''@'' \<notin> set l" using p(3) at(1) by (auto simp: list_all_iff)
  have "CHR ''@'' \<notin> set labels"
  proof
    assume "CHR ''@'' \<in> set labels"
    then obtain q where "q \<in> set (split_pieces ''.'' labels)" "CHR ''@'' \<in> set q" using split_covers [of _ labels "''.''"] by auto
    then show False using p(4) at(2) label_chars [of q "CHR ''@''"] by (auto simp: list_all_iff)
  qed
  moreover have "strchr (l @ CHR ''@'' # labels) (CHR ''@'') = Some (CHR ''@'' # labels)" using l by (induction l) auto
  moreover have "takeWhile (\<lambda>c. c \<noteq> CHR ''@'') (l @ CHR ''@'' # labels) = l" using l by (induction l) auto
  moreover have "labels \<noteq> []" using p(4) by (auto simp: email_label_ok_def)
  ultimately show "ns_email_token_valid s"
    using p by (simp add: ns_email_token_valid_def email_domain_labels)
next
  assume "ns_email_token_valid s"
  then obtain at where a: "strchr (g_strstrip s) (CHR ''@'') = Some at" "at \<noteq> g_strstrip s"
    "list_all ns_email_local_char (takeWhile (\<lambda>c. c \<noteq> CHR ''@'') (g_strstrip s))" "ns_email_domain_valid (tl at)"
    by (auto simp: ns_email_token_valid_def Let_def split: option.splits)
  obtain l u where lu: "g_strstrip s = l @ at" "CHR ''@'' \<notin> set l" "at = CHR ''@'' # u" using strchr_Some [OF a(1)] by blast
  have "takeWhile (\<lambda>c. c \<noteq> CHR ''@'') (l @ at) = l" using lu(2) unfolding lu(3) by (induction l) auto
  then show "\<exists>l labels. g_strstrip s = l @ CHR ''@'' # labels \<and> l \<noteq> [] \<and> list_all ns_email_local_char l \<and>
      list_all email_label_ok (split_pieces ''.'' labels)"
    using a lu by (intro exI [of _ l] exI [of _ u]) (auto simp: email_domain_labels)
qed

section \<open>Where forms differ from the standard\<close>

definition sample_select :: dom where
  "sample_select = foldl link_step (store [ns_node_new_document, el_with ''form'' [], el_with ''select'' [(''name'', ''s'')],
       el_with ''option'' [(''value'', ''a'')], el_with ''option'' [(''value'', ''b''), (''selected'', [])],
       el_with ''option'' [(''value'', ''c''), (''selected'', [])]])
     [Append_child 0 1, Append_child 1 2, Append_child 2 3, Append_child 2 4, Append_child 2 5]"

text \<open>Of two selected options the first is chosen, and after a reset the first option, not the default.\<close>

lemma form_select_choice:
  "ns_select_chosen_option sample_select 2 = Some 4"
  "ns_select_chosen_option (ns_form_reset_owned_controls 1 None (Some 0) sample_select) 2 = Some 3"
  by code_simp+

text \<open>Two radio buttons of a group that the document checks are both sent, and a line break is sent as one byte.\<close>

lemma form_radio_and_newline:
  "filter (\<lambda>e. fst e \<in> {''r'', ''t''}) (form_data_set sample_form 0 1 None 0) =
     [(''r'', Some ''on''), (''t'', Some (''x'' @ [CHR 0x0A] @ ''y'')), (''r'', Some ''two'')]"
  by code_simp

lemma form_get_keeps_query: "form_get_address ''http://h/s?a=1#f'' ''b=2'' = ''http://h/s?a=1&b=2''"
  by code_simp

end
