(* ===== verification/NS_Nodectl.thy ===== *)
theory NS_Nodectl
  imports NS_Interfaces
begin

text \<open>
  Control of the Freenet node (\<^verbatim>\<open>src/nodectl.c\<close>, the build for POSIX): the browser sends a command to its supervisor
  over a socket, the supervisor runs the node's own service command and answers with a status and the output, escaped
  to one line.  The socket may cut the bytes anywhere; both ends keep a buffer.  The programs that are run are a
  parameter, a function of the commands run so far; what was run and what was written are kept in the state.
\<close>

definition NS_NODECTL_LINE_MAX :: nat where "NS_NODECTL_LINE_MAX = 8192"
definition NS_NODECTL_OUTPUT_MAX :: nat where "NS_NODECTL_OUTPUT_MAX = 4096"

definition ns_nodectl_verbs :: "string list" where
  "ns_nodectl_verbs = [''ping'', ''status'', ''start'', ''stop'', ''restart'']"

definition ns_nodectl_verb_is_known :: "string \<Rightarrow> bool" where
  "ns_nodectl_verb_is_known verb \<longleftrightarrow> list_ex (\<lambda>v. verb = v) ns_nodectl_verbs"

abbreviation backslash :: char where "backslash \<equiv> CHR 0x5C"
abbreviation newline :: char where "newline \<equiv> CHR 0x0A"

fun ns_nodectl_escape :: "string \<Rightarrow> string" where
  "ns_nodectl_escape [] = []"
| "ns_nodectl_escape (c # s) =
     (if c = backslash then [backslash, backslash] @ ns_nodectl_escape s
      else if c = newline then [backslash, CHR ''n''] @ ns_nodectl_escape s
      else if c = CHR 0x0D then ns_nodectl_escape s
      else c # ns_nodectl_escape s)"

fun ns_nodectl_unescape :: "string \<Rightarrow> string" where
  "ns_nodectl_unescape [] = []"
| "ns_nodectl_unescape [c] = (if c = backslash then [] else [c])"
| "ns_nodectl_unescape (c # x # s) =
     (if c = backslash then (if x = CHR ''n'' then newline else x) # ns_nodectl_unescape s
      else c # ns_nodectl_unescape (x # s))"

section \<open>Running the node's command\<close>

text \<open>How a program ended: it could not be started, or it exited or was killed, with what it wrote.\<close>

datatype spawn_result =
  Spawn_error "string option"
| Spawned (exit_status: "int option") (proc_out: string) (proc_err: string)

record nodectl_env =
  in_path :: "string option"
  home_dir :: "string option"
  build_filename :: "string list \<Rightarrow> string"
  executable :: "string \<Rightarrow> bool"
  spawn :: "string list list \<Rightarrow> string list \<Rightarrow> spawn_result"

record supervisor =
  ran :: "string list list"
  buf :: string
  sent :: string

definition ns_nodectl_find_node :: "nodectl_env \<Rightarrow> string option" where
  "ns_nodectl_find_node env =
     (case in_path env of
        Some found \<Rightarrow> Some found
      | None \<Rightarrow>
          (case home_dir env of
             None \<Rightarrow> None
           | Some home \<Rightarrow>
               List.find (executable env)
                 [build_filename env [home, ''.local'', ''bin'', ''freenet''], ''/usr/local/bin/freenet'',
                  ''/opt/homebrew/bin/freenet'', ''/usr/bin/freenet'']))"

text \<open>The text is limited, ends at a NUL byte and is stripped.\<close>

definition command_text :: "spawn_result \<Rightarrow> string" where
  "command_text r = g_strstrip (cstring (take NS_NODECTL_OUTPUT_MAX (proc_out r @ proc_err r)))"

definition ns_nodectl_run_node_command :: "nodectl_env \<Rightarrow> string \<Rightarrow> supervisor \<Rightarrow> supervisor \<times> bool \<times> string" where
  "ns_nodectl_run_node_command env verb s =
     (case ns_nodectl_find_node env of
        None \<Rightarrow> (s, False, ''No freenet binary found. Install a node with curl -fsSL https://freenet.org/install.sh | sh'')
      | Some node \<Rightarrow>
          let argv = [node, ''service'', verb]; s' = s\<lparr>ran := ran s @ [argv]\<rparr> in
          case spawn env (ran s) argv of
            Spawn_error e \<Rightarrow>
              (s', False, ''Could not run '' @ node @ '' service '' @ verb @ '': '' @
                 (case e of Some m \<Rightarrow> m | None \<Rightarrow> ''unknown error''))
          | Spawned status o1 e1 \<Rightarrow>
              let ok = (status = Some 0); t = command_text (Spawned status o1 e1) in
              (s', ok, if t \<noteq> [] then t else if ok then ''done'' else ''the command reported no output''))"

section \<open>The supervisor\<close>

definition reply_line :: "string \<Rightarrow> string \<Rightarrow> string" where
  "reply_line status txt = status @ '' '' @ ns_nodectl_escape txt @ [newline]"

definition ns_nodectl_reply :: "string \<Rightarrow> string \<Rightarrow> supervisor \<Rightarrow> supervisor" where
  "ns_nodectl_reply status txt s = s\<lparr>sent := sent s @ reply_line status txt\<rparr>"

definition ns_nodectl_dispatch :: "nodectl_env \<Rightarrow> string \<Rightarrow> supervisor \<Rightarrow> supervisor" where
  "ns_nodectl_dispatch env verb s =
     (if \<not> ns_nodectl_verb_is_known verb then ns_nodectl_reply ''err'' ''unknown command'' s
      else if verb = ''ping'' then ns_nodectl_reply ''ok'' ''ready'' s
      else case ns_nodectl_run_node_command env verb s of
        (s, ok, txt) \<Rightarrow> ns_nodectl_reply (if ok then ''ok'' else ''err'') txt s)"

text \<open>The lines of the buffer; \<^verbatim>\<open>strchr\<close> sees the buffer only up to a NUL byte.\<close>

function serve_lines :: "nodectl_env \<Rightarrow> supervisor \<Rightarrow> supervisor" where
  "serve_lines env s =
     (if newline \<notin> set (cstring (buf s)) then s
      else
        let verb = g_strstrip (takeWhile (\<lambda>c. c \<noteq> newline) (buf s));
            s' = s\<lparr>buf := tl (dropWhile (\<lambda>c. c \<noteq> newline) (buf s))\<rparr>
        in serve_lines env (if verb \<noteq> [] then ns_nodectl_dispatch env verb s' else s'))"
  by pat_completeness auto

lemma run_command_buf: "buf (fst (ns_nodectl_run_node_command env verb s)) = buf s"
  by (simp add: ns_nodectl_run_node_command_def Let_def split: option.split spawn_result.split)

lemma dispatch_buf: "buf (ns_nodectl_dispatch env verb s) = buf s"
  using run_command_buf [of env verb s]
  by (cases "ns_nodectl_run_node_command env verb s") (simp add: ns_nodectl_dispatch_def ns_nodectl_reply_def)

termination serve_lines
proof (relation "measure (length \<circ> buf \<circ> snd)")
  fix env verb and s s' :: supervisor
  assume "\<not> newline \<notin> set (cstring (buf s))" "s' = s\<lparr>buf := tl (dropWhile (\<lambda>c. c \<noteq> newline) (buf s))\<rparr>"
  moreover have "set (cstring (buf s)) \<subseteq> set (buf s)" by (auto simp: cstring_def dest: set_takeWhileD)
  ultimately have "dropWhile (\<lambda>c. c \<noteq> newline) (buf s) \<noteq> []" by auto
  then have "length (tl (dropWhile (\<lambda>c. c \<noteq> newline) (buf s))) < length (buf s)"
    using length_dropWhile_le [of "\<lambda>c. c \<noteq> newline" "buf s"] by (cases "dropWhile (\<lambda>c. c \<noteq> newline) (buf s)") auto
  then show "((env, if verb \<noteq> [] then ns_nodectl_dispatch env verb s' else s'), env, s) \<in> measure (length \<circ> buf \<circ> snd)"
    using \<open>s' = _\<close> by (simp add: dispatch_buf)
qed simp

declare serve_lines.simps [simp del]

text \<open>One read of the socket that gave some bytes.\<close>

definition ns_nodectl_supervisor_readable :: "nodectl_env \<Rightarrow> string \<Rightarrow> supervisor \<Rightarrow> supervisor" where
  "ns_nodectl_supervisor_readable env got s =
     (let s = serve_lines env (s\<lparr>buf := buf s @ got\<rparr>)
      in if length (buf s) > NS_NODECTL_LINE_MAX then s\<lparr>buf := []\<rparr> else s)"

definition ns_nodectl_supervisor_stop_node :: "nodectl_env \<Rightarrow> supervisor \<Rightarrow> supervisor" where
  "ns_nodectl_supervisor_stop_node env s = fst (ns_nodectl_run_node_command env ''stop'' s)"

section \<open>The browser\<close>

text \<open>The descriptor in the environment, if it is a number, in range, and open; -1 otherwise.\<close>

definition ns_nodectl_client_fd :: "string option \<Rightarrow> (int \<Rightarrow> bool) \<Rightarrow> int" where
  "ns_nodectl_client_fd value is_open =
     (case value of
        None \<Rightarrow> - 1
      | Some v \<Rightarrow>
          let (parsed, number) = g_ascii_strtoll v;
              t = dropWhile (\<lambda>c. g_ascii_isspace c \<or> c = CHR 0x0B) v;
              u = (if t \<noteq> [] \<and> (hd t = CHR ''-'' \<or> hd t = CHR ''+'') then tl t else t)
          in if number \<and> dropWhile g_ascii_isdigit u = [] \<and> parsed > 2 \<and> parsed < 1024 \<and> is_open parsed then parsed else - 1)"

definition ns_nodectl_available :: "int \<Rightarrow> bool" where
  "ns_nodectl_available fd \<longleftrightarrow> fd \<ge> 0"

text \<open>Reading the reply, in the pieces the socket gives; \<^const>\<open>None\<close> if it is too long or the socket or the time runs out.\<close>

fun read_reply :: "string \<Rightarrow> string list \<Rightarrow> string option" where
  "read_reply reply chunks =
     (if newline \<in> set (cstring reply) then Some reply
      else case chunks of
        [] \<Rightarrow> None
      | got # rest \<Rightarrow> if length (reply @ got) > NS_NODECTL_LINE_MAX then None else read_reply (reply @ got) rest)"

declare read_reply.simps [simp del]

definition parse_reply :: "string \<Rightarrow> bool \<times> string" where
  "parse_reply reply =
     (let line = takeWhile (\<lambda>c. c \<noteq> newline) reply;
          succeeded = g_str_has_prefix line ''ok'';
          txt = dropWhile (\<lambda>c. c = CHR '' '') (drop (if succeeded then 2 else 3) line)
      in (succeeded, ns_nodectl_unescape txt))"

text \<open>What the browser writes (nothing if it does not ask), and the result given the pieces it reads.\<close>

definition ns_nodectl_run :: "int \<Rightarrow> string \<Rightarrow> string list \<Rightarrow> string option \<times> bool \<times> string" where
  "ns_nodectl_run fd verb chunks =
     (if fd < 0 then
        (None, False, ''Northstar is not running under its supervisor, so it cannot start or stop the node.'')
      else if \<not> ns_nodectl_verb_is_known verb then (None, False, ''unknown command'')
      else
        (Some (verb @ [newline]),
         case read_reply [] chunks of
           None \<Rightarrow> (False, ''The supervisor did not answer.'')
         | Some reply \<Rightarrow> parse_reply reply))"

section \<open>Escaping\<close>

lemma escape_newline: "newline \<notin> set (ns_nodectl_escape s)"
  by (induction s) auto

lemma unescape_other: "c \<noteq> backslash \<Longrightarrow> ns_nodectl_unescape (c # s) = c # ns_nodectl_unescape s"
  by (cases s) simp_all

lemma unescape_escape: "ns_nodectl_unescape (ns_nodectl_escape s) = filter (\<lambda>c. c \<noteq> CHR 0x0D) s"
  by (induction s) (auto simp: unescape_other)

section \<open>Any bytes from the browser\<close>

definition commands_ok :: "nodectl_env \<Rightarrow> supervisor \<Rightarrow> bool" where
  "commands_ok env s \<longleftrightarrow>
     list_all (\<lambda>argv. \<exists>node verb. argv = [node, ''service'', verb] \<and> ns_nodectl_find_node env = Some node \<and>
       verb \<in> {''status'', ''start'', ''stop'', ''restart''}) (ran s)"

lemma run_command_ok:
  assumes "commands_ok env s" "verb \<in> {''status'', ''start'', ''stop'', ''restart''}"
  shows "commands_ok env (fst (ns_nodectl_run_node_command env verb s))"
  using assms
  by (auto simp: ns_nodectl_run_node_command_def commands_ok_def Let_def split: option.split spawn_result.split)

lemma dispatch_ok:
  assumes "commands_ok env s"
  shows "commands_ok env (ns_nodectl_dispatch env verb s)"
proof (cases "ns_nodectl_verb_is_known verb \<and> verb \<noteq> ''ping''")
  case True
  then have "verb \<in> {''status'', ''start'', ''stop'', ''restart''}"
    by (auto simp: ns_nodectl_verb_is_known_def ns_nodectl_verbs_def)
  from run_command_ok [OF assms this] True show ?thesis
    by (cases "ns_nodectl_run_node_command env verb s") (simp add: ns_nodectl_dispatch_def ns_nodectl_reply_def commands_ok_def)
qed (use assms in \<open>auto simp: ns_nodectl_dispatch_def ns_nodectl_reply_def commands_ok_def\<close>)

lemma commands_buf [simp]: "commands_ok env (s\<lparr>buf := b\<rparr>) = commands_ok env s"
  by (simp add: commands_ok_def)

lemma serve_lines_ok: "commands_ok env s \<Longrightarrow> commands_ok env (serve_lines env s)"
proof (induction env s rule: serve_lines.induct)
  case (1 env s)
  show ?case
  proof (cases "newline \<in> set (cstring (buf s))")
    case True
    with 1 show ?thesis by (simp add: serve_lines.simps [of env s] Let_def dispatch_ok)
  qed (use 1 in \<open>simp add: serve_lines.simps [of env s]\<close>)
qed

interpretation nodectl: invariant_system "\<lambda>(env, s) got. (env, ns_nodectl_supervisor_readable env got s)" "\<lambda>(env, s). commands_ok env s"
  by unfold_locales (auto simp: ns_nodectl_supervisor_readable_def Let_def serve_lines_ok)

definition supervise :: "nodectl_env \<Rightarrow> string list \<Rightarrow> supervisor \<Rightarrow> supervisor" where
  "supervise env pieces s = foldl (\<lambda>s got. ns_nodectl_supervisor_readable env got s) s pieces"

lemma supervise_pair:
  "foldl (\<lambda>(env, s) got. (env, ns_nodectl_supervisor_readable env got s)) (env, s) pieces = (env, supervise env pieces s)"
  by (induction pieces arbitrary: s) (simp_all add: supervise_def)

definition idle :: supervisor where "idle = \<lparr>ran = [], buf = [], sent = []\<rparr>"

text \<open>C38. Whatever bytes the browser writes, in whatever pieces they arrive, the supervisor only ever runs the node's own
  program with the words \<^verbatim>\<open>service\<close> and one of \<^verbatim>\<open>status\<close>, \<^verbatim>\<open>start\<close>, \<^verbatim>\<open>stop\<close> and \<^verbatim>\<open>restart\<close>, and its buffer never keeps more than
  8192 bytes.\<close>

theorem nodectl_runs_only_service:
  "commands_ok env (supervise env pieces idle) \<and> length (buf (supervise env pieces idle)) \<le> NS_NODECTL_LINE_MAX"
proof
  have "case (env, idle) of (env, s) \<Rightarrow> commands_ok env s" by (simp add: idle_def commands_ok_def)
  from nodectl.inv_run [OF this, of pieces] show "commands_ok env (supervise env pieces idle)"
    unfolding supervise_pair by simp
  show "length (buf (supervise env pieces idle)) \<le> NS_NODECTL_LINE_MAX"
    by (induction pieces rule: rev_induct)
      (auto simp: supervise_def idle_def ns_nodectl_supervisor_readable_def Let_def)
qed

section \<open>One command\<close>

lemma nodectl_cstring: "CHR 0x00 \<notin> set s \<Longrightarrow> cstring s = s"
  by (rule cstring_id) (auto simp: list_all_iff)

text \<open>However the reply is cut into pieces, the browser takes it exactly if it is not too long.\<close>

lemma read_reply_pieces:
  assumes "concat pieces = rest" and "got @ rest = line @ [newline]" and "rest \<noteq> []"
    and "newline \<notin> set line" "CHR 0x00 \<notin> set line" and "length got \<le> NS_NODECTL_LINE_MAX"
  shows "read_reply got pieces = (if length line < NS_NODECTL_LINE_MAX then Some (line @ [newline]) else None)"
  using assms
proof (induction pieces arbitrary: got rest)
  case (Cons p ps)
  obtain init where rest: "rest = init @ [newline]" using Cons.prems(2,3) by (metis append_butlast_last_id last_appendR last_snoc)
  then have gi: "got @ init = line" using Cons.prems(2) by simp
  then have got: "newline \<notin> set (cstring got)" using Cons.prems(4) by (auto simp: cstring_def dest: set_takeWhileD)
  show ?case
  proof (cases "length (got @ p) > NS_NODECTL_LINE_MAX")
    case True
    have "length (got @ p) \<le> length (line @ [newline])" using Cons.prems(1,2) by (metis append.assoc concat.simps(2) le_add1 length_append)
    with True got show ?thesis by (simp add: read_reply.simps [of got "p # ps"])
  next
    case False
    have step: "read_reply got (p # ps) = read_reply (got @ p) ps" using False got by (simp add: read_reply.simps [of got "p # ps"])
    show ?thesis
    proof (cases "concat ps = []")
      case True
      then have "got @ p = line @ [newline]" using Cons.prems(1,2) by (metis append_Nil2 concat.simps(2))
      moreover have "cstring (line @ [newline]) = line @ [newline]" using Cons.prems(5) by (intro nodectl_cstring) auto
      ultimately show ?thesis using False unfolding step by (simp add: read_reply.simps [of "line @ [newline]" ps])
    next
      case more: False
      show ?thesis unfolding step
        by (rule Cons.IH [OF refl _ more Cons.prems(4,5)]) (use Cons.prems(1,2) False in auto)
    qed
  qed
qed simp

lemma serve_nothing: "newline \<notin> set (cstring (buf s)) \<Longrightarrow> serve_lines env s = s"
  by (simp add: serve_lines.simps [of env s])

lemma serve_one:
  assumes "buf s = line @ [newline]" "newline \<notin> set line" "CHR 0x00 \<notin> set line" "g_strstrip line = line" "line \<noteq> []"
  shows "serve_lines env s = ns_nodectl_dispatch env line (s\<lparr>buf := []\<rparr>)"
proof -
  have c: "cstring (buf s) = buf s" unfolding assms(1) by (rule nodectl_cstring) (use assms(3) in auto)
  have parts: "takeWhile (\<lambda>c. c \<noteq> newline) (buf s) = line" "dropWhile (\<lambda>c. c \<noteq> newline) (buf s) = [newline]"
    unfolding assms(1) using assms(2) by (induction line) auto
  have "serve_lines env s = serve_lines env (ns_nodectl_dispatch env line (s\<lparr>buf := []\<rparr>))"
    unfolding serve_lines.simps [of env s] c Let_def parts using assms(1,4,5) by simp
  then show ?thesis by (simp add: serve_nothing dispatch_buf cstring_def)
qed

lemma supervise_empty: "list_all (\<lambda>p. p = []) pieces \<Longrightarrow> buf s = [] \<Longrightarrow> supervise env pieces s = s"
proof (induction pieces)
  case (Cons p ps)
  then have "ns_nodectl_supervisor_readable env [] s = s"
    by (simp add: ns_nodectl_supervisor_readable_def serve_nothing cstring_def)
  with Cons show ?case by (simp add: supervise_def)
qed (simp add: supervise_def)

text \<open>However the command is cut into pieces, it is carried out once.\<close>

lemma supervise_line:
  assumes "concat pieces = rest" and "buf s @ rest = line @ [newline]" and "rest \<noteq> []" and "newline \<notin> set line"
    and "CHR 0x00 \<notin> set line" "g_strstrip line = line" "line \<noteq> []" "length line < NS_NODECTL_LINE_MAX"
  shows "supervise env pieces s = ns_nodectl_dispatch env line (s\<lparr>buf := []\<rparr>)"
  using assms
proof (induction pieces arbitrary: s rest)
  case (Cons p ps)
  have len: "length (buf s @ p) \<le> NS_NODECTL_LINE_MAX"
  proof -
    have "length (buf s @ p) \<le> length (line @ [newline])" using Cons.prems(1,2) by (metis append.assoc concat.simps(2) le_add1 length_append)
    with Cons.prems(8) show ?thesis by simp
  qed
  have step: "supervise env (p # ps) s = supervise env ps (ns_nodectl_supervisor_readable env p s)" by (simp add: supervise_def)
  show ?case
  proof (cases "concat ps = []")
    case True
    then have bp: "buf s @ p = line @ [newline]" using Cons.prems(1,2) by (metis append_Nil2 concat.simps(2))
    have "ns_nodectl_supervisor_readable env p s = ns_nodectl_dispatch env line (s\<lparr>buf := []\<rparr>)"
      using serve_one [of "s\<lparr>buf := buf s @ p\<rparr>" line env] bp Cons.prems(4-7)
      by (simp add: ns_nodectl_supervisor_readable_def Let_def dispatch_buf)
    moreover have "list_all (\<lambda>p. p = []) ps" using True by (simp add: list_all_iff)
    ultimately show ?thesis unfolding step by (simp add: supervise_empty dispatch_buf)
  next
    case False
    have all: "buf s @ p @ concat ps = line @ [newline]" using Cons.prems(1,2) by simp
    have "butlast (buf s @ p @ concat ps) = line" unfolding all by simp
    then have "buf s @ p @ butlast (concat ps) = line" using False by (simp only: butlast_append if_False append_is_Nil_conv simp_thms)
    then have "newline \<notin> set (cstring (buf s @ p))" using Cons.prems(4)
      by (metis Un_iff cstring_def set_append set_takeWhileD)
    then have keep: "ns_nodectl_supervisor_readable env p s = s\<lparr>buf := buf s @ p\<rparr>"
      using len by (simp add: ns_nodectl_supervisor_readable_def serve_nothing)
    have "supervise env ps (s\<lparr>buf := buf s @ p\<rparr>) = ns_nodectl_dispatch env line (s\<lparr>buf := buf s @ p\<rparr>\<lparr>buf := []\<rparr>)"
      using Cons.IH [OF refl _ False Cons.prems(4-8), of "s\<lparr>buf := buf s @ p\<rparr>"] all by simp
    then show ?thesis unfolding step keep by simp
  qed
qed simp

lemma escape_start:
  assumes "txt = [] \<or> \<not> g_ascii_isspace (hd txt)"
  shows "dropWhile (\<lambda>c. c = CHR '' '') (CHR '' '' # ns_nodectl_escape txt) = ns_nodectl_escape txt"
proof (cases "txt")
  case (Cons c t)
  have "g_ascii_isspace (CHR '' '')" "g_ascii_isspace (CHR 0x0D)" by code_simp+
  with assms Cons have "c \<noteq> CHR '' ''" "c \<noteq> CHR 0x0D" by auto
  then show ?thesis using Cons by simp
qed simp

lemma escape_no_nul: "CHR 0x00 \<notin> set s \<Longrightarrow> CHR 0x00 \<notin> set (ns_nodectl_escape s)"
  by (induction s) auto

lemma parse_reply_line:
  assumes "txt = [] \<or> \<not> g_ascii_isspace (hd txt)"
  shows "parse_reply (reply_line (if ok then ''ok'' else ''err'') txt) = (ok, filter (\<lambda>c. c \<noteq> CHR 0x0D) txt)"
proof -
  have tw: "takeWhile (\<lambda>c. c \<noteq> newline) (u @ [newline]) = u" if "newline \<notin> set u" for u
    using that by (induction u) auto
  define st where "st = (if ok then ''ok'' else ''err'')"
  have n: "newline \<notin> set st" "\<not> g_ascii_isspace (hd st)" by (auto simp: st_def g_ascii_isspace_def)
  have line: "takeWhile (\<lambda>c. c \<noteq> newline) (reply_line st txt) = st @ '' '' @ ns_nodectl_escape txt"
    using tw [of "st @ '' '' @ ns_nodectl_escape txt"] n(1) escape_newline [of "txt"] by (simp add: reply_line_def)
  show ?thesis
    using escape_start [OF assms] line unfolding st_def [symmetric] parse_reply_def
    by (cases ok) (simp_all add: st_def unescape_escape g_str_has_prefix_def Let_def)
qed

text \<open>C39. A command of the browser is carried out once, however the socket cuts the command and the reply, and the
  browser gets the status and the text of the node (without carriage returns), unless the escaped reply is longer than
  8192 bytes; then it is told that the supervisor did not answer, although the command was run.\<close>

theorem nodectl_command_answered:
  assumes "fd \<ge> 0" and "verb \<in> {''status'', ''start'', ''stop'', ''restart''}"
    and "buf s = []" and "sent s = []" and "concat req = verb @ [newline]"
    and "ns_nodectl_run_node_command env verb s = (s', ok, txt)"
    and "CHR 0x00 \<notin> set txt" and "txt = [] \<or> \<not> g_ascii_isspace (hd txt)"
    and "concat rep = sent (supervise env req s)"
  shows "ran (supervise env req s) = ran s' \<and>
    ns_nodectl_run fd verb rep = (Some (verb @ [newline]),
      if length (reply_line (if ok then ''ok'' else ''err'') txt) \<le> NS_NODECTL_LINE_MAX then (ok, filter (\<lambda>c. c \<noteq> CHR 0x0D) txt)
      else (False, ''The supervisor did not answer.''))"
proof -
  let ?line = "(if ok then ''ok'' else ''err'') @ '' '' @ ns_nodectl_escape txt"
  have v: "ns_nodectl_verb_is_known verb" "verb \<noteq> ''ping''" "newline \<notin> set verb" "CHR 0x00 \<notin> set verb" "g_strstrip verb = verb"
    "verb \<noteq> []" "length verb < NS_NODECTL_LINE_MAX"
  proof -
    have "list_all (\<lambda>v. ns_nodectl_verb_is_known v \<and> v \<noteq> ''ping'' \<and> newline \<notin> set v \<and> CHR 0x00 \<notin> set v \<and> g_strstrip v = v \<and> v \<noteq> [] \<and> length v < 10)
      [''status'', ''start'', ''stop'', ''restart'']" by code_simp
    with assms(2) show "ns_nodectl_verb_is_known verb" "verb \<noteq> ''ping''" "newline \<notin> set verb" "CHR 0x00 \<notin> set verb"
      "g_strstrip verb = verb" "verb \<noteq> []" "length verb < NS_NODECTL_LINE_MAX" by (auto simp: NS_NODECTL_LINE_MAX_def)
  qed
  have s: "s\<lparr>buf := []\<rparr> = s" using assms(3) by (cases s) simp
  have sup: "supervise env req s = ns_nodectl_reply (if ok then ''ok'' else ''err'') txt s'"
    using supervise_line [OF assms(5), of s verb env] assms(3,6) v by (simp add: s ns_nodectl_dispatch_def)
  have "sent s' = []" using assms(4,6) by (auto simp: ns_nodectl_run_node_command_def Let_def split: option.splits spawn_result.splits)
  then have rep: "concat rep = ?line @ [newline]" using assms(9) by (simp add: sup ns_nodectl_reply_def reply_line_def)
  have "newline \<notin> set ?line" "CHR 0x00 \<notin> set ?line" using escape_newline [of "txt"] escape_no_nul [OF assms(7)] by auto
  from read_reply_pieces [OF rep, of "[]" ?line] this
  have "read_reply [] rep = (if length ?line < NS_NODECTL_LINE_MAX then Some (?line @ [newline]) else None)" by simp
  moreover have "?line @ [newline] = reply_line (if ok then ''ok'' else ''err'') txt" by (simp add: reply_line_def)
  moreover have "ran (supervise env req s) = ran s'" by (simp add: sup ns_nodectl_reply_def)
  ultimately show ?thesis
    using v(1) assms(1) parse_reply_line [OF assms(8), of ok] by (auto simp: ns_nodectl_run_def reply_line_def)
qed

definition sample_nodectl :: nodectl_env where
  "sample_nodectl = \<lparr>in_path = Some ''/usr/bin/freenet'', home_dir = None, build_filename = concat, executable = (\<lambda>_. False),
     spawn = (\<lambda>_ _. Spawned (Some 0) (''up'' @ [newline] @ ''since 1'' @ [newline]) [])\<rparr>"

theorem nodectl_command_answered_witness:
  "ran (supervise sample_nodectl [''sta'', ''tus'' @ [newline]] idle) = [[''/usr/bin/freenet'', ''service'', ''status'']] \<and>
   ns_nodectl_run 5 ''status'' [''ok u'', ''p'' @ [backslash] @ ''nsi'', ''nce 1'' @ [newline]] =
     (Some (''status'' @ [newline]), True, ''up'' @ [newline] @ ''since 1'')"
proof -
  have run: "ns_nodectl_run_node_command sample_nodectl ''status'' idle =
      (idle\<lparr>ran := [[''/usr/bin/freenet'', ''service'', ''status'']]\<rparr>, True, ''up'' @ [newline] @ ''since 1'')" by code_simp
  have rep: "concat [''ok u'', ''p'' @ [backslash] @ ''nsi'', ''nce 1'' @ [newline]] =
      sent (supervise sample_nodectl [''sta'', ''tus'' @ [newline]] idle)" by code_simp
  have "buf idle = []" "sent idle = []" "concat [''sta'', ''tus'' @ [newline]] = ''status'' @ [newline]" by code_simp+
  from nodectl_command_answered [OF _ _ this run _ _ rep, of 5] show ?thesis
    by (simp add: reply_line_def NS_NODECTL_LINE_MAX_def idle_def g_ascii_isspace_def)
qed

text \<open>A text of 4096 backslashes is short enough for the supervisor, but its reply is too long for the browser.\<close>

definition noisy :: nodectl_env where
  "noisy = sample_nodectl\<lparr>spawn := (\<lambda>_ _. Spawned (Some 0) (replicate NS_NODECTL_OUTPUT_MAX backslash) [])\<rparr>"

lemma nodectl_long_reply_lost:
  "ns_nodectl_run_node_command noisy ''start'' idle =
     (idle\<lparr>ran := [[''/usr/bin/freenet'', ''service'', ''start'']]\<rparr>, True, replicate NS_NODECTL_OUTPUT_MAX backslash) \<and>
   length (reply_line ''ok'' (replicate NS_NODECTL_OUTPUT_MAX backslash)) > NS_NODECTL_LINE_MAX"
proof
  have esc: "length (ns_nodectl_escape (replicate n backslash)) = 2 * n" for n by (induction n) simp_all
  then show "length (reply_line ''ok'' (replicate NS_NODECTL_OUTPUT_MAX backslash)) > NS_NODECTL_LINE_MAX"
    by (simp add: reply_line_def NS_NODECTL_LINE_MAX_def NS_NODECTL_OUTPUT_MAX_def)
  have "\<not> g_ascii_isspace backslash" by code_simp
  then have "g_strstrip (replicate NS_NODECTL_OUTPUT_MAX backslash) = replicate NS_NODECTL_OUTPUT_MAX backslash"
    by (intro strstrip_id) (auto simp: NS_NODECTL_OUTPUT_MAX_def)
  moreover have "cstring (replicate NS_NODECTL_OUTPUT_MAX backslash) = replicate NS_NODECTL_OUTPUT_MAX backslash"
    by (rule nodectl_cstring) simp
  ultimately show "ns_nodectl_run_node_command noisy ''start'' idle =
     (idle\<lparr>ran := [[''/usr/bin/freenet'', ''service'', ''start'']]\<rparr>, True, replicate NS_NODECTL_OUTPUT_MAX backslash)"
    by (simp add: ns_nodectl_run_node_command_def ns_nodectl_find_node_def noisy_def sample_nodectl_def command_text_def idle_def
        NS_NODECTL_OUTPUT_MAX_def Let_def)
qed

end
