(* ===== verification/NS_Selector_State.thy ===== *)
theory NS_Selector_State
  imports NS_Forms NS_Css_Syntax
begin

text \<open>
  What the pseudo-classes of selectors ask about an element (\<^verbatim>\<open>src/css.c\<close>).  The globals of the style engine are the
  fields of \<^verbatim>\<open>css_env\<close>; URL resolution, regular expressions, the tables of Unicode and the arithmetic on \<^verbatim>\<open>double\<close> are
  parameters in it.  A question may fill caches: the class tokens and the filter of attribute names of a node, the
  index of ids, the language of the document, and the table of \<^verbatim>\<open>:has()\<close>; they are kept in \<^verbatim>\<open>sel_state\<close>.
\<close>

section \<open>Questions that fill caches\<close>

primrec any_in :: "('x \<Rightarrow> 's \<Rightarrow> 's \<times> bool) \<Rightarrow> 'x list \<Rightarrow> 's \<Rightarrow> 's \<times> bool" where
  "any_in f [] s = (s, False)"
| "any_in f (x # xs) s = (case f x s of (s, True) \<Rightarrow> (s, True) | (s, False) \<Rightarrow> any_in f xs s)"

primrec all_in :: "('x \<Rightarrow> 's \<Rightarrow> 's \<times> bool) \<Rightarrow> 'x list \<Rightarrow> 's \<Rightarrow> 's \<times> bool" where
  "all_in f [] s = (s, True)"
| "all_in f (x # xs) s = (case f x s of (s, True) \<Rightarrow> all_in f xs s | (s, False) \<Rightarrow> (s, False))"

primrec first_in :: "('x \<Rightarrow> 's \<Rightarrow> 's \<times> 'a option) \<Rightarrow> 'x list \<Rightarrow> 's \<Rightarrow> 's \<times> 'a option" where
  "first_in f [] s = (s, None)"
| "first_in f (x # xs) s = (case f x s of (s, Some y) \<Rightarrow> (s, Some y) | (s, None) \<Rightarrow> first_in f xs s)"

definition both :: "('s \<Rightarrow> 's \<times> bool) \<Rightarrow> ('s \<Rightarrow> 's \<times> bool) \<Rightarrow> 's \<Rightarrow> 's \<times> bool" where
  "both f g s = (case f s of (s, True) \<Rightarrow> g s | (s, False) \<Rightarrow> (s, False))"

text \<open>\<^verbatim>\<open>looks I f x\<close>: from every state with \<^verbatim>\<open>I\<close>, \<^verbatim>\<open>f\<close> gives \<^verbatim>\<open>x\<close> and keeps \<^verbatim>\<open>I\<close>.\<close>

definition looks :: "('s \<Rightarrow> bool) \<Rightarrow> ('s \<Rightarrow> 's \<times> 'a) \<Rightarrow> 'a \<Rightarrow> bool" where
  "looks I f x \<longleftrightarrow> (\<forall>s. I s \<longrightarrow> I (fst (f s)) \<and> snd (f s) = x)"

lemma looksI: "(\<And>s. I s \<Longrightarrow> \<exists>s'. f s = (s', x) \<and> I s') \<Longrightarrow> looks I f x"
  by (fastforce simp: looks_def)

lemma looksD: "looks I f x \<Longrightarrow> I s \<Longrightarrow> \<exists>s'. f s = (s', x) \<and> I s'"
  unfolding looks_def by (metis prod.collapse)

lemma looks_ret: "looks I (\<lambda>s. (s, x)) x"
  by (simp add: looks_def)

lemma looks_any: "(\<And>x. x \<in> set xs \<Longrightarrow> looks I (f x) (v x)) \<Longrightarrow> looks I (any_in f xs) (list_ex v xs)"
proof (induction xs)
  case (Cons x xs)
  have x: "looks I (f x) (v x)" and xs: "looks I (any_in f xs) (list_ex v xs)" using Cons by simp_all
  show ?case
  proof (rule looksI)
    fix s assume "I s"
    with looksD [OF x] obtain s1 where "f x s = (s1, v x)" "I s1" by blast
    then show "\<exists>s'. any_in f (x # xs) s = (s', list_ex v (x # xs)) \<and> I s'"
      using looksD [OF xs] by (cases "v x") auto
  qed
qed (simp add: looks_def)

lemma looks_all: "(\<And>x. x \<in> set xs \<Longrightarrow> looks I (f x) (v x)) \<Longrightarrow> looks I (all_in f xs) (list_all v xs)"
proof (induction xs)
  case (Cons x xs)
  have x: "looks I (f x) (v x)" and xs: "looks I (all_in f xs) (list_all v xs)" using Cons by simp_all
  show ?case
  proof (rule looksI)
    fix s assume "I s"
    with looksD [OF x] obtain s1 where "f x s = (s1, v x)" "I s1" by blast
    then show "\<exists>s'. all_in f (x # xs) s = (s', list_all v (x # xs)) \<and> I s'"
      using looksD [OF xs] by (cases "v x") auto
  qed
qed (simp add: looks_def)

lemma looks_first: "(\<And>x. x \<in> set xs \<Longrightarrow> looks I (f x) (v x)) \<Longrightarrow> looks I (first_in f xs) (first_some v xs)"
proof (induction xs)
  case (Cons x xs)
  have x: "looks I (f x) (v x)" and xs: "looks I (first_in f xs) (first_some v xs)" using Cons by simp_all
  show ?case
  proof (rule looksI)
    fix s assume "I s"
    with looksD [OF x] obtain s1 where "f x s = (s1, v x)" "I s1" by blast
    then show "\<exists>s'. first_in f (x # xs) s = (s', first_some v (x # xs)) \<and> I s'"
      using looksD [OF xs] by (cases "v x") auto
  qed
qed (simp add: looks_def)

lemma looks_both: "looks I f a \<Longrightarrow> (a \<Longrightarrow> looks I g b) \<Longrightarrow> looks I (both f g) (a \<and> b)"
  by (cases a) (fastforce simp: looks_def both_def split: prod.split bool.split)+

lemma looks_case: "looks I f x \<Longrightarrow> looks I (g x) y \<Longrightarrow> looks I (\<lambda>s. case f s of (s, z) \<Rightarrow> g z s) y"
  by (fastforce simp: looks_def split: prod.split)

lemma any_in_cong [fundef_cong]: "xs = ys \<Longrightarrow> (\<And>x. x \<in> set ys \<Longrightarrow> f x = g x) \<Longrightarrow> any_in f xs = any_in g ys"
proof (induction xs arbitrary: ys)
  case (Cons a xs)
  have "any_in f xs = any_in g xs" using Cons.IH [OF refl] Cons.prems by auto
  moreover have "f a = g a" "ys = a # xs" using Cons.prems by auto
  ultimately show ?case by (intro ext) (simp split: prod.split bool.split)
qed (auto simp: fun_eq_iff)

lemma all_in_cong [fundef_cong]: "xs = ys \<Longrightarrow> (\<And>x. x \<in> set ys \<Longrightarrow> f x = g x) \<Longrightarrow> all_in f xs = all_in g ys"
proof (induction xs arbitrary: ys)
  case (Cons a xs)
  have "all_in f xs = all_in g xs" using Cons.IH [OF refl] Cons.prems by auto
  moreover have "f a = g a" "ys = a # xs" using Cons.prems by auto
  ultimately show ?case by (intro ext) (simp split: prod.split bool.split)
qed (auto simp: fun_eq_iff)

section \<open>The state\<close>

datatype GUnicodeScript = SCRIPT_HEBREW | SCRIPT_ARABIC | SCRIPT_SYRIAC | SCRIPT_THAANA | SCRIPT_NKO | SCRIPT_SAMARITAN
  | SCRIPT_MANDAIC | SCRIPT_OTHER

record 'f css_env =
  css_floating :: "'f floating"
  css_lxb :: url_parser
  css_resolve :: "string option \<Rightarrow> string \<Rightarrow> string option"
  css_regex :: regex
  unichar_script :: "int \<Rightarrow> GUnicodeScript"
  unichar_isalpha :: "int \<Rightarrow> bool"
  hover_node :: "ref option"
  active_node :: "ref option"
  focus_node :: "ref option"
  active_modal :: "ref option"
  target_fragment :: "string option"
  css_doc_base :: "string option"
  css_doc_language :: "string option"
  visited_urls :: "string list option"
  defined_elements :: "string list option"

text \<open>\<^verbatim>\<open>has_memo\<close> is \<^const>\<open>None\<close> outside a cascade; its keys are the groups of \<^verbatim>\<open>:has()\<close> and the elements.\<close>

record 'g sel_state =
  tree :: dom
  has_memo :: "('g \<times> ref \<rightharpoonup> bool) option"
  pragma :: "(ref \<times> string option) option"

text \<open>The settings.\<close>

definition non_empty :: "string option \<Rightarrow> string option" where
  "non_empty s = (if s = Some [] then None else s)"

definition ns_css_set_target_fragment :: "string option \<Rightarrow> 'f css_env \<Rightarrow> 'f css_env" where
  "ns_css_set_target_fragment fragment env = env\<lparr>target_fragment := non_empty fragment\<rparr>"

definition ns_css_set_doc_base :: "string option \<Rightarrow> 'f css_env \<Rightarrow> 'f css_env" where
  "ns_css_set_doc_base base_url env = env\<lparr>css_doc_base := non_empty base_url\<rparr>"

definition ns_css_set_doc_language :: "string option \<Rightarrow> 'f css_env \<Rightarrow> 'f css_env" where
  "ns_css_set_doc_language lang env = env\<lparr>css_doc_language := non_empty lang\<rparr>"

definition ns_css_set_focus_node :: "ref option \<Rightarrow> 'f css_env \<Rightarrow> 'f css_env \<times> ref option" where
  "ns_css_set_focus_node node env = (env\<lparr>focus_node := node\<rparr>, focus_node env)"

definition ns_css_set_hover_node :: "ref option \<Rightarrow> 'f css_env \<Rightarrow> 'f css_env \<times> ref option" where
  "ns_css_set_hover_node node env = (env\<lparr>hover_node := node\<rparr>, hover_node env)"

definition ns_css_set_active_node :: "ref option \<Rightarrow> 'f css_env \<Rightarrow> 'f css_env \<times> ref option" where
  "ns_css_set_active_node node env = (env\<lparr>active_node := node\<rparr>, active_node env)"

definition form_owner :: "ref \<Rightarrow> ref option \<Rightarrow> 'g sel_state \<Rightarrow> 'g sel_state \<times> ref option" where
  "form_owner n doc s = (case ns_form_owner n doc (tree s) of (d, ow) \<Rightarrow> (s\<lparr>tree := d\<rparr>, ow))"

definition has_class :: "ref \<Rightarrow> string \<Rightarrow> 'g sel_state \<Rightarrow> 'g sel_state \<times> bool" where
  "has_class el name s =
     (case ns_node_has_class (nodes (tree s) el) name of (n, b) \<Rightarrow> (s\<lparr>tree := set_node el (\<lambda>_. n) (tree s)\<rparr>, b))"

definition bloom :: "ref \<Rightarrow> 'g sel_state \<Rightarrow> 'g sel_state \<times> 64 word" where
  "bloom el s = (case ns_node_attr_bloom (nodes (tree s) el) of (n, b) \<Rightarrow> (s\<lparr>tree := set_node el (\<lambda>_. n) (tree s)\<rparr>, b))"

section \<open>Siblings\<close>

fun back_list :: "nat \<Rightarrow> heap \<Rightarrow> ref option \<Rightarrow> ref list" where
  "back_list 0 h c = []"
| "back_list (Suc k) h None = []"
| "back_list (Suc k) h (Some c) = c # back_list k h (prev_sibling (h c))"

text \<open>The siblings before a node, the nearest first, and after it.\<close>

definition siblings_before :: "dom \<Rightarrow> ref \<Rightarrow> ref list" where
  "siblings_before d el = back_list (n_nodes d) (nodes d) (prev_sibling (nodes d el))"

definition siblings_after :: "dom \<Rightarrow> ref \<Rightarrow> ref list" where
  "siblings_after d el = sibling_list (n_nodes d) (nodes d) (next_sibling (nodes d el))"

abbreviation is_element :: "dom \<Rightarrow> ref \<Rightarrow> bool" where
  "is_element d n \<equiv> kind (nodes d n) = NS_NODE_ELEMENT"

section \<open>Controls\<close>

definition is_ws :: "char \<Rightarrow> bool" where
  "is_ws c \<longleftrightarrow> c = CHR '' '' \<or> c = CHR 0x09 \<or> c = CHR 0x0A \<or> c = CHR 0x0D \<or> c = CHR 0x0C"

definition ns_input_is_text_entry :: "dom \<Rightarrow> ref \<Rightarrow> bool" where
  "ns_input_is_text_entry d el \<longleftrightarrow>
     (case attr_of d el ''type'' of
        None \<Rightarrow> True
      | Some t \<Rightarrow> t = [] \<or> type_among [''text'', ''search'', ''url'', ''tel'', ''email'', ''password'', ''number''] (Some t))"

definition ns_el_is_read_write :: "dom \<Rightarrow> ref \<Rightarrow> bool" where
  "ns_el_is_read_write d el \<longleftrightarrow>
     (case node_name (nodes d el) of
        None \<Rightarrow> False
      | Some name \<Rightarrow>
          if name = ''input'' then
            ns_input_type_supports_readonly (attr_of d el ''type'') \<and> attr_of d el ''readonly'' = None \<and>
            \<not> ns_element_effectively_disabled d el
          else if name = ''textarea'' then attr_of d el ''readonly'' = None \<and> \<not> ns_element_effectively_disabled d el
          else attr_of d el ''contenteditable'' = Some [] \<or>
            type_among [''true'', ''plaintext-only''] (attr_of d el ''contenteditable''))"

primrec collect_text :: "nat \<Rightarrow> dom \<Rightarrow> ref \<Rightarrow> string" where
  "collect_text 0 d n = []"
| "collect_text (Suc k) d n =
     (if kind (nodes d n) = NS_NODE_TEXT then (case node_text (nodes d n) of Some t \<Rightarrow> t | None \<Rightarrow> [])
      else if list_ex (el_named d n) [''style'', ''script'', ''noscript'', ''template''] then []
      else concat (map (collect_text k d) (children d n)))"

definition ns_node_collect_text :: "dom \<Rightarrow> ref \<Rightarrow> string" where
  "ns_node_collect_text d root = collect_text NS_DOM_MAX_DEPTH d root"

definition ns_el_placeholder_shown :: "dom \<Rightarrow> ref \<Rightarrow> bool" where
  "ns_el_placeholder_shown d el \<longleftrightarrow>
     (case node_name (nodes d el) of
        None \<Rightarrow> False
      | Some name \<Rightarrow>
          if attr_of d el ''placeholder'' = None then False
          else if name = ''input'' then ns_input_is_text_entry d el \<and> attr_of d el ''value'' \<in> {None, Some []}
          else if name = ''textarea'' then list_all is_ws (ns_node_collect_text d el)
          else False)"

definition ns_el_is_checked :: "dom \<Rightarrow> ref \<Rightarrow> bool" where
  "ns_el_is_checked d el \<longleftrightarrow>
     (if el_named d el ''option'' then
        attr_of d el ''selected'' \<noteq> None \<or>
        (let sel = (case parent (nodes d el) of
               Some p \<Rightarrow> if el_named d p ''optgroup'' then parent (nodes d p) else Some p | None \<Rightarrow> None)
         in case sel of
              None \<Rightarrow> False
            | Some sel \<Rightarrow> el_named d sel ''select'' \<and> attr_of d sel ''multiple'' = None \<and> ns_select_chosen_option d sel = Some el)
      else el_named d el ''input'' \<and> type_among [''checkbox'', ''radio''] (attr_of d el ''type'') \<and> ns_input_is_checked d el)"

definition ns_el_is_submit_button :: "dom \<Rightarrow> ref \<Rightarrow> bool" where
  "ns_el_is_submit_button d el \<longleftrightarrow>
     (if el_named d el ''input'' then type_among [''submit'', ''image''] (attr_of d el ''type'')
      else el_named d el ''button'' \<and>
        (attr_of d el ''type'' \<in> {None, Some []} \<or> type_among [''submit'', ''auto''] (attr_of d el ''type'')))"

primrec ns_css_first_submit_button_for ::
    "nat \<Rightarrow> ref option \<Rightarrow> ref option \<Rightarrow> ref \<Rightarrow> 'g sel_state \<Rightarrow> 'g sel_state \<times> ref option" where
  "ns_css_first_submit_button_for 0 doc ow scan s = (s, None)"
| "ns_css_first_submit_button_for (Suc k) doc ow scan s =
     (case both (\<lambda>s. (s, is_element (tree s) scan \<and> ns_el_is_submit_button (tree s) scan \<and>
                         \<not> ns_element_effectively_disabled (tree s) scan))
             (\<lambda>s. case form_owner scan doc s of (s, o') \<Rightarrow> (s, o' = ow)) s of
        (s, True) \<Rightarrow> (s, Some scan)
      | (s, False) \<Rightarrow>
          if el_named (tree s) scan ''template'' then (s, None)
          else first_in (ns_css_first_submit_button_for k doc ow) (children (tree s) scan) s)"

definition ns_el_is_default :: "ref \<Rightarrow> 'g sel_state \<Rightarrow> 'g sel_state \<times> bool" where
  "ns_el_is_default el s =
     (let d = tree s in
      if el_named d el ''option'' then (s, attr_of d el ''selected'' \<noteq> None)
      else if el_named d el ''input'' \<and> type_among [''checkbox'', ''radio''] (attr_of d el ''type'') then
        (s, attr_of d el ''checked'' \<noteq> None)
      else if \<not> ns_el_is_submit_button d el then (s, False)
      else
        let doc = ns_node_root d el in
        case form_owner el (Some doc) s of
          (s, None) \<Rightarrow> (s, False)
        | (s, Some ow) \<Rightarrow>
            (case ns_css_first_submit_button_for 512 (Some doc) (Some ow) doc s of (s, hit) \<Rightarrow> (s, hit = Some el)))"

primrec ns_css_radio_group_has_checked ::
    "nat \<Rightarrow> ref option \<Rightarrow> ref option \<Rightarrow> string \<Rightarrow> ref \<Rightarrow> 'g sel_state \<Rightarrow> 'g sel_state \<times> bool" where
  "ns_css_radio_group_has_checked 0 doc ow name scan s = (s, False)"
| "ns_css_radio_group_has_checked (Suc k) doc ow name scan s =
     (case both (\<lambda>s. (s, ns_input_type_is (tree s) scan ''radio'' \<and>
                         (case attr_of (tree s) scan ''name'' of Some n \<Rightarrow> n | None \<Rightarrow> []) = name))
             (\<lambda>s. case form_owner scan doc s of (s, o') \<Rightarrow> (s, o' = ow \<and> ns_input_is_checked (tree s) scan)) s of
        (s, True) \<Rightarrow> (s, True)
      | (s, False) \<Rightarrow>
          if el_named (tree s) scan ''template'' then (s, False)
          else any_in (ns_css_radio_group_has_checked k doc ow name) (children (tree s) scan) s)"

definition ns_el_is_indeterminate :: "ref \<Rightarrow> 'g sel_state \<Rightarrow> 'g sel_state \<times> bool" where
  "ns_el_is_indeterminate el s =
     (let d = tree s in
      if el_named d el ''progress'' then (s, attr_of d el ''value'' = None)
      else if \<not> ns_input_type_is d el ''radio'' then (s, False)
      else
        let name = (case attr_of d el ''name'' of Some n \<Rightarrow> n | None \<Rightarrow> []); doc = ns_node_root d el in
        case form_owner el (Some doc) s of
          (s, ow) \<Rightarrow> (case ns_css_radio_group_has_checked 512 (Some doc) ow name doc s of (s, found) \<Rightarrow> (s, \<not> found)))"

text \<open>Whether there is a range to be in, and whether the value is under or over it.\<close>

definition ns_el_range_state :: "'f floating \<Rightarrow> dom \<Rightarrow> ref \<Rightarrow> (bool \<times> bool) option" where
  "ns_el_range_state F d el =
     (if \<not> el_named d el ''input'' \<or> \<not> ns_input_type_has_number_value (attr_of d el ''type'') \<or>
         (attr_of d el ''min'' = None \<and> attr_of d el ''max'' = None) then None
      else case attr_of d el ''value'' of
        None \<Rightarrow> None
      | Some v \<Rightarrow> if v = [] then None else ns_input_value_range_state F d el v)"

definition ns_el_is_blank :: "dom \<Rightarrow> ref \<Rightarrow> bool" where
  "ns_el_is_blank d el \<longleftrightarrow>
     (if el_named d el ''input'' then ns_input_is_text_entry d el \<and> attr_of d el ''value'' \<in> {None, Some []}
      else el_named d el ''textarea'' \<and> list_all is_ws (ns_node_collect_text d el))"

definition ns_el_is_empty :: "dom \<Rightarrow> ref \<Rightarrow> bool" where
  "ns_el_is_empty d el \<longleftrightarrow>
     list_all (\<lambda>c. \<not> is_element d c \<and> \<not> (kind (nodes d c) = NS_NODE_TEXT \<and> node_text (nodes d c) \<notin> {None, Some []}))
       (children d el)"


section \<open>Links\<close>

definition ns_el_is_link :: "dom \<Rightarrow> ref \<Rightarrow> bool" where
  "ns_el_is_link d el \<longleftrightarrow> attr_of d el ''href'' \<noteq> None \<and> (el_named d el ''a'' \<or> el_named d el ''area'')"

definition ns_url_resolve :: "(string option \<Rightarrow> string \<Rightarrow> string option) \<Rightarrow> string option \<Rightarrow> string \<Rightarrow> string option" where
  "ns_url_resolve resolve base href =
     (let base = (if base = Some [] then None else base) in
      if href = [] \<and> base = None then None
      else case resolve base href of
        None \<Rightarrow> None
      | Some out \<Rightarrow>
          if out = [] then None
          else if ns_freenet_is_url out then
            (case ns_freenet_canonical_url out of Some canonical \<Rightarrow> Some canonical | None \<Rightarrow> Some out)
          else Some out)"

definition ns_css_mark_visited :: "string \<Rightarrow> 'f css_env \<Rightarrow> 'f css_env" where
  "ns_css_mark_visited abs_url env =
     (if abs_url = [] then env
      else
        let urls = (case visited_urls env of Some u \<Rightarrow> u | None \<Rightarrow> [])
        in env\<lparr>visited_urls := Some (if list_ex (\<lambda>u. u = abs_url) urls then urls else abs_url # urls)\<rparr>)"

definition ns_el_is_visited_link :: "'f css_env \<Rightarrow> dom \<Rightarrow> ref \<Rightarrow> bool" where
  "ns_el_is_visited_link env d el \<longleftrightarrow>
     (case (visited_urls env, css_doc_base env, attr_of d el ''href'') of
        (Some urls, Some base, Some href) \<Rightarrow>
          ns_el_is_link d el \<and> href \<noteq> [] \<and>
          (case ns_url_resolve (css_resolve env) (Some base) href of
             Some u \<Rightarrow> list_ex (\<lambda>v. v = u) urls | None \<Rightarrow> False)
      | _ \<Rightarrow> False)"

definition ns_css_node_is_target :: "'f css_env \<Rightarrow> dom \<Rightarrow> ref \<Rightarrow> bool" where
  "ns_css_node_is_target env d el \<longleftrightarrow>
     (case target_fragment env of
        None \<Rightarrow> False
      | Some t \<Rightarrow>
          attr_of d el ''id'' = Some t \<or>
          (type_among [''a''] (node_name (nodes d el)) \<and> attr_of d el ''name'' = Some t))"

primrec ns_css_node_has_target_within :: "'f css_env \<Rightarrow> nat \<Rightarrow> dom \<Rightarrow> ref \<Rightarrow> bool" where
  "ns_css_node_has_target_within env 0 d el = False"
| "ns_css_node_has_target_within env (Suc k) d el =
     ((is_element d el \<and> ns_css_node_is_target env d el) \<or>
      (\<not> el_named d el ''template'' \<and> list_ex (ns_css_node_has_target_within env k d) (children d el)))"

section \<open>Languages\<close>

text \<open>The language of the first word of a \<^verbatim>\<open>meta\<close> element; a later element overwrites the one found before.\<close>

definition pragma_content :: "dom \<Rightarrow> ref \<Rightarrow> string option" where
  "pragma_content d c =
     (if is_element d c \<and> type_among [''meta''] (node_name (nodes d c)) \<and>
         type_among [''content-language''] (attr_of d c ''http-equiv'') then
        (case attr_of d c ''content'' of
           None \<Rightarrow> None
         | Some content \<Rightarrow>
             if CHR '','' \<in> set content then None
             else
               let w = takeWhile (\<lambda>x. \<not> g_ascii_isspace x) (dropWhile g_ascii_isspace content)
               in if w = [] then None else Some (take 127 w))
      else None)"

primrec ns_css_pragma_language_scan :: "nat \<Rightarrow> dom \<Rightarrow> ref \<Rightarrow> string option \<Rightarrow> string option" where
  "ns_css_pragma_language_scan 0 d n found = found"
| "ns_css_pragma_language_scan (Suc k) d n found =
     fold (\<lambda>c found. ns_css_pragma_language_scan k d c (case pragma_content d c of Some l \<Rightarrow> Some l | None \<Rightarrow> found))
       (children d n) found"

definition xml_lang_ns :: string where
  "xml_lang_ns = ''http://www.w3.org/XML/1998/namespace''"

definition node_lang :: "dom \<Rightarrow> ref \<Rightarrow> string option" where
  "node_lang d n =
     (if \<not> is_element d n then None
      else case ns_element_find_attr_ns (nodes d n) (Some xml_lang_ns) ''lang'' of
        Some a \<Rightarrow> Some (cstring (attr_value a))
      | None \<Rightarrow>
          (case ns_element_find_attr_ns (nodes d n) None ''lang'' of
             Some a \<Rightarrow> if has_flag (nodes d n) NS_NODE_SVG_NS \<or> has_flag (nodes d n) NS_NODE_FOREIGN_NS then None
                       else Some (cstring (attr_value a))
           | None \<Rightarrow> None))"

definition ns_css_node_language :: "'f css_env \<Rightarrow> ref \<Rightarrow> 'g sel_state \<Rightarrow> 'g sel_state \<times> string option" where
  "ns_css_node_language env el s =
     (case first_some (node_lang (tree s)) (ancestors_or_self (tree s) el) of
        Some l \<Rightarrow> (s, Some l)
      | None \<Rightarrow>
          let root = ns_node_root (tree s) el;
              s = (if map_option fst (pragma s) = Some root then s
                   else s\<lparr>pragma := Some (root, ns_css_pragma_language_scan 512 (tree s) root None)\<rparr>)
          in (s, case snd (the (pragma s)) of Some l \<Rightarrow> Some l | None \<Rightarrow> css_doc_language env))"

definition ns_css_lang_one_matches :: "string \<Rightarrow> string \<Rightarrow> bool" where
  "ns_css_lang_one_matches lang want =
     (let want = dropWhile (\<lambda>c. c = CHR '' '' \<or> c = CHR 0x27 \<or> c = CHR 0x22) want;
          w = rev (dropWhile (\<lambda>c. is_ws c \<or> c = CHR 0x27 \<or> c = CHR 0x22) (rev want))
      in if w = [] then False
         else if w = ''*'' then True
         else if take 2 w = ''*-'' then
           list_ex (\<lambda>p. strncaseeq (length w - 2) p (drop 2 w) \<and> (drop (length w - 2) p = [] \<or> hd (drop (length w - 2) p) = CHR ''-''))
             (map (\<lambda>i. drop (Suc i) lang) (filter (\<lambda>i. lang ! i = CHR ''-'') [0..<length lang]))
         else strncaseeq (length w) lang w \<and> (drop (length w) lang = [] \<or> hd (drop (length w) lang) = CHR ''-''))"

definition css_trim :: "string \<Rightarrow> string" where
  "css_trim s = rev (dropWhile is_ws (rev (dropWhile is_ws s)))"

text \<open>The argument of \<^verbatim>\<open>:lang()\<close>, split at the commas outside strings and brackets.\<close>

function lang_segments :: "string \<Rightarrow> string list" where
  "lang_segments p =
     (if p = [] then []
      else case ns_css_syntax_scan p '','' of
        (off, term) \<Rightarrow>
          css_trim (take off p) #
          (if term = Some (CHR '','') then lang_segments (drop (Suc off) p) else if off = 0 then [] else lang_segments (drop off p)))"
  by pat_completeness auto
termination by (relation "measure length") (auto intro!: diff_less)

declare lang_segments.simps [simp del]

definition ns_css_lang_matches :: "'f css_env \<Rightarrow> ref \<Rightarrow> string option \<Rightarrow> 'g sel_state \<Rightarrow> 'g sel_state \<times> bool" where
  "ns_css_lang_matches env el arg s =
     (case ns_css_node_language env el s of
        (s, lang) \<Rightarrow> (s, case (lang, arg) of
            (Some l, Some a) \<Rightarrow> list_ex (ns_css_lang_one_matches l) (lang_segments a)
          | _ \<Rightarrow> False))"


section \<open>Directions\<close>

definition ns_dir_is_rtl_script :: "GUnicodeScript \<Rightarrow> bool" where
  "ns_dir_is_rtl_script s \<longleftrightarrow> s \<noteq> SCRIPT_OTHER"

definition ns_dir_attr_sets_direction :: "string option \<Rightarrow> bool" where
  "ns_dir_attr_sets_direction dir \<longleftrightarrow> type_among [''ltr'', ''rtl'', ''auto''] dir"

function ns_dir_first_strong_str :: "'f css_env \<Rightarrow> string \<Rightarrow> string option" where
  "ns_dir_first_strong_str env p =
     (if p = [] then None
      else
        let c = g_utf8_get_char p in
        if ns_dir_is_rtl_script (unichar_script env c) then Some ''rtl''
        else if unichar_isalpha env c then Some ''ltr''
        else ns_dir_first_strong_str env (drop (utf8_skip (hd p)) p))"
  by pat_completeness auto
termination
proof (relation "measure (length \<circ> snd)")
  fix env :: "'f css_env" and p :: string
  assume "p \<noteq> []"
  moreover have "0 < utf8_skip c" for c by (simp add: utf8_skip_def Let_def)
  ultimately show "((env, drop (utf8_skip (hd p)) p), env, p) \<in> measure (length \<circ> snd)" by (cases p) simp_all
qed simp

declare ns_dir_first_strong_str.simps [simp del]

definition dir_skipped :: "dom \<Rightarrow> ref \<Rightarrow> bool" where
  "dir_skipped d c \<longleftrightarrow> is_element d c \<and> node_name (nodes d c) \<noteq> None \<and>
     ((\<not> has_flag (nodes d c) NS_NODE_SVG_NS \<and> \<not> has_flag (nodes d c) NS_NODE_FOREIGN_NS \<and>
         type_among [''script'', ''style'', ''textarea'', ''bdi''] (node_name (nodes d c))) \<or>
      ns_dir_attr_sets_direction (attr_of d c ''dir''))"

primrec ns_dir_first_strong :: "'f css_env \<Rightarrow> nat \<Rightarrow> dom \<Rightarrow> ref \<Rightarrow> string option" where
  "ns_dir_first_strong env 0 d n = None"
| "ns_dir_first_strong env (Suc k) d n =
     (if kind (nodes d n) = NS_NODE_TEXT \<and> node_text (nodes d n) \<noteq> None then
        ns_dir_first_strong_str env (the (node_text (nodes d n)))
      else if \<not> is_element d n then None
      else first_some (\<lambda>c. if dir_skipped d c then None else ns_dir_first_strong env k d c) (children d n))"

definition ns_ce_attr_enables :: "string option \<Rightarrow> bool" where
  "ns_ce_attr_enables ce \<longleftrightarrow> ce = Some [] \<or> type_among [''true'', ''plaintext-only''] ce"

definition ns_node_is_contenteditable_host :: "dom \<Rightarrow> ref \<Rightarrow> bool" where
  "ns_node_is_contenteditable_host d n \<longleftrightarrow> is_element d n \<and> node_name (nodes d n) \<notin> {None, Some ''input'', Some ''textarea''} \<and>
     ns_ce_attr_enables (attr_of d n ''contenteditable'')"

definition ns_node_editable_value :: "dom \<Rightarrow> ref \<Rightarrow> string" where
  "ns_node_editable_value d n =
     (if node_name (nodes d n) = Some ''textarea'' then the (ns_input_used_value d n)
      else if ns_node_is_contenteditable_host d n then
        (case first_some (text_child d) (children d n) of Some t \<Rightarrow> t | None \<Rightarrow> [])
      else (case ns_input_used_value d n of Some v \<Rightarrow> v | None \<Rightarrow> []))"

definition ns_dir_form_control_value :: "dom \<Rightarrow> ref \<Rightarrow> string option" where
  "ns_dir_form_control_value d n =
     (if type_among [''textarea''] (node_name (nodes d n)) then Some (ns_node_editable_value d n)
      else if \<not> type_among [''input''] (node_name (nodes d n)) then None
      else if attr_of d n ''type'' = None \<or>
        type_among [''hidden'', ''text'', ''search'', ''tel'', ''url'', ''email'', ''password'', ''submit'', ''reset'', ''button'']
          (attr_of d n ''type'') then Some (ns_node_editable_value d n)
      else None)"

definition ns_dir_auto_resolve :: "'f css_env \<Rightarrow> dom \<Rightarrow> ref \<Rightarrow> string" where
  "ns_dir_auto_resolve env d n =
     (case (case ns_dir_form_control_value d n of
              Some v \<Rightarrow> ns_dir_first_strong_str env v | None \<Rightarrow> ns_dir_first_strong env 257 d n) of
        Some x \<Rightarrow> x | None \<Rightarrow> ''ltr'')"

text \<open>What one element on the way up says about the direction of \<^verbatim>\<open>el\<close>.\<close>

definition node_dir :: "'f css_env \<Rightarrow> dom \<Rightarrow> ref \<Rightarrow> ref \<Rightarrow> string option" where
  "node_dir env d el n =
     (if \<not> is_element d n then None
      else
        let dir = attr_of d n ''dir'' in
        if type_among [''ltr''] dir then Some ''ltr''
        else if type_among [''rtl''] dir then Some ''rtl''
        else if type_among [''auto''] dir then Some (ns_dir_auto_resolve env d n)
        else if type_among [''bdi''] (node_name (nodes d n)) then
          Some (case ns_dir_first_strong env 257 d n of Some x \<Rightarrow> x | None \<Rightarrow> ''ltr'')
        else if n = el \<and> type_among [''input''] (node_name (nodes d n)) \<and> type_among [''tel''] (attr_of d n ''type'') then Some ''ltr''
        else None)"

definition ns_css_node_dir :: "'f css_env \<Rightarrow> dom \<Rightarrow> ref \<Rightarrow> string" where
  "ns_css_node_dir env d el =
     (case first_some (node_dir env d el) (ancestors_or_self d el) of Some x \<Rightarrow> x | None \<Rightarrow> ''ltr'')"

section \<open>Validity\<close>

definition ns_css_value_matches_pattern :: "regex \<Rightarrow> string \<Rightarrow> string option \<Rightarrow> bool" where
  "ns_css_value_matches_pattern re value pattern =
     (case pattern of
        None \<Rightarrow> True
      | Some p \<Rightarrow> if p = [] then True else (case re (''^(?:'' @ p @ '')$'') of None \<Rightarrow> True | Some m \<Rightarrow> m value))"

definition ns_css_node_will_validate :: "dom \<Rightarrow> ref \<Rightarrow> bool" where
  "ns_css_node_will_validate d el \<longleftrightarrow>
     (el_named d el ''input'' \<or> el_named d el ''textarea'' \<or> el_named d el ''select'') \<and>
     \<not> ns_element_effectively_disabled d el \<and> \<not> ns_form_control_readonly_bars_validation d el \<and>
     \<not> (el_named d el ''input'' \<and> type_among [''submit'', ''button'', ''reset'', ''image'', ''hidden''] (attr_of d el ''type''))"

definition ns_css_control_value_dup :: "dom \<Rightarrow> ref \<Rightarrow> string" where
  "ns_css_control_value_dup d el =
     (if node_name (nodes d el) = None then []
      else if node_name (nodes d el) = Some ''textarea'' then ns_node_collect_text d el
      else if node_name (nodes d el) = Some ''select'' then
        (case (if attr_of d el ''multiple'' \<noteq> None then ns_select_first_selected_option d el else ns_select_chosen_option d el) of
           Some opt \<Rightarrow> ns_option_value_dup d opt | None \<Rightarrow> [])
      else (case attr_of d el ''value'' of Some v \<Rightarrow> v | None \<Rightarrow> []))"

text \<open>The checks other than that for a missing value.\<close>

definition css_constraints_hold :: "'f css_env \<Rightarrow> dom \<Rightarrow> ref \<Rightarrow> string \<Rightarrow> bool" where
  "css_constraints_hold env d el value \<longleftrightarrow>
     (let F = css_floating env; is_input = el_named d el ''input'';
          type = (if is_input then attr_of d el ''type'' else None) in
      value = [] \<or>
      ((type = None \<or>
         ((if type_among [''email''] type then ns_input_email_value_valid d el value
           else if type_among [''url''] type then ns_url_is_valid_absolute (css_lxb env) value
           else \<not> ns_input_type_has_number_value type \<or> ns_input_value_to_number F type (Some value) \<noteq> None) \<and>
          ns_value_matches_range F d el value \<and>
          \<not> ns_input_value_step_mismatch F d el value)) \<and>
       (is_input \<and> ns_input_type_supports_text_constraints type \<longrightarrow>
          ns_css_value_matches_pattern (css_regex env) value (attr_of d el ''pattern'')) \<and>
       length_ok d el value))"

definition ns_css_control_is_valid :: "'f css_env \<Rightarrow> ref \<Rightarrow> 'g sel_state \<Rightarrow> 'g sel_state \<times> bool" where
  "ns_css_control_is_valid env el s =
     (let d = tree s in
      if \<not> ns_css_node_will_validate d el then (s, False)
      else if attr_of d el NS_CUSTOM_VALIDITY_ATTR \<notin> {None, Some []} then (s, False)
      else
        let value = ns_css_control_value_dup d el in
        if ns_form_control_supports_required d el \<and> attr_of d el ''required'' \<noteq> None then
          (case ns_form_control_value_missing el value (Some (ns_node_root d el)) d of
             (d', missing) \<Rightarrow> (s\<lparr>tree := d'\<rparr>, \<not> missing \<and> css_constraints_hold env d' el value))
        else (s, css_constraints_hold env d el value))"


section \<open>What the questions leave alone\<close>

definition caches_ok :: "dom \<Rightarrow> bool" where
  "caches_ok d \<longleftrightarrow> (\<forall>r. attrs_ok (nodes d r) \<and> class_ok (nodes d r) \<and> cache_ok (nodes d r))"

definition caches :: "dom \<Rightarrow> ref \<Rightarrow> string list option \<times> 64 word" where
  "caches d r = (class_set (nodes d r), attr_bloom (nodes d r))"

lemma same_attrs: "same_tree d e \<Longrightarrow> attrs (nodes e r) = attrs (nodes d r) \<and> node_flags (nodes e r) = node_flags (nodes d r) \<and>
    parent (nodes e r) = parent (nodes d r) \<and> prev_sibling (nodes e r) = prev_sibling (nodes d r) \<and>
    next_sibling (nodes e r) = next_sibling (nodes d r)"
  unfolding same_tree_def by blast

lemma same_class_tokens: "same_tree d e \<Longrightarrow> class_tokens (nodes e r) = class_tokens (nodes d r)"
  by (simp add: class_tokens_def same_view)

lemma caches_ok_transfer:
  assumes "same_tree d e" "same_tree d e'" "caches e' = caches e" "caches_ok e"
  shows "caches_ok e'"
proof -
  have "class_set (nodes e' r) = class_set (nodes e r)" "attr_bloom (nodes e' r) = attr_bloom (nodes e r)" for r
    using assms(3) by (auto simp: caches_def fun_eq_iff)
  then show ?thesis
    using assms(4) same_attrs [OF assms(1)] same_attrs [OF assms(2)] same_class_tokens [OF assms(1)] same_class_tokens [OF assms(2)]
    by (simp add: caches_ok_def attrs_ok_def class_ok_def cache_ok_def)
qed

lemma find_by_id_caches: "caches (fst (ns_node_find_by_id r i e)) = caches e"
  by (auto simp: ns_node_find_by_id_def caches_def set_node_def upd_apply fun_eq_iff Let_def split: option.split)

lemma owner_caches: "caches (fst (ns_form_owner n doc e)) = caches e"
  using find_by_id_caches by (auto simp: ns_form_owner_def Let_def split: option.split prod.split) (metis fst_conv)+

lemma any_child_caches: "(\<And>c e. caches (fst (f c e)) = caches e) \<Longrightarrow> caches (fst (any_child f cs e)) = caches e"
proof (induction cs arbitrary: e)
  case (Cons c cs)
  then show ?case using Cons.prems [of c e] by (cases "f c e") (auto split: bool.split)
qed simp

lemma radio_caches: "caches (fst (ns_radio_group_has_checked k scan doc ow name e)) = caches e"
proof (induction k arbitrary: scan e)
  case (Suc k)
  have "caches (fst (any_child (\<lambda>c. ns_radio_group_has_checked k c doc ow name) cs e)) = caches e" for cs e
    by (rule any_child_caches) (rule Suc.IH)
  moreover have "caches (fst (ns_form_owner scan doc e)) = caches e" by (rule owner_caches)
  ultimately show ?case by (auto split: prod.split)
qed simp

lemma missing_caches: "caches (fst (ns_form_control_value_missing c v doc e)) = caches e"
proof -
  have "caches (fst (case ns_form_owner c (Some r) e of (d, ow) \<Rightarrow>
      case ns_radio_group_has_checked 512 r (Some r) ow name d of (d, found) \<Rightarrow> (d, \<not> found))) = caches e" for r name
    using owner_caches [of c "Some r" e] radio_caches
    by (cases "ns_form_owner c (Some r) e") (auto split: prod.split, metis fst_conv)
  then show ?thesis by (simp add: ns_form_control_value_missing_def Let_def)
qed

definition sel_ok :: "ref \<Rightarrow> dom \<Rightarrow> ('g \<Rightarrow> ref \<Rightarrow> bool) \<Rightarrow> 'g sel_state \<Rightarrow> bool" where
  "sel_ok doc d G s \<longleftrightarrow> same_tree d (tree s) \<and> doc_ok doc (tree s) \<and> caches_ok (tree s) \<and>
     (\<forall>r l. pragma s = Some (r, l) \<longrightarrow> l = ns_css_pragma_language_scan 512 d r None) \<and>
     (\<forall>m g a b. has_memo s = Some m \<longrightarrow> m (g, a) = Some b \<longrightarrow> b = G g a)"

lemma sel_okD:
  assumes "sel_ok doc d G s"
  shows "same_tree d (tree s)" "doc_ok doc (tree s)" "caches_ok (tree s)"
  using assms by (simp_all add: sel_ok_def)

lemma sel_ok_tree: "sel_ok doc d G s \<Longrightarrow> same_tree d e \<Longrightarrow> doc_ok doc e \<Longrightarrow> caches_ok e \<Longrightarrow> sel_ok doc d G (s\<lparr>tree := e\<rparr>)"
  by (simp add: sel_ok_def)

lemma looks_pred: "(\<And>e. same_tree d e \<Longrightarrow> P e = x) \<Longrightarrow> looks (sel_ok doc d G) (\<lambda>s. (s, P (tree s))) x"
  by (simp add: looks_def sel_ok_def)

lemma looks_owner: "looks (sel_ok doc d G) (form_owner n (Some doc)) (owner_of d doc n)"
proof (rule looksI)
  fix s assume s: "sel_ok doc d G s"
  note ok = sel_okD [OF s]
  obtain e where e: "ns_form_owner n (Some doc) (tree s) = (e, owner_of d doc n)" "same_tree d e" "doc_ok doc e"
    using readsD [OF reads_owner ok(1,2)] by blast
  have "caches_ok e" using caches_ok_transfer [OF ok(1) e(2) _ ok(3)] owner_caches [of n "Some doc" "tree s"] e(1) by simp
  then show "\<exists>s'. form_owner n (Some doc) s = (s', owner_of d doc n) \<and> sel_ok doc d G s'"
    using sel_ok_tree [OF s e(2,3)] e(1) by (simp add: form_owner_def)
qed

lemma same_index_exact:
  assumes "same_tree d e" "id_index (nodes e doc) = id_index (nodes d doc)" "id_counts (nodes e doc) = id_counts (nodes d doc)"
    "index_exact d doc"
  shows "index_exact e doc"
proof -
  have "snd (ns_node_find_by_id doc i e) = snd (ns_node_find_by_id doc i d)" for i
    by (unfold ns_node_find_by_id_def find_by_id_visited same_view [OF assms(1)] assms(2,3)) (auto simp: Let_def split: option.split)
  then show ?thesis using assms(4) by (simp add: index_exact_def same_view [OF assms(1)])
qed

lemma same_doc_ok:
  assumes "same_tree d e" "id_index (nodes e doc) = id_index (nodes d doc)" "id_counts (nodes e doc) = id_counts (nodes d doc)"
    "doc_ok doc d"
  shows "doc_ok doc e"
proof -
  have "n_nodes e = n_nodes d" using assms(1) unfolding same_tree_def by blast
  then show ?thesis using assms(4) same_dom_tree [OF assms(1)] same_index_exact [OF assms(1-3)] by (auto simp: doc_ok_def)
qed

text \<open>Filling a cache of one node with what it should hold.\<close>

lemma sel_ok_fill:
  assumes s: "sel_ok doc d G s"
    and n: "n = (nodes (tree s) el)\<lparr>class_set := ts, attr_bloom := b\<rparr>" "attrs_ok n" "cache_ok n"
  shows "sel_ok doc d G (s\<lparr>tree := set_node el (\<lambda>_. n) (tree s)\<rparr>)"
proof -
  note ok = sel_okD [OF s]
  let ?e = "set_node el (\<lambda>_. n) (tree s)"
  have eq: "nodes ?e r = (if r = el then n else nodes (tree s) r)" "n_nodes ?e = n_nodes (tree s)" for r
    by (simp_all add: set_node_def upd_apply)
  have same: "same_tree (tree s) ?e" by (simp only: same_tree_def eq) (simp add: n(1))
  have "doc_ok doc ?e" by (rule same_doc_ok [OF same _ _ ok(2)]) (simp_all only: eq, simp_all add: n(1))
  moreover have "class_ok n" using ok(3) by (simp add: caches_ok_def n(1) class_ok_def)
  then have "caches_ok ?e" using ok(3) n(2,3) by (simp only: caches_ok_def eq) simp
  ultimately show ?thesis using sel_ok_tree [OF s same_tree_trans [OF ok(1) same]] by blast
qed

lemma looks_class: "looks (sel_ok doc d G) (has_class el c) (is_element d el \<and> c \<in> set (class_tokens (nodes d el)))"
proof (rule looksI)
  fix s assume s: "sel_ok doc d G s"
  note ok = sel_okD [OF s]
  let ?n = "nodes (tree s) el"
  let ?m = "fst (ns_node_has_class ?n c)"
  have n: "attrs_ok ?n" "class_ok ?n" "cache_ok ?n" using ok(3) by (simp_all add: caches_ok_def)
  have m: "?m = ?n\<lparr>class_set := class_set ?m, attr_bloom := attr_bloom ?m\<rparr>"
    by (simp add: ns_node_has_class_def Let_def split: option.split)
  have am: "attrs_ok ?m" using n(1) by (simp add: ns_node_has_class_def attrs_ok_def Let_def split: option.split)
  have tok: "class_tokens (?n\<lparr>class_set := x\<rparr>) = class_tokens ?n" for x
    by (simp add: class_tokens_def ns_element_get_attr_def ns_element_find_attr_def has_flag_def)
  have "cache_ok ?m"
    using n(3) by (auto simp: ns_node_has_class_def cache_ok_def tok Let_def split: option.splits) (simp_all add: class_tokens_def)
  from sel_ok_fill [OF s m am this] have "sel_ok doc d G (s\<lparr>tree := set_node el (\<lambda>_. ?m) (tree s)\<rparr>)" .
  moreover have "snd (ns_node_has_class ?n c) \<longleftrightarrow> is_element d el \<and> c \<in> set (class_tokens (nodes d el))"
    using has_class_tokens [OF _ n(3), of c] same_class_tokens [OF ok(1), of el] same_view(1) [OF ok(1), of el]
    by (cases "is_element d el") (simp_all add: ns_node_has_class_def)
  ultimately show "\<exists>s'. has_class el c s = (s', is_element d el \<and> c \<in> set (class_tokens (nodes d el))) \<and> sel_ok doc d G s'"
    by (simp add: has_class_def split: prod.split) (metis fst_conv snd_conv)
qed

lemma looks_bloom: "looks (sel_ok doc d G) (bloom el) (bloom_of (attrs (nodes d el)))"
proof (rule looksI)
  fix s assume s: "sel_ok doc d G s"
  note ok = sel_okD [OF s]
  let ?n = "nodes (tree s) el"
  let ?m = "fst (ns_node_attr_bloom ?n)"
  have n: "attrs_ok ?n" "class_ok ?n" "cache_ok ?n" using ok(3) by (simp_all add: caches_ok_def)
  have b: "snd (ns_node_attr_bloom ?n) = bloom_of (attrs (nodes d el))"
    using attr_bloom_of [OF n(1)] same_attrs [OF ok(1), of el] by simp
  have m: "?m = ?n\<lparr>class_set := class_set ?m, attr_bloom := attr_bloom ?m\<rparr>" by (simp add: ns_node_attr_bloom_def Let_def)
  have am: "attrs_ok ?m" using n(1) bloom_foldl [of 0 "attrs ?n"] by (simp add: ns_node_attr_bloom_def attrs_ok_def Let_def)
  have tok: "class_tokens (?n\<lparr>attr_bloom := x\<rparr>) = class_tokens ?n" for x
    by (simp add: class_tokens_def ns_element_get_attr_def ns_element_find_attr_def has_flag_def)
  have "cache_ok ?m" using n(3) by (simp add: ns_node_attr_bloom_def cache_ok_def tok Let_def)
  from sel_ok_fill [OF s m am this] b
  show "\<exists>s'. bloom el s = (s', bloom_of (attrs (nodes d el))) \<and> sel_ok doc d G s'"
    by (simp add: bloom_def split: prod.split) (metis fst_conv snd_conv)
qed


section \<open>The answers\<close>

text \<open>The nodes below a node in document order, down to a depth, without the contents of templates.\<close>

primrec css_walk :: "nat \<Rightarrow> dom \<Rightarrow> ref \<Rightarrow> ref list" where
  "css_walk 0 d n = []"
| "css_walk (Suc k) d n = n # (if el_named d n ''template'' then [] else concat (map (css_walk k d) (children d n)))"

definition submit_hit :: "dom \<Rightarrow> ref \<Rightarrow> ref option \<Rightarrow> ref \<Rightarrow> bool" where
  "submit_hit d doc ow n \<longleftrightarrow> is_element d n \<and> ns_el_is_submit_button d n \<and> \<not> ns_element_effectively_disabled d n \<and>
     owner_of d doc n = ow"

definition is_default :: "dom \<Rightarrow> ref \<Rightarrow> ref \<Rightarrow> bool" where
  "is_default d doc el \<longleftrightarrow>
     (if el_named d el ''option'' then attr_of d el ''selected'' \<noteq> None
      else if el_named d el ''input'' \<and> type_among [''checkbox'', ''radio''] (attr_of d el ''type'') then attr_of d el ''checked'' \<noteq> None
      else ns_el_is_submit_button d el \<and> owner_of d doc el \<noteq> None \<and>
        List.find (submit_hit d doc (owner_of d doc el)) (css_walk 512 d doc) = Some el)"

definition is_indeterminate :: "dom \<Rightarrow> ref \<Rightarrow> ref \<Rightarrow> bool" where
  "is_indeterminate d doc el \<longleftrightarrow>
     (if el_named d el ''progress'' then attr_of d el ''value'' = None
      else ns_input_type_is d el ''radio'' \<and>
        \<not> list_ex (radio_hit d doc (owner_of d doc el) (case attr_of d el ''name'' of Some n \<Rightarrow> n | None \<Rightarrow> []))
            (css_walk 512 d doc))"

definition is_valid :: "'f css_env \<Rightarrow> dom \<Rightarrow> ref \<Rightarrow> ref \<Rightarrow> bool" where
  "is_valid env d doc el \<longleftrightarrow>
     ns_css_node_will_validate d el \<and> attr_of d el NS_CUSTOM_VALIDITY_ATTR \<in> {None, Some []} \<and>
     \<not> (ns_form_control_supports_required d el \<and> attr_of d el ''required'' \<noteq> None \<and>
        value_missing d doc (ns_css_control_value_dup d el) el) \<and>
     css_constraints_hold env d el (ns_css_control_value_dup d el)"

definition language_of :: "'f css_env \<Rightarrow> dom \<Rightarrow> ref \<Rightarrow> string option" where
  "language_of env d el =
     (case first_some (node_lang d) (ancestors_or_self d el) of
        Some l \<Rightarrow> Some l
      | None \<Rightarrow> (case ns_css_pragma_language_scan 512 d (ns_node_root d el) None of
          Some l \<Rightarrow> Some l | None \<Rightarrow> css_doc_language env))"

definition lang_matches :: "'f css_env \<Rightarrow> dom \<Rightarrow> ref \<Rightarrow> string option \<Rightarrow> bool" where
  "lang_matches env d el arg \<longleftrightarrow>
     (case (language_of env d el, arg) of
        (Some l, Some a) \<Rightarrow> list_ex (ns_css_lang_one_matches l) (lang_segments a) | _ \<Rightarrow> False)"

lemma same_flags: "same_tree d e \<Longrightarrow> has_flag (nodes e r) = has_flag (nodes d r)"
  by (intro ext) (simp add: has_flag_def same_attrs)

lemma same_root: "same_tree d e \<Longrightarrow> ns_node_root e = ns_node_root d"
  by (intro ext) (simp add: ns_node_root_def same_view)

lemma same_find_ns: "same_tree d e \<Longrightarrow> ns_element_find_attr_ns (nodes e r) = ns_element_find_attr_ns (nodes d r)"
  by (intro ext) (simp add: ns_element_find_attr_ns_def same_view same_attrs)

lemma same_collect: "same_tree d e \<Longrightarrow> ns_node_collect_text e = ns_node_collect_text d"
proof
  fix r assume s: "same_tree d e"
  have "collect_text k e n = collect_text k d n" for k n
  proof (induction k arbitrary: n)
    case (Suc k)
    then have ih: "collect_text k e = collect_text k d" by (rule ext)
    show ?case by (unfold collect_text.simps same_view [OF s] ih, rule refl)
  qed simp
  then show "ns_node_collect_text e r = ns_node_collect_text d r" by (simp add: ns_node_collect_text_def)
qed

lemma same_control_preds:
  assumes "same_tree d e"
  shows "ns_el_is_checked e = ns_el_is_checked d" "ns_el_is_submit_button e = ns_el_is_submit_button d"
    "ns_el_is_read_write e = ns_el_is_read_write d" "ns_el_placeholder_shown e = ns_el_placeholder_shown d"
    "ns_el_is_blank e = ns_el_is_blank d" "ns_el_is_empty e = ns_el_is_empty d" "ns_el_range_state F e = ns_el_range_state F d"
    "ns_element_supports_disabled e = ns_element_supports_disabled d"
    "ns_css_node_will_validate e = ns_css_node_will_validate d" "ns_css_control_value_dup e = ns_css_control_value_dup d"
    "css_constraints_hold env e = css_constraints_hold env d"
proof -
  have p: "parent (nodes e r) = parent (nodes d r)" for r using same_attrs [OF assms] by simp
  have first: "ns_select_first_selected_option e = ns_select_first_selected_option d"
    by (intro ext) (unfold ns_select_first_selected_option_def same_view [OF assms], rule refl)
  have te: "ns_input_is_text_entry e = ns_input_is_text_entry d"
    by (intro ext) (unfold ns_input_is_text_entry_def same_view [OF assms], rule refl)
  have lo: "length_ok e = length_ok d"
    by (intro ext) (unfold length_ok_def same_view [OF assms] same_controls [OF assms], rule refl)
  note v = same_view [OF assms] same_controls [OF assms] same_collect [OF assms] p te lo first
  show "ns_el_is_checked e = ns_el_is_checked d" by (intro ext) (unfold ns_el_is_checked_def v, rule refl)
  show "ns_el_is_submit_button e = ns_el_is_submit_button d" by (intro ext) (unfold ns_el_is_submit_button_def v, rule refl)
  show "ns_el_is_read_write e = ns_el_is_read_write d" by (intro ext) (unfold ns_el_is_read_write_def v, rule refl)
  show "ns_el_placeholder_shown e = ns_el_placeholder_shown d" by (intro ext) (unfold ns_el_placeholder_shown_def v, rule refl)
  show "ns_el_is_blank e = ns_el_is_blank d" by (intro ext) (unfold ns_el_is_blank_def v, rule refl)
  show "ns_el_is_empty e = ns_el_is_empty d" by (intro ext) (unfold ns_el_is_empty_def v, rule refl)
  show "ns_el_range_state F e = ns_el_range_state F d" by (intro ext) (unfold ns_el_range_state_def v, rule refl)
  show "ns_element_supports_disabled e = ns_element_supports_disabled d"
    by (intro ext) (unfold ns_element_supports_disabled_def v, rule refl)
  show "ns_css_node_will_validate e = ns_css_node_will_validate d"
    by (intro ext) (unfold ns_css_node_will_validate_def v, rule refl)
  show "ns_css_control_value_dup e = ns_css_control_value_dup d" by (intro ext) (unfold ns_css_control_value_dup_def v, rule refl)
  show "css_constraints_hold env e = css_constraints_hold env d"
    by (intro ext) (unfold css_constraints_hold_def ns_value_matches_range_def v, rule refl)
qed

lemma same_links:
  assumes "same_tree d e"
  shows "ns_el_is_link e = ns_el_is_link d" "ns_el_is_visited_link env e = ns_el_is_visited_link env d"
    "ns_css_node_is_target env e = ns_css_node_is_target env d"
    "ns_css_node_has_target_within env k e = ns_css_node_has_target_within env k d"
    "ns_css_node_dir env e = ns_css_node_dir env d" "node_lang e = node_lang d"
    "ns_css_pragma_language_scan k e = ns_css_pragma_language_scan k d"
proof -
  note v = same_view [OF assms] same_flags [OF assms] same_find_ns [OF assms] same_controls [OF assms]
  show l: "ns_el_is_link e = ns_el_is_link d" by (intro ext) (unfold ns_el_is_link_def v, rule refl)
  show "ns_el_is_visited_link env e = ns_el_is_visited_link env d" by (intro ext) (unfold ns_el_is_visited_link_def v l, rule refl)
  show t: "ns_css_node_is_target env e = ns_css_node_is_target env d"
    by (intro ext) (unfold ns_css_node_is_target_def v, rule refl)
  show "ns_css_node_has_target_within env k e = ns_css_node_has_target_within env k d"
    by (induction k) (intro ext, unfold ns_css_node_has_target_within.simps v t, simp_all)
  have sk: "dir_skipped e = dir_skipped d" by (intro ext) (unfold dir_skipped_def v, rule refl)
  have fs: "ns_dir_first_strong env k e = ns_dir_first_strong env k d" for k
    by (induction k) (intro ext, unfold ns_dir_first_strong.simps v sk, simp_all cong: if_cong)
  have tc: "text_child e = text_child d" by (intro ext) (unfold text_child_def v, rule refl)
  have ev: "ns_node_editable_value e = ns_node_editable_value d"
    by (intro ext) (unfold ns_node_editable_value_def ns_node_is_contenteditable_host_def v tc, rule refl)
  have "node_dir env e = node_dir env d"
    by (intro ext) (unfold node_dir_def ns_dir_auto_resolve_def ns_dir_form_control_value_def v fs ev, rule refl)
  then show "ns_css_node_dir env e = ns_css_node_dir env d" by (intro ext) (unfold ns_css_node_dir_def v, simp)
  show "node_lang e = node_lang d" by (intro ext) (unfold node_lang_def v, rule refl)
  have pc: "pragma_content e = pragma_content d" by (intro ext) (unfold pragma_content_def v, rule refl)
  show "ns_css_pragma_language_scan k e = ns_css_pragma_language_scan k d"
    by (induction k) (intro ext, unfold ns_css_pragma_language_scan.simps v pc, simp_all)
qed


lemma looks_if: "(c \<Longrightarrow> looks I f x) \<Longrightarrow> (\<not> c \<Longrightarrow> looks I g y) \<Longrightarrow> looks I (if c then f else g) (if c then x else y)"
  by simp

lemma looks_tree:
  assumes "\<And>e. same_tree d e \<Longrightarrow> f e = f d" and "looks (sel_ok doc d G) (f d) x"
  shows "looks (sel_ok doc d G) (\<lambda>s. f (tree s) s) x"
proof (rule looksI)
  fix s assume s: "sel_ok doc d G s"
  have "f (tree s) = f d" by (rule assms(1) [OF sel_okD(1) [OF s]])
  then show "\<exists>s'. f (tree s) s = (s', x) \<and> sel_ok doc d G s'" using looksD [OF assms(2) s] by simp
qed

lemma looks_radio:
  "looks (sel_ok doc d G) (ns_css_radio_group_has_checked k (Some doc) ow name scan) (list_ex (radio_hit d doc ow name) (css_walk k d scan))"
proof (induction k arbitrary: scan)
  case (Suc k)
  let ?test = "\<lambda>e. ns_input_type_is e scan ''radio'' \<and> (case attr_of e scan ''name'' of Some n \<Rightarrow> n | None \<Rightarrow> []) = name"
  have test: "looks (sel_ok doc d G) (\<lambda>s. (s, ?test (tree s))) (?test d)"
    by (rule looks_pred) (simp only: same_view same_controls)
  have own: "looks (sel_ok doc d G) (\<lambda>s. case form_owner scan (Some doc) s of (s, o') \<Rightarrow> (s, o' = ow \<and> ns_input_is_checked (tree s) scan))
      (owner_of d doc scan = ow \<and> ns_input_is_checked d scan)"
  proof (rule looksI)
    fix s :: "'a sel_state" assume "sel_ok doc d G s"
    from looksD [OF looks_owner this] obtain s' where s': "form_owner scan (Some doc) s = (s', owner_of d doc scan)" "sel_ok doc d G s'" by blast
    then show "\<exists>s'. (case form_owner scan (Some doc) s of (s, o') \<Rightarrow> (s, o' = ow \<and> ns_input_is_checked (tree s) scan)) =
        (s', owner_of d doc scan = ow \<and> ns_input_is_checked d scan) \<and> sel_ok doc d G s'"
      using same_controls(1) [OF sel_okD(1) [OF s'(2)]] by simp
  qed
  have kids: "looks (sel_ok doc d G) (\<lambda>s. if el_named (tree s) scan ''template'' then (s, False)
        else any_in (ns_css_radio_group_has_checked k (Some doc) ow name) (children (tree s) scan) s)
      (if el_named d scan ''template'' then False else list_ex (\<lambda>c. list_ex (radio_hit d doc ow name) (css_walk k d c)) (children d scan))"
  proof (rule looksI)
    fix s :: "'a sel_state" assume s: "sel_ok doc d G s"
    note v = same_view [OF sel_okD(1) [OF s]]
    have "looks (sel_ok doc d G) (any_in (ns_css_radio_group_has_checked k (Some doc) ow name) (children d scan))
        (list_ex (\<lambda>c. list_ex (radio_hit d doc ow name) (css_walk k d c)) (children d scan))"
      by (rule looks_any) (rule Suc.IH)
    from looksD [OF this s] show "\<exists>s'. (if el_named (tree s) scan ''template'' then (s, False)
        else any_in (ns_css_radio_group_has_checked k (Some doc) ow name) (children (tree s) scan) s) =
        (s', if el_named d scan ''template'' then False else list_ex (\<lambda>c. list_ex (radio_hit d doc ow name) (css_walk k d c)) (children d scan))
        \<and> sel_ok doc d G s'" using s by (simp add: v)
  qed
  show ?case
  proof (rule looksI)
    fix s :: "'a sel_state" assume s: "sel_ok doc d G s"
    from looksD [OF looks_both [OF test own] s] obtain s1 where
      s1: "both (\<lambda>s. (s, ?test (tree s))) (\<lambda>s. case form_owner scan (Some doc) s of (s, o') \<Rightarrow> (s, o' = ow \<and> ns_input_is_checked (tree s) scan)) s =
        (s1, radio_hit d doc ow name scan)" "sel_ok doc d G s1" by (auto simp: radio_hit_def)
    show "\<exists>s'. ns_css_radio_group_has_checked (Suc k) (Some doc) ow name scan s =
        (s', list_ex (radio_hit d doc ow name) (css_walk (Suc k) d scan)) \<and> sel_ok doc d G s'"
      using s1 looksD [OF kids s1(2)] by (cases "radio_hit d doc ow name scan") (auto simp: list_ex_concat_map)
  qed
qed (simp add: looks_def)

lemma looks_submit:
  "looks (sel_ok doc d G) (ns_css_first_submit_button_for k (Some doc) ow scan) (List.find (submit_hit d doc ow) (css_walk k d scan))"
proof (induction k arbitrary: scan)
  case (Suc k)
  let ?test = "\<lambda>e. is_element e scan \<and> ns_el_is_submit_button e scan \<and> \<not> ns_element_effectively_disabled e scan"
  have test: "looks (sel_ok doc d G) (\<lambda>s. (s, ?test (tree s))) (?test d)"
    by (rule looks_pred) (simp only: same_view same_controls same_control_preds)
  have own: "looks (sel_ok doc d G) (\<lambda>s. case form_owner scan (Some doc) s of (s, o') \<Rightarrow> (s, o' = ow)) (owner_of d doc scan = ow)"
    using looks_owner [of doc d G scan] by (auto simp: looks_def split: prod.split)
  have kids: "looks (sel_ok doc d G) (\<lambda>s. if el_named (tree s) scan ''template'' then (s, None)
        else first_in (ns_css_first_submit_button_for k (Some doc) ow) (children (tree s) scan) s)
      (if el_named d scan ''template'' then None else List.find (submit_hit d doc ow) (concat (map (css_walk k d) (children d scan))))"
  proof (rule looksI)
    fix s :: "'a sel_state" assume s: "sel_ok doc d G s"
    note v = same_view [OF sel_okD(1) [OF s]]
    have "looks (sel_ok doc d G) (first_in (ns_css_first_submit_button_for k (Some doc) ow) (children d scan))
        (first_some (\<lambda>c. List.find (submit_hit d doc ow) (css_walk k d c)) (children d scan))"
      by (rule looks_first) (rule Suc.IH)
    from looksD [OF this s] show "\<exists>s'. (if el_named (tree s) scan ''template'' then (s, None)
        else first_in (ns_css_first_submit_button_for k (Some doc) ow) (children (tree s) scan) s) =
        (s', if el_named d scan ''template'' then None else List.find (submit_hit d doc ow) (concat (map (css_walk k d) (children d scan))))
        \<and> sel_ok doc d G s'" using s first_some_find [of "children d scan" _ "submit_hit d doc ow" "css_walk k d"] by (simp add: v)
  qed
  show ?case
  proof (rule looksI)
    fix s :: "'a sel_state" assume s: "sel_ok doc d G s"
    from looksD [OF looks_both [OF test own] s] obtain s1 where
      s1: "both (\<lambda>s. (s, ?test (tree s))) (\<lambda>s. case form_owner scan (Some doc) s of (s, o') \<Rightarrow> (s, o' = ow)) s =
        (s1, submit_hit d doc ow scan)" "sel_ok doc d G s1" by (auto simp: submit_hit_def)
    show "\<exists>s'. ns_css_first_submit_button_for (Suc k) (Some doc) ow scan s =
        (s', List.find (submit_hit d doc ow) (css_walk (Suc k) d scan)) \<and> sel_ok doc d G s'"
      using s1 looksD [OF kids s1(2)] by (cases "submit_hit d doc ow scan") auto
  qed
qed (simp add: looks_def)

lemma looks_default:
  assumes "ns_node_root d el = doc"
  shows "looks (sel_ok doc d G) (ns_el_is_default el) (is_default d doc el)"
proof (rule looksI)
  fix s :: "'a sel_state" assume s: "sel_ok doc d G s"
  note v = same_view [OF sel_okD(1) [OF s]] same_control_preds [OF sel_okD(1) [OF s]] same_root [OF sel_okD(1) [OF s]] assms
  from looksD [OF looks_owner s] obtain s1 where s1: "form_owner el (Some doc) s = (s1, owner_of d doc el)" "sel_ok doc d G s1" by blast
  show "\<exists>s'. ns_el_is_default el s = (s', is_default d doc el) \<and> sel_ok doc d G s'"
  proof (cases "owner_of d doc el")
    case (Some ow)
    from looksD [OF looks_submit s1(2)] obtain s2 where
      "ns_css_first_submit_button_for 512 (Some doc) (Some ow) doc s1 = (s2, List.find (submit_hit d doc (Some ow)) (css_walk 512 d doc))"
      "sel_ok doc d G s2" by blast
    then show ?thesis using s s1 Some by (auto simp: ns_el_is_default_def is_default_def v Let_def)
  qed (use s s1 in \<open>auto simp: ns_el_is_default_def is_default_def v Let_def\<close>)
qed

lemma looks_indeterminate:
  assumes "ns_node_root d el = doc"
  shows "looks (sel_ok doc d G) (ns_el_is_indeterminate el) (is_indeterminate d doc el)"
proof (rule looksI)
  fix s :: "'a sel_state" assume s: "sel_ok doc d G s"
  note v = same_view [OF sel_okD(1) [OF s]] same_controls(2) [OF sel_okD(1) [OF s]] same_root [OF sel_okD(1) [OF s]] assms
  let ?n = "case attr_of d el ''name'' of Some n \<Rightarrow> n | None \<Rightarrow> []"
  from looksD [OF looks_owner s] obtain s1 where s1: "form_owner el (Some doc) s = (s1, owner_of d doc el)" "sel_ok doc d G s1" by blast
  from looksD [OF looks_radio s1(2)] obtain s2 where
    "ns_css_radio_group_has_checked 512 (Some doc) (owner_of d doc el) ?n doc s1 =
       (s2, list_ex (radio_hit d doc (owner_of d doc el) ?n) (css_walk 512 d doc))" "sel_ok doc d G s2" by blast
  then show "\<exists>s'. ns_el_is_indeterminate el s = (s', is_indeterminate d doc el) \<and> sel_ok doc d G s'"
    using s s1 by (auto simp: ns_el_is_indeterminate_def is_indeterminate_def v Let_def)
qed

lemma looks_valid:
  assumes "ns_node_root d el = doc"
  shows "looks (sel_ok doc d G) (ns_css_control_is_valid env el) (is_valid env d doc el)"
proof (rule looksI)
  fix s :: "'a sel_state" assume s: "sel_ok doc d G s"
  note ok = sel_okD [OF s]
  note v = same_view [OF ok(1)] same_controls [OF ok(1)] same_control_preds [OF ok(1)] same_root [OF ok(1)] assms
  let ?v = "ns_css_control_value_dup d el"
  obtain e where e: "ns_form_control_value_missing el ?v (Some doc) (tree s) = (e, value_missing d doc ?v el)"
      "same_tree d e" "doc_ok doc e" using readsD [OF reads_missing ok(1,2)] by blast
  have "caches_ok e"
    using caches_ok_transfer [OF ok(1) e(2) _ ok(3)] missing_caches [of el ?v "Some doc" "tree s"] e(1) by simp
  then have "sel_ok doc d G (s\<lparr>tree := e\<rparr>)" by (rule sel_ok_tree [OF s e(2,3)])
  then show "\<exists>s'. ns_css_control_is_valid env el s = (s', is_valid env d doc el) \<and> sel_ok doc d G s'"
    using s e(1) same_control_preds(11) [OF e(2), of env] by (auto simp: ns_css_control_is_valid_def is_valid_def v Let_def)
qed

lemma looks_language: "looks (sel_ok doc d G) (ns_css_node_language env el) (language_of env d el)"
proof (rule looksI)
  fix s :: "'a sel_state" assume s: "sel_ok doc d G s"
  note ok = sel_okD [OF s]
  note v = same_view [OF ok(1)] same_links [OF ok(1)] same_root [OF ok(1)]
  let ?root = "ns_node_root d el"
  have "sel_ok doc d G (s\<lparr>pragma := Some (?root, ns_css_pragma_language_scan 512 d ?root None)\<rparr>)"
    using s by (simp add: sel_ok_def)
  moreover have "map_option fst (pragma s) = Some ?root \<Longrightarrow> pragma s = Some (?root, ns_css_pragma_language_scan 512 d ?root None)"
    using s by (cases "pragma s") (auto simp: sel_ok_def)
  ultimately show "\<exists>s'. ns_css_node_language env el s = (s', language_of env d el) \<and> sel_ok doc d G s'"
    using s by (auto simp: ns_css_node_language_def language_of_def v Let_def split: option.split)
qed

lemma looks_lang: "looks (sel_ok doc d G) (ns_css_lang_matches env el arg) (lang_matches env d el arg)"
proof (rule looksI)
  fix s :: "'a sel_state" assume "sel_ok doc d G s"
  from looksD [OF looks_language this] obtain s' where "ns_css_node_language env el s = (s', language_of env d el)" "sel_ok doc d G s'" by blast
  then show "\<exists>s'. ns_css_lang_matches env el arg s = (s', lang_matches env d el arg) \<and> sel_ok doc d G s'"
    by (simp add: ns_css_lang_matches_def lang_matches_def)
qed

end
