(* ===== verification/NS_Selectors.thy ===== *)
theory NS_Selectors
  imports NS_Selector_State NS_Xml "HOL-Library.Signed_Division"
begin

text \<open>
  Selectors and how they are matched (\<^verbatim>\<open>src/css.c\<close>).  A selector is a list of compounds with the combinators between
  them; the functional pseudo-classes of a compound hold groups of selectors.  \<^verbatim>\<open>match_simple\<close> tests a compound at an
  element; the search to the left of the subject, and the search of \<^verbatim>\<open>:has()\<close>, take that test as an argument.  The
  global \<^verbatim>\<open>g_css_match_scope\<close> is the argument \<^verbatim>\<open>scope\<close>.  \<^verbatim>\<open>sat\<close> says what a compound means, without the caches.
\<close>

section \<open>Data\<close>

datatype ns_css_attr_op = NS_CSS_ATTR_PRESENT | NS_CSS_ATTR_EQ | NS_CSS_ATTR_PREFIX | NS_CSS_ATTR_SUFFIX
  | NS_CSS_ATTR_SUBSTR | NS_CSS_ATTR_WORD | NS_CSS_ATTR_HYPHEN

record ns_css_attr_pred =
  ap_name :: string
  ap_namespace_uri :: "string option"
  ap_op :: ns_css_attr_op
  ap_value :: "string option"
  ap_namespace_any :: bool
  case_insensitive :: bool
  case_sensitive :: bool
  name_bit :: "64 word"

datatype ns_css_pseudo =
    NS_CSS_PC_FIRST_CHILD | NS_CSS_PC_LAST_CHILD | NS_CSS_PC_ONLY_CHILD | NS_CSS_PC_ONLY_OF_TYPE
  | NS_CSS_PC_FIRST_OF_TYPE | NS_CSS_PC_LAST_OF_TYPE | NS_CSS_PC_EMPTY | NS_CSS_PC_ROOT | NS_CSS_PC_CHECKED
  | NS_CSS_PC_DISABLED | NS_CSS_PC_ENABLED | NS_CSS_PC_REQUIRED | NS_CSS_PC_OPTIONAL | NS_CSS_PC_VALID
  | NS_CSS_PC_INVALID | NS_CSS_PC_IN_RANGE | NS_CSS_PC_OUT_OF_RANGE | NS_CSS_PC_DEFAULT | NS_CSS_PC_INDETERMINATE
  | NS_CSS_PC_NTH_CHILD | NS_CSS_PC_NTH_LAST_CHILD | NS_CSS_PC_NTH_OF_TYPE | NS_CSS_PC_NTH_LAST_OF_TYPE
  | NS_CSS_PC_LINK | NS_CSS_PC_VISITED | NS_CSS_PC_ANY_LINK | NS_CSS_PC_HOVER | NS_CSS_PC_ACTIVE | NS_CSS_PC_FOCUS
  | NS_CSS_PC_FOCUS_WITHIN | NS_CSS_PC_TARGET | NS_CSS_PC_TARGET_WITHIN | NS_CSS_PC_DEFINED | NS_CSS_PC_SCOPE
  | NS_CSS_PC_PLACEHOLDER_SHOWN | NS_CSS_PC_READ_ONLY | NS_CSS_PC_READ_WRITE | NS_CSS_PC_BLANK | NS_CSS_PC_LANG
  | NS_CSS_PC_DIR | NS_CSS_PC_OPEN | NS_CSS_PC_POPOVER_OPEN | NS_CSS_PC_MODAL | NS_CSS_PC_HEADING

datatype ns_css_comb = NS_CSS_COMB_NONE | NS_CSS_COMB_DESCENDANT | NS_CSS_COMB_CHILD | NS_CSS_COMB_ADJACENT | NS_CSS_COMB_SIBLING

datatype ns_css_pseudo_element = NS_CSS_PE_NONE | NS_CSS_PE_BEFORE | NS_CSS_PE_AFTER | NS_CSS_PE_FIRST_LETTER
  | NS_CSS_PE_FIRST_LINE | NS_CSS_PE_SELECTION | NS_CSS_PE_MARKER | NS_CSS_PE_BACKDROP | NS_CSS_PE_PLACEHOLDER
  | NS_CSS_PE_FILE_SELECTOR_BUTTON

text \<open>\<^verbatim>\<open>'s\<close> is the type of the selectors in the arguments of pseudo-classes.\<close>

datatype 's ns_css_pseudo_pred =
  Pseudo (pc_kind: ns_css_pseudo) (pc_a: int) (pc_b: int) (pc_arg: "string option") (of_group: "'s list option")

datatype 's ns_css_simple =
  Simple (simple_type: "string option") (simple_namespace: "string option") (simple_id: "string option")
    (classes: "string list") (attr_preds: "ns_css_attr_pred list") (pseudos: "'s ns_css_pseudo_pred list")
    (matches_any: "'s list list") (matches_none: "'s list list") (has_groups: "'s list list")
    (never_match: bool) (namespace_any: bool)

datatype ns_css_selector =
  Selector (compounds: "ns_css_selector ns_css_simple list") (combinators: "ns_css_comb list")
    (pseudo_element: ns_css_pseudo_element) (spec_a: int) (spec_b: int) (spec_c: int)

type_synonym simple = "ns_css_selector ns_css_simple"
type_synonym memo_key = "ns_css_selector list"
type_synonym test = "memo_key sel_state \<Rightarrow> memo_key sel_state \<times> bool"

section \<open>Attributes and names\<close>

definition ns_css_html_ci_attr :: "string \<Rightarrow> bool" where
  "ns_css_html_ci_attr name \<longleftrightarrow> list_ex (strcaseeq name)
     [''accept'', ''accept-charset'', ''align'', ''alink'', ''axis'', ''bgcolor'', ''charset'', ''checked'', ''clear'',
      ''codetype'', ''color'', ''compact'', ''declare'', ''defer'', ''dir'', ''direction'', ''disabled'', ''enctype'',
      ''face'', ''frame'', ''hreflang'', ''http-equiv'', ''lang'', ''language'', ''link'', ''media'', ''method'',
      ''multiple'', ''nohref'', ''noresize'', ''noshade'', ''nowrap'', ''readonly'', ''rel'', ''rev'', ''rules'',
      ''scope'', ''scrolling'', ''selected'', ''shape'', ''target'', ''text'', ''type'', ''valign'', ''valuetype'', ''vlink'']"

text \<open>The words of a value; the tokens of the class attribute are cut the same way.\<close>

definition ns_css_attr_value_matches :: "ns_css_attr_pred \<Rightarrow> string \<Rightarrow> bool \<Rightarrow> bool" where
  "ns_css_attr_value_matches a v html_doc \<longleftrightarrow>
     (if ap_op a = NS_CSS_ATTR_PRESENT then True
      else case ap_value a of
        None \<Rightarrow> False
      | Some w \<Rightarrow>
          let n = length w;
              ci = (case_insensitive a \<or> (\<not> case_sensitive a \<and> html_doc \<and> ns_css_html_ci_attr (ap_name a)));
              eq = (\<lambda>x. if ci then strcaseeq x w else x = w)
          in (case ap_op a of
                NS_CSS_ATTR_EQ \<Rightarrow> eq v
              | NS_CSS_ATTR_PREFIX \<Rightarrow> n > 0 \<and> length v \<ge> n \<and> eq (take n v)
              | NS_CSS_ATTR_SUFFIX \<Rightarrow> n > 0 \<and> length v \<ge> n \<and> eq (drop (length v - n) v)
              | NS_CSS_ATTR_SUBSTR \<Rightarrow> n > 0 \<and> list_ex (\<lambda>i. i + n \<le> length v \<and> eq (take n (drop i v))) [0..<Suc (length v)]
              | NS_CSS_ATTR_WORD \<Rightarrow> list_ex eq (ns_class_set_build v) \<or> (w = [] \<and> v \<noteq> [] \<and> is_ws (last v))
              | NS_CSS_ATTR_HYPHEN \<Rightarrow> length v \<ge> n \<and> eq (take n v) \<and> (length v = n \<or> v ! n = CHR ''-'')
              | NS_CSS_ATTR_PRESENT \<Rightarrow> True))"

definition element_namespace :: "dom \<Rightarrow> ref \<Rightarrow> string option" where
  "element_namespace d el =
     (case attr_of d el ''data-nd-ns-uri'' of
        Some u \<Rightarrow> if u \<noteq> [] then Some u
                 else if has_flag (nodes d el) NS_NODE_SVG_NS then Some ''http://www.w3.org/2000/svg''
                 else if \<not> has_flag (nodes d el) NS_NODE_FOREIGN_NS \<and> \<not> has_flag (nodes d el) NS_NODE_XML_DOC
                   then Some ''http://www.w3.org/1999/xhtml'' else None
      | None \<Rightarrow>
          if has_flag (nodes d el) NS_NODE_SVG_NS then Some ''http://www.w3.org/2000/svg''
          else if \<not> has_flag (nodes d el) NS_NODE_FOREIGN_NS \<and> \<not> has_flag (nodes d el) NS_NODE_XML_DOC
            then Some ''http://www.w3.org/1999/xhtml'' else None)"

text \<open>An HTML element of an HTML document; the names of others are compared with their case.\<close>

definition html_doc :: "dom \<Rightarrow> ref \<Rightarrow> bool" where
  "html_doc d el \<longleftrightarrow> \<not> has_flag (nodes d el) NS_NODE_XML_DOC \<and> \<not> has_flag (nodes d el) NS_NODE_FOREIGN_NS \<and>
     \<not> has_flag (nodes d el) NS_NODE_SVG_NS"

definition local_part :: "dom \<Rightarrow> ref \<Rightarrow> string \<Rightarrow> string" where
  "local_part d el name =
     (case strchr name (CHR '':'') of
        Some colon \<Rightarrow> if attr_of d el ''data-nd-ns-prefix'' \<noteq> None then tl colon else name
      | None \<Rightarrow> name)"

text \<open>The tests of a compound that fill no cache: namespace, type and id.\<close>

definition head_matches :: "simple \<Rightarrow> dom \<Rightarrow> ref \<Rightarrow> bool" where
  "head_matches c d el \<longleftrightarrow>
     \<not> never_match c \<and> is_element d el \<and>
     (namespace_any c \<or> ns_attr_normalize_namespace (simple_namespace c) = element_namespace d el) \<and>
     (case simple_type c of
        None \<Rightarrow> True
      | Some t \<Rightarrow> t = ''*'' \<or>
          (case node_name (nodes d el) of
             None \<Rightarrow> False
           | Some name \<Rightarrow>
               if html_doc d el then strcaseeq t (local_part d el name) else t = local_part d el name)) \<and>
     (case simple_id c of None \<Rightarrow> True | Some i \<Rightarrow> attr_of d el ''id'' = Some i)"

definition attr_hit :: "ns_css_attr_pred \<Rightarrow> bool \<Rightarrow> ns_attr \<Rightarrow> bool" where
  "attr_hit p html a \<longleftrightarrow>
     (ap_namespace_any p \<or> ns_attr_namespace_equal (ap_namespace_uri p) (namespace_uri a)) \<and>
     (if html then strcaseeq (ns_attr_local_name a) (ap_name p) else ns_attr_local_name a = ap_name p) \<and>
     ns_css_attr_value_matches p (cstring (attr_value a)) html"

text \<open>The filter of the names is asked before the attributes are searched.\<close>

definition attrs_match :: "simple \<Rightarrow> ref \<Rightarrow> test" where
  "attrs_match c el s =
     (if attr_preds c = [] then (s, True)
      else case bloom el s of
        (s, b) \<Rightarrow>
          (s, list_all (\<lambda>p. \<not> (name_bit p \<noteq> 0 \<and> and b (name_bit p) = 0) \<and>
                 list_ex (attr_hit p (html_doc (tree s) el)) (attrs (nodes (tree s) el))) (attr_preds c)))"

section \<open>Pseudo-classes\<close>

definition anb_int_strict :: "string \<Rightarrow> int option" where
  "anb_int_strict s =
     (let p = (if s \<noteq> [] \<and> (hd s = CHR ''+'' \<or> hd s = CHR ''-'') then tl s else s)
      in if p = [] \<or> \<not> list_all g_ascii_isdigit p then None else Some (ns_parse_int (Some s) 0 (- 1000000) 1000000))"

definition ns_css_is_defined_element :: "'f css_env \<Rightarrow> string \<Rightarrow> bool" where
  "ns_css_is_defined_element env tag \<longleftrightarrow>
     (case defined_elements env of None \<Rightarrow> False | Some defs \<Rightarrow> list_ex (\<lambda>t. t = g_ascii_strdown tag) defs)"

definition ns_css_register_defined_element :: "string \<Rightarrow> 'f css_env \<Rightarrow> 'f css_env" where
  "ns_css_register_defined_element tag env =
     (if tag = [] then env
      else
        let lower = g_ascii_strdown tag; defs = (case defined_elements env of Some defs \<Rightarrow> defs | None \<Rightarrow> [])
        in env\<lparr>defined_elements := Some (if list_ex (\<lambda>t. t = lower) defs then defs else lower # defs)\<rparr>)"

definition ns_css_clear_defined_elements :: "'f css_env \<Rightarrow> 'f css_env" where
  "ns_css_clear_defined_elements env = env\<lparr>defined_elements := None\<rparr>"

definition heading_level :: "dom \<Rightarrow> ref \<Rightarrow> int" where
  "heading_level d el =
     (case node_name (nodes d el) of
        Some [h, n] \<Rightarrow> if h = CHR ''h'' \<and> n \<in> set ''123456'' then int (ord n) - 48 else 0
      | _ \<Rightarrow> 0)"

definition nth_matches :: "int \<Rightarrow> int \<Rightarrow> int \<Rightarrow> bool" where
  "nth_matches a b idx \<longleftrightarrow> (if a = 0 then idx = b else (idx - b) smod a = 0 \<and> \<not> (idx - b) sdiv a < 0)"

text \<open>The pseudo-classes whose answer needs no cache.\<close>

definition plain_pseudo :: "'f css_env \<Rightarrow> ref option \<Rightarrow> 's ns_css_pseudo_pred \<Rightarrow> ref \<Rightarrow> dom \<Rightarrow> bool" where
  "plain_pseudo env scope pc el d =
     (let name = node_name (nodes d el);
          same_name = (\<lambda>s. el_named d s (the name));
          within = (\<lambda>h. case h of None \<Rightarrow> False | Some h \<Rightarrow> ns_node_contains d el h) in
      case pc_kind pc of
        NS_CSS_PC_FIRST_CHILD \<Rightarrow> \<not> list_ex (is_element d) (siblings_before d el)
      | NS_CSS_PC_LAST_CHILD \<Rightarrow> \<not> list_ex (is_element d) (siblings_after d el)
      | NS_CSS_PC_ONLY_CHILD \<Rightarrow> \<not> list_ex (is_element d) (siblings_before d el) \<and> \<not> list_ex (is_element d) (siblings_after d el)
      | NS_CSS_PC_ONLY_OF_TYPE \<Rightarrow> name \<noteq> None \<and> \<not> list_ex same_name (siblings_before d el) \<and> \<not> list_ex same_name (siblings_after d el)
      | NS_CSS_PC_FIRST_OF_TYPE \<Rightarrow> name \<noteq> None \<and> \<not> list_ex same_name (siblings_before d el)
      | NS_CSS_PC_LAST_OF_TYPE \<Rightarrow> name \<noteq> None \<and> \<not> list_ex same_name (siblings_after d el)
      | NS_CSS_PC_EMPTY \<Rightarrow> ns_el_is_empty d el
      | NS_CSS_PC_ROOT \<Rightarrow> (case parent (nodes d el) of
          None \<Rightarrow> False | Some p \<Rightarrow> kind (nodes d p) = NS_NODE_DOCUMENT \<and> \<not> has_flag (nodes d p) NS_NODE_FRAGMENT)
      | NS_CSS_PC_SCOPE \<Rightarrow> (case scope of
          Some sc \<Rightarrow> el = sc
        | None \<Rightarrow> \<not> (case parent (nodes d el) of None \<Rightarrow> False | Some p \<Rightarrow> is_element d p))
      | NS_CSS_PC_CHECKED \<Rightarrow> ns_el_is_checked d el
      | NS_CSS_PC_DISABLED \<Rightarrow> ns_element_supports_disabled d el \<and> ns_element_effectively_disabled d el
      | NS_CSS_PC_ENABLED \<Rightarrow> ns_element_supports_disabled d el \<and> \<not> ns_element_effectively_disabled d el
      | NS_CSS_PC_REQUIRED \<Rightarrow> ns_form_control_supports_required d el \<and> attr_of d el ''required'' \<noteq> None
      | NS_CSS_PC_OPTIONAL \<Rightarrow> ns_form_control_supports_required d el \<and> attr_of d el ''required'' = None
      | NS_CSS_PC_IN_RANGE \<Rightarrow> ns_el_range_state (css_floating env) d el = Some (False, False)
      | NS_CSS_PC_OUT_OF_RANGE \<Rightarrow> (case ns_el_range_state (css_floating env) d el of
          None \<Rightarrow> False | Some (below, over) \<Rightarrow> below \<or> over)
      | NS_CSS_PC_ANY_LINK \<Rightarrow> ns_el_is_link d el
      | NS_CSS_PC_LINK \<Rightarrow> ns_el_is_link d el \<and> \<not> ns_el_is_visited_link env d el
      | NS_CSS_PC_VISITED \<Rightarrow> ns_el_is_visited_link env d el
      | NS_CSS_PC_HOVER \<Rightarrow> within (hover_node env)
      | NS_CSS_PC_ACTIVE \<Rightarrow> within (active_node env)
      | NS_CSS_PC_FOCUS \<Rightarrow> focus_node env = Some el
      | NS_CSS_PC_FOCUS_WITHIN \<Rightarrow> within (focus_node env)
      | NS_CSS_PC_TARGET \<Rightarrow> ns_css_node_is_target env d el
      | NS_CSS_PC_TARGET_WITHIN \<Rightarrow> target_fragment env \<noteq> None \<and> ns_css_node_has_target_within env 512 d el
      | NS_CSS_PC_DEFINED \<Rightarrow> (case name of
          None \<Rightarrow> False | Some n \<Rightarrow> CHR ''-'' \<notin> set n \<or> ns_css_is_defined_element env n)
      | NS_CSS_PC_PLACEHOLDER_SHOWN \<Rightarrow> ns_el_placeholder_shown d el
      | NS_CSS_PC_READ_WRITE \<Rightarrow> ns_el_is_read_write d el
      | NS_CSS_PC_READ_ONLY \<Rightarrow> \<not> ns_el_is_read_write d el
      | NS_CSS_PC_BLANK \<Rightarrow> ns_el_is_blank d el
      | NS_CSS_PC_DIR \<Rightarrow> pc_arg pc = Some (ns_css_node_dir env d el)
      | NS_CSS_PC_OPEN \<Rightarrow> (el_named d el ''details'' \<or> el_named d el ''dialog'') \<and> attr_of d el ''open'' \<noteq> None
      | NS_CSS_PC_POPOVER_OPEN \<Rightarrow> attr_of d el ''popover'' \<noteq> None \<and> attr_of d el ''data-nd-popover-open'' \<noteq> None
      | NS_CSS_PC_MODAL \<Rightarrow> active_modal env = Some el
      | NS_CSS_PC_HEADING \<Rightarrow> heading_level d el \<noteq> 0 \<and>
          (case pc_arg pc of
             None \<Rightarrow> True
           | Some arg \<Rightarrow> list_ex (\<lambda>i. anb_int_strict (g_strstrip i) = Some (heading_level d el)) (split_pieces '','' arg))
      | _ \<Rightarrow> True)"

primrec count_in :: "('x \<Rightarrow> 's \<Rightarrow> 's \<times> bool) \<Rightarrow> 'x list \<Rightarrow> 's \<Rightarrow> 's \<times> nat" where
  "count_in f [] s = (s, 0)"
| "count_in f (x # xs) s =
     (case f x s of (s, b) \<Rightarrow> (case count_in f xs s of (s, n) \<Rightarrow> (s, if b then Suc n else n)))"

text \<open>The position of an element among the siblings that count, from 1; \<^const>\<open>None\<close> if the element itself does not.\<close>

definition ns_css_sibling_counts_for_nth ::
    "(ns_css_selector \<Rightarrow> ref \<Rightarrow> test) \<Rightarrow> ref \<Rightarrow> ns_css_selector ns_css_pseudo_pred \<Rightarrow>
     memo_key sel_state \<Rightarrow> memo_key sel_state \<times> nat option" where
  "ns_css_sibling_counts_for_nth m el pc s =
     (let d = tree s;
          typed = (pc_kind pc = NS_CSS_PC_NTH_OF_TYPE \<or> pc_kind pc = NS_CSS_PC_NTH_LAST_OF_TYPE);
          sibs = (if pc_kind pc = NS_CSS_PC_NTH_LAST_CHILD \<or> pc_kind pc = NS_CSS_PC_NTH_LAST_OF_TYPE
                  then siblings_after d el else siblings_before d el);
          counts = (\<lambda>x. is_element d x \<and> (\<not> typed \<or> (case node_name (nodes d el) of Some n \<Rightarrow> el_named d x n | None \<Rightarrow> False)))
      in case of_group pc of
           None \<Rightarrow> (s, Some (1 + length (filter counts sibs)))
         | Some grp \<Rightarrow>
             (case count_in (\<lambda>x. any_in (\<lambda>sub. m sub x) grp) (filter counts sibs) s of
                (s, n) \<Rightarrow> (case any_in (\<lambda>sub. m sub el) grp s of (s, b) \<Rightarrow> (s, if b then Some (1 + n) else None))))"

definition pseudo_matches ::
    "'f css_env \<Rightarrow> ref option \<Rightarrow> (ns_css_selector \<Rightarrow> ref \<Rightarrow> test) \<Rightarrow> ref \<Rightarrow> ns_css_selector ns_css_pseudo_pred \<Rightarrow> test" where
  "pseudo_matches env scope m el pc s =
     (if pc_kind pc = NS_CSS_PC_VALID then
        (if ns_css_node_will_validate (tree s) el then ns_css_control_is_valid env el s else (s, False))
      else if pc_kind pc = NS_CSS_PC_INVALID then
        (if ns_css_node_will_validate (tree s) el
         then (case ns_css_control_is_valid env el s of (s, ok) \<Rightarrow> (s, \<not> ok)) else (s, False))
      else if pc_kind pc = NS_CSS_PC_DEFAULT then ns_el_is_default el s
      else if pc_kind pc = NS_CSS_PC_INDETERMINATE then ns_el_is_indeterminate el s
      else if pc_kind pc = NS_CSS_PC_LANG then ns_css_lang_matches env el (pc_arg pc) s
      else if pc_kind pc \<in> {NS_CSS_PC_NTH_CHILD, NS_CSS_PC_NTH_LAST_CHILD, NS_CSS_PC_NTH_OF_TYPE, NS_CSS_PC_NTH_LAST_OF_TYPE} then
        (case ns_css_sibling_counts_for_nth m el pc s of
           (s, None) \<Rightarrow> (s, False)
         | (s, Some idx) \<Rightarrow> (s, nth_matches (pc_a pc) (pc_b pc) (int idx)))
      else (s, plain_pseudo env scope pc el (tree s)))"


section \<open>Combinators\<close>

text \<open>The test of a compound at an element is an argument.  \<^verbatim>\<open>match_complex_chain\<close> searches to the left: the list holds the
  compounds before the one that was just matched, the nearest first, each with the combinator after it.\<close>

definition ask :: "(dom \<Rightarrow> bool) \<Rightarrow> test" where
  "ask P s = (s, P (tree s))"

primrec match_complex_chain ::
    "(simple \<Rightarrow> ref \<Rightarrow> test) \<Rightarrow> (ns_css_comb \<times> simple) list \<Rightarrow> ref \<Rightarrow> test" where
  "match_complex_chain ms [] cur s = (s, True)"
| "match_complex_chain ms (p # rest) cur s =
     (let here = (\<lambda>x. both (ms (snd p) x) (match_complex_chain ms rest x)); d = tree s in
      case fst p of
        NS_CSS_COMB_CHILD \<Rightarrow> (case parent (nodes d cur) of None \<Rightarrow> (s, False) | Some x \<Rightarrow> here x s)
      | NS_CSS_COMB_ADJACENT \<Rightarrow>
          (case List.find (is_element d) (siblings_before d cur) of None \<Rightarrow> (s, False) | Some x \<Rightarrow> here x s)
      | NS_CSS_COMB_SIBLING \<Rightarrow> any_in here (filter (is_element d) (siblings_before d cur)) s
      | _ \<Rightarrow> any_in here (takeWhile (\<lambda>x. kind (nodes d x) \<noteq> NS_NODE_DOCUMENT) (tl (ancestors_or_self d cur))) s)"

definition left_of_subject :: "ns_css_selector \<Rightarrow> (ns_css_comb \<times> simple) list" where
  "left_of_subject sel = rev (zip (tl (combinators sel)) (butlast (compounds sel)))"

definition match_selector_structural :: "(simple \<Rightarrow> ref \<Rightarrow> test) \<Rightarrow> ns_css_selector \<Rightarrow> ref \<Rightarrow> test" where
  "match_selector_structural ms sel el =
     (if compounds sel = [] then (\<lambda>s. (s, False))
      else both (ms (last (compounds sel)) el) (match_complex_chain ms (left_of_subject sel) el))"

definition selector_matches :: "(simple \<Rightarrow> ref \<Rightarrow> test) \<Rightarrow> ns_css_selector \<Rightarrow> ref \<Rightarrow> test" where
  "selector_matches ms sel el =
     (if pseudo_element sel \<noteq> NS_CSS_PE_NONE then (\<lambda>s. (s, False)) else match_selector_structural ms sel el)"

definition match_selector_for_pe :: "(simple \<Rightarrow> ref \<Rightarrow> test) \<Rightarrow> ns_css_selector \<Rightarrow> ref \<Rightarrow> ns_css_pseudo_element \<Rightarrow> test" where
  "match_selector_for_pe ms sel el pe =
     (if pseudo_element sel \<noteq> pe then (\<lambda>s. (s, False)) else match_selector_structural ms sel el)"

text \<open>The search of \<^verbatim>\<open>:has()\<close>, at most 512 deep; \<^verbatim>\<open>first\<close> holds for the compound next to the anchor.\<close>

definition has_simple_scope_pseudo :: "simple \<Rightarrow> bool" where
  "has_simple_scope_pseudo c \<longleftrightarrow> list_ex (\<lambda>pc. pc_kind pc = NS_CSS_PC_SCOPE) (pseudos c)"

fun relative_chain_matches :: "nat \<Rightarrow> (simple \<Rightarrow> ref \<Rightarrow> test) \<Rightarrow> bool \<Rightarrow> ref \<Rightarrow> (ns_css_comb \<times> simple) list \<Rightarrow> test"
  and relative_descendant_matches :: "nat \<Rightarrow> (simple \<Rightarrow> ref \<Rightarrow> test) \<Rightarrow> ref \<Rightarrow> (ns_css_comb \<times> simple) list \<Rightarrow> test" where
  "relative_chain_matches 0 ms first base ps s = (s, False)"
| "relative_chain_matches (Suc k) ms first base [] s = (s, True)"
| "relative_chain_matches (Suc k) ms first base (p # rest) s =
     (let d = tree s;
          cand = (\<lambda>x. both (ask (\<lambda>d. is_element d x)) (both (ms (snd p) x) (relative_chain_matches k ms False x rest)))
      in if first \<and> (fst p = NS_CSS_COMB_NONE \<or> fst p = NS_CSS_COMB_DESCENDANT) then
           (case (if has_simple_scope_pseudo (snd p) then cand base s else (s, False)) of
              (s, True) \<Rightarrow> (s, True)
            | (s, False) \<Rightarrow> relative_descendant_matches k ms base (p # rest) s)
         else case fst p of
           NS_CSS_COMB_CHILD \<Rightarrow> any_in cand (children d base) s
         | NS_CSS_COMB_ADJACENT \<Rightarrow>
             (case List.find (is_element d) (siblings_after d base) of None \<Rightarrow> (s, False) | Some x \<Rightarrow> cand x s)
         | NS_CSS_COMB_SIBLING \<Rightarrow> any_in cand (filter (is_element d) (siblings_after d base)) s
         | _ \<Rightarrow> relative_descendant_matches k ms base (p # rest) s)"
| "relative_descendant_matches 0 ms base ps s = (s, False)"
| "relative_descendant_matches (Suc k) ms base ps s =
     any_in (\<lambda>c s.
         if \<not> is_element (tree s) c then (s, False)
         else case both (ms (snd (hd ps)) c) (relative_chain_matches k ms False c (tl ps)) s of
           (s, True) \<Rightarrow> (s, True)
         | (s, False) \<Rightarrow> relative_descendant_matches k ms c ps s)
       (children (tree s) base) s"

definition has_relative_matches :: "(simple \<Rightarrow> ref \<Rightarrow> test) \<Rightarrow> ns_css_selector \<Rightarrow> ref \<Rightarrow> test" where
  "has_relative_matches ms rel anchor =
     (if pseudo_element rel \<noteq> NS_CSS_PE_NONE then (\<lambda>s. (s, False))
      else relative_chain_matches 512 ms True anchor (zip (combinators rel) (compounds rel)))"

definition has_group_matches :: "(simple \<Rightarrow> ref \<Rightarrow> test) \<Rightarrow> ns_css_selector list \<Rightarrow> ref \<Rightarrow> test" where
  "has_group_matches ms grp anchor s =
     (case (case has_memo s of Some m \<Rightarrow> m (grp, anchor) | None \<Rightarrow> None) of
        Some cached \<Rightarrow> (s, cached)
      | None \<Rightarrow>
          (case any_in (\<lambda>sub. has_relative_matches ms sub anchor) grp s of
             (s, matched) \<Rightarrow>
               (case has_memo s of
                  None \<Rightarrow> (s, matched)
                | Some m \<Rightarrow> (s\<lparr>has_memo := Some (m((grp, anchor) \<mapsto> matched))\<rparr>, matched))))"

section \<open>Compounds\<close>

text \<open>The arguments of functional pseudo-classes hold smaller compounds.\<close>

definition inner :: "simple \<Rightarrow> simple set" where
  "inner c = (\<Union>sub \<in> set_ns_css_simple c. set (compounds sub))"

lemma match_complex_chain_cong [fundef_cong]:
  "ps = qs \<Longrightarrow> cur = cur' \<Longrightarrow> (\<And>c x. c \<in> snd ` set qs \<Longrightarrow> ms c x = ms' c x) \<Longrightarrow> match_complex_chain ms ps cur = match_complex_chain ms' qs cur'"
proof (induction ps arbitrary: qs cur cur')
  case (Cons p rest)
  have m: "\<And>c x. c \<in> snd ` set (p # rest) \<Longrightarrow> ms c x = ms' c x" using Cons.prems by blast
  have ih: "match_complex_chain ms rest = match_complex_chain ms' rest"
    by (intro ext [of "match_complex_chain ms rest"] Cons.IH [OF refl refl] m) simp
  have hd: "ms (snd p) = ms' (snd p)" using Cons.prems by (intro ext) auto
  show ?case unfolding Cons.prems(1) [symmetric] Cons.prems(2) by (intro ext) (unfold match_complex_chain.simps ih hd, rule refl)
qed (auto simp: fun_eq_iff)

lemma left_of_subject_compounds: "snd ` set (left_of_subject sel) \<subseteq> set (compounds sel)"
  by (auto simp: left_of_subject_def dest!: set_zip_rightD in_set_butlastD)

lemma selector_matches_cong [fundef_cong]:
  assumes "sel = sel'" "el = el'" "\<And>c x. c \<in> set (compounds sel') \<Longrightarrow> ms c x = ms' c x"
  shows "selector_matches ms sel el = selector_matches ms' sel' el'"
proof -
  have "match_complex_chain ms (left_of_subject sel) el = match_complex_chain ms' (left_of_subject sel) el"
    using assms(1,3) left_of_subject_compounds [of sel] by (intro match_complex_chain_cong) (simp, simp, blast)
  moreover have "compounds sel \<noteq> [] \<Longrightarrow> ms (last (compounds sel)) el = ms' (last (compounds sel)) el"
    using assms by simp
  ultimately show ?thesis using assms(1,2) by (simp add: selector_matches_def match_selector_structural_def)
qed

lemma relative_matches_cong:
  "(\<And>c x. c \<in> snd ` set ps \<Longrightarrow> ms c x = ms' c x) \<Longrightarrow> relative_chain_matches k ms first base ps s = relative_chain_matches k ms' first base ps s"
  "ps \<noteq> [] \<Longrightarrow> (\<And>c x. c \<in> snd ` set ps \<Longrightarrow> ms c x = ms' c x) \<Longrightarrow> relative_descendant_matches k ms base ps s = relative_descendant_matches k ms' base ps s"
proof (induction k arbitrary: first base ps s)
  case (Suc k)
  {
    case 1
    show ?case
    proof (cases ps)
      case (Cons p rest)
      have "ms (snd p) = ms' (snd p)" using 1 Cons by (intro ext) simp
      moreover have "relative_chain_matches k ms False x rest = relative_chain_matches k ms' False x rest" for x
        using Suc(1) [of rest] 1 Cons by (intro ext) auto
      moreover have "relative_descendant_matches k ms base ps = relative_descendant_matches k ms' base ps"
        using Suc(2) [of ps] 1 Cons by (intro ext) auto
      ultimately show ?thesis by (unfold Cons relative_chain_matches.simps) (simp only: Cons)
    qed simp
  next
    case 2
    have "ms (snd (hd ps)) = ms' (snd (hd ps))" using 2 by (intro ext) (cases ps, auto)
    moreover have "relative_chain_matches k ms False x (tl ps) = relative_chain_matches k ms' False x (tl ps)" for x
      using Suc(1) [of "tl ps"] 2 by (intro ext) (cases ps, auto)
    moreover have "relative_descendant_matches k ms x ps = relative_descendant_matches k ms' x ps" for x
      using Suc(2) [of ps] 2 by (intro ext) auto
    ultimately show ?case by (unfold relative_descendant_matches.simps) (simp only:)
  }
qed simp_all

lemma has_group_matches_cong [fundef_cong]:
  assumes "grp = grp'" "el = el'" "\<And>sub c x. sub \<in> set grp' \<Longrightarrow> c \<in> set (compounds sub) \<Longrightarrow> ms c x = ms' c x"
  shows "has_group_matches ms grp el = has_group_matches ms' grp' el'"
proof -
  have "has_relative_matches ms sub el = has_relative_matches ms' sub el" if "sub \<in> set grp" for sub
    unfolding has_relative_matches_def
    by (auto simp: fun_eq_iff intro!: relative_matches_cong(1)) (metis assms that set_zip_rightD)
  then have "any_in (\<lambda>sub. has_relative_matches ms sub el) grp = any_in (\<lambda>sub. has_relative_matches ms' sub el) grp"
    by (intro any_in_cong) simp_all
  then show ?thesis by (intro ext) (unfold has_group_matches_def, simp only: assms(1,2))
qed


lemma pseudo_matches_cong [fundef_cong]:
  assumes "el = el'" "pc = pc'" "\<And>grp sub x. of_group pc' = Some grp \<Longrightarrow> sub \<in> set grp \<Longrightarrow> m sub x = m' sub x"
  shows "pseudo_matches env scope m el pc = pseudo_matches env scope m' el' pc'"
proof -
  have "ns_css_sibling_counts_for_nth m el pc = ns_css_sibling_counts_for_nth m' el pc"
  proof (cases "of_group pc")
    case (Some grp)
    then have "any_in (\<lambda>sub. m sub x) grp = any_in (\<lambda>sub. m' sub x) grp" for x using assms by (intro any_in_cong) auto
    then show ?thesis using Some by (intro ext) (simp add: ns_css_sibling_counts_for_nth_def)
  qed (intro ext, simp add: ns_css_sibling_counts_for_nth_def)
  then show ?thesis using assms(1,2) by (intro ext) (simp only: pseudo_matches_def)
qed

text \<open>The compounds inside are smaller, however deep the selector is that holds them.\<close>

lemma size_list_mem: "x \<in> set xs \<Longrightarrow> f x < size_list f xs"
  by (induction xs) auto

lemma size_pseudo_mem: "x \<in> set_ns_css_pseudo_pred pc \<Longrightarrow> f x < size_ns_css_pseudo_pred f pc"
  by (cases pc) (force dest: size_list_mem [of _ _ f] split: option.splits)

lemma size_nested_mem: "grp \<in> set grps \<Longrightarrow> x \<in> set grp \<Longrightarrow> f x < size_list (size_list f) grps"
  using size_list_mem [of x grp f] size_list_mem [of grp grps "size_list f"] by simp

lemma size_simple_mem: "x \<in> set_ns_css_simple c \<Longrightarrow> f x < size_ns_css_simple f c"
proof (cases c)
  case (Simple t ns i cl ats ps ma mn hg never any)
  assume "x \<in> set_ns_css_simple c"
  then consider pc where "pc \<in> set ps" "x \<in> set_ns_css_pseudo_pred pc" | grp where "grp \<in> set ma" "x \<in> set grp"
    | grp where "grp \<in> set mn" "x \<in> set grp" | grp where "grp \<in> set hg" "x \<in> set grp" using Simple by auto
  then show ?thesis
  proof cases
    case 1
    then show ?thesis using size_pseudo_mem [OF 1(2), of f] size_list_mem [OF 1(1), of "size_ns_css_pseudo_pred f"] Simple by simp
  qed (use Simple size_nested_mem [of _ _ x f] in fastforce)+
qed

lemma size_inner: "c' \<in> inner c \<Longrightarrow> size_ns_css_simple size c' < size_ns_css_simple size c"
proof -
  assume "c' \<in> inner c"
  then obtain sub where sub: "sub \<in> set_ns_css_simple c" "c' \<in> set (compounds sub)" by (auto simp: inner_def)
  have "size_ns_css_simple size c' < size sub" using size_list_mem [OF sub(2), of "size_ns_css_simple size"] by (cases sub) simp
  then show ?thesis using size_simple_mem [OF sub(1), of size] by simp
qed

lemma arguments:
  "pc \<in> set (pseudos c) \<Longrightarrow> of_group pc = Some grp \<Longrightarrow> sub \<in> set grp \<Longrightarrow> sub \<in> set_ns_css_simple c"
  "grp \<in> set (matches_any c) \<Longrightarrow> sub \<in> set grp \<Longrightarrow> sub \<in> set_ns_css_simple c"
  "grp \<in> set (matches_none c) \<Longrightarrow> sub \<in> set grp \<Longrightarrow> sub \<in> set_ns_css_simple c"
  "grp \<in> set (has_groups c) \<Longrightarrow> sub \<in> set grp \<Longrightarrow> sub \<in> set_ns_css_simple c"
proof -
  assume "pc \<in> set (pseudos c)" "of_group pc = Some grp" "sub \<in> set grp"
  moreover from this(2,3) have "sub \<in> set_ns_css_pseudo_pred pc" by (cases pc) auto
  ultimately show "sub \<in> set_ns_css_simple c" by (cases c) auto
qed (cases c; auto)+

lemmas in_arguments = bexI [OF _ arguments(1)] bexI [OF _ arguments(2)] bexI [OF _ arguments(3)] bexI [OF _ arguments(4)]

function match_simple :: "'f css_env \<Rightarrow> ref option \<Rightarrow> simple \<Rightarrow> ref \<Rightarrow> test" where
  "match_simple env scope c el =
     both (ask (\<lambda>d. head_matches c d el))
     (both (all_in (has_class el) (classes c))
     (both (attrs_match c el)
     (both (all_in (pseudo_matches env scope (\<lambda>sub x. selector_matches (\<lambda>c' x'. match_simple env scope c' x') sub x) el) (pseudos c))
     (both (all_in (\<lambda>grp. any_in (\<lambda>sub. selector_matches (\<lambda>c' x'. match_simple env scope c' x') sub el) grp) (matches_any c))
     (both (all_in (\<lambda>grp s. case any_in (\<lambda>sub. selector_matches (\<lambda>c' x'. match_simple env scope c' x') sub el) grp s of (s, b) \<Rightarrow> (s, \<not> b))
              (matches_none c))
           (all_in (\<lambda>grp. has_group_matches (\<lambda>c' x'. match_simple env (Some el) c' x') grp el) (has_groups c)))))))"
  by pat_completeness auto
termination
proof (relation "measure (\<lambda>(env, scope, c, el). size_ns_css_simple size c)")
qed (auto intro!: size_inner simp: inner_def intro: in_arguments)

end
