(* ===== verification/NS_Selector_Meaning.thy ===== *)
theory NS_Selector_Meaning
  imports NS_Selectors
begin

text \<open>
  What a selector means: \<^verbatim>\<open>sat\<close> says when an element satisfies a compound, with the relations of the combinators and the
  counts of the siblings taken from the tree.  The matcher of \<^verbatim>\<open>NS_Selectors\<close>, with its caches and its filter of
  attribute names, gives that answer from every state of the caches that belongs to the tree.
\<close>

section \<open>Neighbours in the tree\<close>

lemma chain_enough:
  assumes "forest h K" "acyclic (edges K)" "finite (edges K)"
  shows "card {x. (x, c) \<in> (edges K)\<^sup>*} \<le> k \<Longrightarrow> card {x. (x, c) \<in> (edges K)\<^sup>*} \<le> k' \<Longrightarrow> parent_chain k h c = parent_chain k' h c"
proof (induction k arbitrary: c k')
  case 0
  then show ?case using finite_ancestors [OF assms(3), of c] by auto
next
  case (Suc k)
  note fin = finite_ancestors [OF assms(3), of c]
  have "card {x. (x, c) \<in> (edges K)\<^sup>*} \<noteq> 0" using fin by auto
  then obtain l where l: "k' = Suc l" using Suc.prems(2) by (cases k') auto
  show ?case
  proof (cases "parent (h c)")
    case (Some p)
    then have p: "(p, c) \<in> edges K" using assms(1) by (simp add: edges_parent)
    have "(c, p) \<notin> (edges K)\<^sup>*" using p assms(2) by (meson acyclic_def rtrancl_into_trancl1)
    then have "{x. (x, p) \<in> (edges K)\<^sup>*} \<subset> {x. (x, c) \<in> (edges K)\<^sup>*}" using p by (auto intro: rtrancl_into_rtrancl)
    then have "card {x. (x, p) \<in> (edges K)\<^sup>*} < card {x. (x, c) \<in> (edges K)\<^sup>*}" using fin by (rule psubset_card_mono [rotated])
    then show ?thesis using Suc.IH [of p l] Suc.prems Some l by simp
  qed (simp add: l)
qed

lemma ancestors_step:
  assumes t: "dom_tree d K" and p: "parent (nodes d c) = Some p"
  shows "ancestors_or_self d c = c # ancestors_or_self d p"
proof -
  note f = dom_treeD(1) [OF t]
  have pc: "(p, c) \<in> edges K" using p f by (simp add: edges_parent)
  have c: "c < n_nodes d" "p < n_nodes d" using pc dom_treeD(2,3) [OF t] by (auto simp: edges_def)
  have "edges K \<subseteq> {..<n_nodes d} \<times> {..<n_nodes d}" using dom_treeD(2,3) [OF t] by (auto simp: edges_def)
  then have fin: "finite (edges K)" by (rule finite_subset) simp
  have sub: "{x. (x, c) \<in> (edges K)\<^sup>*} \<subseteq> {..<n_nodes d}"
    using c dom_treeD(3) [OF t] by (auto simp: edges_def elim: converse_rtranclE)
  have cp: "(c, p) \<notin> (edges K)\<^sup>*" using pc dom_treeD(4) [OF t] by (meson acyclic_def rtrancl_into_trancl1)
  then have "{x. (x, p) \<in> (edges K)\<^sup>*} \<subset> {x. (x, c) \<in> (edges K)\<^sup>*}" using pc by (auto intro: rtrancl_into_rtrancl)
  then have less: "card {x. (x, p) \<in> (edges K)\<^sup>*} < card {x. (x, c) \<in> (edges K)\<^sup>*}"
    using finite_ancestors [OF fin, of c] by (rule psubset_card_mono [rotated])
  moreover have "card {x. (x, c) \<in> (edges K)\<^sup>*} \<le> n_nodes d" using card_mono [OF _ sub] by simp
  ultimately obtain k where k: "n_nodes d = Suc k" "card {x. (x, p) \<in> (edges K)\<^sup>*} \<le> k" by (cases "n_nodes d") auto
  then have "parent_chain k (nodes d) p = parent_chain (n_nodes d) (nodes d) p"
    by (intro chain_enough [OF f dom_treeD(4) [OF t] fin]) simp_all
  then show ?thesis using p k(1) by (simp add: ancestors_or_self_def)
qed

lemma ancestors_nonempty: "c < n_nodes d \<Longrightarrow> ancestors_or_self d c \<noteq> [] \<and> hd (ancestors_or_self d c) = c"
  by (cases "n_nodes d") (simp_all add: ancestors_or_self_def)

lemma root_parent:
  assumes "dom_tree d K" "parent (nodes d c) = Some p"
  shows "ns_node_root d p = ns_node_root d c"
proof -
  have "p < n_nodes d"
    using dom_treeD(3) [OF assms(1)] forestD(5) [OF dom_treeD(1) [OF assms(1)] assms(2)] by blast
  then show ?thesis using ancestors_step [OF assms] ancestors_nonempty [of p d] by (simp add: ns_node_root_def)
qed

lemma back_list_suffix:
  "distinct (us @ cs) \<Longrightarrow> (\<And>c. c \<in> set (us @ cs) \<Longrightarrow> prev_sibling (h c) = next_in (us @ cs) c) \<Longrightarrow> length cs \<le> k \<Longrightarrow>
    back_list k h (hd_opt cs) = cs"
proof (induction cs arbitrary: us k)
  case Nil
  then show ?case by (cases k) simp_all
next
  case (Cons c cs)
  then obtain k' where k: "k = Suc k'" by (cases k) auto
  have "prev_sibling (h c) = hd_opt cs" using Cons.prems(1) Cons.prems(2) [of c] by simp
  moreover have "back_list k' h (hd_opt cs) = cs" using Cons.IH [of "us @ [c]" k'] Cons.prems k by simp
  ultimately show ?case using k by simp
qed

text \<open>The siblings of a node are the rest of the children of its parent, on the two sides.\<close>

lemma siblings_eq:
  assumes t: "dom_tree d K" and K: "K p = xs @ c # ys"
  shows "siblings_before d c = rev xs" "siblings_after d c = ys"
proof -
  note f = dom_treeD(1) [OF t]
  have dist: "distinct (xs @ c # ys)" using forestD(1) [OF f, of p] K by simp
  have "length (K p) = card (set (K p))" using forestD(1) [OF f, of p] by (simp add: distinct_card)
  also have "\<dots> \<le> card {..<n_nodes d}" using t by (intro card_mono) (auto simp: dom_tree_def)
  finally have len: "length xs \<le> n_nodes d" "length ys \<le> n_nodes d" using K by simp_all
  have "prev_sibling (nodes d c) = hd_opt (rev xs)" "next_sibling (nodes d c) = hd_opt ys"
    using forestD(6,7) [OF f, of c p] K dist by simp_all
  moreover have "back_list (n_nodes d) (nodes d) (hd_opt (rev xs)) = rev xs"
    using forestD(7) [OF f, where p = p] K dist len by (intro back_list_suffix [where us = "rev ys @ [c]"]) auto
  moreover have "sibling_list (n_nodes d) (nodes d) (hd_opt ys) = ys"
    using forestD(6) [OF f, where p = p] K dist len by (intro sibling_list_suffix [where us = "xs @ [c]"]) auto
  ultimately show "siblings_before d c = rev xs" "siblings_after d c = ys"
    by (simp_all add: siblings_before_def siblings_after_def)
qed

lemma no_parent_siblings:
  assumes "dom_tree d K" "parent (nodes d c) = None"
  shows "siblings_before d c = []" "siblings_after d c = []"
  using forestD(8,9) [OF dom_treeD(1) [OF assms(1)] assms(2)]
  by (cases "n_nodes d"; simp add: siblings_before_def siblings_after_def)+

lemma sibling_parent:
  assumes t: "dom_tree d K" and x: "x \<in> set (siblings_before d c) \<or> x \<in> set (siblings_after d c)"
  shows "parent (nodes d x) = parent (nodes d c) \<and> parent (nodes d c) \<noteq> None"
proof (cases "parent (nodes d c)")
  case (Some p)
  note f = dom_treeD(1) [OF t]
  have "c \<in> set (K p)" by (rule forestD(5) [OF f Some])
  then obtain xs ys where K: "K p = xs @ c # ys" by (meson split_list)
  then show ?thesis using x siblings_eq [OF t K] forestD(4) [OF f, of x p] Some by auto
qed (use x no_parent_siblings [OF t] in auto)

text \<open>Nodes reached from an element have its root.\<close>

lemma reached_root:
  assumes t: "dom_tree d K"
  shows "x \<in> set (siblings_before d c) \<Longrightarrow> ns_node_root d x = ns_node_root d c"
    "x \<in> set (siblings_after d c) \<Longrightarrow> ns_node_root d x = ns_node_root d c"
    "x \<in> set (children d c) \<Longrightarrow> ns_node_root d x = ns_node_root d c"
    "x \<in> set (ancestors_or_self d c) \<Longrightarrow> ns_node_root d x = ns_node_root d c"
proof -
  show "x \<in> set (siblings_before d c) \<Longrightarrow> ns_node_root d x = ns_node_root d c"
    "x \<in> set (siblings_after d c) \<Longrightarrow> ns_node_root d x = ns_node_root d c"
    using sibling_parent [OF t, of x c] root_parent [OF t] by (metis option.exhaust)+
  show "x \<in> set (children d c) \<Longrightarrow> ns_node_root d x = ns_node_root d c"
    using children_eq [OF t] forestD(4) [OF dom_treeD(1) [OF t]] root_parent [OF t] by metis
  have "x \<in> set (parent_chain k (nodes d) c) \<Longrightarrow> ns_node_root d x = ns_node_root d c" for k
    by (induction k arbitrary: c) (auto split: option.splits dest: root_parent [OF t, OF sym])
  then show "x \<in> set (ancestors_or_self d c) \<Longrightarrow> ns_node_root d x = ns_node_root d c"
    by (simp add: ancestors_or_self_def)
qed


section \<open>The meaning\<close>

definition related :: "dom \<Rightarrow> ns_css_comb \<Rightarrow> ref \<Rightarrow> ref \<Rightarrow> bool" where
  "related d comb x cur \<longleftrightarrow>
     (case comb of
        NS_CSS_COMB_CHILD \<Rightarrow> parent (nodes d cur) = Some x
      | NS_CSS_COMB_ADJACENT \<Rightarrow> List.find (is_element d) (siblings_before d cur) = Some x
      | NS_CSS_COMB_SIBLING \<Rightarrow> x \<in> set (siblings_before d cur) \<and> is_element d x
      | _ \<Rightarrow> x \<in> set (takeWhile (\<lambda>x. kind (nodes d x) \<noteq> NS_NODE_DOCUMENT) (tl (ancestors_or_self d cur))))"

primrec left_sat :: "dom \<Rightarrow> (simple \<Rightarrow> ref \<Rightarrow> bool) \<Rightarrow> (ns_css_comb \<times> simple) list \<Rightarrow> ref \<Rightarrow> bool" where
  "left_sat d f [] cur \<longleftrightarrow> True"
| "left_sat d f (p # rest) cur \<longleftrightarrow> (\<exists>x. related d (fst p) x cur \<and> f (snd p) x \<and> left_sat d f rest x)"

definition selector_sat :: "dom \<Rightarrow> (simple \<Rightarrow> ref \<Rightarrow> bool) \<Rightarrow> ns_css_selector \<Rightarrow> ref \<Rightarrow> bool" where
  "selector_sat d f sel el \<longleftrightarrow> pseudo_element sel = NS_CSS_PE_NONE \<and> compounds sel \<noteq> [] \<and>
     f (last (compounds sel)) el \<and> left_sat d f (left_of_subject sel) el"

text \<open>The same to the right for \<^verbatim>\<open>:has()\<close>, as deep as the search goes.\<close>

fun right_sat :: "nat \<Rightarrow> dom \<Rightarrow> (simple \<Rightarrow> ref \<Rightarrow> bool) \<Rightarrow> bool \<Rightarrow> ref \<Rightarrow> (ns_css_comb \<times> simple) list \<Rightarrow> bool"
  and below_sat :: "nat \<Rightarrow> dom \<Rightarrow> (simple \<Rightarrow> ref \<Rightarrow> bool) \<Rightarrow> ref \<Rightarrow> (ns_css_comb \<times> simple) list \<Rightarrow> bool" where
  "right_sat 0 d f first base ps = False"
| "right_sat (Suc k) d f first base [] = True"
| "right_sat (Suc k) d f first base (p # rest) =
     (let cand = (\<lambda>x. is_element d x \<and> f (snd p) x \<and> right_sat k d f False x rest) in
      if first \<and> (fst p = NS_CSS_COMB_NONE \<or> fst p = NS_CSS_COMB_DESCENDANT) then
        (has_simple_scope_pseudo (snd p) \<and> cand base) \<or> below_sat k d f base (p # rest)
      else case fst p of
        NS_CSS_COMB_CHILD \<Rightarrow> list_ex cand (children d base)
      | NS_CSS_COMB_ADJACENT \<Rightarrow>
          (case List.find (is_element d) (siblings_after d base) of None \<Rightarrow> False | Some x \<Rightarrow> cand x)
      | NS_CSS_COMB_SIBLING \<Rightarrow> list_ex cand (filter (is_element d) (siblings_after d base))
      | _ \<Rightarrow> below_sat k d f base (p # rest))"
| "below_sat 0 d f base ps = False"
| "below_sat (Suc k) d f base ps =
     list_ex (\<lambda>c. is_element d c \<and> ((f (snd (hd ps)) c \<and> right_sat k d f False c (tl ps)) \<or> below_sat k d f c ps)) (children d base)"

definition has_sat :: "dom \<Rightarrow> (simple \<Rightarrow> ref \<Rightarrow> bool) \<Rightarrow> ns_css_selector \<Rightarrow> ref \<Rightarrow> bool" where
  "has_sat d f rel anchor \<longleftrightarrow> pseudo_element rel = NS_CSS_PE_NONE \<and>
     right_sat 512 d f True anchor (zip (combinators rel) (compounds rel))"

text \<open>The position among the siblings that count.\<close>

definition nth_sat :: "dom \<Rightarrow> (ns_css_selector \<Rightarrow> ref \<Rightarrow> bool) \<Rightarrow> ref \<Rightarrow> ns_css_selector ns_css_pseudo_pred \<Rightarrow> bool" where
  "nth_sat d m el pc \<longleftrightarrow>
     (let typed = (pc_kind pc = NS_CSS_PC_NTH_OF_TYPE \<or> pc_kind pc = NS_CSS_PC_NTH_LAST_OF_TYPE);
          sibs = (if pc_kind pc = NS_CSS_PC_NTH_LAST_CHILD \<or> pc_kind pc = NS_CSS_PC_NTH_LAST_OF_TYPE
                  then siblings_after d el else siblings_before d el);
          in_group = (\<lambda>x. case of_group pc of None \<Rightarrow> True | Some grp \<Rightarrow> list_ex (\<lambda>sub. m sub x) grp);
          counts = (\<lambda>x. is_element d x \<and>
            (\<not> typed \<or> (case node_name (nodes d el) of Some n \<Rightarrow> el_named d x n | None \<Rightarrow> False)) \<and> in_group x)
      in in_group el \<and> (\<exists>n::nat. int (1 + length (filter counts sibs)) = pc_a pc * int n + pc_b pc))"

definition pseudo_sat ::
    "'f css_env \<Rightarrow> dom \<Rightarrow> ref \<Rightarrow> ref option \<Rightarrow> (ns_css_selector \<Rightarrow> ref \<Rightarrow> bool) \<Rightarrow> ref \<Rightarrow> ns_css_selector ns_css_pseudo_pred \<Rightarrow> bool" where
  "pseudo_sat env d doc scope m el pc \<longleftrightarrow>
     (if pc_kind pc = NS_CSS_PC_VALID then is_valid env d doc el
      else if pc_kind pc = NS_CSS_PC_INVALID then ns_css_node_will_validate d el \<and> \<not> is_valid env d doc el
      else if pc_kind pc = NS_CSS_PC_DEFAULT then is_default d doc el
      else if pc_kind pc = NS_CSS_PC_INDETERMINATE then is_indeterminate d doc el
      else if pc_kind pc = NS_CSS_PC_LANG then lang_matches env d el (pc_arg pc)
      else if pc_kind pc \<in> {NS_CSS_PC_NTH_CHILD, NS_CSS_PC_NTH_LAST_CHILD, NS_CSS_PC_NTH_OF_TYPE, NS_CSS_PC_NTH_LAST_OF_TYPE} then
        nth_sat d m el pc
      else plain_pseudo env scope pc el d)"

lemma left_sat_cong [fundef_cong]:
  "ps = qs \<Longrightarrow> cur = cur' \<Longrightarrow> (\<And>c x. c \<in> snd ` set qs \<Longrightarrow> f c x = g c x) \<Longrightarrow> left_sat d f ps cur = left_sat d g qs cur'"
proof (induction ps arbitrary: qs cur cur')
  case (Cons p rest)
  have m: "\<And>c x. c \<in> snd ` set (p # rest) \<Longrightarrow> f c x = g c x" using Cons.prems by blast
  have "left_sat d f rest x = left_sat d g rest x" for x by (intro Cons.IH [OF refl refl] m) simp
  then show ?case using Cons.prems(1,2) m [of "snd p"] by auto
qed auto

lemma selector_sat_cong [fundef_cong]:
  assumes "sel = sel'" "el = el'" "\<And>c x. c \<in> set (compounds sel') \<Longrightarrow> f c x = g c x"
  shows "selector_sat d f sel el = selector_sat d g sel' el'"
proof -
  have "left_sat d f (left_of_subject sel) el = left_sat d g (left_of_subject sel) el"
    using assms(1,3) left_of_subject_compounds [of sel] by (intro left_sat_cong) (simp, simp, blast)
  then show ?thesis using assms by (auto simp: selector_sat_def)
qed

lemma right_sat_cong:
  "(\<And>c x. c \<in> snd ` set ps \<Longrightarrow> f c x = g c x) \<Longrightarrow> right_sat k d f first base ps = right_sat k d g first base ps"
  "ps \<noteq> [] \<Longrightarrow> (\<And>c x. c \<in> snd ` set ps \<Longrightarrow> f c x = g c x) \<Longrightarrow> below_sat k d f base ps = below_sat k d g base ps"
proof (induction k arbitrary: first base ps)
  case (Suc k)
  {
    case 1
    show ?case
    proof (cases ps)
      case (Cons p rest)
      have "f (snd p) = g (snd p)" using 1 Cons by (intro ext) simp
      moreover have "right_sat k d f False x rest = right_sat k d g False x rest" for x using Suc(1) [of rest] 1 Cons by auto
      moreover have "below_sat k d f base ps = below_sat k d g base ps" using Suc(2) [of ps] 1 Cons by auto
      ultimately show ?thesis by (unfold Cons right_sat.simps) (simp only: Cons)
    qed simp
  next
    case 2
    have "f (snd (hd ps)) = g (snd (hd ps))" using 2 by (intro ext) (cases ps, auto)
    moreover have "right_sat k d f False x (tl ps) = right_sat k d g False x (tl ps)" for x
      using Suc(1) [of "tl ps"] 2 by (cases ps) auto
    moreover have "below_sat k d f x ps = below_sat k d g x ps" for x using Suc(2) [of ps] 2 by auto
    ultimately show ?case by (unfold below_sat.simps) (simp only:)
  }
qed simp_all

lemma has_sat_cong [fundef_cong]:
  assumes "rel = rel'" "a = a'" "\<And>c x. c \<in> set (compounds rel') \<Longrightarrow> f c x = g c x"
  shows "has_sat d f rel a = has_sat d g rel' a'"
proof -
  have "right_sat 512 d f True a (zip (combinators rel) (compounds rel)) = right_sat 512 d g True a (zip (combinators rel) (compounds rel))"
    by (rule right_sat_cong(1)) (use assms in \<open>auto dest: set_zip_rightD\<close>)
  then show ?thesis using assms(1,2) by (simp add: has_sat_def)
qed

lemma pseudo_sat_cong [fundef_cong]:
  assumes "el = el'" "pc = pc'" "\<And>grp sub x. of_group pc' = Some grp \<Longrightarrow> sub \<in> set grp \<Longrightarrow> m sub x = m' sub x"
  shows "pseudo_sat env d doc scope m el pc = pseudo_sat env d doc scope m' el' pc'"
proof -
  have "list_ex (\<lambda>sub. m sub x) grp = list_ex (\<lambda>sub. m' sub x) grp" if "of_group pc = Some grp" for grp x
    using that assms by (intro list_ex_cong) auto
  then have "nth_sat d m el pc = nth_sat d m' el pc" by (cases "of_group pc") (simp_all add: nth_sat_def)
  then show ?thesis using assms(1,2) by (simp only: pseudo_sat_def)
qed

function sat :: "'f css_env \<Rightarrow> dom \<Rightarrow> ref \<Rightarrow> ref option \<Rightarrow> simple \<Rightarrow> ref \<Rightarrow> bool" where
  "sat env d doc scope c el \<longleftrightarrow>
     head_matches c d el \<and>
     list_all (\<lambda>k. k \<in> set (class_tokens (nodes d el))) (classes c) \<and>
     list_all (\<lambda>p. list_ex (attr_hit p (html_doc d el)) (attrs (nodes d el))) (attr_preds c) \<and>
     list_all (pseudo_sat env d doc scope (\<lambda>sub x. selector_sat d (\<lambda>c' x'. sat env d doc scope c' x') sub x) el) (pseudos c) \<and>
     list_all (\<lambda>grp. list_ex (\<lambda>sub. selector_sat d (\<lambda>c' x'. sat env d doc scope c' x') sub el) grp) (matches_any c) \<and>
     list_all (\<lambda>grp. \<not> list_ex (\<lambda>sub. selector_sat d (\<lambda>c' x'. sat env d doc scope c' x') sub el) grp) (matches_none c) \<and>
     list_all (\<lambda>grp. list_ex (\<lambda>rel. has_sat d (\<lambda>c' x'. sat env d doc (Some el) c' x') rel el) grp) (has_groups c)"
  by pat_completeness auto
termination
proof (relation "measure (\<lambda>(env, d, doc, scope, c, el). size_ns_css_simple size c)")
qed (auto intro!: size_inner simp: inner_def intro: in_arguments)

declare sat.simps [simp del] match_simple.simps [simp del]


section \<open>Attributes and counts\<close>

text \<open>The filter bits of a predicate are those the parser sets; attributes of HTML elements are in lower case.\<close>

definition pred_ok :: "ns_css_attr_pred \<Rightarrow> bool" where
  "pred_ok p \<longleftrightarrow> name_bit p = 0 \<or>
     (\<not> ap_namespace_any p \<and> ns_attr_normalize_namespace (ap_namespace_uri p) = None \<and>
      name_bit p = or (ns_attr_name_bloom_bit (ap_name p)) (ns_attr_name_bloom_bit (g_ascii_strdown (ap_name p))))"

definition lower_attrs :: "dom \<Rightarrow> bool" where
  "lower_attrs d \<longleftrightarrow> (\<forall>r. html_doc d r \<longrightarrow>
     list_all (\<lambda>a. ns_attr_normalize_namespace (namespace_uri a) = None \<longrightarrow> ns_str_is_ascii_lower (attr_name a)) (attrs (nodes d r)))"

inductive well_made :: "simple \<Rightarrow> bool" where
  "(\<And>p. p \<in> set (attr_preds c) \<Longrightarrow> pred_ok p) \<Longrightarrow> (\<And>c'. c' \<in> inner c \<Longrightarrow> well_made c') \<Longrightarrow> well_made c"

inductive_cases well_made_cases: "well_made c"

definition name_slot :: "string \<Rightarrow> nat" where
  "name_slot n = unat (and (fnv1a 2166136261 n) 63)"

lemma name_slot_bit: "bit (ns_attr_name_bloom_bit n) (name_slot n)"
proof -
  have "and (fnv1a 2166136261 n) 63 \<le> (63 :: 32 word)" by (rule word_and_le1)
  then have "name_slot n \<le> unat (63 :: 32 word)" unfolding name_slot_def by (rule word_le_nat_alt [THEN iffD1])
  then have "name_slot n < 64" by simp
  then show ?thesis by (simp add: ns_attr_name_bloom_bit_def name_slot_def [symmetric] bit_simps)
qed

lemma bloom_has: "a \<in> set as \<Longrightarrow> bit (bloom_of as) (name_slot (attr_name a))"
  by (induction as) (auto simp: bloom_of_def bit_or_iff name_slot_bit)

lemma bloom_finds:
  assumes hit: "attr_hit p (html_doc d el) a" "a \<in> set (attrs (nodes d el))" and p: "pred_ok p" and l: "lower_attrs d"
    and plain: "class_ok (nodes d el)"
  shows "name_bit p = 0 \<or> and (bloom_of (attrs (nodes d el))) (name_bit p) \<noteq> 0"
proof (cases "name_bit p = 0")
  case False
  then have n: "\<not> ap_namespace_any p" "ns_attr_normalize_namespace (ap_namespace_uri p) = None"
      "name_bit p = or (ns_attr_name_bloom_bit (ap_name p)) (ns_attr_name_bloom_bit (g_ascii_strdown (ap_name p)))"
    using p by (auto simp: pred_ok_def)
  then have none: "ns_attr_normalize_namespace (namespace_uri a) = None"
    using hit(1) by (simp add: attr_hit_def ns_attr_namespace_equal_def)
  have name: "attr_name a = ns_attr_local_name a"
    using plain hit(2) none by (auto simp: class_ok_def list_all_iff attr_plain_def plain_class_def)
  have "attr_name a = ap_name p \<or> attr_name a = g_ascii_strdown (ap_name p)"
  proof (cases "html_doc d el")
    case True
    then have "ns_str_is_ascii_lower (attr_name a)" using l hit(2) none by (auto simp: lower_attrs_def list_all_iff)
    moreover have "strcaseeq (attr_name a) (ap_name p)" using hit(1) True name by (simp add: attr_hit_def)
    ultimately show ?thesis using lower_case_eq by (metis strcaseeq_def)
  qed (use hit(1) name in \<open>simp add: attr_hit_def\<close>)
  then have "bit (name_bit p) (name_slot (attr_name a))" using n(3) name_slot_bit by (auto simp: bit_or_iff)
  with bloom_has [OF hit(2)] have "bit (and (bloom_of (attrs (nodes d el))) (name_bit p)) (name_slot (attr_name a))"
    by (simp add: bit_and_iff)
  then show ?thesis by auto
qed simp

lemma looks_attrs:
  assumes c: "\<And>p. p \<in> set (attr_preds c) \<Longrightarrow> pred_ok p" and l: "lower_attrs d" and plain: "class_ok (nodes d el)"
  shows "looks (sel_ok doc d G) (attrs_match c el)
    (list_all (\<lambda>p. list_ex (attr_hit p (html_doc d el)) (attrs (nodes d el))) (attr_preds c))"
proof (rule looksI)
  fix s :: "memo_key sel_state" assume s: "sel_ok doc d G s"
  from looksD [OF looks_bloom s] obtain s1 where s1: "bloom el s = (s1, bloom_of (attrs (nodes d el)))" "sel_ok doc d G s1" by blast
  note same = sel_okD(1) [OF s1(2)]
  have html: "html_doc (tree s1) el = html_doc d el" by (simp add: html_doc_def same_flags [OF same])
  have "(\<not> (name_bit p \<noteq> 0 \<and> and (bloom_of (attrs (nodes d el))) (name_bit p) = 0) \<and>
        list_ex (attr_hit p (html_doc d el)) (attrs (nodes d el))) =
      list_ex (attr_hit p (html_doc d el)) (attrs (nodes d el))" if "p \<in> set (attr_preds c)" for p
    using bloom_finds [OF _ _ c [OF that] l plain] by (auto simp: list_ex_iff)
  then have "list_all (\<lambda>p. \<not> (name_bit p \<noteq> 0 \<and> and (bloom_of (attrs (nodes d el))) (name_bit p) = 0) \<and>
        list_ex (attr_hit p (html_doc d el)) (attrs (nodes d el))) (attr_preds c) =
      list_all (\<lambda>p. list_ex (attr_hit p (html_doc d el)) (attrs (nodes d el))) (attr_preds c)"
    by (intro list_all_cong) simp_all
  then show "\<exists>s'. attrs_match c el s = (s', list_all (\<lambda>p. list_ex (attr_hit p (html_doc d el)) (attrs (nodes d el))) (attr_preds c)) \<and>
      sel_ok doc d G s'"
    using s s1 same_attrs [OF same, of el] html by (auto simp: attrs_match_def)
qed

text \<open>An index is \<^verbatim>\<open>a n + b\<close> for some \<^verbatim>\<open>n \<ge> 0\<close>, with the truncating division of C.\<close>

lemma nth_matches_iff: "nth_matches a b idx \<longleftrightarrow> (\<exists>n::nat. idx = a * int n + b)"
proof (cases "a = 0")
  case False
  have dvd: "(idx - b) smod a = 0 \<longleftrightarrow> a dvd idx - b"
  proof
    assume "(idx - b) smod a = 0"
    then have "idx - b = a * ((idx - b) sdiv a)" using mult_sdiv_smod_eq [of a "idx - b"] by simp
    then show "a dvd idx - b" by (rule dvdI)
  qed (simp add: signed_modulo_int_eq_modulo_int)
  have quot: "a dvd idx - b \<Longrightarrow> (idx - b) sdiv a = (idx - b) div a" by (simp add: signed_divide_int_eq_divide_int)
  show ?thesis
  proof
    assume "nth_matches a b idx"
    then have "a dvd idx - b" "(idx - b) div a \<ge> 0" using dvd quot False by (auto simp: nth_matches_def)
    then have "idx = a * int (nat ((idx - b) div a)) + b" by simp
    then show "\<exists>n::nat. idx = a * int n + b" by blast
  next
    assume "\<exists>n::nat. idx = a * int n + b"
    then obtain n :: nat where "idx = a * int n + b" by blast
    then have n: "idx - b = a * int n" by simp
    then have "a dvd idx - b" "(idx - b) div a = int n" using False by simp_all
    then show "nth_matches a b idx" using dvd quot False by (simp add: nth_matches_def)
  qed
qed (simp add: nth_matches_def)

lemma looks_count: "(\<And>x. x \<in> set xs \<Longrightarrow> looks I (f x) (v x)) \<Longrightarrow> looks I (count_in f xs) (length (filter v xs))"
proof (induction xs)
  case (Cons x xs)
  have x: "looks I (f x) (v x)" and xs: "looks I (count_in f xs) (length (filter v xs))" using Cons by simp_all
  show ?case
  proof (rule looksI)
    fix s assume "I s"
    with looksD [OF x] obtain s1 where "f x s = (s1, v x)" "I s1" by blast
    moreover from this(2) looksD [OF xs] obtain s2 where "count_in f xs s1 = (s2, length (filter v xs))" "I s2" by blast
    ultimately show "\<exists>s'. count_in f (x # xs) s = (s', length (filter v (x # xs))) \<and> I s'" by simp
  qed
qed (simp add: looks_def)


section \<open>The matcher gives the meaning\<close>

lemma looks_ask:
  assumes "\<And>e. same_tree d e \<Longrightarrow> P e = P d"
  shows "looks (sel_ok doc d G) (ask P) (P d)"
proof (rule looksI)
  fix s assume s: "sel_ok doc d G s"
  have "P (tree s) = P d" by (rule assms [OF sel_okD(1) [OF s]])
  then show "\<exists>s'. ask P s = (s', P d) \<and> sel_ok doc d G s'" using s by (simp only: ask_def) blast
qed

lemma looks_none: "looks I (\<lambda>s. (s, x)) x"
  by (simp add: looks_def)

lemma same_siblings_on:
  assumes "same_tree d e"
  shows "siblings_before e = siblings_before d" "siblings_after e = siblings_after d"
proof -
  have n: "n_nodes e = n_nodes d" using assms unfolding same_tree_def by blast
  have "back_list k (nodes e) c = back_list k (nodes d) c" for k c
    by (induction k "nodes d" c rule: back_list.induct) (simp_all add: same_attrs [OF assms])
  then show "siblings_before e = siblings_before d" "siblings_after e = siblings_after d"
    by (simp_all add: siblings_before_def siblings_after_def fun_eq_iff n same_attrs [OF assms] same_siblings [OF assms])
qed

lemma list_ex_Bex: "list_ex P xs \<longleftrightarrow> (\<exists>x. x \<in> set xs \<and> P x)"
  by (auto simp: list_ex_iff)

lemma looks_chain:
  assumes t: "dom_tree d K"
  shows "ns_node_root d cur = doc \<Longrightarrow> (\<And>c x. c \<in> snd ` set ps \<Longrightarrow> ns_node_root d x = doc \<Longrightarrow> looks (sel_ok doc d G) (ms c x) (f c x)) \<Longrightarrow>
    looks (sel_ok doc d G) (match_complex_chain ms ps cur) (left_sat d f ps cur)"
proof (induction ps arbitrary: cur)
  case Nil
  then show ?case by (simp add: looks_def)
next
  case (Cons p rest)
  let ?here = "\<lambda>x. both (ms (snd p) x) (match_complex_chain ms rest x)"
  have here: "looks (sel_ok doc d G) (?here x) (f (snd p) x \<and> left_sat d f rest x)" if "ns_node_root d x = doc" for x
    by (rule looks_both) (use Cons.IH [OF that] Cons.prems(2) that in auto)
  have any: "looks (sel_ok doc d G) (any_in ?here xs) (\<exists>x. x \<in> set xs \<and> f (snd p) x \<and> left_sat d f rest x)"
    if "\<And>x. x \<in> set xs \<Longrightarrow> ns_node_root d x = doc" for xs
    using looks_any [of xs "sel_ok doc d G" ?here "\<lambda>x. f (snd p) x \<and> left_sat d f rest x"] here that by (auto simp: list_ex_Bex)
  show ?case
  proof (rule looksI)
    fix s assume s: "sel_ok doc d G s"
    note same = sel_okD(1) [OF s]
    have v: "parent (nodes (tree s) cur) = parent (nodes d cur)" "siblings_before (tree s) cur = siblings_before d cur"
      "is_element (tree s) = is_element d" "ancestors_or_self (tree s) cur = ancestors_or_self d cur"
      "(\<lambda>x. kind (nodes (tree s) x) \<noteq> NS_NODE_DOCUMENT) = (\<lambda>x. kind (nodes d x) \<noteq> NS_NODE_DOCUMENT)"
      using same_attrs [OF same] same_siblings_on [OF same] same_view [OF same] by simp_all
    let ?up = "takeWhile (\<lambda>x. kind (nodes d x) \<noteq> NS_NODE_DOCUMENT) (tl (ancestors_or_self d cur))"
    have up: "looks (sel_ok doc d G) (any_in ?here ?up) (\<exists>x. x \<in> set ?up \<and> f (snd p) x \<and> left_sat d f rest x)"
      by (rule any) (metis Cons.prems(1) list.set_sel(2) reached_root(4) [OF t] set_takeWhileD tl_Nil empty_iff empty_set)
    show "\<exists>s'. match_complex_chain ms (p # rest) cur s = (s', left_sat d f (p # rest) cur) \<and> sel_ok doc d G s'"
    proof (cases "fst p")
      case NS_CSS_COMB_CHILD
      show ?thesis
      proof (cases "parent (nodes d cur)")
        case (Some x)
        then show ?thesis using looksD [OF here s] NS_CSS_COMB_CHILD Cons.prems(1) root_parent [OF t Some]
          by (simp add: v related_def Let_def)
      qed (use s NS_CSS_COMB_CHILD in \<open>simp add: v related_def Let_def\<close>)
    next
      case NS_CSS_COMB_ADJACENT
      show ?thesis
      proof (cases "List.find (is_element d) (siblings_before d cur)")
        case (Some x)
        then have "x \<in> set (siblings_before d cur)" by (auto simp: find_Some_iff)
        then show ?thesis using looksD [OF here s] NS_CSS_COMB_ADJACENT Some Cons.prems(1) reached_root(1) [OF t]
          by (simp add: v related_def Let_def)
      qed (use s NS_CSS_COMB_ADJACENT in \<open>simp add: v related_def Let_def\<close>)
    next
      case NS_CSS_COMB_SIBLING
      have "looks (sel_ok doc d G) (any_in ?here (filter (is_element d) (siblings_before d cur)))
          (\<exists>x. x \<in> set (filter (is_element d) (siblings_before d cur)) \<and> f (snd p) x \<and> left_sat d f rest x)"
        by (rule any) (use Cons.prems(1) reached_root(1) [OF t] in auto)
      from looksD [OF this s] show ?thesis using NS_CSS_COMB_SIBLING by (simp add: v related_def Let_def conj_assoc)
    qed (use looksD [OF up s] in \<open>simp_all add: v related_def Let_def\<close>)
  qed
qed

lemma looks_selector:
  assumes t: "dom_tree d K" and el: "ns_node_root d el = doc"
    and ms: "\<And>c x. c \<in> set (compounds sel) \<Longrightarrow> ns_node_root d x = doc \<Longrightarrow> looks (sel_ok doc d G) (ms c x) (f c x)"
  shows "looks (sel_ok doc d G) (selector_matches ms sel el) (selector_sat d f sel el)"
proof -
  have "looks (sel_ok doc d G) (match_complex_chain ms (left_of_subject sel) el) (left_sat d f (left_of_subject sel) el)"
    by (rule looks_chain [OF t el]) (use ms left_of_subject_compounds [of sel] in blast)
  then have "compounds sel \<noteq> [] \<Longrightarrow> looks (sel_ok doc d G) (both (ms (last (compounds sel)) el) (match_complex_chain ms (left_of_subject sel) el))
      (f (last (compounds sel)) el \<and> left_sat d f (left_of_subject sel) el)"
    by (intro looks_both) (use ms el in auto)
  then show ?thesis
    by (auto simp: selector_matches_def match_selector_structural_def selector_sat_def looks_none)
qed

lemma looks_relative:
  assumes t: "dom_tree d K"
  shows "ns_node_root d base = doc \<Longrightarrow> (\<And>c x. c \<in> snd ` set ps \<Longrightarrow> ns_node_root d x = doc \<Longrightarrow> looks (sel_ok doc d G) (ms c x) (f c x)) \<Longrightarrow>
      looks (sel_ok doc d G) (relative_chain_matches k ms first base ps) (right_sat k d f first base ps)"
    "ps \<noteq> [] \<Longrightarrow> ns_node_root d base = doc \<Longrightarrow> (\<And>c x. c \<in> snd ` set ps \<Longrightarrow> ns_node_root d x = doc \<Longrightarrow> looks (sel_ok doc d G) (ms c x) (f c x)) \<Longrightarrow>
      looks (sel_ok doc d G) (relative_descendant_matches k ms base ps) (below_sat k d f base ps)"
proof (induction k arbitrary: first base ps)
  case 0
  { case 1 then show ?case by (simp add: looks_def) next case 2 then show ?case by (simp add: looks_def) }
next
  case (Suc k)
  {
    case 1
    show ?case
    proof (cases ps)
      case Nil
      then show ?thesis by (simp add: looks_def)
    next
      case (Cons p rest)
      let ?cand = "\<lambda>x. both (ask (\<lambda>d. is_element d x)) (both (ms (snd p) x) (relative_chain_matches k ms False x rest))"
      let ?sat = "\<lambda>x. is_element d x \<and> f (snd p) x \<and> right_sat k d f False x rest"
      have tries: "looks (sel_ok doc d G) (?cand x) (?sat x)" if "ns_node_root d x = doc" for x
        by (intro looks_both looks_ask) (use same_view(1) Suc(1) [of x rest] 1 Cons that in auto)
      have any: "looks (sel_ok doc d G) (any_in ?cand xs) (list_ex ?sat xs)"
        if "\<And>x. x \<in> set xs \<Longrightarrow> ns_node_root d x = doc" for xs by (rule looks_any) (rule tries, rule that)
      have below: "looks (sel_ok doc d G) (relative_descendant_matches k ms base ps) (below_sat k d f base ps)"
        by (rule Suc(2)) (use 1 Cons in auto)
      show ?thesis
      proof (rule looksI)
        fix s assume s: "sel_ok doc d G s"
        note same = sel_okD(1) [OF s]
        have v: "siblings_after (tree s) base = siblings_after d base" "is_element (tree s) = is_element d"
            "children (tree s) base = children d base"
          using same_siblings_on [OF same] same_view [OF same] by simp_all
        let ?goal = "\<exists>s'. relative_chain_matches (Suc k) ms first base ps s = (s', right_sat (Suc k) d f first base ps) \<and> sel_ok doc d G s'"
        have desc: "\<exists>s'. relative_descendant_matches k ms base (p # rest) s = (s', below_sat k d f base (p # rest)) \<and> sel_ok doc d G s'"
          using looksD [OF below s] Cons by simp
        show ?goal
        proof (cases "first \<and> (fst p = NS_CSS_COMB_NONE \<or> fst p = NS_CSS_COMB_DESCENDANT)")
          case True
          obtain s1 where s1: "(if has_simple_scope_pseudo (snd p) then ?cand base s else (s, False)) =
              (s1, has_simple_scope_pseudo (snd p) \<and> ?sat base)" "sel_ok doc d G s1"
          proof (cases "has_simple_scope_pseudo (snd p)")
            case has: True
            from looksD [OF tries [OF 1(1)] s] obtain s1 where "?cand base s = (s1, ?sat base)" "sel_ok doc d G s1" by blast
            then show ?thesis using has by (intro that [of s1]) simp_all
          qed (use s in \<open>intro that [of s], simp_all\<close>)
          show ?thesis
          proof (cases "has_simple_scope_pseudo (snd p) \<and> ?sat base")
            case hit: True
            then show ?thesis using True s1 Cons by (simp add: Let_def)
          next
            case False
            then have b: "(has_simple_scope_pseudo (snd p) \<and> ?sat base) = False" by blast
            have "relative_chain_matches (Suc k) ms first base ps s = relative_descendant_matches k ms base ps s1"
              "right_sat (Suc k) d f first base ps = below_sat k d f base ps"
              using True s1(1) [unfolded b] Cons False by (simp add: Let_def, auto simp: Let_def)
            then show ?thesis using looksD [OF below s1(2)] by simp
          qed
        next
          case False
          have kids: "looks (sel_ok doc d G) (any_in ?cand (children d base)) (list_ex ?sat (children d base))"
            by (rule any) (use 1(1) reached_root(3) [OF t] in auto)
          have sibs: "looks (sel_ok doc d G) (any_in ?cand (filter (is_element d) (siblings_after d base)))
               (list_ex ?sat (filter (is_element d) (siblings_after d base)))"
            by (rule any) (use 1(1) reached_root(2) [OF t] in auto)
          show ?thesis
          proof (cases "fst p")
            case NS_CSS_COMB_CHILD
            then show ?thesis using looksD [OF kids s] Cons by (simp add: v Let_def)
          next
            case NS_CSS_COMB_ADJACENT
            show ?thesis
            proof (cases "List.find (is_element d) (siblings_after d base)")
              case (Some x)
              then have "ns_node_root d x = doc" using 1(1) reached_root(2) [OF t] by (auto simp: find_Some_iff)
              from looksD [OF tries [OF this] s] show ?thesis using NS_CSS_COMB_ADJACENT Some Cons by (simp add: v Let_def)
            qed (use s NS_CSS_COMB_ADJACENT Cons in \<open>simp add: v Let_def\<close>)
          next
            case NS_CSS_COMB_SIBLING
            then show ?thesis using looksD [OF sibs s] Cons by (simp add: v Let_def)
          qed (use False desc Cons in \<open>simp_all add: Let_def\<close>)
        qed
      qed
    qed
  next
    case 2
    let ?step = "\<lambda>c s. if \<not> is_element (tree s) c then (s, False)
       else case both (ms (snd (hd ps)) c) (relative_chain_matches k ms False c (tl ps)) s of
         (s, True) \<Rightarrow> (s, True) | (s, False) \<Rightarrow> relative_descendant_matches k ms c ps s"
    let ?v = "\<lambda>c. is_element d c \<and> ((f (snd (hd ps)) c \<and> right_sat k d f False c (tl ps)) \<or> below_sat k d f c ps)"
    have step: "looks (sel_ok doc d G) (?step c) (?v c)" if c: "c \<in> set (children d base)" for c
    proof (rule looksI)
      fix s assume s: "sel_ok doc d G s"
      have root: "ns_node_root d c = doc" using c 2(2) reached_root(3) [OF t] by auto
      have kind: "kind (nodes (tree s) c) = kind (nodes d c)" using same_view(1) [OF sel_okD(1) [OF s]] .
      have "looks (sel_ok doc d G) (both (ms (snd (hd ps)) c) (relative_chain_matches k ms False c (tl ps)))
          (f (snd (hd ps)) c \<and> right_sat k d f False c (tl ps))"
        by (intro looks_both) (use Suc(1) [of c "tl ps"] 2 root in \<open>cases ps; auto\<close>)+
      from looksD [OF this s] obtain s1 where
        s1: "both (ms (snd (hd ps)) c) (relative_chain_matches k ms False c (tl ps)) s = (s1, f (snd (hd ps)) c \<and> right_sat k d f False c (tl ps))"
          "sel_ok doc d G s1" by blast
      have "looks (sel_ok doc d G) (relative_descendant_matches k ms c ps) (below_sat k d f c ps)"
        by (rule Suc(2)) (use 2 root in auto)
      from looksD [OF this s1(2)] s1 s kind show "\<exists>s'. ?step c s = (s', ?v c) \<and> sel_ok doc d G s'"
        by (cases "f (snd (hd ps)) c \<and> right_sat k d f False c (tl ps)") auto
    qed
    show ?case
    proof (rule looksI)
      fix s assume s: "sel_ok doc d G s"
      have "looks (sel_ok doc d G) (any_in ?step (children d base)) (list_ex ?v (children d base))" by (rule looks_any) (rule step)
      from looksD [OF this s] show "\<exists>s'. relative_descendant_matches (Suc k) ms base ps s = (s', below_sat (Suc k) d f base ps) \<and> sel_ok doc d G s'"
        by (simp add: same_view(6) [OF sel_okD(1) [OF s]])
    qed
  }
qed


lemma same_plain_pseudo:
  assumes "same_tree d e"
  shows "plain_pseudo env scope pc el e = plain_pseudo env scope pc el d"
proof -
  have p: "parent (nodes e r) = parent (nodes d r)" for r using same_attrs [OF assms] by simp
  have h: "heading_level e = heading_level d" by (intro ext) (unfold heading_level_def same_view [OF assms], rule refl)
  show ?thesis
    by (unfold plain_pseudo_def same_view [OF assms] same_controls [OF assms] same_control_preds [OF assms]
        same_links [OF assms] same_siblings_on [OF assms] same_flags [OF assms] p h, rule refl)
qed

lemma looks_nth:
  assumes t: "dom_tree d K" and el: "ns_node_root d el = doc"
    and m: "\<And>grp sub x. of_group pc = Some grp \<Longrightarrow> sub \<in> set grp \<Longrightarrow> ns_node_root d x = doc \<Longrightarrow> looks (sel_ok doc d G) (m sub x) (v sub x)"
    and k: "pc_kind pc \<in> {NS_CSS_PC_NTH_CHILD, NS_CSS_PC_NTH_LAST_CHILD, NS_CSS_PC_NTH_OF_TYPE, NS_CSS_PC_NTH_LAST_OF_TYPE}"
  shows "looks (sel_ok doc d G) (pseudo_matches env scope m el pc) (nth_sat d v el pc)"
proof (rule looksI)
  fix s assume s: "sel_ok doc d G s"
  note same = sel_okD(1) [OF s]
  let ?typed = "pc_kind pc = NS_CSS_PC_NTH_OF_TYPE \<or> pc_kind pc = NS_CSS_PC_NTH_LAST_OF_TYPE"
  let ?sibs = "if pc_kind pc = NS_CSS_PC_NTH_LAST_CHILD \<or> pc_kind pc = NS_CSS_PC_NTH_LAST_OF_TYPE
      then siblings_after d el else siblings_before d el"
  let ?c = "\<lambda>x. is_element d x \<and> (\<not> ?typed \<or> (case node_name (nodes d el) of Some n \<Rightarrow> el_named d x n | None \<Rightarrow> False))"
  let ?n = "length (filter (\<lambda>x. ?c x \<and> (case of_group pc of None \<Rightarrow> True | Some grp \<Rightarrow> list_ex (\<lambda>sub. v sub x) grp)) ?sibs)"
  let ?in = "case of_group pc of None \<Rightarrow> True | Some grp \<Rightarrow> list_ex (\<lambda>sub. v sub el) grp"
  have count: "\<exists>s'. ns_css_sibling_counts_for_nth m el pc s = (s', if ?in then Some (1 + ?n) else None) \<and> sel_ok doc d G s'"
  proof (cases "of_group pc")
    case None
    then show ?thesis using s
      by (unfold ns_css_sibling_counts_for_nth_def same_siblings_on [OF same] same_view [OF same] Let_def) simp
  next
    case (Some grp)
    have in_grp: "looks (sel_ok doc d G) (any_in (\<lambda>sub. m sub x) grp) (list_ex (\<lambda>sub. v sub x) grp)" if "ns_node_root d x = doc" for x
      by (rule looks_any) (rule m [OF Some _ that])
    have "looks (sel_ok doc d G) (count_in (\<lambda>x. any_in (\<lambda>sub. m sub x) grp) (filter ?c ?sibs))
        (length (filter (\<lambda>x. list_ex (\<lambda>sub. v sub x) grp) (filter ?c ?sibs)))"
      by (rule looks_count, rule in_grp) (use reached_root(1,2) [OF t, of _ el] el in \<open>auto split: if_splits\<close>)
    from looksD [OF this s] obtain s1 where
      s1: "count_in (\<lambda>x. any_in (\<lambda>sub. m sub x) grp) (filter ?c ?sibs) s = (s1, ?n)" "sel_ok doc d G s1"
      using Some by (auto simp: conj_commute)
    from looksD [OF in_grp [OF el] s1(2)] obtain s2 where
      "any_in (\<lambda>sub. m sub el) grp s1 = (s2, list_ex (\<lambda>sub. v sub el) grp)" "sel_ok doc d G s2" by blast
    then show ?thesis using s1(1) Some
      by (unfold ns_css_sibling_counts_for_nth_def same_siblings_on [OF same] same_view [OF same] Let_def) simp
  qed
  then obtain s' where s': "ns_css_sibling_counts_for_nth m el pc s = (s', if ?in then Some (1 + ?n) else None)" "sel_ok doc d G s'" by blast
  have "nth_sat d v el pc \<longleftrightarrow> ?in \<and> nth_matches (pc_a pc) (pc_b pc) (int (1 + ?n))"
    by (simp only: nth_sat_def nth_matches_iff Let_def conj_assoc)
  moreover have "pc_kind pc \<notin> {NS_CSS_PC_VALID, NS_CSS_PC_INVALID, NS_CSS_PC_DEFAULT, NS_CSS_PC_INDETERMINATE, NS_CSS_PC_LANG}"
    using k by auto
  ultimately show "\<exists>s'. pseudo_matches env scope m el pc s = (s', nth_sat d v el pc) \<and> sel_ok doc d G s'"
    using k s' by (cases ?in) (simp_all add: pseudo_matches_def)
qed

lemma looks_pseudo:
  assumes t: "dom_tree d K" and el: "ns_node_root d el = doc"
    and m: "\<And>grp sub x. of_group pc = Some grp \<Longrightarrow> sub \<in> set grp \<Longrightarrow> ns_node_root d x = doc \<Longrightarrow> looks (sel_ok doc d G) (m sub x) (v sub x)"
  shows "looks (sel_ok doc d G) (pseudo_matches env scope m el pc) (pseudo_sat env d doc scope v el pc)"
proof (rule looksI)
  fix s assume s: "sel_ok doc d G s"
  note same = sel_okD(1) [OF s]
  note pm = pseudo_matches_def pseudo_sat_def same_control_preds(9) [OF same]
  let ?goal = "\<exists>s'. pseudo_matches env scope m el pc s = (s', pseudo_sat env d doc scope v el pc) \<and> sel_ok doc d G s'"
  obtain s1 where valid: "ns_css_control_is_valid env el s = (s1, is_valid env d doc el)" "sel_ok doc d G s1"
    using looksD [OF looks_valid [OF el] s] by blast
  show ?goal
  proof (cases "pc_kind pc \<in> {NS_CSS_PC_NTH_CHILD, NS_CSS_PC_NTH_LAST_CHILD, NS_CSS_PC_NTH_OF_TYPE, NS_CSS_PC_NTH_LAST_OF_TYPE}")
    case True
    then have "pseudo_sat env d doc scope v el pc = nth_sat d v el pc" by (auto simp: pseudo_sat_def)
    moreover have "looks (sel_ok doc d G) (pseudo_matches env scope m el pc) (nth_sat d v el pc)"
      by (rule looks_nth [OF t el _ True]) (rule m)
    ultimately show ?thesis using looksD s by fastforce
  next
    case False
    consider "pc_kind pc = NS_CSS_PC_VALID" | "pc_kind pc = NS_CSS_PC_INVALID" | "pc_kind pc = NS_CSS_PC_DEFAULT"
      | "pc_kind pc = NS_CSS_PC_INDETERMINATE" | "pc_kind pc = NS_CSS_PC_LANG"
      | "pc_kind pc \<notin> {NS_CSS_PC_VALID, NS_CSS_PC_INVALID, NS_CSS_PC_DEFAULT, NS_CSS_PC_INDETERMINATE, NS_CSS_PC_LANG}" by blast
    then show ?thesis
    proof cases
      case 1
      then show ?thesis using valid s by (cases "ns_css_node_will_validate d el") (simp_all add: pm, auto simp: is_valid_def)
    next
      case 2
      then show ?thesis using valid s by (cases "ns_css_node_will_validate d el") (simp_all add: pm)
    next
      case 3
      then show ?thesis using looksD [OF looks_default [OF el] s] by (simp add: pm)
    next
      case 4
      then show ?thesis using looksD [OF looks_indeterminate [OF el] s] by (simp add: pm)
    next
      case 5
      then show ?thesis using looksD [OF looks_lang s] by (simp add: pm)
    next
      case 6
      then have "pseudo_matches env scope m el pc s = (s, plain_pseudo env scope pc el d)"
        "pseudo_sat env d doc scope v el pc = plain_pseudo env scope pc el d"
        using False by (simp_all add: pm same_plain_pseudo [OF same])
      then show ?thesis using s by simp
    qed
  qed
qed

text \<open>The table of \<^verbatim>\<open>:has()\<close> holds what the search would find.\<close>

lemma looks_has_group:
  assumes t: "dom_tree d K" and el: "ns_node_root d el = doc"
    and ms: "\<And>sub c x. sub \<in> set grp \<Longrightarrow> c \<in> set (compounds sub) \<Longrightarrow> ns_node_root d x = doc \<Longrightarrow> looks (sel_ok doc d G) (ms c x) (f c x)"
    and G: "G grp el \<longleftrightarrow> list_ex (\<lambda>rel. has_sat d f rel el) grp"
  shows "looks (sel_ok doc d G) (has_group_matches ms grp el) (list_ex (\<lambda>rel. has_sat d f rel el) grp)"
proof (rule looksI)
  fix s assume s: "sel_ok doc d G s"
  let ?x = "list_ex (\<lambda>rel. has_sat d f rel el) grp"
  have "looks (sel_ok doc d G) (has_relative_matches ms rel el) (has_sat d f rel el)" if "rel \<in> set grp" for rel
  proof -
    have "looks (sel_ok doc d G) (relative_chain_matches 512 ms True el (zip (combinators rel) (compounds rel)))
        (right_sat 512 d f True el (zip (combinators rel) (compounds rel)))"
      by (rule looks_relative(1) [OF t el]) (use ms [OF that] in \<open>auto dest: set_zip_rightD\<close>)
    then show ?thesis by (auto simp: has_relative_matches_def has_sat_def looks_none)
  qed
  then have "looks (sel_ok doc d G) (any_in (\<lambda>rel. has_relative_matches ms rel el) grp) ?x" by (rule looks_any)
  from looksD [OF this s] obtain s1 where
    s1: "any_in (\<lambda>rel. has_relative_matches ms rel el) grp s = (s1, ?x)" "sel_ok doc d G s1" by blast
  show "\<exists>s'. has_group_matches ms grp el s = (s', ?x) \<and> sel_ok doc d G s'"
  proof (cases "case has_memo s of Some m \<Rightarrow> m (grp, el) | None \<Rightarrow> None")
    case None
    have "sel_ok doc d G (s1\<lparr>has_memo := Some (m((grp, el) \<mapsto> ?x))\<rparr>)" if "has_memo s1 = Some m" for m
      using s1(2) that G by (auto simp: sel_ok_def)
    then show ?thesis using s1 None by (cases "has_memo s1") (auto simp: has_group_matches_def)
  next
    case (Some b)
    then have "b = G grp el" using s by (auto simp: sel_ok_def split: option.splits)
    then show ?thesis using s Some G by (auto simp: has_group_matches_def)
  qed
qed

lemma looks_not: "looks I f b \<Longrightarrow> looks I (\<lambda>s. case f s of (s, x) \<Rightarrow> (s, \<not> x)) (\<not> b)"
  by (auto simp: looks_def split: prod.split)

lemma looks_match:
  assumes t: "dom_tree d K" and l: "lower_attrs d" and plain: "\<And>r. class_ok (nodes d r)"
    and G: "\<And>grp a. G grp a \<longleftrightarrow> list_ex (\<lambda>rel. has_sat d (sat env d doc (Some a)) rel a) grp"
  shows "well_made c \<Longrightarrow> ns_node_root d el = doc \<Longrightarrow> looks (sel_ok doc d G) (match_simple env scope c el) (sat env d doc scope c el)"
proof (induction c arbitrary: el scope rule: well_made.induct)
  case (1 c)
  have sub: "looks (sel_ok doc d G) (selector_matches (\<lambda>c' x'. match_simple env scope c' x') sub x)
      (selector_sat d (\<lambda>c' x'. sat env d doc scope c' x') sub x)"
    if "sub \<in> set_ns_css_simple c" "ns_node_root d x = doc" for sub x scope
    by (rule looks_selector [OF t that(2)]) (use 1(3) that(1) in \<open>auto simp: inner_def\<close>)
  have head: "looks (sel_ok doc d G) (ask (\<lambda>d. head_matches c d el)) (head_matches c d el)"
  proof (rule looks_ask)
    fix e assume "same_tree d e"
    note v = same_view [OF this] same_flags [OF this]
    show "head_matches c e el = head_matches c d el"
      by (unfold head_matches_def element_namespace_def html_doc_def local_part_def v, rule refl)
  qed
  have cls: "looks (sel_ok doc d G) (all_in (has_class el) (classes c)) (list_all (\<lambda>k. is_element d el \<and> k \<in> set (class_tokens (nodes d el))) (classes c))"
    by (rule looks_all) (rule looks_class)
  have ats: "looks (sel_ok doc d G) (attrs_match c el) (list_all (\<lambda>p. list_ex (attr_hit p (html_doc d el)) (attrs (nodes d el))) (attr_preds c))"
    by (rule looks_attrs) (use 1(1) l plain in auto)
  have psd: "looks (sel_ok doc d G) (all_in (pseudo_matches env scope (\<lambda>sub x. selector_matches (\<lambda>c' x'. match_simple env scope c' x') sub x) el) (pseudos c))
      (list_all (pseudo_sat env d doc scope (\<lambda>sub x. selector_sat d (\<lambda>c' x'. sat env d doc scope c' x') sub x) el) (pseudos c))"
    by (rule looks_all, rule looks_pseudo [OF t 1(4)], rule sub, rule arguments(1))
  have any: "looks (sel_ok doc d G) (any_in (\<lambda>sub. selector_matches (\<lambda>c' x'. match_simple env scope c' x') sub el) grp)
      (list_ex (\<lambda>sub. selector_sat d (\<lambda>c' x'. sat env d doc scope c' x') sub el) grp)" if "set grp \<subseteq> set_ns_css_simple c" for grp
    by (rule looks_any, rule sub) (use that 1(4) in auto)
  have mats: "looks (sel_ok doc d G) (all_in (\<lambda>grp. any_in (\<lambda>sub. selector_matches (\<lambda>c' x'. match_simple env scope c' x') sub el) grp) (matches_any c))
      (list_all (\<lambda>grp. list_ex (\<lambda>sub. selector_sat d (\<lambda>c' x'. sat env d doc scope c' x') sub el) grp) (matches_any c))"
    by (rule looks_all, rule any) (use arguments(2) in auto)
  have nots: "looks (sel_ok doc d G) (all_in (\<lambda>grp s. case any_in (\<lambda>sub. selector_matches (\<lambda>c' x'. match_simple env scope c' x') sub el) grp s of (s, b) \<Rightarrow> (s, \<not> b)) (matches_none c))
      (list_all (\<lambda>grp. \<not> list_ex (\<lambda>sub. selector_sat d (\<lambda>c' x'. sat env d doc scope c' x') sub el) grp) (matches_none c))"
    by (rule looks_all, rule looks_not, rule any) (use arguments(3) in auto)
  have hass: "looks (sel_ok doc d G) (all_in (\<lambda>grp. has_group_matches (\<lambda>c' x'. match_simple env (Some el) c' x') grp el) (has_groups c))
      (list_all (\<lambda>grp. list_ex (\<lambda>rel. has_sat d (\<lambda>c' x'. sat env d doc (Some el) c' x') rel el) grp) (has_groups c))"
    by (rule looks_all, rule looks_has_group [OF t 1(4)], rule 1(3)) (auto simp: inner_def G intro: in_arguments)
  have "looks (sel_ok doc d G) (match_simple env scope c el)
      (head_matches c d el \<and> list_all (\<lambda>k. is_element d el \<and> k \<in> set (class_tokens (nodes d el))) (classes c) \<and>
       list_all (\<lambda>p. list_ex (attr_hit p (html_doc d el)) (attrs (nodes d el))) (attr_preds c) \<and>
       list_all (pseudo_sat env d doc scope (\<lambda>sub x. selector_sat d (\<lambda>c' x'. sat env d doc scope c' x') sub x) el) (pseudos c) \<and>
       list_all (\<lambda>grp. list_ex (\<lambda>sub. selector_sat d (\<lambda>c' x'. sat env d doc scope c' x') sub el) grp) (matches_any c) \<and>
       list_all (\<lambda>grp. \<not> list_ex (\<lambda>sub. selector_sat d (\<lambda>c' x'. sat env d doc scope c' x') sub el) grp) (matches_none c) \<and>
       list_all (\<lambda>grp. list_ex (\<lambda>rel. has_sat d (\<lambda>c' x'. sat env d doc (Some el) c' x') rel el) grp) (has_groups c))"
    
    by (subst match_simple.simps)
      (rule looks_both [OF head looks_both [OF cls looks_both [OF ats looks_both [OF psd looks_both [OF mats looks_both [OF nots hass]]]]]])
  moreover have "is_element d el" if "head_matches c d el" using that by (simp add: head_matches_def)
  ultimately show ?case unfolding sat.simps [of env d doc scope c el] by (cases "head_matches c d el") simp_all
qed


section \<open>Questions in a row\<close>

definition match_selector :: "'f css_env \<Rightarrow> ref option \<Rightarrow> ns_css_selector \<Rightarrow> ref \<Rightarrow> test" where
  "match_selector env scope sel el = selector_matches (match_simple env scope) sel el"

text \<open>A cascade asks about many selectors and elements, from a state in which nothing was asked yet.\<close>

fun ask_all :: "'f css_env \<Rightarrow> (ref option \<times> ns_css_selector \<times> ref) list \<Rightarrow> memo_key sel_state \<Rightarrow> bool list" where
  "ask_all env [] s = []"
| "ask_all env ((scope, sel, el) # qs) s = (case match_selector env scope sel el s of (s, b) \<Rightarrow> b # ask_all env qs s)"

definition fresh :: "dom \<Rightarrow> memo_key sel_state" where
  "fresh d = \<lparr>tree = d, has_memo = Some Map.empty, pragma = None\<rparr>"

definition has_meaning :: "'f css_env \<Rightarrow> dom \<Rightarrow> ref \<Rightarrow> memo_key \<Rightarrow> ref \<Rightarrow> bool" where
  "has_meaning env d doc grp a = list_ex (\<lambda>rel. has_sat d (sat env d doc (Some a)) rel a) grp"

lemma looks_match_selector:
  assumes "NS_Form_Controls.doc_ok doc d" "caches_ok d" "lower_attrs d" "ns_node_root d el = doc" "\<And>c. c \<in> set (compounds sel) \<Longrightarrow> well_made c"
  shows "looks (sel_ok doc d (has_meaning env d doc)) (match_selector env scope sel el) (selector_sat d (sat env d doc scope) sel el)"
proof -
  obtain K where t: "dom_tree d K" using assms(1) by (auto simp: NS_Form_Controls.doc_ok_def)
  show ?thesis unfolding match_selector_def
    by (rule looks_selector [OF t assms(4)], rule looks_match [OF t assms(3)])
      (use assms(2,5) in \<open>auto simp: caches_ok_def has_meaning_def\<close>)
qed


section \<open>An example\<close>

text \<open>What the links of a node do not touch.\<close>

definition content :: "ns_node \<Rightarrow> ns_attr list \<times> string list option \<times> 64 word" where
  "content n = (attrs n, class_set n, attr_bloom n)"

lemma upd_content: "(\<And>n. content (f n) = content n) \<Longrightarrow> content (upd x f h r) = content (h r)"
  by (simp add: upd_def)

lemma content_links [simp]:
  "content (upd x (\<lambda>n. n\<lparr>parent := y\<rparr>) h r) = content (h r)" "content (upd x (\<lambda>n. n\<lparr>first_child := y\<rparr>) h r) = content (h r)"
  "content (upd x (\<lambda>n. n\<lparr>last_child := y\<rparr>) h r) = content (h r)" "content (upd x (\<lambda>n. n\<lparr>prev_sibling := y\<rparr>) h r) = content (h r)"
  "content (upd x (\<lambda>n. n\<lparr>next_sibling := y\<rparr>) h r) = content (h r)"
  by (rule upd_content, simp add: content_def)+

lemma content_next [simp]: "content (set_next x y h r) = content (h r)"
  unfolding set_next_def by (cases x) (simp_all only: option.case content_links)

lemma content_prev [simp]: "content (set_prev x y h r) = content (h r)"
  unfolding set_prev_def by (cases x) (simp_all only: option.case content_links)

lemma content_upd: "(\<And>n. content (f n) = content n) \<Longrightarrow> content (h r) = content (h' r) \<Longrightarrow> content (upd x f h r) = content (h' r)"
  by (simp add: upd_content)

lemma content_detach [simp]: "content (ns_node_detach x h r) = content (h r)"
proof (cases "parent (h x)")
  case None
  then show ?thesis by (simp add: ns_node_detach_def)
next
  case (Some p)
  let ?g = "if prev_sibling (h x) \<noteq> None then set_next (prev_sibling (h x)) (next_sibling (h x)) h
            else upd p (\<lambda>n. n\<lparr>first_child := next_sibling (h x)\<rparr>) h"
  let ?k = "if next_sibling (?g x) \<noteq> None then set_prev (next_sibling (?g x)) (prev_sibling (?g x)) ?g
            else upd p (\<lambda>n. n\<lparr>last_child := prev_sibling (?g x)\<rparr>) ?g"
  have g: "content (?g r) = content (h r)" by (simp only: if_distribR if_distrib [of content] content_next content_links if_cancel split: if_split)
  have "content (?k r) = content (?g r)" by (cases "next_sibling (?g x) \<noteq> None") (simp_all only: if_True if_False content_prev content_links not_True_eq_False not_False_eq_True)
  then show ?thesis unfolding ns_node_detach_def Some option.case Let_def by (subst content_upd [OF _ refl]) (simp_all only: g, simp add: content_def)
qed

lemma content_if: "content (f r) = z \<Longrightarrow> content (g r) = z \<Longrightarrow> content ((if b then f else g) r) = z"
  by simp

lemma content_append: "content (ns_node_append_child p c h r) = content (h r)"
  unfolding ns_node_append_child_def Let_def content_links by (rule content_if; simp only: content_next content_links content_detach)

lemma content_appends: "content (nodes (foldl link_step d (map (\<lambda>(p, c). Append_child p c) ops)) r) = content (nodes d r)"
proof (induction ops arbitrary: d)
  case (Cons pc ops)
  have "content (nodes (link_step d (Append_child p c)) r) = content (nodes d r)" for p c
    by (simp add: link_step_def content_append)
  then show ?case using Cons by (cases pc) simp
qed simp

definition clean :: "ns_node \<Rightarrow> bool" where
  "clean n \<longleftrightarrow> attrs_ok n \<and> class_ok n \<and> class_set n = None \<and> list_all (\<lambda>a. ns_str_is_ascii_lower (attr_name a)) (attrs n)"

lemma content_clean: "content m = content n \<Longrightarrow> clean m = clean n"
  by (simp add: content_def clean_def attrs_ok_def class_ok_def)

definition build :: "ns_node list \<Rightarrow> (ref \<times> ref) list \<Rightarrow> dom" where
  "build ns ops = foldl link_step (store ns) (map (\<lambda>(p, c). Append_child p c) ops)"

lemma build_ok:
  assumes "list_all unlinked ns" "list_all clean ns" "0 < n_nodes (build ns ops)" "id_index (nodes (build ns ops) 0) = None"
  shows "NS_Form_Controls.doc_ok 0 (build ns ops)" "caches_ok (build ns ops)" "lower_attrs (build ns ops)"
proof -
  have "\<exists>K. dom_tree (build ns ops) K"
    using dom_links.run_refines [OF store_represents [OF assms(1)]] unfolding build_def dom_represents_def by blast
  then show "NS_Form_Controls.doc_ok 0 (build ns ops)" using assms(3,4) by (auto simp: NS_Form_Controls.doc_ok_def intro: no_index_exact)
  have "clean (ns_node_new NS_NODE_TEXT)" by code_simp
  then have "clean (nodes (store ns) r)" for r using assms(2) by (auto simp: store_def list_all_length)
  then have c: "clean (nodes (build ns ops) r)" for r using content_clean [OF content_appends [of "store ns" ops r]] by (simp add: build_def)
  then show "caches_ok (build ns ops)" by (simp add: caches_ok_def clean_def cache_ok_def)
  show "lower_attrs (build ns ops)" using c by (auto simp: lower_attrs_def clean_def list_all_iff)
qed


declare match_simple.simps [code del]

text \<open>With the state as an argument the search does not unfold further than it runs.\<close>

lemma match_simple_run [code]:
  "match_simple env scope c el s =
     both (ask (\<lambda>d. head_matches c d el))
     (both (all_in (has_class el) (classes c))
     (both (attrs_match c el)
     (both (all_in (pseudo_matches env scope (selector_matches (match_simple env scope)) el) (pseudos c))
     (both (all_in (\<lambda>grp. any_in (\<lambda>sub. selector_matches (match_simple env scope) sub el) grp) (matches_any c))
     (both (all_in (\<lambda>grp s. case any_in (\<lambda>sub. selector_matches (match_simple env scope) sub el) grp s of (s, b) \<Rightarrow> (s, \<not> b)) (matches_none c))
           (all_in (\<lambda>grp. has_group_matches (match_simple env (Some el)) grp el) (has_groups c))))))) s"
  by (simp only: match_simple.simps [of env scope c el])

definition sample_document :: dom where
  "sample_document = build
     [ns_node_new_document, el_with ''html'' [], el_with ''div'' [(''class'', ''a b''), (''lang'', ''en''), (''id'', ''top'')],
      el_with ''p'' [(''data-x'', ''one two'')], el_with ''p'' [(''class'', ''b'')], el_with ''ul'' [], el_with ''li'' [],
      el_with ''li'' [(''class'', ''k'')], el_with ''li'' []]
     [(0, 1), (1, 2), (2, 3), (2, 4), (2, 5), (5, 6), (5, 7), (5, 8)]"

lemma sample_document_ok: "NS_Form_Controls.doc_ok 0 sample_document" "caches_ok sample_document" "lower_attrs sample_document"
  unfolding sample_document_def by (rule build_ok; code_simp)+

definition compound_of :: "string option \<Rightarrow> string list \<Rightarrow> ns_css_attr_pred list \<Rightarrow> ns_css_selector ns_css_pseudo_pred list \<Rightarrow>
    ns_css_selector list list \<Rightarrow> ns_css_selector list list \<Rightarrow> simple" where
  "compound_of t cls ats ps no has = Simple t None None cls ats ps [] no has False True"

definition sample_selectors :: "ns_css_selector list" where
  "sample_selectors =
     (let li = compound_of (Some ''li'') [] [] [] [] []; li_k = compound_of (Some ''li'') [''k''] [] [] [] [];
          k = Selector [compound_of None [''k''] [] [] [] []] [NS_CSS_COMB_NONE] NS_CSS_PE_NONE 0 1 0;
          word = \<lparr>ap_name = ''data-x'', ap_namespace_uri = None, ap_op = NS_CSS_ATTR_WORD, ap_value = Some ''two'', ap_namespace_any = False,
            case_insensitive = False, case_sensitive = False, name_bit = 0\<rparr>
      in [Selector [compound_of None [''a''] [] [] [] [],
                    compound_of (Some ''p'') [] [] [Pseudo NS_CSS_PC_NTH_CHILD 2 1 None None] [] []]
            [NS_CSS_COMB_NONE, NS_CSS_COMB_CHILD] NS_CSS_PE_NONE 0 2 1,
          Selector [compound_of (Some ''div'') [] [] [Pseudo NS_CSS_PC_LANG 0 0 (Some ''en'') None] []
                      [[Selector [compound_of (Some ''ul'') [] [] [] [] [], li_k] [NS_CSS_COMB_CHILD, NS_CSS_COMB_DESCENDANT] NS_CSS_PE_NONE 0 1 2]]]
            [NS_CSS_COMB_NONE] NS_CSS_PE_NONE 0 1 3,
          Selector [compound_of (Some ''p'') [] [word] [] [] []] [NS_CSS_COMB_NONE] NS_CSS_PE_NONE 0 1 1,
          Selector [compound_of (Some ''li'') [] [] [] [[k]] [], li] [NS_CSS_COMB_NONE, NS_CSS_COMB_ADJACENT] NS_CSS_PE_NONE 0 1 2])"

definition sample_css_env :: "int css_env" where
  "sample_css_env = \<lparr>css_floating = int_floating, css_lxb = (\<lambda>_. None), css_resolve = (\<lambda>_ _. None), css_regex = (\<lambda>_. None),
     unichar_script = (\<lambda>_. SCRIPT_OTHER), unichar_isalpha = (\<lambda>c. 97 \<le> c \<and> c \<le> 122), hover_node = None, active_node = None,
     focus_node = None, active_modal = None, target_fragment = None, css_doc_base = None, css_doc_language = None,
     visited_urls = None, defined_elements = None\<rparr>"

text \<open>\<^verbatim>\<open>.a > p:nth-child(2n+1)\<close>, \<^verbatim>\<open>div:lang(en):has(> ul li.k)\<close>, \<^verbatim>\<open>p[data-x~=two]\<close> and \<^verbatim>\<open>li:not(.k) + li\<close>,
  each asked twice.\<close>

definition sample_questions :: "(ref option \<times> ns_css_selector \<times> ref) list" where
  "sample_questions = concat (map2 (\<lambda>sel els. map (\<lambda>el. (None, sel, el)) els) sample_selectors [[3, 4], [2, 5], [3, 4], [7, 8]])"

lemma compound_made:
  assumes "list_all (\<lambda>p. name_bit p = 0) ats" "list_all (\<lambda>pc. of_group pc = None) ps"
    and "list_all (list_all (\<lambda>sub. \<forall>c \<in> set (compounds sub). well_made c)) no"
    and "list_all (list_all (\<lambda>sub. \<forall>c \<in> set (compounds sub). well_made c)) has"
  shows "well_made (compound_of t cls ats ps no has)"
proof (rule well_made.intros)
  show "pred_ok p" if "p \<in> set (attr_preds (compound_of t cls ats ps no has))" for p
    using that assms(1) by (auto simp: compound_of_def pred_ok_def list_all_iff)
next
  fix c' assume "c' \<in> inner (compound_of t cls ats ps no has)"
  then obtain sub where sub: "sub \<in> set_ns_css_simple (compound_of t cls ats ps no has)" "c' \<in> set (compounds sub)"
    by (auto simp: inner_def)
  have none: "set_ns_css_pseudo_pred pc = {}" if "pc \<in> set ps" for pc
    using assms(2) that by (cases pc) (auto simp: list_all_iff)
  from sub(1) none have "sub \<in> \<Union>(set ` set no) \<or> sub \<in> \<Union>(set ` set has)" by (auto simp: compound_of_def)
  then show "well_made c'" using sub(2) assms(3,4) by (fastforce simp: list_all_iff)
qed

lemma sample_questions_made:
  "\<forall>(scope, sel, el) \<in> set sample_questions. ns_node_root sample_document el = 0 \<and> (\<forall>c \<in> set (compounds sel). well_made c)"
proof -
  have "list_all (\<lambda>el. ns_node_root sample_document el = 0) [2, 3, 4, 5, 7, 8]" by code_simp
  then show ?thesis by (simp add: sample_questions_def sample_selectors_def Let_def compound_made)
qed


section \<open>Where the answers are not those of the standards\<close>

text \<open>\<^verbatim>\<open>[a~=""]\<close> is to match nothing, but after white space at the end of a value the loop looks at one more word, the empty one.\<close>

lemma selector_empty_word:
  "ap_op p = NS_CSS_ATTR_WORD \<Longrightarrow> ap_value p = Some [] \<Longrightarrow> ns_css_attr_value_matches p ''x '' html \<and> \<not> ns_css_attr_value_matches p ''x'' html"
proof -
  have "ns_class_set_build ''x '' = [''x'']" "ns_class_set_build ''x'' = [''x'']" by code_simp+
  then show "ap_op p = NS_CSS_ATTR_WORD \<Longrightarrow> ap_value p = Some [] \<Longrightarrow> ?thesis"
    by (simp add: ns_css_attr_value_matches_def Let_def is_ws_def strcaseeq_def)
qed

text \<open>A required e-mail field in which something that is no address was typed: sending the form stops at it, but it is
  \<^verbatim>\<open>:valid\<close>, as long as the attribute holds an address.\<close>

definition typed_document :: dom where
  "typed_document = build
     [ns_node_new_document, el_with ''form'' [],
      el_with ''input'' [(''type'', ''email''), (''name'', ''e''), (''value'', ''a@b''), (''data-nd-value'', ''nobody'')]]
     [(0, 1), (1, 2)]"

lemma selector_valid_before_typing:
  "snd (ns_form_first_invalid sample_env 1 0 (Some 0) typed_document) = Some 2"
  "snd (ns_css_control_is_valid sample_css_env 2 (fresh typed_document))"
  by code_simp+

end
