(* ===== verification/Spec2Isabelle.thy ===== *)
theory Spec2Isabelle
  imports NS_Prelude NS_Interfaces NS_Freenet NS_Url NS_Csp NS_Css_Syntax NS_Eventsource NS_Watchdog NS_Datetime
    NS_Bookmarks NS_Safebrowsing NS_Net NS_Dom NS_Dom_Attr NS_Dom_Index
    NS_Cookies NS_Cache NS_Xml NS_Xml_Doc NS_Form_Controls NS_Forms NS_Nodectl NS_Selectors NS_Selector_Meaning
begin

text \<open>
  Northstar, a web browser for Freenet contracts: verification library.

  \<^bold>\<open>The program.\<close>  Northstar (\<^verbatim>\<open>src/\<close> of the repository, C) fetches a page, keeps its document tree, runs its scripts in
  QuickJS and lays it out and paints it with Cairo and Pango.  A \<^verbatim>\<open>freenet:\<close> address is turned into an address of the
  gateway of a local node (\<^verbatim>\<open>freenet.c\<close>); every address goes through the URL layer and the request policy
  (\<^verbatim>\<open>net.c\<close>: origins, HSTS, tracking parameters, slots per origin), the blocklist (\<^verbatim>\<open>safebrowsing.c\<close>) and the policies
  of the page (\<^verbatim>\<open>csp.c\<close>); what comes back is kept in the HTTP cache (\<^verbatim>\<open>cache.c\<close>) and the cookie files, and is parsed
  into the tree (\<^verbatim>\<open>dom.c\<close>, here by \<^verbatim>\<open>xml.c\<close>).  Event streams (\<^verbatim>\<open>eventsource.c\<close>) run beside the page, bookmarks are
  a file, and a supervising process (\<^verbatim>\<open>watchdog.c\<close>) restarts the browser when it fails.  Modelled are these deciding
  parts, as functions on byte strings, records and lists, one theory per component.

  \<^bold>\<open>Conventions.\<close>  A C string is a \<^typ>\<open>string\<close> of bytes without NUL, a pointer that may be null an option, a struct a
  record with the members of the struct, a machine integer a word where it wraps and an \<^typ>\<open>int\<close> with its bounds
  stated where it does not, a loop a recursion.  A pointer into a string is the rest of the string.  Freed memory is
  not modelled, except where a pointer into it is kept (the class cache).  Definitions have the names of the C functions.

  \<^bold>\<open>The theories.\<close>

  \<^item> \<^verbatim>\<open>NS_Prelude\<close>: the string functions of C and GLib that the sources call, and lemmas the components share.
    \<^verbatim>\<open>NS_Interfaces\<close>: the contracts as locales (canonical forms, codecs, policies where every part can refuse, parsers of
    streams, invariants of step functions, refinement of data), each interpreted on the model in the theory that provides it.
  \<^item> \<^verbatim>\<open>NS_Freenet\<close> (\<^verbatim>\<open>freenet.c\<close>): keys, canonical addresses, the mapping to the gateway and back, expansion of key prefixes,
    the gate in front of the node's control endpoint, rewriting of origins.  Canonical forms are idempotent, the gateway
    mapping has an inverse, prefixes are expanded only when unambiguous, and what the gate does and does not recognise.
  \<^item> \<^verbatim>\<open>NS_Url\<close> (\<^verbatim>\<open>net.c\<close>): origins, sites and referrers over the parts of an address.  The Lexbor URL parser is a parameter.
  \<^item> \<^verbatim>\<open>NS_Csp\<close> (\<^verbatim>\<open>csp.c\<close>): parsing and matching of policies.  Merging only restricts; wildcard hosts are proper subdomains.
  \<^item> \<^verbatim>\<open>NS_Css_Syntax\<close> (\<^verbatim>\<open>css_syntax.c\<close>): tokens and component values, with the loop that never ends on an escaped newline.
  \<^item> \<^verbatim>\<open>NS_Eventsource\<close> (\<^verbatim>\<open>eventsource.c\<close>): the parser of event streams and the queue between worker and page.
  \<^item> \<^verbatim>\<open>NS_Watchdog\<close> (\<^verbatim>\<open>watchdog.c\<close>): command lines, and the supervisor as a step function over its events.
  \<^item> \<^verbatim>\<open>NS_Datetime\<close> (\<^verbatim>\<open>datetime.c\<close>), \<^verbatim>\<open>NS_Bookmarks\<close> (\<^verbatim>\<open>bookmarks.c\<close>), \<^verbatim>\<open>NS_Safebrowsing\<close> (\<^verbatim>\<open>safebrowsing.c\<close>, \<^verbatim>\<open>i18n.c\<close>):
    calendar arithmetic, the bookmark file and its round trip, the blocklist by digests and the catalogue.
  \<^item> \<^verbatim>\<open>NS_Net\<close> (\<^verbatim>\<open>net.c\<close>): tracking parameters, upgrades to HTTPS from the HSTS file and its cache, the slots per origin.
  \<^item> \<^verbatim>\<open>NS_Dom\<close>, \<^verbatim>\<open>NS_Dom_Attr\<close>, \<^verbatim>\<open>NS_Dom_Index\<close> (\<^verbatim>\<open>dom.c\<close>, and the link handlers of \<^verbatim>\<open>js.c\<close>): nodes on a heap whose links refine
    lists of children; attributes with the cache of class tokens; searches and the indexes by id, class and tag.
  \<^item> \<^verbatim>\<open>NS_Cookies\<close> (\<^verbatim>\<open>net.c\<close>): what a script reads from and writes to the cookie files of a site.
  \<^item> \<^verbatim>\<open>NS_Cache\<close> (\<^verbatim>\<open>cache.c\<close>): keys, variants, dates and freshness, and every statement on the table, with its bodies and eviction.
  \<^item> \<^verbatim>\<open>NS_Xml\<close>, \<^verbatim>\<open>NS_Xml_Doc\<close> (\<^verbatim>\<open>xml.c\<close>): the XML parser; that it ends, reads what was written, and which documents it returns.
  \<^item> \<^verbatim>\<open>NS_Form_Controls\<close>, \<^verbatim>\<open>NS_Forms\<close> (\<^verbatim>\<open>dom.c\<close>, \<^verbatim>\<open>forms.c\<close>, \<^verbatim>\<open>net.c\<close>): the state of form controls, what a form sends and the first control
    that is invalid.  Looking up the owner of a control may repair the index of ids; \<^verbatim>\<open>reads\<close> says that nothing else changes.
    What is sent, read back, is the data set of the form.

  \<^item> \<^verbatim>\<open>NS_Nodectl\<close> (\<^verbatim>\<open>nodectl.c\<close>): the supervisor that runs the service command of the node, and the browser that asks it; the
    socket may cut the bytes between them anywhere, and the programs that are run are a parameter.

  \<^item> \<^verbatim>\<open>NS_Selector_State\<close>, \<^verbatim>\<open>NS_Selectors\<close>, \<^verbatim>\<open>NS_Selector_Meaning\<close> (\<^verbatim>\<open>css.c\<close>): what the pseudo-classes ask of the document, the
    data of selectors and \<^verbatim>\<open>match_simple\<close> with the searches for combinators and for \<^verbatim>\<open>:has()\<close>; every question may fill a cache.
    \<^verbatim>\<open>looks\<close> says that an answer does not depend on what is cached; with it, matching is \<^verbatim>\<open>sat\<close>, the meaning of a compound,
    for any sequence of questions.

  \<^bold>\<open>How they rest on each other.\<close>  The same codec contract carries bookmarks, dates and command lines; the contract of
  an invariant carries bookmarks, policies, attributes, the class cache, the cookie files, the HTTP cache, the event
  stream, the slots and the supervisor: a step keeps the invariant, so every sequence of steps does.  The links of the
  document are a refinement of lists of children (\<^verbatim>\<open>data_refinement\<close>), and the indexes and the XML parser use the nodes
  and attributes of the same record.

  \<^bold>\<open>Bounds and fuel.\<close>  Walks up the tree stop at 512 ancestors, as in the source, and walks down take the number of
  nodes as fuel, which a tree without cycles never uses up.  The component values of CSS get one more unit of fuel than
  there are bytes: every round consumes a byte unless a newline is escaped, where the program loops.  The XML parser
  takes twice the length and two units, since every call consumes a byte and an element takes two calls.  Other loops
  recurse on the rest of the input or on a list.

  \<^bold>\<open>What the theorems found.\<close>  Where the code does not do what it means to, the theorem states what it does: the gate
  that user information gets past, the class cache that goes stale, ids that are not found, the HTTP-only cookie that a
  script shadows, the cached response that is never used, the entities that double.

  \<^bold>\<open>Not modelled.\<close>  The bindings to QuickJS (\<^verbatim>\<open>js.c\<close>: calls of its C interface), the cascade and computed values
  (\<^verbatim>\<open>css.c\<close>), layout and painting (arithmetic on doubles over text measured by Pango), decoding of images and media, the
  HTML parser (Lexbor, a submodule), WebAssembly (vendored), cryptography and storage behind bindings (OpenSSL, SQLite),
  the main loop and process start, the sandbox (system calls).  Of the modelled files: the fetch loop (libcurl), relative
  resolution of addresses (Lexbor), opening and migrating databases, creation of processes, errors of the file system.
  Digests, host lookups, the clock and random numbers are parameters.
\<close>

end
